(* ===== verification/Delp_Prelude.thy ===== *)
theory Delp_Prelude
  imports Complex_Main "HOL-Library.Word"
begin

text \<open>
  Shared vocabulary of the development: the machine integer types of the Rust sources, the
  collections of rewrite rules the component theories fill, slices and big-endian byte
  conversions, exclusive-or sums over finite sets, and facts on lists and words that more than
  one component uses.
\<close>

unbundle bit_operations_syntax

declare push_bit_Suc [simp del]

type_synonym u8 = "8 word"
type_synonym u16 = "16 word"
type_synonym u32 = "32 word"
type_synonym u64 = "64 word"

text \<open>The Rust aliases \<open>SourceSymbolId\<close>, \<open>CodedSymbolId\<close>, \<open>ReceiverId\<close> and the
  byte string type.\<close>

type_synonym SourceSymbolId = u32
type_synonym CodedSymbolId = u32
type_synonym ReceiverId = u64
type_synonym bytes = "u8 list"

named_theorems gf_simps \<open>Galois field evaluation and algebra\<close>
named_theorems wire_simps \<open>byte layout of packets\<close>
named_theorems btree_simps \<open>ordered maps\<close>
named_theorems codec_defs \<open>definitions of the codec state machines\<close>

section \<open>Exclusive or\<close>

lemma xor_cancel_left [simp]: "a XOR (a XOR b) = (b :: 'a::len word)"
  by (simp flip: xor.assoc)

lemma xor_eq_zero_iff [simp]: "(a XOR b = 0) = (a = (b :: 'a::len word))"
  by (metis xor_cancel_left xor.right_neutral xor_self_eq)

lemma xor_right_cancel [simp]: "(a XOR c = b XOR c) = (a = (b :: 'a::len word))"
  by (metis xor.commute xor_cancel_left)

text \<open>Exclusive-or sums over finite sets: the \<open>comm_monoid_set\<close> of the library at
  exclusive or, with the lemmas \<open>xsum.insert\<close>, \<open>xsum.distrib\<close>, \<open>xsum.neutral\<close> and
  their kin.\<close>

interpretation xsum: comm_monoid_set "(XOR)" "0 :: u8"
  by unfold_locales

abbreviation xor_sum :: "('a \<Rightarrow> u8) \<Rightarrow> 'a set \<Rightarrow> u8" where
  "xor_sum \<equiv> xsum.F"

lemma xor_sum_single:
  assumes "finite A" "\<And>x. x \<in> A \<Longrightarrow> x \<noteq> k \<Longrightarrow> f x = 0" "k \<in> A"
  shows "xor_sum f A = f k"
proof -
  have "xor_sum f A = xor_sum (\<lambda>x. if x = k then f k else 0) A"
    by (rule xsum.cong) (use assms(2) in auto)
  also have "\<dots> = f k"
    using assms(1,3) by (simp add: xsum.delta)
  finally show ?thesis .
qed

section \<open>Bytes and nibbles\<close>

lemma nat_less_8_cases: "(i :: nat) < 8 \<Longrightarrow> i \<in> {0,1,2,3,4,5,6,7}"
  unfolding insert_iff empty_iff by arith

lemma nat_less_16_cases: "(i :: nat) < 16 \<Longrightarrow> i \<in> {0,1,2,3,4,5,6,7,8,9,10,11,12,13,14,15}"
  unfolding insert_iff empty_iff by arith

lemma u8_and_255 [simp]: "x AND 0xFF = x" for x :: u8
  by (rule bit_word_eqI) (auto dest!: nat_less_8_cases simp: bit_and_iff)

lemma u8_bit_ge [simp]: "8 \<le> n \<Longrightarrow> \<not> bit (x :: u8) n"
  using bit_imp_le_length [of x n] by auto

lemma ucast_u16_u8 [simp]: "ucast (ucast x :: u16) = x" for x :: u8
  by (rule bit_word_eqI) (simp add: bit_ucast_iff)

text \<open>Iterates at a numeral, for kernel evaluation.\<close>

lemma funpow_numeral: "(f ^^ numeral k) x = (f ^^ pred_numeral k) (f x)"
  by (simp only: numeral_eq_Suc funpow_Suc_right comp_apply)

lemma u8_nibbles: "x = (x AND 15) XOR push_bit 4 (drop_bit 4 x)" for x :: u8
proof (rule bit_word_eqI)
  fix i assume "i < LENGTH(8)"
  then have "i \<in> {0,1,2,3,4,5,6,7}" by (intro nat_less_8_cases) simp
  then show "bit x i = bit ((x AND 15) XOR push_bit 4 (drop_bit 4 x)) i"
    by (auto simp: bit_xor_iff bit_and_iff bit_push_bit_iff bit_drop_bit_eq)
qed

lemma u8_low_nibble_less [simp]: "x AND 15 < 16" for x :: u8
proof -
  have "x AND 15 \<le> 15" by (rule word_and_le1)
  then show ?thesis by (rule order.strict_trans1) simp
qed

lemma u8_and_15_eq_iff: "(x AND 15 = x) = (x < 16)" for x :: u8
proof -
  have "x AND 15 = take_bit 4 x"
    by (simp add: take_bit_eq_mask mask_eq_exp_minus_1)
  moreover have "(take_bit 4 x = x) = (x < 16)"
    by (simp add: word_unat_eq_iff unsigned_take_bit_eq take_bit_nat_eq_self_iff word_less_nat_alt)
  ultimately show ?thesis by simp
qed

lemma u8_and_15_idem [simp]: "x < 16 \<Longrightarrow> x AND 15 = x" for x :: u8
  by (simp add: u8_and_15_eq_iff)

lemma u8_high_nibble_less [simp]: "drop_bit 4 x < 16" for x :: u8
proof -
  have "unat x < 256" using unsigned_less[of x, where 'a = nat] by simp
  moreover have "unat (drop_bit 4 x) = unat x div 2 ^ 4"
    unfolding unat_drop_bit_eq by (rule drop_bit_eq_div)
  ultimately show ?thesis by (simp add: word_less_nat_alt)
qed

lemma u8_high_nibble_zero: "x < 16 \<Longrightarrow> drop_bit 4 x = 0" for x :: u8
proof -
  assume "x < 16"
  then have "unat x < 16" by (simp add: word_less_nat_alt)
  moreover have "unat (drop_bit 4 x) = unat x div 2 ^ 4"
    unfolding unat_drop_bit_eq by (rule drop_bit_eq_div)
  ultimately show ?thesis by (simp only: word_unat_eq_iff) simp
qed

lemma u8_less_16_unat: "(x < 16) = (unat x < 16)" for x :: u8
  by (simp add: word_less_nat_alt)

lemma u8_unat_less [simp]: "unat (x :: u8) < 256"
  using unsigned_less[of x, where 'a = nat] by simp

lemma u32_unat_less [simp]: "unat (x :: u32) < 4294967296"
  using unsigned_less[of x, where 'a = nat] by simp

lemma unat_succ: "p \<noteq> - 1 \<Longrightarrow> unat (p + 1) = Suc (unat p)" for p :: u32
  by (metis unatSuc add.commute add_eq_0_iff2 eq_neg_iff_add_eq_0)

lemma u8_xor_less_16: "x < 16 \<Longrightarrow> y < 16 \<Longrightarrow> x XOR y < 16" for x y :: u8
proof -
  assume a: "x < 16" "y < 16"
  have "(x XOR y) AND 15 = (x AND 15) XOR (y AND 15)"
    by (rule bit_word_eqI) (auto simp: bit_xor_iff bit_and_iff)
  with a show ?thesis by (simp flip: u8_and_15_eq_iff)
qed

lemma nibble_pair:
  fixes h l :: u8
  assumes "h < 16" "l < 16"
  shows "(push_bit 4 h OR l) AND 15 = l" "drop_bit 4 (push_bit 4 h OR l) = h"
proof -
  have bl: "bit l j = (bit l j \<and> bit (15::u8) j)" for j using assms(2) by (metis bit_and_iff u8_and_15_idem)
  have bh: "bit h j = (bit h j \<and> bit (15::u8) j)" for j using assms(1) by (metis bit_and_iff u8_and_15_idem)
  show "(push_bit 4 h OR l) AND 15 = l"
  proof (rule bit_word_eqI)
    fix i assume "i < LENGTH(8)"
    then have i: "i \<in> {0,1,2,3,4,5,6,7}" by (intro nat_less_8_cases) simp
    show "bit ((push_bit 4 h OR l) AND 15) i = bit l i"
      using i bl [of i] by (elim insertE emptyE) (simp_all add: bit_or_iff bit_and_iff bit_push_bit_iff)
  qed
  show "drop_bit 4 (push_bit 4 h OR l) = h"
  proof (rule bit_word_eqI)
    fix i assume "i < LENGTH(8)"
    then have i: "i \<in> {0,1,2,3,4,5,6,7}" by (intro nat_less_8_cases) simp
    show "bit (drop_bit 4 (push_bit 4 h OR l)) i = bit h i"
      using i bh [of i] bl [of "4 + i"]
      by (elim insertE emptyE) (simp_all add: bit_or_iff bit_drop_bit_eq bit_push_bit_iff)
  qed
qed

end
