(* ===== verification/Delp_Error.thy ===== *)
theory Delp_Error
  imports Delp_Prelude
begin

text \<open>
  The error type of \<^verbatim>\<open>src/error.rs\<close> and the outcome of a Rust call: a value, an error
  returned to the caller, or a panic (a failed assertion, a slice or an index out of range, an
  \<open>unwrap\<close> of nothing). Slices and indices are the checked operations of the standard library.
\<close>

datatype DelpError =
    InvalidSymbolSize nat
  | InvalidWindowCapacity
  | InvalidFecDenom
  | SymbolSizeMismatch nat nat
  | WindowFull nat
  | SourceIdExhausted
  | CodedIdExhausted u32
  | UnrecoverableGapError u32
  | BufferTooShort nat nat
  | UnsupportedVersion u8
  | UnknownPacketType u8
  | InvalidHeaderLength u8 nat
  | EncodingVectorOverflow u8
  | MalformedEncodingVector string
  | CoefficientFieldInconsistency
  | DivisionByZero

datatype 'a res = Ok 'a | Err DelpError | Panic

text \<open>Sequencing: the \<open>?\<close> operator hands an error on, a panic unwinds.\<close>

fun and_then :: "'a res \<Rightarrow> ('a \<Rightarrow> 'b res) \<Rightarrow> 'b res" where
  "and_then (Ok x) f = f x"
| "and_then (Err e) f = Err e"
| "and_then Panic f = Panic"

text \<open>A \<open>for\<close> loop over the elements of a sequence whose body may fail.\<close>

fun for_each :: "('s \<Rightarrow> 'a \<Rightarrow> 's res) \<Rightarrow> 's \<Rightarrow> 'a list \<Rightarrow> 's res" where
  "for_each f s [] = Ok s"
| "for_each f s (x # xs) = and_then (f s x) (\<lambda>s'. for_each f s' xs)"

definition slice :: "'a list \<Rightarrow> nat \<Rightarrow> nat \<Rightarrow> 'a list res" where
  "slice xs a b = (if a \<le> b \<and> b \<le> length xs then Ok (take (b - a) (drop a xs)) else Panic)"

definition slice_from :: "'a list \<Rightarrow> nat \<Rightarrow> 'a list res" where
  "slice_from xs a = (if a \<le> length xs then Ok (drop a xs) else Panic)"

definition index :: "'a list \<Rightarrow> nat \<Rightarrow> 'a res" where
  "index xs i = (if i < length xs then Ok (xs ! i) else Panic)"

text \<open>\<open>u32::to_be_bytes\<close> and \<open>u32::from_be_bytes\<close>.\<close>

definition u32_to_be_bytes :: "u32 \<Rightarrow> bytes" where
  "u32_to_be_bytes x =
     [ucast (drop_bit 24 x), ucast (drop_bit 16 x), ucast (drop_bit 8 x), ucast x]"

fun u32_from_be_bytes :: "bytes \<Rightarrow> u32 res" where
  "u32_from_be_bytes [a, b, c, d] =
     Ok (push_bit 24 (ucast a) OR push_bit 16 (ucast b) OR push_bit 8 (ucast c) OR ucast d)"
| "u32_from_be_bytes _ = Panic"

text \<open>\<open>u32::from_be_bytes(buf[a..a + 4].try_into().unwrap())\<close>\<close>

definition read_be32 :: "bytes \<Rightarrow> nat \<Rightarrow> u32 res" where
  "read_be32 buf a = and_then (slice buf a (a + 4)) u32_from_be_bytes"

section \<open>Sequencing and slices\<close>

lemma and_then_Ok_iff [simp]: "(and_then m f = Ok y) = (\<exists>x. m = Ok x \<and> f x = Ok y)"
  by (cases m) auto

lemma and_then_Ok_right [simp]: "and_then m Ok = m"
  by (cases m) auto

lemma and_then_assoc: "and_then (and_then m f) g = and_then m (\<lambda>x. and_then (f x) g)"
  by (cases m) auto

lemma and_then_not_Panic: "m \<noteq> Panic \<Longrightarrow> (\<And>x. m = Ok x \<Longrightarrow> f x \<noteq> Panic) \<Longrightarrow> and_then m f \<noteq> Panic"
  by (cases m) auto

lemma and_then_Panic_iff: "(and_then r f = Panic) = (r = Panic \<or> (\<exists>x. r = Ok x \<and> f x = Panic))"
  by (cases r) simp_all

lemma for_each_append: "for_each f s (xs @ ys) = and_then (for_each f s xs) (\<lambda>s'. for_each f s' ys)"
  by (induction xs arbitrary: s) (auto simp: and_then_assoc)

text \<open>A loop whose body never fails is a fold; a loop keeps what its body keeps.\<close>

lemma for_each_Ok_fold: "for_each (\<lambda>s x. Ok (f s x)) s xs = Ok (foldl f s xs)"
  by (induction xs arbitrary: s) auto

lemma for_each_invariant:
  assumes "for_each f s xs = Ok s'" "I s"
    and "\<And>s x t. I s \<Longrightarrow> x \<in> set xs \<Longrightarrow> f s x = Ok t \<Longrightarrow> I t"
  shows "I s'"
  using assms
proof (induction xs arbitrary: s)
  case (Cons x xs)
  from Cons.prems(1) obtain t where t: "f s x = Ok t" "for_each f t xs = Ok s'" by auto
  show ?case
  proof (rule Cons.IH [OF t(2)])
    show "I t" by (rule Cons.prems(3) [OF Cons.prems(2) _ t(1)]) simp
    show "I u" if "I s" "y \<in> set xs" "f s y = Ok u" for s y u
      by (rule Cons.prems(3) [OF that(1) _ that(3)]) (simp add: that(2))
  qed
qed simp

lemma for_each_total:
  assumes "I s" "\<And>s x. I s \<Longrightarrow> x \<in> set xs \<Longrightarrow> \<exists>t. f s x = Ok t \<and> I t"
  shows "\<exists>s'. for_each f s xs = Ok s' \<and> I s'"
  using assms
proof (induction xs arbitrary: s)
  case (Cons x xs)
  obtain t where t: "f s x = Ok t" "I t" using Cons.prems by (meson list.set_intros(1))
  have "\<exists>s'. for_each f t xs = Ok s' \<and> I s'"
    by (rule Cons.IH [OF t(2)]) (meson Cons.prems(2) list.set_intros(2))
  with t(1) show ?case by simp
qed simp

lemma slice_append [simp]:
  "slice (xs @ ys) 0 (length xs) = Ok xs"
  "a = length xs \<Longrightarrow> b = a + length ys \<Longrightarrow> slice (xs @ ys @ zs) a b = Ok ys"
  by (auto simp: slice_def)

lemma slice_from_append [simp]: "a = length xs \<Longrightarrow> slice_from (xs @ ys) a = Ok ys"
  by (simp add: slice_from_def)

lemma index_append [simp]: "a = length xs \<Longrightarrow> index (xs @ y # ys) a = Ok y"
  by (simp add: index_def nth_append)

lemma length_u32_to_be_bytes [simp]: "length (u32_to_be_bytes x) = 4"
  by (simp add: u32_to_be_bytes_def)

lemma u32_from_to_be_bytes [simp]: "u32_from_be_bytes (u32_to_be_bytes x) = Ok x"
proof -
  have "push_bit 24 (ucast (ucast (drop_bit 24 x) :: u8)) OR
      push_bit 16 (ucast (ucast (drop_bit 16 x) :: u8)) OR
      push_bit 8 (ucast (ucast (drop_bit 8 x) :: u8)) OR ucast (ucast x :: u8) = x" (is "?l = x")
  proof (rule bit_word_eqI)
    fix i assume "i < LENGTH(32)"
    then have "i < 8 \<or> 8 \<le> i \<and> i < 16 \<or> 16 \<le> i \<and> i < 24 \<or> 24 \<le> i \<and> i < 32" by auto
    then show "bit ?l i = bit x i"
      by (auto simp: bit_or_iff bit_push_bit_iff bit_ucast_iff bit_drop_bit_eq)
  qed
  then show ?thesis by (simp add: u32_to_be_bytes_def)
qed

lemma read_be32_append [simp]:
  "a = length xs \<Longrightarrow> read_be32 (xs @ u32_to_be_bytes v @ ys) a = Ok v"
  by (simp add: read_be32_def)

lemma read_be32_Ok: "a + 4 \<le> length buf \<Longrightarrow> \<exists>v. read_be32 buf a = Ok v"
proof -
  assume "a + 4 \<le> length buf"
  moreover have "length xs = 4 \<Longrightarrow> \<exists>v. u32_from_be_bytes xs = Ok v" for xs
    by (cases xs rule: u32_from_be_bytes.cases) auto
  ultimately show ?thesis by (simp add: read_be32_def slice_def)
qed

end
