(* ===== verification/Enc_Window.thy ===== *)
theory Enc_Window
  imports Delp_Error
begin

text \<open>
  \<^verbatim>\<open>src/codec/encoder/window.rs\<close>: the encoding window, a queue of symbols with ascending
  identifiers, and its refinement of a finite map from identifiers to payloads. The constant-time
  lookup of a contiguous window agrees with the linear search.
\<close>

record WindowSymbol =
  ws_id :: SourceSymbolId
  ws_data :: bytes

record EncodingWindow =
  win_symbols :: "WindowSymbol list"
  win_capacity :: nat
  next_id :: SourceSymbolId
  win_is_contiguous :: bool

definition EncodingWindow_new :: "nat \<Rightarrow> EncodingWindow" where
  "EncodingWindow_new capacity = \<lparr> win_symbols = [], win_capacity = capacity, next_id = 0, win_is_contiguous = True \<rparr>"

definition window_len :: "EncodingWindow \<Rightarrow> nat" where
  "window_len w = length (win_symbols w)"

definition window_is_empty :: "EncodingWindow \<Rightarrow> bool" where
  "window_is_empty w = (win_symbols w = [])"

definition is_full :: "EncodingWindow \<Rightarrow> bool" where
  "is_full w = (length (win_symbols w) \<ge> win_capacity w)"

definition first_id :: "EncodingWindow \<Rightarrow> SourceSymbolId option" where
  "first_id w = (case win_symbols w of [] \<Rightarrow> None | s # _ \<Rightarrow> Some (ws_id s))"

definition last_id :: "EncodingWindow \<Rightarrow> SourceSymbolId option" where
  "last_id w = (if win_symbols w = [] then None else Some (ws_id (last (win_symbols w))))"

definition id_slice :: "EncodingWindow \<Rightarrow> SourceSymbolId list" where
  "id_slice w = map ws_id (win_symbols w)"

definition window_push :: "EncodingWindow \<Rightarrow> bytes \<Rightarrow> EncodingWindow \<times> SourceSymbolId" where
  "window_push w data =
     (let sid = next_id w;
          w = (case last_id w of
                 Some l \<Rightarrow> if sid \<noteq> l + 1 then w\<lparr> win_is_contiguous := False \<rparr> else w
               | None \<Rightarrow> w)
      in (w\<lparr> win_symbols := win_symbols w @ [\<lparr> ws_id = sid, ws_data = data \<rparr>], next_id := next_id w + 1 \<rparr>, sid))"

definition evict_oldest :: "EncodingWindow \<Rightarrow> EncodingWindow" where
  "evict_oldest w = w\<lparr> win_symbols := tl (win_symbols w) \<rparr>"

text \<open>\<open>zip\<close> of the symbols with the symbols after the first.\<close>

definition check_contiguous :: "WindowSymbol list \<Rightarrow> bool" where
  "check_contiguous syms = list_all (\<lambda>(a, b). ws_id b = ws_id a + 1) (zip syms (drop 1 syms))"

definition remove_ids :: "EncodingWindow \<Rightarrow> SourceSymbolId list \<Rightarrow> EncodingWindow" where
  "remove_ids w ids =
     (if ids = [] then w
      else
        let before_len = length (win_symbols w);
            syms = filter (\<lambda>s. ws_id s \<notin> set ids) (win_symbols w);
            removed = before_len - length syms;
            w = w\<lparr> win_symbols := syms \<rparr>
        in if removed > 0 then w\<lparr> win_is_contiguous := check_contiguous syms \<rparr> else w)"

definition window_get :: "EncodingWindow \<Rightarrow> SourceSymbolId \<Rightarrow> bytes option" where
  "window_get w sid =
     (case win_symbols w of
        [] \<Rightarrow> None
      | s # _ \<Rightarrow>
          if win_is_contiguous w then
            let front = ws_id s in
            if sid < front then None
            else let idx = unat (sid - front)
                 in if idx < length (win_symbols w) then Some (ws_data (win_symbols w ! idx)) else None
          else map_option ws_data (find (\<lambda>s. ws_id s = sid) (win_symbols w)))"

section \<open>Invariant\<close>

text \<open>Identifiers ascend and stay below the next one, the contiguity flag is never wrong when set, and
  the capacity bounds the length.\<close>

definition window_ok :: "EncodingWindow \<Rightarrow> bool" where
  "window_ok w = (sorted_wrt (<) (id_slice w) \<and> (\<forall>i \<in> set (id_slice w). i < next_id w) \<and>
     (win_is_contiguous w \<longrightarrow> check_contiguous (win_symbols w)) \<and> length (win_symbols w) \<le> win_capacity w)"

text \<open>The abstract window: a finite map from identifiers to payloads.\<close>

fun symbol_map :: "WindowSymbol list \<Rightarrow> SourceSymbolId \<Rightarrow> bytes option" where
  "symbol_map [] i = None"
| "symbol_map (s # ss) i = (if ws_id s = i then Some (ws_data s) else symbol_map ss i)"

definition window_map :: "EncodingWindow \<Rightarrow> SourceSymbolId \<Rightarrow> bytes option" where
  "window_map w = symbol_map (win_symbols w)"

lemma check_contiguous_Cons: "check_contiguous (a # b # ss) = (ws_id b = ws_id a + 1 \<and> check_contiguous (b # ss))"
  by (simp add: check_contiguous_def)

lemma check_contiguous_simps [simp]: "check_contiguous []" "check_contiguous [a]"
  by (simp_all add: check_contiguous_def)

lemma check_contiguous_tl: "check_contiguous ss \<Longrightarrow> check_contiguous (tl ss)"
  by (cases ss; cases "tl ss") (auto simp: check_contiguous_Cons)

lemma check_contiguous_snoc:
  "ss \<noteq> [] \<Longrightarrow> check_contiguous ss \<Longrightarrow> ws_id s = ws_id (last ss) + 1 \<Longrightarrow> check_contiguous (ss @ [s])"
proof (induction ss)
  case (Cons a ss)
  then show ?case by (cases ss) (auto simp: check_contiguous_Cons)
qed simp

lemma check_contiguous_nth:
  "check_contiguous (s # ss) \<Longrightarrow> n < length (s # ss) \<Longrightarrow> ws_id ((s # ss) ! n) = ws_id s + of_nat n"
proof (induction ss arbitrary: s n)
  case (Cons t ss)
  show ?case
  proof (cases n)
    case (Suc m)
    with Cons.prems have "ws_id ((t # ss) ! m) = ws_id t + of_nat m"
      by (intro Cons.IH) (auto simp: check_contiguous_Cons)
    with Suc Cons.prems(1) show ?thesis by (simp add: check_contiguous_Cons)
  qed simp
qed simp

lemma window_ok_new: "window_ok (EncodingWindow_new n)"
  by (simp add: window_ok_def EncodingWindow_new_def id_slice_def)

lemma window_ok_evict: "window_ok w \<Longrightarrow> window_ok (evict_oldest w)"
  by (cases "win_symbols w") (auto simp: window_ok_def evict_oldest_def id_slice_def dest: check_contiguous_tl)

lemma window_ok_remove: "window_ok w \<Longrightarrow> window_ok (remove_ids w ids)"
proof -
  assume ok: "window_ok w"
  let ?P = "\<lambda>s. ws_id s \<notin> set ids"
  have len: "length (filter ?P (win_symbols w)) \<le> win_capacity w"
    using ok by (simp add: window_ok_def) (meson length_filter_le order_trans)
  have same: "filter ?P (win_symbols w) = win_symbols w" if "\<not> length (win_symbols w) - length (filter ?P (win_symbols w)) > 0"
    using that by (metis diff_is_0_eq filter_id_conv length_filter_less not_gr_zero linorder_not_less)
  show ?thesis
    using ok len same unfolding window_ok_def remove_ids_def Let_def id_slice_def
    by (auto simp: sorted_wrt_map sorted_wrt_filter)
qed

lemma window_ok_push:
  assumes "window_ok w" "\<not> is_full w" "next_id w \<noteq> - 1"
  shows "window_ok (fst (window_push w data))"
proof -
  have n: "i < next_id w + 1" if "i \<le> next_id w" for i
    using that assms(3) unat_succ [of "next_id w"] by (simp add: word_less_nat_alt word_le_nat_alt)
  have c: "check_contiguous (win_symbols w @ [\<lparr> ws_id = next_id w, ws_data = data \<rparr>])"
    if "win_is_contiguous w" "win_symbols w \<noteq> [] \<longrightarrow> next_id w = ws_id (last (win_symbols w)) + 1"
    using that assms(1) by (cases "win_symbols w = []") (auto simp: window_ok_def intro!: check_contiguous_snoc)
  show ?thesis
    using assms n c by (auto simp: window_ok_def window_push_def Let_def last_id_def id_slice_def is_full_def
        sorted_wrt_append less_imp_le split: if_splits)
qed

section \<open>Refinement of a finite map\<close>

lemma symbol_map_find: "symbol_map ss i = map_option ws_data (find (\<lambda>s. ws_id s = i) ss)"
  by (induction ss) auto

lemma symbol_map_None: "symbol_map ss i = None \<longleftrightarrow> i \<notin> ws_id ` set ss"
  by (induction ss) auto

lemma symbol_map_snoc: "symbol_map (ss @ [s]) i = (case symbol_map ss i of Some d \<Rightarrow> Some d | None \<Rightarrow> symbol_map [s] i)"
  by (induction ss) auto

lemma symbol_map_filter: "symbol_map (filter (\<lambda>s. ws_id s \<notin> A) ss) i = (if i \<in> A then None else symbol_map ss i)"
  by (induction ss) auto

lemma symbol_map_nth: "distinct (map ws_id ss) \<Longrightarrow> n < length ss \<Longrightarrow> symbol_map ss (ws_id (ss ! n)) = Some (ws_data (ss ! n))"
  by (induction ss arbitrary: n) (auto simp: nth_Cons split: nat.split)

lemma window_map_None: "window_map w i = None \<longleftrightarrow> i \<notin> set (id_slice w)"
  by (simp add: window_map_def id_slice_def symbol_map_None)

lemma window_get_map: "window_ok w \<Longrightarrow> window_get w i = window_map w i"
proof (cases "win_symbols w")
  case (Cons s ss)
  assume ok: "window_ok w"
  have sorted: "sorted_wrt (<) (id_slice w)" using ok by (simp add: window_ok_def)
  show ?thesis
  proof (cases "win_is_contiguous w")
    case True
    let ?syms = "win_symbols w"
    have id: "ws_id (?syms ! n) = ws_id s + of_nat n" if "n < length ?syms" for n
      using ok True that check_contiguous_nth [of s ss n] unfolding window_ok_def Cons by blast
    have front: "ws_id s \<le> j" if "j \<in> set (id_slice w)" for j
      using sorted that by (auto simp: id_slice_def Cons)
    have "distinct (id_slice w)" using sorted by (simp add: strict_sorted_iff)
    then have "length ?syms = card (set (id_slice w))" using distinct_card [of "id_slice w"] by (simp add: id_slice_def)
    also have "\<dots> \<le> card (UNIV :: u32 set)" by (rule card_mono) simp_all
    finally have small: "length ?syms \<le> 2 ^ 32" by (simp add: card_word)
    show ?thesis
    proof (cases "ws_id s \<le> i \<and> unat (i - ws_id s) < length ?syms")
      case in_range: True
      then have "ws_id (?syms ! unat (i - ws_id s)) = i" by (simp add: id)
      moreover have "distinct (map ws_id ?syms)" using \<open>distinct (id_slice w)\<close> by (simp add: id_slice_def)
      ultimately show ?thesis
        using symbol_map_nth [of ?syms "unat (i - ws_id s)"] in_range True
        by (auto simp: window_get_def window_map_def Cons Let_def)
    next
      case False
      have "i \<notin> set (id_slice w)"
      proof
        assume i: "i \<in> set (id_slice w)"
        then obtain n where n: "n < length ?syms" "i = ws_id (?syms ! n)" by (auto simp: id_slice_def in_set_conv_nth)
        then have "unat (i - ws_id s) = n" using id small by (simp add: unat_of_nat)
        with False n(1) front [OF i] show False by simp
      qed
      then have "window_map w i = None" by (simp add: window_map_None)
      moreover have "window_get w i = None" using False True by (auto simp: window_get_def Cons Let_def)
      ultimately show ?thesis by simp
    qed
  next
    case False
    then show ?thesis by (simp add: window_get_def Cons window_map_def symbol_map_find)
  qed
qed (simp add: window_get_def window_map_def)

lemma window_map_push:
  assumes "window_ok w"
  shows "window_map (fst (window_push w data)) = (window_map w)(next_id w \<mapsto> data)"
proof -
  have "symbol_map (win_symbols w) (next_id w) = None" using assms by (auto simp: window_ok_def id_slice_def symbol_map_None)
  moreover have "win_symbols (fst (window_push w data)) = win_symbols w @ [\<lparr> ws_id = next_id w, ws_data = data \<rparr>]"
    by (simp add: window_push_def Let_def split: option.split)
  ultimately show ?thesis by (auto simp: window_map_def symbol_map_snoc fun_eq_iff split: option.split)
qed

lemma window_map_remove: "window_map (remove_ids w ids) = window_map w |` (- set ids)"
  by (auto simp: window_map_def remove_ids_def Let_def restrict_map_def symbol_map_filter fun_eq_iff)

lemma window_map_evict:
  "window_ok w \<Longrightarrow> window_map (evict_oldest w) = (case first_id w of None \<Rightarrow> window_map w | Some i \<Rightarrow> (window_map w)(i := None))"
  by (cases "win_symbols w")
     (auto simp: window_map_def evict_oldest_def first_id_def window_ok_def id_slice_def fun_eq_iff symbol_map_None)

lemma window_push_id [simp]:
  "snd (window_push w data) = next_id w" "next_id (fst (window_push w data)) = next_id w + 1"
  "win_capacity (fst (window_push w data)) = win_capacity w"
  "id_slice (fst (window_push w data)) = id_slice w @ [next_id w]"
  by (simp_all add: window_push_def Let_def id_slice_def split: option.split)

lemma evict_frame [simp]:
  "next_id (evict_oldest w) = next_id w" "win_capacity (evict_oldest w) = win_capacity w"
  by (simp_all add: evict_oldest_def)

lemma remove_frame [simp]: "next_id (remove_ids w ids) = next_id w" "win_capacity (remove_ids w ids) = win_capacity w"
  by (simp_all add: remove_ids_def Let_def)

section \<open>Properties\<close>

text \<open>C24: the encoding window implements a finite map: lookup (by index when the window is contiguous, by
  search otherwise) is lookup in the map, a push binds the next identifier, eviction unbinds the oldest,
  removal unbinds the given identifiers, and every operation keeps the window invariant (a push as long as
  there is room and identifiers are left).\<close>

theorem window_refines_map:
  assumes "window_ok w"
  shows "window_get w = window_map w \<and>
    window_map (fst (window_push w data)) = (window_map w)(snd (window_push w data) \<mapsto> data) \<and>
    window_map (remove_ids w ids) = window_map w |` (- set ids) \<and>
    window_map (evict_oldest w) = (case first_id w of None \<Rightarrow> window_map w | Some i \<Rightarrow> (window_map w)(i := None)) \<and>
    (\<not> is_full w \<and> next_id w \<noteq> - 1 \<longrightarrow> window_ok (fst (window_push w data))) \<and>
    window_ok (remove_ids w ids) \<and> window_ok (evict_oldest w)"
  using window_get_map [OF assms] window_map_push [OF assms] window_map_remove window_map_evict [OF assms]
    window_ok_push [OF assms] window_ok_remove [OF assms] window_ok_evict [OF assms] by (simp add: fun_eq_iff)

theorem window_refines_map_witness:
  "window_get (fst (window_push (EncodingWindow_new 4) [7])) 0 = Some [7] \<and>
   window_ok (fst (window_push (EncodingWindow_new 4) [7]))"
proof -
  let ?w = "EncodingWindow_new 4"
  have "window_ok (fst (window_push ?w [7]))"
    using window_refines_map [OF window_ok_new, of 4 "[7]" "[]"] by (simp add: is_full_def EncodingWindow_new_def)
  with window_refines_map [OF this, of "[]" "[]"] window_refines_map [OF window_ok_new, of 4 "[7]" "[]"]
  show ?thesis by (simp add: EncodingWindow_new_def)
qed

end
