(* ===== verification/Bit_Io.thy ===== *)
theory Bit_Io
  imports Delp_Prelude
begin

text \<open>
  The bit-level writer and reader of \<^verbatim>\<open>src/wire/ev/id_storage.rs\<close>. Both are related to the
  sequence of bits they have written or still hold, most significant bit first; a value written
  with \<open>n\<close> bits is read back modulo \<open>2 ^ n\<close>.
\<close>

record BitWriter =
  w_buf :: bytes
  w_cur_byte :: u8
  w_bit_pos :: nat

definition BitWriter_new :: BitWriter where
  "BitWriter_new = \<lparr> w_buf = [], w_cur_byte = 0, w_bit_pos = 0 \<rparr>"

definition write_bit :: "u32 \<Rightarrow> BitWriter \<Rightarrow> nat \<Rightarrow> BitWriter" where
  "write_bit value w i =
     (let b = ucast (drop_bit i value AND 1) :: u8;
          cur = push_bit 1 (w_cur_byte w) OR b;
          pos = w_bit_pos w + 1
      in if pos = 8 then \<lparr> w_buf = w_buf w @ [cur], w_cur_byte = 0, w_bit_pos = 0 \<rparr>
         else w\<lparr> w_cur_byte := cur, w_bit_pos := pos \<rparr>)"

definition write_bits :: "BitWriter \<Rightarrow> u32 \<Rightarrow> nat \<Rightarrow> BitWriter" where
  "write_bits w value nbits = foldl (write_bit value) w (rev [0..<nbits])"

definition bw_finish :: "BitWriter \<Rightarrow> bytes" where
  "bw_finish w =
     (if w_bit_pos w > 0 then w_buf w @ [push_bit (8 - w_bit_pos w) (w_cur_byte w)] else w_buf w)"

record BitReader =
  r_buf :: bytes
  r_byte_i :: nat
  r_bit_pos :: nat

definition BitReader_new :: "bytes \<Rightarrow> BitReader" where
  "BitReader_new buf = \<lparr> r_buf = buf, r_byte_i = 0, r_bit_pos = 0 \<rparr>"

fun read_loop :: "nat \<Rightarrow> u32 \<Rightarrow> BitReader \<Rightarrow> u32 \<times> BitReader" where
  "read_loop 0 val r = (val, r)"
| "read_loop (Suc n) val r =
     (if r_byte_i r \<ge> length (r_buf r) then (val, r)
      else
        let b = drop_bit (7 - r_bit_pos r) (r_buf r ! r_byte_i r) AND 1;
            val = push_bit 1 val OR ucast b;
            pos = r_bit_pos r + 1
        in read_loop n val
             (if pos = 8 then r\<lparr> r_byte_i := r_byte_i r + 1, r_bit_pos := 0 \<rparr>
              else r\<lparr> r_bit_pos := pos \<rparr>))"

definition read_bits :: "BitReader \<Rightarrow> nat \<Rightarrow> u32 \<times> BitReader" where
  "read_bits r nbits = read_loop nbits 0 r"

definition bytes_consumed :: "BitReader \<Rightarrow> nat" where
  "bytes_consumed r = (if r_bit_pos r > 0 then r_byte_i r + 1 else r_byte_i r)"

definition remaining_bits :: "BitReader \<Rightarrow> nat" where
  "remaining_bits r = (length (r_buf r) - r_byte_i r) * 8 - r_bit_pos r"

section \<open>Bit sequences\<close>

definition word_bits :: "nat \<Rightarrow> 'a::len word \<Rightarrow> bool list" where
  "word_bits n v = map (bit v) (rev [0..<n])"

definition bytes_bits :: "bytes \<Rightarrow> bool list" where
  "bytes_bits bs = concat (map (word_bits 8) bs)"

definition written :: "BitWriter \<Rightarrow> bool list" where
  "written w = bytes_bits (w_buf w) @ word_bits (w_bit_pos w) (w_cur_byte w)"

definition reader_pos :: "BitReader \<Rightarrow> nat" where
  "reader_pos r = r_byte_i r * 8 + r_bit_pos r"

definition unread :: "BitReader \<Rightarrow> bool list" where
  "unread r = drop (reader_pos r) (bytes_bits (r_buf r))"

lemma length_word_bits [simp]: "length (word_bits n v) = n"
  by (simp add: word_bits_def)

lemma length_bytes_bits [simp]: "length (bytes_bits bs) = 8 * length bs"
  by (induction bs) (simp_all add: bytes_bits_def)

lemma bytes_bits_append [simp]: "bytes_bits (xs @ ys) = bytes_bits xs @ bytes_bits ys"
  by (simp add: bytes_bits_def)

lemma bytes_bits_simps [simp]: "bytes_bits [] = []" "bytes_bits (b # bs) = word_bits 8 b @ bytes_bits bs"
  by (simp_all add: bytes_bits_def)

lemma word_bits_Suc: "word_bits (Suc n) v = word_bits n (drop_bit 1 v) @ [bit v 0]"
proof -
  have "rev [0..<Suc n] = map Suc (rev [0..<n]) @ [0]"
    by (simp add: upt_conv_Cons map_Suc_upt rev_map [symmetric] del: upt_Suc)
  then show ?thesis by (simp add: word_bits_def bit_drop_bit_eq del: upt_Suc)
qed

lemma word_bits_cong: "(\<And>i. i < n \<Longrightarrow> bit v i = bit w i) \<Longrightarrow> word_bits n v = word_bits n w"
  by (simp add: word_bits_def)

section \<open>Writing\<close>

lemma write_bit_written:
  assumes "w_bit_pos w < 8"
  shows "written (write_bit v w i) = written w @ [bit v i]" "w_bit_pos (write_bit v w i) < 8"
proof -
  define cur where "cur = push_bit 1 (w_cur_byte w) OR (ucast (drop_bit i v AND 1) :: u8)"
  have b0: "bit cur 0 = bit v i"
    by (simp add: cur_def bit_or_iff bit_ucast_iff bit_and_iff bit_drop_bit_eq bit_push_bit_iff)
  have bS: "bit (drop_bit 1 cur) j = bit (w_cur_byte w) j" if "j < w_bit_pos w" for j
    using that assms
    by (simp add: cur_def bit_or_iff bit_ucast_iff bit_and_iff bit_drop_bit_eq bit_push_bit_iff bit_1_iff)
  have "word_bits (Suc (w_bit_pos w)) cur = word_bits (w_bit_pos w) (w_cur_byte w) @ [bit v i]"
    unfolding word_bits_Suc b0 using bS by (simp cong: word_bits_cong)
  then show "written (write_bit v w i) = written w @ [bit v i]"
    by (auto simp: write_bit_def Let_def written_def word_bits_def [of 0] cur_def)
  show "w_bit_pos (write_bit v w i) < 8"
    using assms by (simp add: write_bit_def Let_def)
qed

lemma write_bits_written:
  assumes "w_bit_pos w < 8"
  shows "written (write_bits w v n) = written w @ word_bits n v" "w_bit_pos (write_bits w v n) < 8"
proof -
  have "written (foldl (write_bit v) w is) = written w @ map (bit v) is \<and>
      w_bit_pos (foldl (write_bit v) w is) < 8" for "is"
    using assms
  proof (induction "is" arbitrary: w)
    case (Cons i "is")
    then show ?case using write_bit_written [of w v i] by simp
  qed simp
  then show "written (write_bits w v n) = written w @ word_bits n v" "w_bit_pos (write_bits w v n) < 8"
    by (simp_all add: write_bits_def word_bits_def)
qed

lemma finish_bits:
  assumes "w_bit_pos w < 8"
  shows "\<exists>k < 8. bytes_bits (bw_finish w) = written w @ replicate k False"
proof (cases "w_bit_pos w = 0")
  case True
  then show ?thesis by (intro exI [of _ 0]) (simp add: bw_finish_def written_def word_bits_def [of 0])
next
  case False
  let ?p = "w_bit_pos w"
  have "word_bits 8 (push_bit (8 - ?p) (w_cur_byte w)) =
      word_bits ?p (w_cur_byte w) @ replicate (8 - ?p) False"
  proof (rule nth_equalityI)
    fix i assume "i < length (word_bits 8 (push_bit (8 - ?p) (w_cur_byte w)))"
    then have i: "i < 8" by simp
    show "word_bits 8 (push_bit (8 - ?p) (w_cur_byte w)) ! i =
        (word_bits ?p (w_cur_byte w) @ replicate (8 - ?p) False) ! i"
      using i assms False
      by (auto simp: word_bits_def rev_nth nth_append bit_push_bit_iff)
  qed (use assms in simp)
  then show ?thesis
    using False assms by (intro exI [of _ "8 - ?p"]) (simp add: bw_finish_def written_def)
qed

lemma finish_aligned: "w_bit_pos w = 0 \<Longrightarrow> bytes_bits (bw_finish w) = written w"
  by (simp add: bw_finish_def written_def word_bits_def)

section \<open>Reading\<close>

fun horner :: "u32 \<Rightarrow> bool list \<Rightarrow> u32" where
  "horner v [] = v"
| "horner v (b # bs) = horner (push_bit 1 v OR (if b then 1 else 0)) bs"

lemma horner_append: "horner v (xs @ ys) = horner (horner v xs) ys"
  by (induction xs arbitrary: v) auto

lemma horner_word_bits: "n \<le> 32 \<Longrightarrow> horner 0 (word_bits n v) = take_bit n v" for v :: u32
proof (induction n arbitrary: v)
  case (Suc n)
  then have "horner 0 (word_bits (Suc n) v) =
      push_bit 1 (take_bit n (drop_bit 1 v)) OR (if bit v 0 then 1 else 0)"
    unfolding word_bits_Suc horner_append by simp
  also have "\<dots> = take_bit (Suc n) v"
  proof (rule bit_word_eqI)
    fix i assume "i < LENGTH(32)"
    then show "bit (push_bit 1 (take_bit n (drop_bit 1 v)) OR (if bit v 0 then 1 else 0)) i =
        bit (take_bit (Suc n) v) i"
      by (cases i) (auto simp: bit_or_iff bit_push_bit_iff bit_take_bit_iff bit_drop_bit_eq bit_1_iff)
  qed
  finally show ?case .
qed (simp add: word_bits_def)

lemma bytes_bits_nth:
  "i < length bs \<Longrightarrow> p < 8 \<Longrightarrow> bytes_bits bs ! (i * 8 + p) = bit (bs ! i) (7 - p)"
proof (induction bs arbitrary: i)
  case (Cons b bs)
  then show ?case by (cases i) (auto simp: nth_append word_bits_def rev_nth add.assoc)
qed simp

lemma read_loop_horner:
  assumes "r_bit_pos r < 8" "n \<le> length (unread r)"
  shows "\<exists>r'. read_loop n v r = (horner v (take n (unread r)), r') \<and> r_buf r' = r_buf r \<and>
    reader_pos r' = reader_pos r + n \<and> r_bit_pos r' < 8"
  using assms
proof (induction n arbitrary: v r)
  case (Suc n)
  let ?b = "drop_bit (7 - r_bit_pos r) (r_buf r ! r_byte_i r) AND 1"
  define r1 where "r1 = (if r_bit_pos r + 1 = 8 then r\<lparr> r_byte_i := r_byte_i r + 1, r_bit_pos := 0 \<rparr>
      else r\<lparr> r_bit_pos := r_bit_pos r + 1 \<rparr>)"
  have i: "r_byte_i r < length (r_buf r)"
    using Suc.prems by (simp add: unread_def reader_pos_def)
  have pos: "reader_pos r1 = reader_pos r + 1" "r_buf r1 = r_buf r" "r_bit_pos r1 < 8"
    using Suc.prems(1) by (auto simp: r1_def reader_pos_def)
  have hd: "unread r = bit (r_buf r ! r_byte_i r) (7 - r_bit_pos r) # unread r1"
    unfolding unread_def pos(1,2)
    using Suc.prems i bytes_bits_nth [OF i Suc.prems(1)]
    by (subst Cons_nth_drop_Suc [symmetric]) (simp_all add: reader_pos_def unread_def)
  have b: "ucast ?b = (if bit (r_buf r ! r_byte_i r) (7 - r_bit_pos r) then 1 else 0 :: u32)"
    by (rule bit_word_eqI) (auto simp: bit_ucast_iff bit_and_iff bit_drop_bit_eq bit_1_iff intro: gr0I)
  have "read_loop (Suc n) v r = read_loop n (push_bit 1 v OR ucast ?b) r1"
    using i by (simp add: Let_def r1_def)
  moreover have "n \<le> length (unread r1)" using Suc.prems(2) hd by simp
  then obtain r' where "read_loop n (push_bit 1 v OR ucast ?b) r1 =
      (horner (push_bit 1 v OR ucast ?b) (take n (unread r1)), r')" "r_buf r' = r_buf r1"
      "reader_pos r' = reader_pos r1 + n" "r_bit_pos r' < 8"
    using Suc.IH [OF pos(3)] by blast
  ultimately show ?case using pos by (simp add: hd b)
qed simp

text \<open>Reading \<open>n\<close> bits where the value \<open>v\<close> was written with \<open>n\<close> bits.\<close>

lemma read_bits_word:
  assumes "unread r = word_bits n v @ rest" "r_bit_pos r < 8" "n \<le> 32"
  shows "\<exists>r'. read_bits r n = (take_bit n v, r') \<and> unread r' = rest \<and> r_buf r' = r_buf r \<and>
    reader_pos r' = reader_pos r + n \<and> r_bit_pos r' < 8"
proof -
  from assms obtain r' where r': "read_loop n 0 r = (horner 0 (take n (unread r)), r')"
      "r_buf r' = r_buf r" "reader_pos r' = reader_pos r + n" "r_bit_pos r' < 8"
    using read_loop_horner [of r n 0] by auto
  have "unread r' = drop n (unread r)" by (simp add: unread_def r' add.commute)
  then show ?thesis using r' assms by (simp add: read_bits_def horner_word_bits)
qed

lemma reader_new: "unread (BitReader_new buf) = bytes_bits buf" "r_bit_pos (BitReader_new buf) = 0"
    "reader_pos (BitReader_new buf) = 0" "r_buf (BitReader_new buf) = buf"
  by (simp_all add: BitReader_new_def unread_def reader_pos_def)

lemma bytes_consumed_aligned: "r_bit_pos r < 8 \<Longrightarrow> reader_pos r = 8 * k \<Longrightarrow> bytes_consumed r = k"
  by (auto simp: bytes_consumed_def reader_pos_def)

lemma remaining_bits_unread: "r_bit_pos r < 8 \<Longrightarrow> remaining_bits r = length (unread r)"
  by (auto simp: remaining_bits_def unread_def reader_pos_def diff_mult_distrib)

end
