(* ===== verification/Id_Storage.thy ===== *)
theory Id_Storage
  imports Bit_Io Delp_Error
begin

text \<open>
  \<^verbatim>\<open>src/wire/ev/id_storage.rs\<close>: the four formats for the list of source identifiers of an
  encoding vector. Arithmetic is that of a release build, modulo \<open>2 ^ 32\<close>; vectors are as long as
  they get (the length of a Rust vector is not bounded here).
\<close>

datatype IdStorageFormat = NoneFormat | UncompressedEdges | CompressedList | CompressedEdges

definition from_wire :: "u8 \<Rightarrow> IdStorageFormat res" where
  "from_wire v =
     (let w = v AND 0x3 in
      if w = 0 then Ok NoneFormat
      else if w = 1 then Ok UncompressedEdges
      else if w = 2 then Ok CompressedList
      else if w = 3 then Ok CompressedEdges
      else Panic)"

fun wire_value :: "IdStorageFormat \<Rightarrow> u8" where
  "wire_value NoneFormat = 0"
| "wire_value UncompressedEdges = 1"
| "wire_value CompressedList = 2"
| "wire_value CompressedEdges = 3"

fun is_contiguous :: "u32 list \<Rightarrow> bool" where
  "is_contiguous (a # b # ids) = (b = a + 1 \<and> is_contiguous (b # ids))"
| "is_contiguous _ = True"

definition best_for :: "u32 list \<Rightarrow> IdStorageFormat" where
  "best_for ids =
     (if ids = [] then NoneFormat
      else if is_contiguous ids then NoneFormat
      else CompressedList)"

section \<open>Encoding\<close>

definition encode_compressed_list :: "u32 list \<Rightarrow> bytes res" where
  "encode_compressed_list ids =
     and_then (index ids 0) (\<lambda>prev.
       let (writer, _) = foldl (\<lambda>(writer, prev) i. (write_bits writer (i - prev) 16, i))
                           (BitWriter_new, prev) (drop 1 ids)
       in Ok (bw_finish writer))"

text \<open>The loop of \<open>to_blocks\<close> after the first identifier.\<close>

fun to_blocks_loop :: "u32 \<Rightarrow> u32 \<Rightarrow> (u32 \<times> u32) list \<Rightarrow> u32 list \<Rightarrow> (u32 \<times> u32) list" where
  "to_blocks_loop start prev blocks [] = blocks @ [(start, prev + 1)]"
| "to_blocks_loop start prev blocks (i # ids) =
     (if i \<noteq> prev + 1 then to_blocks_loop i i (blocks @ [(start, prev + 1)]) ids
      else to_blocks_loop start i blocks ids)"

fun to_blocks :: "u32 list \<Rightarrow> (u32 \<times> u32) list" where
  "to_blocks [] = []"
| "to_blocks (i # ids) = to_blocks_loop i i [] ids"

definition encode_uncompressed_edges :: "u32 list \<Rightarrow> bytes res" where
  "encode_uncompressed_edges ids =
     (let blocks = to_blocks ids in
      and_then (index ids 0) (\<lambda>base.
        Ok (foldl (\<lambda>out (start, end'). out @ u32_to_be_bytes (start - base) @ u32_to_be_bytes (end' - base))
              [] blocks)))"

definition encode_compressed_edges :: "u32 list \<Rightarrow> bytes res" where
  "encode_compressed_edges ids =
     (let blocks = to_blocks ids in
      and_then (index ids 0) (\<lambda>base.
        let (writer, _) =
          foldl (\<lambda>(writer, prev) (start, end').
              let d_start = (start - base) - prev; d_len = end' - start
              in (write_bits (write_bits writer d_start 16) d_len 16, end' - base))
            (BitWriter_new, 0) blocks
        in Ok (bw_finish writer)))"

fun id_encode :: "u32 list \<Rightarrow> IdStorageFormat \<Rightarrow> bytes res" where
  "id_encode ids NoneFormat = Ok []"
| "id_encode ids CompressedList = encode_compressed_list ids"
| "id_encode ids UncompressedEdges = encode_uncompressed_edges ids"
| "id_encode ids CompressedEdges = encode_compressed_edges ids"

section \<open>Decoding\<close>

text \<open>The half-open range \<open>start..end\<close>.\<close>

definition u32_range :: "u32 \<Rightarrow> u32 \<Rightarrow> u32 list" where
  "u32_range a b = map of_nat [unat a..<unat b]"

fun read_deltas :: "nat \<Rightarrow> BitReader \<Rightarrow> u32 \<Rightarrow> u32 list \<Rightarrow> u32 list \<times> BitReader" where
  "read_deltas 0 reader prev ids = (ids, reader)"
| "read_deltas (Suc n) reader prev ids =
     (let (delta, reader) = read_bits reader 16; prev = prev + delta
      in read_deltas n reader prev (ids @ [prev]))"

text \<open>\<open>nb_ids - 1\<close> wraps for an empty list, which makes every buffer too short.\<close>

definition decode_compressed_list :: "bytes \<Rightarrow> nat \<Rightarrow> u32 \<Rightarrow> (u32 list \<times> nat) res" where
  "decode_compressed_list buf nb_ids first_src_id =
     (if nb_ids = 1 then Ok ([first_src_id], 0)
      else
        let needed = (if nb_ids = 0 then 2 ^ 64 - 2 else (nb_ids - 1) * 2) in
        if length buf < needed
        then Err (MalformedEncodingVector ''CompressedList buffer too short'')
        else let (ids, reader) = read_deltas (nb_ids - 1) (BitReader_new buf) first_src_id [first_src_id]
             in Ok (ids, bytes_consumed reader))"

function decode_ue_loop :: "bytes \<Rightarrow> nat \<Rightarrow> u32 \<Rightarrow> u32 list \<Rightarrow> nat \<Rightarrow> (u32 list \<times> nat) res" where
  "decode_ue_loop buf nb_ids first_src_id ids off =
     (if length ids < nb_ids then
        if length buf < off + 8
        then Err (MalformedEncodingVector ''UncompressedEdges truncated'')
        else
          and_then (read_be32 buf off) (\<lambda>start_delta.
          and_then (read_be32 buf (off + 4)) (\<lambda>end_delta.
            decode_ue_loop buf nb_ids first_src_id
              (ids @ u32_range (first_src_id + start_delta) (first_src_id + end_delta)) (off + 8)))
      else Ok (take nb_ids ids, off))"
  by pat_completeness auto
termination
  by (relation "measure (\<lambda>(buf, nb_ids, first, ids, off). length buf - off)") auto

declare decode_ue_loop.simps [simp del]

definition decode_uncompressed_edges :: "bytes \<Rightarrow> nat \<Rightarrow> u32 \<Rightarrow> (u32 list \<times> nat) res" where
  "decode_uncompressed_edges buf nb_ids first_src_id = decode_ue_loop buf nb_ids first_src_id [] 0"

text \<open>Each iteration of the last decoder consumes 32 bits.\<close>

lemma remaining_read_loop:
  "n \<le> remaining_bits r \<Longrightarrow> remaining_bits (snd (read_loop n v r)) = remaining_bits r - n"
proof (induction n arbitrary: v r)
  case (Suc n)
  define r1 where "r1 = (if r_bit_pos r + 1 = 8 then r\<lparr> r_byte_i := r_byte_i r + 1, r_bit_pos := 0 \<rparr>
      else r\<lparr> r_bit_pos := r_bit_pos r + 1 \<rparr>)"
  have i: "\<not> length (r_buf r) \<le> r_byte_i r" using Suc.prems by (auto simp: remaining_bits_def)
  then have "remaining_bits r1 = remaining_bits r - 1"
    by (auto simp: r1_def remaining_bits_def)
  then show ?case using Suc i by (auto simp: Let_def r1_def split: if_splits)
qed simp

lemma remaining_read_bits:
  "n \<le> remaining_bits r \<Longrightarrow> remaining_bits (snd (read_bits r n)) = remaining_bits r - n"
  by (simp add: read_bits_def remaining_read_loop)

function decode_ce_loop :: "nat \<Rightarrow> u32 \<Rightarrow> BitReader \<Rightarrow> u32 \<Rightarrow> u32 list \<Rightarrow> (u32 list \<times> nat) res" where
  "decode_ce_loop nb_ids first_src_id reader abs' ids =
     (if length ids < nb_ids then
        if remaining_bits reader < 32
        then Err (MalformedEncodingVector ''CompressedEdges truncated'')
        else
          let (d_start, reader1) = read_bits reader 16;
              (d_len, reader2) = read_bits reader1 16;
              start = first_src_id + abs' + d_start
          in decode_ce_loop nb_ids first_src_id reader2 (start - first_src_id + d_len)
               (ids @ u32_range start (start + d_len))
      else Ok (take nb_ids ids, bytes_consumed reader))"
  by pat_completeness auto
termination
proof (relation "measure (\<lambda>(nb_ids, first, reader, abs', ids). remaining_bits reader)", goal_cases)
  case (2 nb_ids first reader abs' ids x d1 r1 y d2 r2 start)
  then have "r1 = snd (read_bits reader 16)" "r2 = snd (read_bits r1 16)" "32 \<le> remaining_bits reader"
    using 2 by (metis snd_conv, metis snd_conv, simp)
  then show ?case
    using remaining_read_bits [of 16 reader] remaining_read_bits [of 16 r1] by simp
qed simp

declare decode_ce_loop.simps [simp del]

definition decode_compressed_edges :: "bytes \<Rightarrow> nat \<Rightarrow> u32 \<Rightarrow> (u32 list \<times> nat) res" where
  "decode_compressed_edges buf nb_ids first_src_id =
     decode_ce_loop nb_ids first_src_id (BitReader_new buf) 0 []"

fun id_decode :: "bytes \<Rightarrow> nat \<Rightarrow> u32 \<Rightarrow> IdStorageFormat \<Rightarrow> (u32 list \<times> nat) res" where
  "id_decode buf nb_ids first_src_id NoneFormat =
     Ok (map (\<lambda>i. first_src_id + of_nat i) [0..<nb_ids], 0)"
| "id_decode buf nb_ids first_src_id CompressedList = decode_compressed_list buf nb_ids first_src_id"
| "id_decode buf nb_ids first_src_id UncompressedEdges = decode_uncompressed_edges buf nb_ids first_src_id"
| "id_decode buf nb_ids first_src_id CompressedEdges = decode_compressed_edges buf nb_ids first_src_id"

section \<open>Round trip of the delta-coded list\<close>

fun deltas :: "u32 \<Rightarrow> u32 list \<Rightarrow> u32 list" where
  "deltas prev [] = []"
| "deltas prev (i # ids) = (i - prev) # deltas i ids"

fun undelta :: "u32 \<Rightarrow> u32 list \<Rightarrow> u32 list" where
  "undelta prev [] = []"
| "undelta prev (d # ds) = (prev + d) # undelta (prev + d) ds"

lemma undelta_deltas: "undelta prev (deltas prev ids) = ids"
  by (induction ids arbitrary: prev) auto

lemma length_deltas [simp]: "length (deltas prev ids) = length ids"
  by (induction ids arbitrary: prev) auto

lemma written_deltas:
  assumes "w_bit_pos w < 8"
    and "foldl (\<lambda>(writer, prev) i. (write_bits writer (i - prev) 16, i)) (w, prev) ids = (w', p')"
  shows "written w' = written w @ concat (map (word_bits 16) (deltas prev ids)) \<and> w_bit_pos w' < 8"
  using assms
proof (induction ids arbitrary: w prev)
  case (Cons i ids)
  from Cons.IH [of "write_bits w (i - prev) 16" i] Cons.prems write_bits_written [OF Cons.prems(1)]
  show ?case by simp
qed simp

lemma writer_aligned: "w_bit_pos w < 8 \<Longrightarrow> length (written w) = 8 * k \<Longrightarrow> w_bit_pos w = 0"
  by (simp add: written_def) presburger

lemma length_concat_word_bits [simp]: "length (concat (map (word_bits n) ds)) = n * length ds"
  by (induction ds) auto

lemma encode_compressed_list_bits:
  assumes "encode_compressed_list (i # ids) = Ok bs"
  shows "bytes_bits bs = concat (map (word_bits 16) (deltas i ids))"
proof -
  obtain w p where f: "foldl (\<lambda>(writer, prev) i. (write_bits writer (i - prev) 16, i))
      (BitWriter_new, i) ids = (w, p)" by fastforce
  then have w: "written w = concat (map (word_bits 16) (deltas i ids))" "w_bit_pos w < 8"
    using written_deltas [OF _ f] by (simp_all add: BitWriter_new_def written_def word_bits_def [of 0])
  then have "w_bit_pos w = 0" by (intro writer_aligned [of w "2 * length ids"]) simp_all
  moreover have "bs = bw_finish w" using assms f by (simp add: encode_compressed_list_def index_def)
  ultimately show ?thesis by (simp add: finish_aligned w)
qed

lemma read_deltas_undelta:
  assumes "unread r = concat (map (word_bits 16) ds) @ rest" "r_bit_pos r < 8"
  shows "\<exists>r'. read_deltas (length ds) r prev ids = (ids @ undelta prev (map (take_bit 16) ds), r') \<and>
    reader_pos r' = reader_pos r + 16 * length ds \<and> r_bit_pos r' < 8"
  using assms
proof (induction ds arbitrary: r prev ids)
  case (Cons d ds)
  then obtain r1 where r1: "read_bits r 16 = (take_bit 16 d, r1)"
      "unread r1 = concat (map (word_bits 16) ds) @ rest" "reader_pos r1 = reader_pos r + 16" "r_bit_pos r1 < 8"
    using read_bits_word [of r 16 d] by (auto simp: take_bit_eq_mask)
  from Cons.IH [OF r1(2,4), of "prev + take_bit 16 d" "ids @ [prev + take_bit 16 d]"] r1
  show ?case by (auto simp: Let_def add.assoc)
qed simp

lemma bytes_length_bits: "length bs = length (bytes_bits bs) div 8"
  by simp

text \<open>The list format decodes to the deltas modulo \<open>2 ^ 16\<close>.\<close>

lemma decode_encode_compressed_list:
  assumes "encode_compressed_list (i # ids) = Ok bs"
  shows "decode_compressed_list (bs @ rest) (Suc (length ids)) i =
    Ok (i # undelta i (map (take_bit 16) (deltas i ids)), 2 * length ids)"
proof -
  have bits: "bytes_bits bs = concat (map (word_bits 16) (deltas i ids))"
    by (rule encode_compressed_list_bits) fact
  have len: "length bs = 2 * length ids"
    unfolding bytes_length_bits [of bs] bits by simp
  obtain r' where "read_deltas (length ids) (BitReader_new (bs @ rest)) i [i] =
      ([i] @ undelta i (map (take_bit 16) (deltas i ids)), r')" "reader_pos r' = 16 * length ids" "r_bit_pos r' < 8"
    using read_deltas_undelta [of "BitReader_new (bs @ rest)" "deltas i ids" "bytes_bits rest" i "[i]"]
    by (auto simp: reader_new bits)
  moreover from this have "bytes_consumed r' = 2 * length ids"
    by (intro bytes_consumed_aligned) simp_all
  ultimately show ?thesis
    using len by (cases ids) (simp_all add: decode_compressed_list_def)
qed

section \<open>Round trip of the edge formats\<close>

lemma u32_range_Suc: "a \<le> p \<Longrightarrow> p \<noteq> - 1 \<Longrightarrow> u32_range a (p + 1) = u32_range a p @ [p]"
  by (simp add: u32_range_def unat_succ word_le_nat_alt)

lemma u32_range_empty [simp]: "u32_range a a = []"
  by (simp add: u32_range_def)

text \<open>The blocks of a strictly ascending list are non-empty and cover it.\<close>

abbreviation block_ids :: "u32 \<times> u32 \<Rightarrow> u32 list" where
  "block_ids b \<equiv> u32_range (fst b) (snd b)"

lemma to_blocks_loop_cover:
  assumes "sorted_wrt (<) (prev # ids)" "- 1 \<notin> set (prev # ids)" "start \<le> prev"
  shows "concat (map block_ids (to_blocks_loop start prev blocks ids)) =
    concat (map block_ids blocks) @ u32_range start (prev + 1) @ ids"
  using assms
proof (induction start prev blocks ids rule: to_blocks_loop.induct)
  case (2 start prev blocks i ids)
  show ?case
  proof (cases "i = prev + 1")
    case True
    have le: "start \<le> i" using 2(3,5) by auto
    have "concat (map block_ids (to_blocks_loop start i blocks ids)) =
        concat (map block_ids blocks) @ u32_range start (i + 1) @ ids"
      by (rule 2(2)) (use 2 True le in auto)
    moreover have "u32_range start (i + 1) = u32_range start i @ [i]"
      using 2(4) le by (intro u32_range_Suc) auto
    ultimately show ?thesis using True by simp
  next
    case False
    with 2 have "concat (map block_ids (to_blocks_loop i i (blocks @ [(start, prev + 1)]) ids)) =
        concat (map block_ids (blocks @ [(start, prev + 1)])) @ u32_range i (i + 1) @ ids" by simp
    moreover have "u32_range i (i + 1) = [i]" using 2(4) u32_range_Suc [of i i] by auto
    ultimately show ?thesis using False by simp
  qed
qed simp

lemma to_blocks_cover:
  "sorted_wrt (<) ids \<Longrightarrow> - 1 \<notin> set ids \<Longrightarrow> concat (map block_ids (to_blocks ids)) = ids"
  using to_blocks_loop_cover [of "hd ids" "tl ids" "hd ids" "[]"] u32_range_Suc [of "hd ids" "hd ids"]
  by (cases ids) auto

lemma succ_greater: "start \<le> prev \<Longrightarrow> - 1 \<noteq> prev \<Longrightarrow> start < prev + 1" for prev :: u32
  by (metis unat_succ word_less_nat_alt word_le_nat_alt le_imp_less_Suc)

lemma to_blocks_loop_nonempty:
  assumes "sorted_wrt (<) (prev # ids)" "- 1 \<notin> set (prev # ids)" "start \<le> prev"
    "\<forall>b \<in> set blocks. fst b < snd b"
  shows "\<forall>b \<in> set (to_blocks_loop start prev blocks ids). fst b < snd b"
  using assms
proof (induction start prev blocks ids rule: to_blocks_loop.induct)
  case (1 start prev blocks)
  then have "start < prev + 1" by (auto intro: succ_greater)
  with 1 show ?case by simp
next
  case (2 start prev blocks i ids)
  have "start < prev + 1" "start \<le> i" using 2(3-5) by (auto intro: succ_greater)
  note le = this
  show ?case
  proof (cases "i = prev + 1")
    case True
    have "\<forall>b \<in> set (to_blocks_loop start i blocks ids). fst b < snd b"
    proof (rule 2(2))
      show "\<not> i \<noteq> prev + 1" using True by simp
      show "sorted_wrt (<) (i # ids)" "- 1 \<notin> set (i # ids)" using 2(3,4) by simp_all
    qed (rule le(2), rule 2(6))
    with True show ?thesis by simp
  qed (use 2 le in simp)
qed

lemma to_blocks_nonempty:
  "sorted_wrt (<) ids \<Longrightarrow> - 1 \<notin> set ids \<Longrightarrow> \<forall>b \<in> set (to_blocks ids). fst b < snd b"
  using to_blocks_loop_nonempty [of "hd ids" "tl ids" "hd ids" "[]"] by (cases ids) auto

lemma block_ids_nonempty: "fst b < snd b \<Longrightarrow> block_ids b \<noteq> []"
  by (simp add: u32_range_def word_less_nat_alt)

definition edge_bytes :: "u32 \<Rightarrow> u32 \<times> u32 \<Rightarrow> bytes" where
  "edge_bytes base b = u32_to_be_bytes (fst b - base) @ u32_to_be_bytes (snd b - base)"

lemma length_edge_bytes [simp]: "length (edge_bytes base b) = 8"
  by (simp add: edge_bytes_def)

lemma length_concat_edge_bytes [simp]: "length (concat (map (edge_bytes base) bs)) = 8 * length bs"
  by (induction bs) simp_all

lemma foldl_append_concat: "foldl (\<lambda>out x. out @ f x) acc xs = acc @ concat (map f xs)"
  by (induction xs arbitrary: acc) auto

lemma encode_uncompressed_edges_eq:
  "encode_uncompressed_edges (i # ids) = Ok (concat (map (edge_bytes i) (to_blocks (i # ids))))"
  unfolding encode_uncompressed_edges_def Let_def index_def case_prod_unfold
  using foldl_append_concat [of "edge_bytes i" "[]"] by (simp add: edge_bytes_def)

lemma decode_ue_loop_blocks:
  assumes "\<forall>b \<in> set blocks. fst b < snd b"
    and "nb = length ids + length (concat (map block_ids blocks))"
    and "buf = pre @ concat (map (edge_bytes base) blocks) @ rest" "off = length pre"
  shows "decode_ue_loop buf nb base ids off =
    Ok (ids @ concat (map block_ids blocks), off + 8 * length blocks)"
  using assms
proof (induction blocks arbitrary: ids pre off)
  case Nil
  then show ?case by (simp add: decode_ue_loop.simps)
next
  case (Cons b blocks)
  have "length ids < nb" using Cons.prems(1,2) block_ids_nonempty [of b] by simp
  moreover have "read_be32 buf off = Ok (fst b - base)" "read_be32 buf (off + 4) = Ok (snd b - base)"
    using Cons.prems(3,4) read_be32_append [of off pre "fst b - base"]
      read_be32_append [of "off + 4" "pre @ u32_to_be_bytes (fst b - base)" "snd b - base"]
    by (simp_all add: edge_bytes_def)
  moreover have "\<not> length buf < off + 8" using Cons.prems(3,4) by simp
  moreover have "decode_ue_loop buf nb base (ids @ block_ids b) (off + 8) =
      Ok ((ids @ block_ids b) @ concat (map block_ids blocks), (off + 8) + 8 * length blocks)"
    by (rule Cons.IH [where pre = "pre @ edge_bytes base b"]) (use Cons.prems in simp_all)
  ultimately show ?case by (simp add: decode_ue_loop.simps [of buf nb base ids off])
qed

lemma decode_encode_uncompressed_edges:
  assumes "sorted_wrt (<) (i # ids)" "- 1 \<notin> set (i # ids)" "encode_uncompressed_edges (i # ids) = Ok bs"
  shows "decode_uncompressed_edges (bs @ rest) (Suc (length ids)) i = Ok (i # ids, length bs)"
proof -
  let ?b = "to_blocks (i # ids)"
  have bs: "bs = concat (map (edge_bytes i) ?b)" using assms(3) by (simp add: encode_uncompressed_edges_eq)
  have "length bs = 8 * length ?b" by (simp add: bs)
  moreover have "decode_ue_loop (bs @ rest) (Suc (length ids)) i [] 0 = Ok ([] @ concat (map block_ids ?b), 0 + 8 * length ?b)"
    by (rule decode_ue_loop_blocks [where pre = "[]" and rest = rest])
      (use to_blocks_nonempty [OF assms(1,2)] to_blocks_cover [OF assms(1,2)] in \<open>simp_all add: bs\<close>)
  ultimately show ?thesis
    using to_blocks_cover [OF assms(1,2)] by (simp add: decode_uncompressed_edges_def)
qed

fun edge_deltas :: "u32 \<Rightarrow> u32 \<Rightarrow> (u32 \<times> u32) list \<Rightarrow> u32 list" where
  "edge_deltas base prev [] = []"
| "edge_deltas base prev ((s, e) # blocks) =
     ((s - base) - prev) # (e - s) # edge_deltas base (e - base) blocks"

lemma written_edge_deltas:
  assumes "w_bit_pos w < 8"
    and "foldl (\<lambda>(writer, prev) (start, end').
          let d_start = (start - base) - prev; d_len = end' - start
          in (write_bits (write_bits writer d_start 16) d_len 16, end' - base)) (w, prev) blocks = (w', p')"
  shows "written w' = written w @ concat (map (word_bits 16) (edge_deltas base prev blocks)) \<and> w_bit_pos w' < 8"
  using assms
proof (induction blocks arbitrary: w prev)
  case (Cons b blocks)
  obtain s e where b: "b = (s, e)" by (cases b)
  let ?w1 = "write_bits w ((s - base) - prev) 16"
  let ?w2 = "write_bits ?w1 (e - s) 16"
  note w1 = write_bits_written [OF Cons.prems(1), of "(s - base) - prev" 16]
  note w2 = write_bits_written [OF w1(2), of "e - s" 16]
  from Cons.IH [OF w2(2)] Cons.prems(2) show ?case by (simp add: b Let_def w1 w2)
qed simp

lemma length_edge_deltas: "length (edge_deltas base prev blocks) = 2 * length blocks"
  by (induction base prev blocks rule: edge_deltas.induct) auto

lemma encode_compressed_edges_bits:
  assumes "encode_compressed_edges (i # ids) = Ok bs"
  shows "bytes_bits bs = concat (map (word_bits 16) (edge_deltas i 0 (to_blocks (i # ids))))"
proof -
  let ?f = "\<lambda>(writer, prev) (start, end'). let d_start = (start - i) - prev; d_len = end' - start
      in (write_bits (write_bits writer d_start 16) d_len 16, end' - i)"
  obtain w p where f: "foldl ?f (BitWriter_new, 0) (to_blocks (i # ids)) = (w, p)" by fastforce
  then have w: "written w = concat (map (word_bits 16) (edge_deltas i 0 (to_blocks (i # ids))))" "w_bit_pos w < 8"
    using written_edge_deltas [OF _ f] by (simp_all add: BitWriter_new_def written_def word_bits_def [of 0])
  then have "w_bit_pos w = 0"
    by (intro writer_aligned [of w "4 * length (to_blocks (i # ids))"]) (simp_all add: length_edge_deltas)
  moreover have "bs = bw_finish w"
    using assms f by (simp add: encode_compressed_edges_def index_def Let_def)
  ultimately show ?thesis by (simp add: finish_aligned w)
qed

lemma decode_ce_loop_blocks:
  assumes "\<forall>b \<in> set blocks. fst b < snd b" "\<forall>d \<in> set (edge_deltas base prev blocks). take_bit 16 d = d"
    and "nb = length ids + length (concat (map block_ids blocks))"
    and "unread r = concat (map (word_bits 16) (edge_deltas base prev blocks)) @ rest"
    and "r_bit_pos r < 8" "reader_pos r = 8 * k"
  shows "decode_ce_loop nb base r prev ids = Ok (ids @ concat (map block_ids blocks), k + 4 * length blocks)"
  using assms
proof (induction blocks arbitrary: ids r prev k)
  case Nil
  then show ?case by (simp add: decode_ce_loop.simps bytes_consumed_aligned)
next
  case (Cons b blocks)
  obtain s e where b: "b = (s, e)" by (cases b)
  let ?rest = "concat (map (word_bits 16) (edge_deltas base (e - base) blocks)) @ rest"
  from Cons.prems(2) b have d: "take_bit 16 (s - base - prev) = s - base - prev" "take_bit 16 (e - s) = e - s"
    by simp_all
  have "unread r = word_bits 16 (s - base - prev) @ word_bits 16 (e - s) @ ?rest"
    using Cons.prems(4) by (simp add: b)
  then obtain r1 where r1: "read_bits r 16 = (s - base - prev, r1)" "unread r1 = word_bits 16 (e - s) @ ?rest"
      "reader_pos r1 = reader_pos r + 16" "r_bit_pos r1 < 8"
    using read_bits_word [of r 16 "s - base - prev", OF _ Cons.prems(5)] d by auto
  obtain r2 where r2: "read_bits r1 16 = (e - s, r2)" "unread r2 = ?rest"
      "reader_pos r2 = reader_pos r1 + 16" "r_bit_pos r2 < 8"
    using read_bits_word [OF r1(2,4)] d by auto
  have "decode_ce_loop nb base r2 (e - base) (ids @ u32_range s e) =
      Ok ((ids @ u32_range s e) @ concat (map block_ids blocks), (k + 4) + 4 * length blocks)"
    by (rule Cons.IH) (use Cons.prems r1 r2 in \<open>simp_all add: b\<close>)
  moreover have "length ids < nb" "\<not> remaining_bits r < 32"
    using Cons.prems block_ids_nonempty [of b] by (simp_all add: remaining_bits_unread b)
  ultimately show ?case
    by (simp add: decode_ce_loop.simps [of nb base r] Let_def r1 r2 b algebra_simps)
qed

lemma decode_encode_compressed_edges:
  assumes "sorted_wrt (<) (i # ids)" "- 1 \<notin> set (i # ids)" "encode_compressed_edges (i # ids) = Ok bs"
    and "\<forall>d \<in> set (edge_deltas i 0 (to_blocks (i # ids))). take_bit 16 d = d"
  shows "decode_compressed_edges (bs @ rest) (Suc (length ids)) i = Ok (i # ids, length bs)"
proof -
  let ?b = "to_blocks (i # ids)"
  have bits: "bytes_bits bs = concat (map (word_bits 16) (edge_deltas i 0 ?b))"
    by (rule encode_compressed_edges_bits) fact
  then have "length bs = 4 * length ?b" by (simp add: bytes_length_bits [of bs] length_edge_deltas)
  moreover have "decode_ce_loop (Suc (length ids)) i (BitReader_new (bs @ rest)) 0 [] =
      Ok ([] @ concat (map block_ids ?b), 0 + 4 * length ?b)"
    by (rule decode_ce_loop_blocks [where rest = "bytes_bits rest"])
       (use assms(4) to_blocks_nonempty [OF assms(1,2)] to_blocks_cover [OF assms(1,2)]
         in \<open>simp_all add: reader_new bits\<close>)
  ultimately show ?thesis
    using to_blocks_cover [OF assms(1,2)] by (simp add: decode_compressed_edges_def)
qed

section \<open>The format the encoder chooses\<close>

lemma is_contiguous_iff:
  "is_contiguous (i # ids) = (i # ids = map (\<lambda>k. i + of_nat k) [0..<Suc (length ids)])"
proof (induction ids arbitrary: i)
  case (Cons j ids)
  have shift: "map (\<lambda>k. i + of_nat k) [0..<Suc (Suc (length ids))] =
      i # map (\<lambda>k. (i + 1) + of_nat k) [0..<Suc (length ids)]"
    by (simp add: upt_conv_Cons map_Suc_upt [symmetric] comp_def ac_simps del: upt_Suc)
  show ?case
  proof (cases "j = i + 1")
    case True
    then show ?thesis using Cons.IH [of j] by (simp only: length_Cons shift is_contiguous.simps) simp
  next
    case False
    have "hd (map (\<lambda>k. (i + 1) + of_nat k) [0..<Suc (length ids)]) = i + 1"
      by (simp add: upt_conv_Cons del: upt_Suc)
    with False shift show ?thesis by (metis is_contiguous.simps(1) length_Cons list.inject list.sel(1))
  qed
qed simp

lemma undelta_small: "\<forall>d \<in> set (deltas i ids). take_bit 16 d = d \<Longrightarrow>
  undelta i (map (take_bit 16) (deltas i ids)) = ids"
  using undelta_deltas [of i ids] by (simp cong: map_cong)

definition id_format_fits :: "IdStorageFormat \<Rightarrow> u32 \<Rightarrow> u32 list \<Rightarrow> bool" where
  "id_format_fits fmt i ids = (case fmt of
     NoneFormat \<Rightarrow> is_contiguous (i # ids)
   | CompressedList \<Rightarrow> (\<forall>d \<in> set (deltas i ids). take_bit 16 d = d)
   | UncompressedEdges \<Rightarrow> sorted_wrt (<) (i # ids) \<and> - 1 \<notin> set (i # ids)
   | CompressedEdges \<Rightarrow> sorted_wrt (<) (i # ids) \<and> - 1 \<notin> set (i # ids) \<and>
       (\<forall>d \<in> set (edge_deltas i 0 (to_blocks (i # ids))). take_bit 16 d = d))"

lemma decode_encode_ids:
  assumes "id_encode (i # ids) fmt = Ok bs" "id_format_fits fmt i ids"
  shows "id_decode (bs @ rest) (Suc (length ids)) i fmt = Ok (i # ids, length bs)"
proof (cases fmt)
  case NoneFormat
  with assms show ?thesis using is_contiguous_iff [of i ids] by (simp add: id_format_fits_def del: upt_Suc)
next
  case CompressedList
  with assms(1) have e: "encode_compressed_list (i # ids) = Ok bs" by simp
  have "length bs = 2 * length ids"
    unfolding bytes_length_bits [of bs] encode_compressed_list_bits [OF e] by simp
  with assms(2) CompressedList decode_encode_compressed_list [OF e] show ?thesis
    by (simp add: id_format_fits_def undelta_small)
next
  case UncompressedEdges
  with assms decode_encode_uncompressed_edges show ?thesis by (simp add: id_format_fits_def)
next
  case CompressedEdges
  with assms decode_encode_compressed_edges show ?thesis by (simp add: id_format_fits_def)
qed

text \<open>C26: for every format, encoding a list of source identifiers and decoding it again (whatever
  padding or coefficients follow) returns the list. The contiguous format needs consecutive
  identifiers; the list format needs consecutive identifiers less than \<open>2 ^ 16\<close> apart; the edge
  formats need ascending identifiers, the compressed one also block lengths and gaps below
  \<open>2 ^ 16\<close>.\<close>

theorem id_roundtrip:
  assumes "id_encode (i # ids) fmt = Ok bs" "id_format_fits fmt i ids"
  shows "id_decode (bs @ rest) (Suc (length ids)) i fmt = Ok (i # ids, length bs)"
  using assms by (rule decode_encode_ids)

theorem id_roundtrip_witness:
  "\<exists>bs. id_encode [5, 6, 9] CompressedEdges = Ok bs \<and>
     id_decode (bs @ [0, 0]) 3 5 CompressedEdges = Ok ([5, 6, 9], length bs)"
proof -
  obtain bs where bs: "id_encode [5, 6, 9] CompressedEdges = Ok bs"
    by (simp add: encode_compressed_edges_def index_def Let_def split_beta)
  have fits: "id_format_fits CompressedEdges 5 [6, 9]"
    by (simp add: id_format_fits_def take_bit_eq_mask mask_eq_exp_minus_1)
  show ?thesis using bs id_roundtrip [OF bs fits, of "[0, 0]"] by (simp add: numeral_3_eq_3)
qed

section \<open>Totality\<close>

text \<open>Decoding identifiers returns a list or an error, whatever the bytes.\<close>

lemma decode_ue_total: "decode_ue_loop buf n first ids off \<noteq> Panic"
proof (induction buf n first ids off rule: decode_ue_loop.induct)
  case (1 buf n first ids off)
  show ?case
  proof (cases "length ids < n \<and> \<not> length buf < off + 8")
    case True
    then obtain a b where r: "read_be32 buf off = Ok a" "read_be32 buf (off + 4) = Ok b"
      using read_be32_Ok [of off buf] read_be32_Ok [of "off + 4" buf] by auto
    from "1.IH" [of a b] True show ?thesis by (subst decode_ue_loop.simps) (simp add: r)
  qed (subst decode_ue_loop.simps, auto)
qed

lemma decode_ce_total: "decode_ce_loop n first r abs' ids \<noteq> Panic"
proof (induction n first r abs' ids rule: decode_ce_loop.induct)
  case (1 n first r abs' ids)
  show ?case
  proof (cases "length ids < n \<and> \<not> remaining_bits r < 32")
    case True
    obtain d1 r1 d2 r2 where rd: "read_bits r 16 = (d1, r1)" "read_bits r1 16 = (d2, r2)" by (metis surj_pair)
    from "1.IH" [of "(d1, r1)" d1 r1 "(d2, r2)" d2 r2] True rd show ?thesis by (subst decode_ce_loop.simps) (simp add: Let_def)
  qed (subst decode_ce_loop.simps, auto)
qed

lemma id_decode_total: "id_decode buf n first fmt \<noteq> Panic"
  by (cases fmt) (auto simp: decode_compressed_list_def decode_uncompressed_edges_def decode_compressed_edges_def Let_def
      decode_ue_total decode_ce_total split: prod.split)

lemma from_wire_total: obtains fmt where "from_wire w = Ok fmt"
proof -
  have "unat (w AND 3) \<le> 3" using word_and_le1 [of w 3] by (simp add: word_le_nat_alt)
  then have "unat (w AND 3) = 0 \<or> unat (w AND 3) = 1 \<or> unat (w AND 3) = 2 \<or> unat (w AND 3) = 3" by arith
  then have "w AND 3 = 0 \<or> w AND 3 = 1 \<or> w AND 3 = 2 \<or> w AND 3 = 3" by (simp add: word_unat_eq_iff)
  then show ?thesis using that by (auto simp: from_wire_def Let_def)
qed

end
