(* ===== verification/Config.thy ===== *)
theory Config
  imports Delp_Error
begin

text \<open>
  \<^verbatim>\<open>src/config.rs\<close>: the field and strategy selectors, the encoder and decoder
  configurations and their builders. \<open>usize\<close> values are natural numbers.
\<close>

datatype Field = Gf2_8_field | Gf2_4_field

datatype MatrixStrategy = Vandermonde | Cauchy

datatype BackpressureMode = Reject | EvictOldest

record EncoderConfig =
  ec_symbol_size :: nat
  ec_window_capacity :: nat
  ec_field :: Field
  ec_fec_numer :: nat
  ec_fec_denom :: nat
  ec_backpressure :: BackpressureMode
  ec_matrix_strategy :: MatrixStrategy

text \<open>The builder holds the same seven settings; every setter returns the builder with one of
  them replaced.\<close>

datatype EncoderConfigBuilder = EncoderConfigBuilder (builder_settings: EncoderConfig)

definition EncoderConfigBuilder_new :: "nat \<Rightarrow> EncoderConfigBuilder" where
  "EncoderConfigBuilder_new symbol_size = EncoderConfigBuilder
     \<lparr> ec_symbol_size = symbol_size, ec_window_capacity = 256, ec_field = Gf2_8_field,
       ec_fec_numer = 1, ec_fec_denom = 4, ec_backpressure = Reject,
       ec_matrix_strategy = Vandermonde \<rparr>"

fun with_window_capacity :: "EncoderConfigBuilder \<Rightarrow> nat \<Rightarrow> EncoderConfigBuilder" where
  "with_window_capacity (EncoderConfigBuilder c) n =
     EncoderConfigBuilder (c\<lparr>ec_window_capacity := n\<rparr>)"

fun with_field :: "EncoderConfigBuilder \<Rightarrow> Field \<Rightarrow> EncoderConfigBuilder" where
  "with_field (EncoderConfigBuilder c) f = EncoderConfigBuilder (c\<lparr>ec_field := f\<rparr>)"

fun with_fec_rate :: "EncoderConfigBuilder \<Rightarrow> nat \<Rightarrow> nat \<Rightarrow> EncoderConfigBuilder" where
  "with_fec_rate (EncoderConfigBuilder c) numer denom =
     EncoderConfigBuilder (c\<lparr>ec_fec_numer := numer, ec_fec_denom := denom\<rparr>)"

fun with_backpressure :: "EncoderConfigBuilder \<Rightarrow> BackpressureMode \<Rightarrow> EncoderConfigBuilder" where
  "with_backpressure (EncoderConfigBuilder c) m = EncoderConfigBuilder (c\<lparr>ec_backpressure := m\<rparr>)"

fun with_matrix_strategy :: "EncoderConfigBuilder \<Rightarrow> MatrixStrategy \<Rightarrow> EncoderConfigBuilder" where
  "with_matrix_strategy (EncoderConfigBuilder c) s =
     EncoderConfigBuilder (c\<lparr>ec_matrix_strategy := s\<rparr>)"

fun EncoderConfigBuilder_build :: "EncoderConfigBuilder \<Rightarrow> EncoderConfig res" where
  "EncoderConfigBuilder_build (EncoderConfigBuilder c) =
     (if ec_symbol_size c = 0 \<or> ec_symbol_size c > 65535
      then Err (InvalidSymbolSize (ec_symbol_size c))
      else if ec_window_capacity c = 0 then Err InvalidWindowCapacity
      else if ec_fec_denom c = 0 then Err InvalidFecDenom
      else if ec_matrix_strategy c = Cauchy \<and>
        ec_window_capacity c > (case ec_field c of Gf2_8_field \<Rightarrow> 128 | Gf2_4_field \<Rightarrow> 7)
      then Err InvalidWindowCapacity
      else Ok c)"

record DecoderConfig =
  dc_symbol_size :: nat
  dc_field :: Field
  dc_max_matrix_rows :: nat
  dc_feedback_every :: u32

datatype DecoderConfigBuilder = DecoderConfigBuilder (dec_builder_settings: DecoderConfig)

definition DecoderConfigBuilder_new :: "nat \<Rightarrow> DecoderConfigBuilder" where
  "DecoderConfigBuilder_new symbol_size = DecoderConfigBuilder
     \<lparr> dc_symbol_size = symbol_size, dc_field = Gf2_8_field, dc_max_matrix_rows = 512,
       dc_feedback_every = 16 \<rparr>"

fun dec_with_field :: "DecoderConfigBuilder \<Rightarrow> Field \<Rightarrow> DecoderConfigBuilder" where
  "dec_with_field (DecoderConfigBuilder c) f = DecoderConfigBuilder (c\<lparr>dc_field := f\<rparr>)"

fun dec_with_max_matrix_rows :: "DecoderConfigBuilder \<Rightarrow> nat \<Rightarrow> DecoderConfigBuilder" where
  "dec_with_max_matrix_rows (DecoderConfigBuilder c) n =
     DecoderConfigBuilder (c\<lparr>dc_max_matrix_rows := n\<rparr>)"

fun dec_with_feedback_every :: "DecoderConfigBuilder \<Rightarrow> u32 \<Rightarrow> DecoderConfigBuilder" where
  "dec_with_feedback_every (DecoderConfigBuilder c) n =
     DecoderConfigBuilder (c\<lparr>dc_feedback_every := n\<rparr>)"

fun DecoderConfigBuilder_build :: "DecoderConfigBuilder \<Rightarrow> DecoderConfig res" where
  "DecoderConfigBuilder_build (DecoderConfigBuilder c) =
     (if dc_symbol_size c = 0 \<or> dc_symbol_size c > 65535
      then Err (InvalidSymbolSize (dc_symbol_size c)) else Ok c)"

text \<open>\<^verbatim>\<open>impl From<&EncoderConfig> for DecoderConfigBuilder\<close>\<close>

definition DecoderConfigBuilder_from :: "EncoderConfig \<Rightarrow> DecoderConfigBuilder" where
  "DecoderConfigBuilder_from enc =
     dec_with_field (DecoderConfigBuilder_new (ec_symbol_size enc)) (ec_field enc)"

section \<open>What a built configuration satisfies\<close>

definition encoder_config_ok :: "EncoderConfig \<Rightarrow> bool" where
  "encoder_config_ok c \<longleftrightarrow>
     0 < ec_symbol_size c \<and> ec_symbol_size c \<le> 65535 \<and> 0 < ec_window_capacity c \<and>
     0 < ec_fec_denom c \<and>
     (ec_matrix_strategy c = Cauchy \<longrightarrow>
        ec_window_capacity c \<le> (case ec_field c of Gf2_8_field \<Rightarrow> 128 | Gf2_4_field \<Rightarrow> 7))"

lemma EncoderConfigBuilder_build_Ok:
  "EncoderConfigBuilder_build b = Ok c \<longleftrightarrow> c = builder_settings b \<and> encoder_config_ok c"
  by (cases b) (auto simp: encoder_config_ok_def not_less)

lemma DecoderConfigBuilder_from_build:
  assumes "encoder_config_ok e"
  shows "DecoderConfigBuilder_build (DecoderConfigBuilder_from e) =
    Ok \<lparr> dc_symbol_size = ec_symbol_size e, dc_field = ec_field e, dc_max_matrix_rows = 512,
         dc_feedback_every = 16 \<rparr>"
  using assms
  by (simp add: encoder_config_ok_def DecoderConfigBuilder_from_def DecoderConfigBuilder_new_def)

end
