(* ===== verification/Encoding_Vector.thy ===== *)
theory Encoding_Vector
  imports Id_Storage Config
begin

text \<open>
  \<^verbatim>\<open>src/wire/ev/mod.rs\<close>: the encoding vector of a coded packet, its serialisation and its
  parser, and the condition under which they are inverse to each other.
\<close>

record EncodingVector =
  ev_field :: Field
  ev_coded_id :: u32
  ev_generation :: u8
  ev_id_format :: IdStorageFormat
  ev_source_ids :: "u32 list"
  ev_coefficients :: bytes

definition EncodingVector_vandermonde :: "Field \<Rightarrow> u32 \<Rightarrow> u32 list \<Rightarrow> EncodingVector" where
  "EncodingVector_vandermonde field coded_id source_ids =
     \<lparr> ev_field = field, ev_coded_id = coded_id, ev_generation = 0,
       ev_id_format = best_for source_ids, ev_source_ids = source_ids, ev_coefficients = [] \<rparr>"

definition EncodingVector_explicit :: "Field \<Rightarrow> u32 \<Rightarrow> u32 list \<Rightarrow> bytes \<Rightarrow> EncodingVector res" where
  "EncodingVector_explicit field coded_id source_ids coefficients =
     (if length source_ids \<noteq> length coefficients then Panic
      else Ok \<lparr> ev_field = field, ev_coded_id = coded_id, ev_generation = 0,
        ev_id_format = best_for source_ids, ev_source_ids = source_ids,
        ev_coefficients = coefficients \<rparr>)"

definition with_generation :: "EncodingVector \<Rightarrow> u8 \<Rightarrow> EncodingVector" where
  "with_generation ev generation = ev\<lparr> ev_generation := generation \<rparr>"

definition has_explicit_coefs :: "EncodingVector \<Rightarrow> bool" where
  "has_explicit_coefs ev = (ev_coefficients ev \<noteq> [])"

definition has_generation :: "EncodingVector \<Rightarrow> bool" where
  "has_generation ev = (ev_generation ev \<noteq> 0)"

definition nb_ids :: "EncodingVector \<Rightarrow> u8" where
  "nb_ids ev = of_nat (length (ev_source_ids ev))"

definition nb_coefs :: "EncodingVector \<Rightarrow> u8" where
  "nb_coefs ev = of_nat (length (ev_coefficients ev))"

section \<open>Helpers\<close>

fun pack_nibbles :: "bytes \<Rightarrow> bytes" where
  "pack_nibbles (a # b # coefs) =
     (let hi = a AND 0x0F; lo = b AND 0x0F in (push_bit 4 hi OR lo) # pack_nibbles coefs)"
| "pack_nibbles [a] = (let hi = a AND 0x0F; lo = 0 AND 0x0F in [push_bit 4 hi OR lo])"
| "pack_nibbles [] = []"

definition unpack_nibbles :: "bytes \<Rightarrow> nat \<Rightarrow> bytes" where
  "unpack_nibbles bs count =
     take count (foldl (\<lambda>out b.
       let out = out @ [drop_bit 4 b AND 0x0F]
       in if length out < count then out @ [b AND 0x0F] else out) [] bs)"

text \<open>\<open>(len + 3) & !3\<close> on an unsigned length.\<close>

definition pad32 :: "nat \<Rightarrow> nat" where
  "pad32 len = (len + 3) - (len + 3) mod 4"

text \<open>\<open>Vec::resize(n, 0)\<close> to a length that is not smaller.\<close>

definition resize :: "bytes \<Rightarrow> nat \<Rightarrow> bytes" where
  "resize xs n = take n xs @ replicate (n - length xs) 0"

section \<open>Serialisation\<close>

definition ev_serialise :: "EncodingVector \<Rightarrow> bytes res" where
  "ev_serialise ev =
     and_then (id_encode (ev_source_ids ev) (ev_id_format ev)) (\<lambda>id_bits.
       let id_padded = pad32 (length id_bits);
           id_bits = resize id_bits id_padded;
           coef_bytes =
             (if has_explicit_coefs ev then
                let bits = (case ev_field ev of
                      Gf2_8_field \<Rightarrow> ev_coefficients ev
                    | Gf2_4_field \<Rightarrow> pack_nibbles (ev_coefficients ev))
                in resize bits (pad32 (length bits))
              else []);
           has_gen = has_generation ev;
           gen_block = (if has_gen then 4 else 0);
           body_len = 8 + gen_block + id_padded + length coef_bytes;
           ev_len_words = of_nat ((body_len + 3) div 4) :: u8;
           ccgi_bit = (case ev_field ev of Gf2_4_field \<Rightarrow> 0 | Gf2_8_field \<Rightarrow> 1) :: u8;
           i_bits = wire_value (ev_id_format ev);
           c_bit = (if has_explicit_coefs ev then 1 else 0) :: u8;
           g_bit = (if has_gen then 1 else 0) :: u8;
           byte1 = push_bit 4 ccgi_bit OR push_bit 2 i_bits OR push_bit 1 c_bit OR g_bit;
           first_src_id = (case ev_source_ids ev of [] \<Rightarrow> 0 | i # _ \<Rightarrow> i)
       in Ok ([ev_len_words, byte1, nb_ids ev, nb_coefs ev] @ u32_to_be_bytes first_src_id @
              (if has_gen then [ev_generation ev, 0, 0, 0] else []) @ id_bits @ coef_bytes))"

section \<open>Parsing\<close>

definition ev_parse_coefs :: "bytes \<Rightarrow> Field \<Rightarrow> u8 \<Rightarrow> nat \<Rightarrow> nat \<Rightarrow> bytes res" where
  "ev_parse_coefs buf field c_bit n_coefs coef_offset =
     (if c_bit = 1 then
        let coef_bytes_needed = (case field of
              Gf2_8_field \<Rightarrow> n_coefs | Gf2_4_field \<Rightarrow> (n_coefs + 1) div 2)
        in if length buf < coef_offset + coef_bytes_needed
           then Err (BufferTooShort (coef_offset + coef_bytes_needed) (length buf))
           else and_then (slice buf coef_offset (coef_offset + coef_bytes_needed)) (\<lambda>raw.
             Ok (case field of Gf2_8_field \<Rightarrow> raw | Gf2_4_field \<Rightarrow> unpack_nibbles raw n_coefs))
      else Ok [])"

definition ev_parse :: "bytes \<Rightarrow> u32 \<Rightarrow> (EncodingVector \<times> nat) res" where
  "ev_parse buf coded_id =
     (if length buf < 8 then Err (BufferTooShort 8 (length buf))
      else
       let ev_len_words = unat (buf ! 0); ev_bytes = ev_len_words * 4 in
       if length buf < ev_bytes then Err (EncodingVectorOverflow (buf ! 0))
       else
        let byte1 = buf ! 1;
            ccgi_bit = drop_bit 4 byte1 AND 0xF;
            i_bits = drop_bit 2 byte1 AND 0x3;
            c_bit = drop_bit 1 byte1 AND 0x1;
            g_bit = byte1 AND 0x1 in
        and_then (if ccgi_bit = 0 then Ok Gf2_4_field
                  else if ccgi_bit = 1 then Ok Gf2_8_field
                  else Err (MalformedEncodingVector ''invalid CCGI'')) (\<lambda>field.
         let n_ids = unat (buf ! 2); n_coefs = unat (buf ! 3) in
         if c_bit = 0 \<and> n_coefs \<noteq> 0 then Err CoefficientFieldInconsistency
         else if c_bit = 1 \<and> n_coefs \<noteq> n_ids then Err CoefficientFieldInconsistency
         else
          and_then (read_be32 buf 4) (\<lambda>first_src_id.
          and_then (if g_bit = 1
                    then if length buf < 12 then Err (BufferTooShort 12 (length buf))
                         else Ok (buf ! 8, 12)
                    else Ok (0, 8)) (\<lambda>(generation, body_off).
          and_then (from_wire i_bits) (\<lambda>id_format.
          and_then (slice buf body_off ev_bytes) (\<lambda>body.
          and_then (id_decode body n_ids first_src_id id_format) (\<lambda>(source_ids, id_bytes_consumed).
            let coef_offset = body_off + pad32 id_bytes_consumed in
            and_then (ev_parse_coefs buf field c_bit n_coefs coef_offset) (\<lambda>coefficients.
              Ok (\<lparr> ev_field = field, ev_coded_id = coded_id, ev_generation = generation,
                     ev_id_format = id_format, ev_source_ids = source_ids,
                     ev_coefficients = coefficients \<rparr>, ev_bytes)))))))))"

section \<open>Nibbles and padding\<close>

lemma pad32_bounds: "len \<le> pad32 len" "pad32 len < len + 4" "pad32 len mod 4 = 0"
  by (auto simp: pad32_def)

lemma length_resize [simp]: "length xs \<le> n \<Longrightarrow> length (resize xs n) = n"
  by (simp add: resize_def)

lemma resize_pad32: "\<exists>z. resize xs (pad32 (length xs)) = xs @ z \<and> length xs + length z = pad32 (length xs)"
  using pad32_bounds(1) [of "length xs"] by (simp add: resize_def)

lemma length_pack_nibbles [simp]: "length (pack_nibbles cs) = (length cs + 1) div 2"
  by (induction cs rule: pack_nibbles.induct) (auto simp: Let_def)

lemma unpack_fold_pack:
  assumes "\<forall>c \<in> set cs. c < 16" "length acc + length cs = n"
  shows "foldl (\<lambda>out b. let out = out @ [drop_bit 4 b AND 15]
      in if length out < n then out @ [b AND 15] else out) acc (pack_nibbles cs) = acc @ cs"
  using assms
proof (induction cs arbitrary: acc rule: pack_nibbles.induct)
  case (1 a b cs)
  have p: "(push_bit 4 (a AND 15) OR (b AND 15)) AND 15 = b"
      "drop_bit 4 (push_bit 4 (a AND 15) OR (b AND 15)) = a"
    using 1(2) nibble_pair [of a b] by simp_all
  have "drop_bit 4 (push_bit 4 (a AND 15) OR (b AND 15)) AND 15 = a"
    unfolding p using 1(2) by simp
  with 1 p show ?case by (simp add: Let_def del: drop_bit_or)
next
  case (2 a)
  have "drop_bit 4 (push_bit 4 (a AND 15) OR 0) AND 15 = a"
    using 2(1) nibble_pair [of a 0] by (simp del: drop_bit_or)
  with 2 show ?case by (simp add: Let_def)
qed simp

lemma unpack_pack_nibbles: "\<forall>c \<in> set cs. c < 16 \<Longrightarrow> unpack_nibbles (pack_nibbles cs) (length cs) = cs"
  unfolding unpack_nibbles_def using unpack_fold_pack [of cs "[]" "length cs"] by simp

section \<open>Round trip\<close>

definition ev_coef_bits :: "EncodingVector \<Rightarrow> bytes" where
  "ev_coef_bits ev = (if has_explicit_coefs ev then
     (case ev_field ev of Gf2_8_field \<Rightarrow> ev_coefficients ev
      | Gf2_4_field \<Rightarrow> pack_nibbles (ev_coefficients ev)) else [])"

definition flag_byte :: "Field \<Rightarrow> IdStorageFormat \<Rightarrow> bool \<Rightarrow> bool \<Rightarrow> u8" where
  "flag_byte f fmt c g = push_bit 4 (case f of Gf2_4_field \<Rightarrow> 0 | Gf2_8_field \<Rightarrow> 1) OR
     push_bit 2 (wire_value fmt) OR push_bit 1 (if c then 1 else 0) OR (if g then 1 else 0)"

lemma flag_byte_decode:
  "drop_bit 4 (flag_byte f fmt c g) AND 15 = (case f of Gf2_4_field \<Rightarrow> 0 | Gf2_8_field \<Rightarrow> 1)"
  "from_wire (drop_bit 2 (flag_byte f fmt c g) AND 3) = Ok fmt"
  "drop_bit 1 (flag_byte f fmt c g) AND 1 = (if c then 1 else 0)"
  "flag_byte f fmt c g AND 1 = (if g then 1 else 0)"
  by (cases f; cases fmt; cases c; cases g; simp add: flag_byte_def from_wire_def)+

text \<open>What the encoder has to respect for its encoding vectors to survive the wire.\<close>

definition ev_fits :: "EncodingVector \<Rightarrow> bytes \<Rightarrow> bool" where
  "ev_fits ev id_bits = (ev_source_ids ev \<noteq> [] \<and> length (ev_source_ids ev) \<le> 255 \<and>
     (ev_coefficients ev = [] \<or> length (ev_coefficients ev) = length (ev_source_ids ev)) \<and>
     (ev_field ev = Gf2_4_field \<longrightarrow> (\<forall>c \<in> set (ev_coefficients ev). c < 16)) \<and>
     id_format_fits (ev_id_format ev) (hd (ev_source_ids ev)) (tl (ev_source_ids ev)) \<and>
     12 + pad32 (length id_bits) + pad32 (length (ev_coef_bits ev)) \<le> 1020)"

lemma ev_serialise_layout:
  assumes "id_encode (ev_source_ids ev) (ev_id_format ev) = Ok id_bits"
  obtains z1 z2 gen len where
    "ev_serialise ev = Ok ([of_nat (len div 4), flag_byte (ev_field ev) (ev_id_format ev) (has_explicit_coefs ev)
        (has_generation ev), nb_ids ev, nb_coefs ev] @
        u32_to_be_bytes (case ev_source_ids ev of [] \<Rightarrow> 0 | i # _ \<Rightarrow> i) @ gen @ id_bits @ z1 @ ev_coef_bits ev @ z2)"
    "gen = (if has_generation ev then [ev_generation ev, 0, 0, 0] else [])"
    "length id_bits + length z1 = pad32 (length id_bits)"
    "length (ev_coef_bits ev) + length z2 = pad32 (length (ev_coef_bits ev))"
    "len = 8 + length gen + pad32 (length id_bits) + pad32 (length (ev_coef_bits ev))"
proof -
  obtain z1 where z1: "resize id_bits (pad32 (length id_bits)) = id_bits @ z1"
      "length id_bits + length z1 = pad32 (length id_bits)" using resize_pad32 [of id_bits] by blast
  let ?cb = "ev_coef_bits ev"
  obtain z2 where z2: "resize ?cb (pad32 (length ?cb)) = ?cb @ z2"
      "length ?cb + length z2 = pad32 (length ?cb)" using resize_pad32 [of ?cb] by blast
  let ?gen = "if has_generation ev then [ev_generation ev, 0, 0, 0] else []"
  define len where "len = 8 + length ?gen + pad32 (length id_bits) + pad32 (length ?cb)"
  have "len mod 4 = 0"
    using pad32_bounds(3) [of "length id_bits"] pad32_bounds(3) [of "length ?cb"]
    by (auto simp: len_def mod_add_eq [symmetric])
  then have len4: "(len + 3) div 4 = len div 4" by presburger
  have cb: "(if has_explicit_coefs ev then
        let bits = (case ev_field ev of Gf2_8_field \<Rightarrow> ev_coefficients ev
            | Gf2_4_field \<Rightarrow> pack_nibbles (ev_coefficients ev)) in resize bits (pad32 (length bits))
      else []) = ?cb @ z2"
    using z2 by (auto simp: ev_coef_bits_def pad32_def resize_def Let_def)
  have lc: "length (?cb @ z2) = pad32 (length ?cb)" using z2 by simp
  have len': "8 + (if has_generation ev then 4 else 0) + pad32 (length id_bits) + length (?cb @ z2) = len"
    unfolding lc len_def by simp
  have "ev_serialise ev = Ok ([of_nat (len div 4), flag_byte (ev_field ev) (ev_id_format ev) (has_explicit_coefs ev)
        (has_generation ev), nb_ids ev, nb_coefs ev] @
        u32_to_be_bytes (case ev_source_ids ev of [] \<Rightarrow> 0 | i # _ \<Rightarrow> i) @ ?gen @ id_bits @ z1 @ ?cb @ z2)"
    unfolding ev_serialise_def assms and_then.simps cb z1(1) Let_def [of "pad32 _"] Let_def [of "id_bits @ z1"]
      Let_def [of "?cb @ z2"] Let_def [of "has_generation ev"] Let_def [of "if has_generation ev then 4 else 0"]
    by (simp only: len' len4 Let_def flag_byte_def append_assoc)
  then show ?thesis using z1(2) z2(2) len_def by (rule that [OF _ refl])
qed

lemma ev_parse_coefs_bits:
  assumes "ev_field ev = Gf2_4_field \<longrightarrow> (\<forall>c \<in> set (ev_coefficients ev). c < 16)"
    and "buf = pre @ ev_coef_bits ev @ post" "off = length pre"
  shows "ev_parse_coefs buf (ev_field ev) (if has_explicit_coefs ev then 1 else 0)
    (length (ev_coefficients ev)) off = Ok (ev_coefficients ev)"
proof (cases "has_explicit_coefs ev")
  case True
  have "slice buf off (off + length (ev_coef_bits ev)) = Ok (ev_coef_bits ev)"
    using assms(2,3) by simp
  moreover have "length buf \<ge> off + length (ev_coef_bits ev)" using assms(2,3) by simp
  ultimately show ?thesis
    using True assms(1) by (cases "ev_field ev") (simp_all add: ev_parse_coefs_def ev_coef_bits_def unpack_pack_nibbles)
next
  case False
  then show ?thesis by (simp add: ev_parse_coefs_def has_explicit_coefs_def)
qed

text \<open>The serialised vector: a fixed part with an optional generation word, the identifiers, the
  coefficients, each padded.\<close>

lemma ev_layout:
  assumes enc: "id_encode (ev_source_ids ev) (ev_id_format ev) = Ok id_bits" and fits: "ev_fits ev id_bits"
    and ser: "ev_serialise ev = Ok bs"
  obtains pre z1 z2 where "bs = pre @ id_bits @ z1 @ ev_coef_bits ev @ z2"
    "length id_bits + length z1 = pad32 (length id_bits)"
    "unat (pre ! 0) * 4 = length bs"
    "pre ! 1 = flag_byte (ev_field ev) (ev_id_format ev) (has_explicit_coefs ev) (has_generation ev)"
    "pre ! 2 = nb_ids ev" "pre ! 3 = nb_coefs ev"
    "\<And>rest. read_be32 (pre @ rest) 4 = Ok (hd (ev_source_ids ev))"
    "length pre = (if has_generation ev then 12 else 8)" "has_generation ev \<Longrightarrow> pre ! 8 = ev_generation ev"
proof -
  from fits obtain i ids where ids: "ev_source_ids ev = i # ids" by (cases "ev_source_ids ev") (auto simp: ev_fits_def)
  let ?cb = "ev_coef_bits ev" and ?g = "has_generation ev"
  let ?fl = "flag_byte (ev_field ev) (ev_id_format ev) (has_explicit_coefs ev) ?g"
  obtain z1 z2 gen len where L: "ev_serialise ev = Ok ([of_nat (len div 4), ?fl, nb_ids ev, nb_coefs ev] @
        u32_to_be_bytes (case ev_source_ids ev of [] \<Rightarrow> 0 | i # _ \<Rightarrow> i) @ gen @ id_bits @ z1 @ ?cb @ z2)"
    "gen = (if ?g then [ev_generation ev, 0, 0, 0] else [])"
    "length id_bits + length z1 = pad32 (length id_bits)" "length ?cb + length z2 = pad32 (length ?cb)"
    "len = 8 + length gen + pad32 (length id_bits) + pad32 (length ?cb)"
    using enc by (rule ev_serialise_layout)
  define pre where "pre = [of_nat (len div 4), ?fl, nb_ids ev, nb_coefs ev] @ u32_to_be_bytes i @ gen"
  have bs: "bs = pre @ id_bits @ z1 @ ?cb @ z2" using ser L(1) by (simp add: ids pre_def)
  have lbs: "length bs = len" using L(3-5) by (simp add: bs pre_def)
  have small: "len \<le> 1020" using fits L(2,5) by (auto simp: ev_fits_def)
  have "len mod 4 = 0"
    using L(2,5) pad32_bounds(3) [of "length id_bits"] pad32_bounds(3) [of "length ?cb"]
    by (auto simp: mod_add_eq [symmetric])
  then have "len div 4 * 4 = len" by presburger
  then have words: "unat (of_nat (len div 4) :: u8) * 4 = len" using small by (simp add: unat_of_nat)
  show ?thesis
  proof (rule that [OF bs L(3)])
    show "read_be32 (pre @ rest) 4 = Ok (hd (ev_source_ids ev))" for rest
      using read_be32_append [of 4 "[of_nat (len div 4), ?fl, nb_ids ev, nb_coefs ev]" i] by (simp add: pre_def ids)
    show "unat (pre ! 0) * 4 = length bs" using words lbs by (simp add: pre_def)
    show "pre ! 8 = ev_generation ev" if "has_generation ev"
      using that L(2) by (simp add: pre_def nth_append)
  qed (simp_all add: pre_def L(2))
qed

text \<open>An encoding vector that fits its length fields (at most 255 identifiers and coefficients, 255
  words in all, 16-bit identifier deltas, coefficients of its field) is parsed back exactly, with the
  number of bytes consumed, whatever follows it in the packet.\<close>

lemma ev_parse_serialise:
  assumes enc: "id_encode (ev_source_ids ev) (ev_id_format ev) = Ok id_bits" and fits: "ev_fits ev id_bits"
    and ser: "ev_serialise ev = Ok bs"
  shows "ev_parse (bs @ rest) (ev_coded_id ev) = Ok (ev, length bs)"
proof -
  from fits obtain i ids where ids: "ev_source_ids ev = i # ids" by (cases "ev_source_ids ev") (auto simp: ev_fits_def)
  let ?cb = "ev_coef_bits ev" and ?e = "has_explicit_coefs ev" and ?g = "has_generation ev"
  obtain pre z1 z2 where bs: "bs = pre @ id_bits @ z1 @ ?cb @ z2" and pad: "length id_bits + length z1 = pad32 (length id_bits)"
    and words: "unat (pre ! 0) * 4 = length bs" and P: "pre ! 1 = flag_byte (ev_field ev) (ev_id_format ev) ?e ?g"
    "pre ! 2 = nb_ids ev" "pre ! 3 = nb_coefs ev" "\<And>rest. read_be32 (pre @ rest) 4 = Ok (hd (ev_source_ids ev))"
    and lp: "length pre = (if ?g then 12 else 8)" and g8: "?g \<Longrightarrow> pre ! 8 = ev_generation ev"
    using ev_layout [OF assms] by metis
  let ?body = "id_bits @ z1 @ ?cb @ z2"
  have "(bs @ rest) ! j = pre ! j" if "j < 8" for j
    using that lp by (simp add: bs nth_append split: if_splits)
  then have nth: "(bs @ rest) ! 0 = pre ! 0" "(bs @ rest) ! 1 = pre ! 1" "(bs @ rest) ! 2 = pre ! 2" "(bs @ rest) ! 3 = pre ! 3"
    by (simp_all del: nth_append)
  have "length (ev_source_ids ev) \<le> 255" "length (ev_coefficients ev) \<le> 255" using fits by (auto simp: ev_fits_def)
  then have n: "unat (nb_ids ev) = length (ev_source_ids ev)" "unat (nb_coefs ev) = length (ev_coefficients ev)"
    by (simp_all add: nb_ids_def nb_coefs_def unat_of_nat)
  have be: "read_be32 (bs @ rest) 4 = Ok i" using P(4) [of "?body @ rest"] by (simp add: bs ids)
  have off: "(if ?g then (if length (bs @ rest) < 12 then Err (BufferTooShort 12 (length (bs @ rest)))
      else Ok ((bs @ rest) ! 8, 12)) else Ok (0, 8)) = Ok (ev_generation ev, length pre)"
    using lp g8 by (auto simp: bs nth_append has_generation_def)
  have sl: "slice (bs @ rest) (length pre) (length bs) = Ok ?body"
    using slice_append(2) [of "length pre" pre "length bs" ?body rest] by (simp add: bs)
  have dec: "id_decode ?body (Suc (length ids)) i (ev_id_format ev) = Ok (i # ids, length id_bits)"
    using fits enc by (intro decode_encode_ids) (simp_all add: ev_fits_def ids)
  have cf: "ev_parse_coefs (bs @ rest) (ev_field ev) (if ?e then 1 else 0) (length (ev_coefficients ev))
      (length pre + pad32 (length id_bits)) = Ok (ev_coefficients ev)"
    by (rule ev_parse_coefs_bits [where pre = "pre @ id_bits @ z1" and post = "z2 @ rest"])
       (use fits pad in \<open>simp_all add: ev_fits_def bs\<close>)
  have consistent: "?e \<longrightarrow> length (ev_coefficients ev) = Suc (length ids)" "\<not> ?e \<longrightarrow> length (ev_coefficients ev) = 0"
    using fits by (auto simp: has_explicit_coefs_def ev_fits_def ids)
  have "\<not> length (bs @ rest) < 8" using lp by (simp add: bs)
  then show ?thesis
    unfolding ev_parse_def Let_def nth words P flag_byte_decode be
    using off sl dec cf consistent by (cases "ev_field ev"; cases ?e; cases ?g) (simp_all add: n ids)
qed

section \<open>Where the parser panics\<close>

lemma ev_parse_coefs_total: "ev_parse_coefs buf f c n off \<noteq> Panic"
  by (cases f) (auto simp: ev_parse_coefs_def Let_def slice_def)

text \<open>A vector whose length field is too small for its own fixed part, but which passes every check made before
  its body is cut out.\<close>

definition vector_overrun :: "bytes \<Rightarrow> bool" where
  "vector_overrun buf =
     (let words = unat (buf ! 0); c = bit (buf ! 1) 1; fixed = (if bit (buf ! 1) 0 then 12 else 8)
      in 8 \<le> length buf \<and> fixed \<le> length buf \<and> words * 4 \<le> length buf \<and> words * 4 < fixed \<and>
         drop_bit 4 (buf ! 1) \<le> 1 \<and> buf ! 3 = (if c then buf ! 2 else 0))"

lemma low_bit: "drop_bit n b AND 1 = (of_bool (bit b n) :: u8)" for b :: u8
  by (rule bit_word_eqI) (auto simp: bit_simps)

lemma vector_flag_bits:
  fixes b :: u8
  shows "drop_bit 4 b AND 0xF = drop_bit 4 b" "(drop_bit 1 b AND 0x1 = 1) = bit b 1" "(drop_bit 1 b AND 0x1 = 0) = (\<not> bit b 1)"
    "(b AND 0x1 = 1) = bit b 0" "(b AND 0x1 = 0) = (\<not> bit b 0)"
proof -
  have "drop_bit 4 b AND mask 4 = drop_bit 4 b"
    by (rule bit_word_eqI) (auto simp: bit_simps dest: bit_imp_le_length)
  then show "drop_bit 4 b AND 0xF = drop_bit 4 b" by (simp add: mask_eq_exp_minus_1)
  show "(drop_bit 1 b AND 0x1 = 1) = bit b 1" "(drop_bit 1 b AND 0x1 = 0) = (\<not> bit b 1)"
    unfolding low_bit by simp_all
  show "(b AND 0x1 = 1) = bit b 0" "(b AND 0x1 = 0) = (\<not> bit b 0)"
    using low_bit [of 0 b] by simp_all
qed

lemma flag_low: "bit (drop_bit 1 b) 0 = bit b 1" for b :: u8
  by (simp add: bit_drop_bit_eq)

lemma ccgi: "(drop_bit 4 b \<le> 1) = (drop_bit 4 b = 0 \<or> drop_bit 4 b = (1 :: u8))" for b :: u8
proof -
  have "x \<le> 1 \<longleftrightarrow> x = 0 \<or> x = 1" for x :: u8
    by (metis (no_types) dual_order.eq_iff le_zero_eq  linorder_not_le word_less_1 zero_neq_one  le_less)
  then show ?thesis .
qed
lemma ev_parse_panics: "(ev_parse buf cid = Panic) = vector_overrun buf"
proof (cases "8 \<le> length buf \<and> unat (buf ! 0) * 4 \<le> length buf")
  case True
  then obtain first where first: "read_be32 buf 4 = Ok first" using read_be32_Ok [of 4 buf] by auto
  obtain fmt where fmt: "from_wire (drop_bit 2 (buf ! 1) AND 0x3) = Ok fmt" by (rule from_wire_total)
  have b: "(slice buf k (unat (buf ! 0) * 4) = Panic) = (unat (buf ! 0) * 4 < k)" for k using True by (auto simp: slice_def)
  have t: "(and_then (slice buf k (unat (buf ! 0) * 4)) (\<lambda>body.
      and_then (id_decode body m first fmt) (\<lambda>(ids, used). and_then (ev_parse_coefs buf field c n (k + pad32 used)) (\<lambda>cs. Ok (g ids cs)))) = Panic)
      = (unat (buf ! 0) * 4 < k)" for k m field c n and g :: "u32 list \<Rightarrow> bytes \<Rightarrow> EncodingVector \<times> nat"
    unfolding and_then_Panic_iff b by (auto simp: id_decode_total and_then_Panic_iff ev_parse_coefs_total split: prod.splits)
  have l: "\<not> length buf < 8" "\<not> length buf < unat (buf ! 0) * 4" using True by simp_all
  note e = ev_parse_def [of buf cid, unfolded Let_def first fmt if_not_P [OF l(1)] if_not_P [OF l(2)] vector_flag_bits flag_low and_then.simps]
  show ?thesis
  proof (cases "drop_bit 4 (buf ! 1) \<le> 1")
    case field: True
    then obtain fl where fl: "(if drop_bit 4 (buf ! 1) = 0 then Ok Gf2_4_field else if drop_bit 4 (buf ! 1) = 1 then Ok Gf2_8_field
        else Err (MalformedEncodingVector ''invalid CCGI'')) = Ok fl" by (auto simp: ccgi)
    show ?thesis
    proof (cases "buf ! 3 = (if bit (buf ! 1) 1 then buf ! 2 else 0)")
      case True
      then have c: "\<not> (\<not> bit (buf ! 1) 1 \<and> unat (buf ! 3) \<noteq> 0)" "\<not> (bit (buf ! 1) 1 \<and> unat (buf ! 3) \<noteq> unat (buf ! 2))" by simp_all
      show ?thesis
        unfolding e fl and_then.simps if_not_P [OF c(1)] if_not_P [OF c(2)] vector_overrun_def Let_def
        using l field True by (cases "bit (buf ! 1) 0") (auto simp: t)
    next
      case False
      then show ?thesis unfolding e fl and_then.simps vector_overrun_def Let_def
        by (auto simp: word_unat_eq_iff [symmetric] unat_eq_0 split: if_splits)
    qed
  qed (auto simp: e vector_overrun_def Let_def ccgi)
qed (auto simp: ev_parse_def vector_overrun_def Let_def)

end
