(* ===== verification/Wire_Packet.thy ===== *)
theory Wire_Packet
  imports Encoding_Vector
begin

text \<open>
  \<^verbatim>\<open>src/wire/common.rs\<close>, \<^verbatim>\<open>source.rs\<close> and \<^verbatim>\<open>coded.rs\<close>: the common
  header and the two data packets. Byte slices borrowed from the buffer are lists.
\<close>

section \<open>Common header\<close>

datatype PacketType = Source | Coded | Feedback

datatype CciLength = Zero | One | Two | Three

record CommonHeader =
  flags :: u8
  reserved :: u8
  hdr_len_words :: u8
  pkt_type :: u8

abbreviation header_SIZE :: nat where "header_SIZE \<equiv> 4"
abbreviation header_VERSION :: u8 where "header_VERSION \<equiv> 1"

text \<open>The discriminants: \<open>as u8\<close> on the two enumerations.\<close>

fun packet_type_value :: "PacketType \<Rightarrow> u8" where
  "packet_type_value Source = 0"
| "packet_type_value Coded = 1"
| "packet_type_value Feedback = 2"

fun cci_length_words :: "CciLength \<Rightarrow> u8" where
  "cci_length_words Zero = 0"
| "cci_length_words One = 1"
| "cci_length_words Two = 2"
| "cci_length_words Three = 3"

definition cci_length_bytes :: "CciLength \<Rightarrow> nat" where
  "cci_length_bytes c = unat (cci_length_words c) * 4"

definition packet_type_from_u8 :: "u8 \<Rightarrow> PacketType res" where
  "packet_type_from_u8 v =
     (if v = 0 then Ok Source else if v = 1 then Ok Coded else if v = 2 then Ok Feedback
      else Err (UnknownPacketType v))"

definition cci_from_words :: "u8 \<Rightarrow> CciLength" where
  "cci_from_words w =
     (let v = w AND 0x3 in if v = 0 then Zero else if v = 1 then One else if v = 2 then Two else Three)"

definition CommonHeader_new :: "PacketType \<Rightarrow> CciLength \<Rightarrow> bool \<Rightarrow> u8 \<Rightarrow> CommonHeader" where
  "CommonHeader_new pt cci has_tsi words =
     \<lparr> flags = push_bit 4 header_VERSION OR push_bit 2 (cci_length_words cci) OR push_bit 1 (if has_tsi then 1 else 0),
       reserved = 0, hdr_len_words = words, pkt_type = packet_type_value pt \<rparr>"

definition header_to_bytes :: "CommonHeader \<Rightarrow> bytes" where
  "header_to_bytes h = [flags h, reserved h, hdr_len_words h, pkt_type h]"

definition header_version :: "CommonHeader \<Rightarrow> u8" where
  "header_version h = drop_bit 4 (flags h)"

definition cci_words :: "CommonHeader \<Rightarrow> u8" where
  "cci_words h = drop_bit 2 (flags h) AND 0x3"

definition has_tsi :: "CommonHeader \<Rightarrow> bool" where
  "has_tsi h = (drop_bit 1 (flags h) AND 0x1 = 1)"

definition hdr_len_bytes :: "CommonHeader \<Rightarrow> nat" where
  "hdr_len_bytes h = unat (hdr_len_words h) * 4"

definition packet_type :: "CommonHeader \<Rightarrow> PacketType res" where
  "packet_type h = packet_type_from_u8 (pkt_type h)"

definition cci_length :: "CommonHeader \<Rightarrow> CciLength" where
  "cci_length h = cci_from_words (cci_words h)"

definition body_offset :: "CommonHeader \<Rightarrow> nat" where
  "body_offset h = header_SIZE + unat (cci_words h) * 4 + (if has_tsi h then 4 else 0)"

definition CommonHeader_parse :: "bytes \<Rightarrow> CommonHeader res" where
  "CommonHeader_parse buf =
     (if length buf < header_SIZE then Err (BufferTooShort header_SIZE (length buf))
      else
        let hdr = \<lparr> flags = buf ! 0, reserved = buf ! 1, hdr_len_words = buf ! 2, pkt_type = buf ! 3 \<rparr>;
            ver = header_version hdr in
        if ver \<noteq> header_VERSION then Err (UnsupportedVersion ver)
        else if hdr_len_bytes hdr > length buf
        then Err (InvalidHeaderLength (hdr_len_words hdr) (length buf))
        else Ok hdr)"

text \<open>The optional TSI after the CCI, read alike by both parsers: its value and the offset after it.\<close>

definition tsi_parse :: "bytes \<Rightarrow> CommonHeader \<Rightarrow> nat \<Rightarrow> (u32 option \<times> nat) res" where
  "tsi_parse buf header cci_end =
     (if has_tsi header then and_then (read_be32 buf cci_end) (\<lambda>v. Ok (Some v, cci_end + 4)) else Ok (None, cci_end))"

section \<open>Source packets\<close>

record SourcePacket =
  sp_header :: CommonHeader
  sp_cci :: bytes
  sp_tsi :: "u32 option"
  source_symbol_id :: u32
  sp_payload :: bytes

definition SourcePacket_parse :: "bytes \<Rightarrow> SourcePacket res" where
  "SourcePacket_parse buf =
     and_then (CommonHeader_parse buf) (\<lambda>header.
     and_then (packet_type header) (\<lambda>pt.
     if pt \<noteq> Source then and_then (index buf 3) (\<lambda>b. Err (UnknownPacketType b))
     else
       let body_off = body_offset header in
       if length buf < body_off + 4 then Err (BufferTooShort (body_off + 4) (length buf))
       else
         let cci_end = header_SIZE + unat (cci_words header) * 4 in
         and_then (slice buf header_SIZE cci_end) (\<lambda>cci.
         and_then (tsi_parse buf header cci_end) (\<lambda>(tsi, id_off).
         and_then (read_be32 buf id_off) (\<lambda>sid.
         and_then (slice_from buf (id_off + 4)) (\<lambda>payload.
           Ok \<lparr> sp_header = header, sp_cci = cci, sp_tsi = tsi, source_symbol_id = sid,
                sp_payload = payload \<rparr>))))))"

definition tsi_bytes :: "u32 option \<Rightarrow> bytes" where
  "tsi_bytes tsi = (case tsi of Some t \<Rightarrow> u32_to_be_bytes t | None \<Rightarrow> [])"

definition SourcePacket_serialise :: "u32 \<Rightarrow> bytes \<Rightarrow> bytes \<Rightarrow> u32 option \<Rightarrow> bytes res" where
  "SourcePacket_serialise sid payload cci_bytes tsi =
     (if \<not> (length cci_bytes mod 4 = 0 \<and> length cci_bytes \<le> 12) then Panic
      else
        let cci_words = of_nat (length cci_bytes div 4) :: u8;
            has_tsi = (tsi \<noteq> None);
            hdr_words = 1 + cci_words + (if has_tsi then 1 else 0) + 1;
            hdr = CommonHeader_new Source (cci_from_words cci_words) has_tsi hdr_words
        in Ok (header_to_bytes hdr @ cci_bytes @ tsi_bytes tsi @ u32_to_be_bytes sid @ payload))"

section \<open>Coded packets\<close>

record CodedPacket =
  cp_header :: CommonHeader
  cp_cci :: bytes
  cp_tsi :: "u32 option"
  coded_symbol_id :: u32
  cp_ev :: EncodingVector
  cp_payload :: bytes

text \<open>The CCI and TSI are cut out before the length of the buffer is compared with them.\<close>

definition CodedPacket_parse :: "bytes \<Rightarrow> CodedPacket res" where
  "CodedPacket_parse buf =
     and_then (CommonHeader_parse buf) (\<lambda>header.
     and_then (packet_type header) (\<lambda>pt.
     if pt \<noteq> Coded then and_then (index buf 3) (\<lambda>b. Err (UnknownPacketType b))
     else
       let cci_start = header_SIZE; cci_end = cci_start + unat (cci_words header) * 4 in
       and_then (slice buf cci_start cci_end) (\<lambda>cci.
       and_then (tsi_parse buf header cci_end) (\<lambda>(tsi, after_tsi).
       if length buf < after_tsi + 4 then Err (BufferTooShort (after_tsi + 4) (length buf))
       else
         and_then (read_be32 buf after_tsi) (\<lambda>cid.
         let ev_start = after_tsi + 4 in
         if length buf \<le> ev_start then Err (BufferTooShort (ev_start + 1) (length buf))
         else
           and_then (slice_from buf ev_start) (\<lambda>rest.
           and_then (ev_parse rest cid) (\<lambda>(ev, ev_consumed).
           let payload_start = ev_start + ev_consumed in
           and_then (slice_from buf payload_start) (\<lambda>payload.
             Ok \<lparr> cp_header = header, cp_cci = cci, cp_tsi = tsi, coded_symbol_id = cid, cp_ev = ev,
                  cp_payload = payload \<rparr>))))))))"

definition CodedPacket_serialise :: "u32 \<Rightarrow> EncodingVector \<Rightarrow> bytes \<Rightarrow> bytes \<Rightarrow> u32 option \<Rightarrow> bytes res" where
  "CodedPacket_serialise cid ev payload cci_bytes tsi =
     (if \<not> (length cci_bytes mod 4 = 0 \<and> length cci_bytes \<le> 12) then Panic
      else
        let cci_words = of_nat (length cci_bytes div 4) :: u8;
            has_tsi = (tsi \<noteq> None) in
        and_then (ev_serialise ev) (\<lambda>ev_bytes.
          let ev_words = of_nat ((length ev_bytes + 3) div 4) :: u8;
              hdr_words = 1 + cci_words + (if has_tsi then 1 else 0) + 1 + ev_words;
              hdr = CommonHeader_new Coded (cci_from_words cci_words) has_tsi hdr_words;
              ev_pad = (4 - length ev_bytes mod 4) mod 4
          in Ok (header_to_bytes hdr @ cci_bytes @ tsi_bytes tsi @ u32_to_be_bytes cid @ ev_bytes @
                 replicate ev_pad 0 @ payload)))"

section \<open>Header round trip\<close>

lemma header_new_fields [wire_simps]:
  "header_version (CommonHeader_new pt cci tsi w) = 1"
  "cci_words (CommonHeader_new pt cci tsi w) = cci_length_words cci"
  "has_tsi (CommonHeader_new pt cci tsi w) = tsi"
  "hdr_len_words (CommonHeader_new pt cci tsi w) = w"
  "packet_type (CommonHeader_new pt cci tsi w) = Ok pt"
  by (cases pt; cases cci; cases tsi;
      simp add: CommonHeader_new_def header_version_def cci_words_def has_tsi_def packet_type_def packet_type_from_u8_def)+

lemma length_header_to_bytes [simp]: "length (header_to_bytes h) = 4"
  by (simp add: header_to_bytes_def)

lemma header_parse_bytes:
  assumes "header_version h = 1" "hdr_len_bytes h \<le> 4 + length rest"
  shows "CommonHeader_parse (header_to_bytes h @ rest) = Ok h"
  using assms by (cases h) (simp add: CommonHeader_parse_def header_to_bytes_def header_version_def)

lemma cci_words_of_length:
  assumes "length cci mod 4 = 0" "length cci \<le> 12"
  shows "unat (cci_length_words (cci_from_words (of_nat (length cci div 4)))) * 4 = length cci"
proof -
  have "length cci \<in> {0, 4, 8, 12}" using assms unfolding insert_iff empty_iff by presburger
  then show ?thesis by (auto simp: cci_from_words_def)
qed

lemma length_tsi_bytes [simp]: "length (tsi_bytes tsi) = (if tsi = None then 0 else 4)"
  by (auto simp: tsi_bytes_def split: option.split)

lemma tsi_parse_bytes:
  assumes "has_tsi h = (tsi \<noteq> None)" "buf = pre @ tsi_bytes tsi @ rest" "n = length pre"
  shows "tsi_parse buf h n = Ok (tsi, n + length (tsi_bytes tsi))"
  using assms by (cases tsi) (simp_all add: tsi_parse_def tsi_bytes_def)

text \<open>A header whose word count, reduced to a byte, claims no more than what precedes the payload.\<close>

lemma header_fits: "unat (of_nat n :: u8) * 4 \<le> n * 4"
  using mod_less_eq_dividend [of n 256] by (simp add: unat_of_nat)

section \<open>Packet round trips\<close>

lemma source_parse_serialise:
  assumes "SourcePacket_serialise sid payload cci tsi = Ok buf"
  shows "\<exists>h. SourcePacket_parse buf = Ok \<lparr> sp_header = h, sp_cci = cci, sp_tsi = tsi, source_symbol_id = sid, sp_payload = payload \<rparr>"
proof -
  let ?cw = "of_nat (length cci div 4) :: u8"
  let ?n = "1 + length cci div 4 + (if tsi = None then 0 else 1) + 1"
  define h where "h = CommonHeader_new Source (cci_from_words ?cw) (tsi \<noteq> None) (1 + ?cw + (if tsi \<noteq> None then 1 else 0) + 1)"
  have c: "length cci mod 4 = 0" "length cci \<le> 12"
    using assms by (auto simp: SourcePacket_serialise_def split: if_splits)
  have buf: "buf = header_to_bytes h @ cci @ tsi_bytes tsi @ u32_to_be_bytes sid @ payload"
    using assms c by (simp add: SourcePacket_serialise_def Let_def h_def)
  have cw: "unat (cci_words h) * 4 = length cci" using cci_words_of_length [OF c] by (simp add: h_def wire_simps)
  have "hdr_len_words h = of_nat ?n" by (simp add: h_def wire_simps)
  then have "hdr_len_bytes h \<le> ?n * 4" unfolding hdr_len_bytes_def using header_fits [of ?n] by simp
  also have "\<dots> \<le> length buf" using div_times_less_eq_dividend [of "length cci" 4, THEN trans_le_add1] by (simp add: buf)
  finally have p: "CommonHeader_parse buf = Ok h"
    unfolding buf by (intro header_parse_bytes) (simp_all add: h_def wire_simps)
  have sl: "slice buf 4 (4 + length cci) = Ok cci" unfolding buf by (rule slice_append(2)) simp_all
  have t: "tsi_parse buf h (4 + length cci) = Ok (tsi, 4 + length cci + length (tsi_bytes tsi))"
    by (rule tsi_parse_bytes [where pre = "header_to_bytes h @ cci" and rest = "u32_to_be_bytes sid @ payload"])
       (simp_all add: buf h_def wire_simps)
  let ?o = "4 + length cci + length (tsi_bytes tsi)"
  have i: "read_be32 buf ?o = Ok sid"
    using read_be32_append [of ?o "header_to_bytes h @ cci @ tsi_bytes tsi" sid payload] by (simp add: buf)
  have f: "slice_from buf (?o + 4) = Ok payload"
    using slice_from_append [of "?o + 4" "header_to_bytes h @ cci @ tsi_bytes tsi @ u32_to_be_bytes sid" payload] by (simp add: buf)
  have b: "body_offset h = ?o" using cw by (simp add: body_offset_def) (simp add: h_def wire_simps)
  have "packet_type h = Ok Source" "\<not> length buf < ?o + 4" by (simp_all add: h_def wire_simps buf)
  then show ?thesis
    unfolding SourcePacket_parse_def Let_def using p sl t i f b cw by simp
qed

lemma ev_bytes_aligned:
  assumes "id_encode (ev_source_ids ev) (ev_id_format ev) = Ok id_bits" "ev_fits ev id_bits" "ev_serialise ev = Ok bs"
  shows "length bs mod 4 = 0" "0 < length bs"
proof -
  obtain pre z1 z2 where b: "bs = pre @ id_bits @ z1 @ ev_coef_bits ev @ z2" and w: "unat (pre ! 0) * 4 = length bs"
    and l: "length pre = (if has_generation ev then 12 else 8)"
    using ev_layout [OF assms] by metis
  show "length bs mod 4 = 0" unfolding w [symmetric] by simp
  show "0 < length bs" using l by (auto simp: b)
qed

lemma coded_parse_serialise:
  assumes enc: "id_encode (ev_source_ids ev) (ev_id_format ev) = Ok id_bits" and fits: "ev_fits ev id_bits"
    and ser: "CodedPacket_serialise (ev_coded_id ev) ev payload cci tsi = Ok buf"
  shows "\<exists>h. CodedPacket_parse buf = Ok \<lparr> cp_header = h, cp_cci = cci, cp_tsi = tsi,
    coded_symbol_id = ev_coded_id ev, cp_ev = ev, cp_payload = payload \<rparr>"
proof -
  have c: "length cci mod 4 = 0" "length cci \<le> 12"
    using ser by (auto simp: CodedPacket_serialise_def split: if_splits)
  obtain bs where bs: "ev_serialise ev = Ok bs"
    using ser c by (auto simp: CodedPacket_serialise_def Let_def)
  note al = ev_bytes_aligned [OF enc fits bs]
  have d4: "(length bs + 3) div 4 * 4 = length bs" using al(1) by presburger
  let ?cw = "of_nat (length cci div 4) :: u8"
  let ?n = "1 + length cci div 4 + (if tsi = None then 0 else 1) + 1 + (length bs + 3) div 4"
  define h where "h = CommonHeader_new Coded (cci_from_words ?cw) (tsi \<noteq> None)
    (1 + ?cw + (if tsi \<noteq> None then 1 else 0) + 1 + of_nat ((length bs + 3) div 4))"
  have buf: "buf = header_to_bytes h @ cci @ tsi_bytes tsi @ u32_to_be_bytes (ev_coded_id ev) @ bs @ payload"
    using ser c al by (simp add: CodedPacket_serialise_def Let_def h_def bs)
  have cw: "unat (cci_words h) * 4 = length cci" using cci_words_of_length [OF c] by (simp add: h_def wire_simps)
  have "hdr_len_words h = of_nat ?n" by (simp only: h_def wire_simps) simp
  then have "hdr_len_bytes h \<le> ?n * 4" unfolding hdr_len_bytes_def using header_fits [of ?n] by simp
  also have "\<dots> = 8 + length cci div 4 * 4 + (if tsi = None then 0 else 4) + length bs"
    unfolding add_mult_distrib d4 by simp
  also have "\<dots> \<le> length buf"
    using div_times_less_eq_dividend [of "length cci" 4, THEN trans_le_add1] by (simp add: buf)
  finally have p: "CommonHeader_parse buf = Ok h"
    unfolding buf by (intro header_parse_bytes) (simp_all add: h_def wire_simps)
  have sl: "slice buf 4 (4 + length cci) = Ok cci" unfolding buf by (rule slice_append(2)) simp_all
  have t: "tsi_parse buf h (4 + length cci) = Ok (tsi, 4 + length cci + length (tsi_bytes tsi))"
    by (rule tsi_parse_bytes [where pre = "header_to_bytes h @ cci"]) (simp_all add: buf h_def wire_simps)
  let ?o = "4 + length cci + length (tsi_bytes tsi)" and ?pre = "header_to_bytes h @ cci @ tsi_bytes tsi"
  have i: "read_be32 buf ?o = Ok (ev_coded_id ev)"
    using read_be32_append [of ?o ?pre "ev_coded_id ev" "bs @ payload"] by (simp add: buf)
  have f: "slice_from buf (?o + 4) = Ok (bs @ payload)"
    using slice_from_append [of "?o + 4" "?pre @ u32_to_be_bytes (ev_coded_id ev)" "bs @ payload"] by (simp add: buf)
  have g: "slice_from buf (?o + 4 + length bs) = Ok payload"
    using slice_from_append [of "?o + 4 + length bs" "?pre @ u32_to_be_bytes (ev_coded_id ev) @ bs" payload] by (simp add: buf)
  have "packet_type h = Ok Coded" "\<not> length buf < ?o + 4" "\<not> length buf \<le> ?o + 4"
    using al(2) by (simp_all add: h_def wire_simps buf)
  then show ?thesis
    unfolding CodedPacket_parse_def Let_def using p sl t i f g cw ev_parse_serialise [OF enc fits bs, of payload] by simp
qed

text \<open>C27: a serialised coded packet whose encoding vector fits its length fields is parsed back to its
  identifier, encoding vector, payload, CCI and TSI.\<close>

theorem coded_packet_roundtrip:
  assumes "id_encode (ev_source_ids ev) (ev_id_format ev) = Ok id_bits" "ev_fits ev id_bits"
    and "CodedPacket_serialise (ev_coded_id ev) ev payload cci tsi = Ok buf"
  shows "\<exists>h. CodedPacket_parse buf = Ok \<lparr> cp_header = h, cp_cci = cci, cp_tsi = tsi,
    coded_symbol_id = ev_coded_id ev, cp_ev = ev, cp_payload = payload \<rparr>"
  using assms by (rule coded_parse_serialise)

theorem coded_packet_roundtrip_witness:
  "\<exists>buf h. CodedPacket_serialise 9 (EncodingVector_vandermonde Gf2_8_field 9 [5, 6]) [1, 2] [] (Some 5) = Ok buf \<and>
     CodedPacket_parse buf = Ok \<lparr> cp_header = h, cp_cci = [], cp_tsi = Some 5, coded_symbol_id = 9,
       cp_ev = EncodingVector_vandermonde Gf2_8_field 9 [5, 6], cp_payload = [1, 2] \<rparr>"
proof -
  let ?ev = "EncodingVector_vandermonde Gf2_8_field 9 [5, 6]"
  have e: "id_encode (ev_source_ids ?ev) (ev_id_format ?ev) = Ok []"
    by (simp add: EncodingVector_vandermonde_def best_for_def)
  have f: "ev_fits ?ev []"
    by (simp add: ev_fits_def EncodingVector_vandermonde_def best_for_def id_format_fits_def ev_coef_bits_def
        has_explicit_coefs_def pad32_def)
  obtain bs where "ev_serialise ?ev = Ok bs" using e by (simp add: ev_serialise_def Let_def)
  then obtain buf where "CodedPacket_serialise (ev_coded_id ?ev) ?ev [1, 2] [] (Some 5) = Ok buf"
    by (simp add: CodedPacket_serialise_def Let_def)
  with coded_packet_roundtrip [OF e f this] show ?thesis by (auto simp: EncodingVector_vandermonde_def)
qed

section \<open>Malformed input\<close>

lemma header_parse_cases:
  obtains e where "CommonHeader_parse buf = Err e" | h where "CommonHeader_parse buf = Ok h" "4 \<le> length buf"
proof (cases "CommonHeader_parse buf")
  case (Ok h)
  with that(2) show ?thesis by (simp add: CommonHeader_parse_def split: if_splits)
next
  case Panic
  then show ?thesis by (simp add: CommonHeader_parse_def Let_def split: if_splits)
qed (rule that(1))

lemma packet_type_cases: obtains e where "packet_type h = Err e" | pt where "packet_type h = Ok pt"
proof (cases "packet_type h")
  case Panic
  then show ?thesis by (simp add: packet_type_def packet_type_from_u8_def split: if_splits)
qed (erule that)+

lemma source_parse_total: "SourcePacket_parse buf \<noteq> Panic"
proof (cases rule: header_parse_cases [of buf])
  case (2 h)
  let ?c = "4 + unat (cci_words h) * 4"
  have "tsi_parse buf h ?c = (if has_tsi h then Ok (Some v, ?c + 4) else Ok (None, ?c))"
    if "read_be32 buf ?c = Ok v" for v
    using that by (simp add: tsi_parse_def)
  moreover obtain v where "?c + 4 \<le> length buf \<longrightarrow> read_be32 buf ?c = Ok v" using read_be32_Ok by blast
  moreover obtain w where "?c + 8 \<le> length buf \<longrightarrow> read_be32 buf (?c + 4) = Ok w" using read_be32_Ok [of "?c + 4" buf] by auto
  ultimately show ?thesis
    using 2 by (cases rule: packet_type_cases [of h])
      (auto simp: SourcePacket_parse_def Let_def body_offset_def slice_def slice_from_def index_def)
qed (simp add: SourcePacket_parse_def)

text \<open>A coded packet that ends within its CCI or its TSI, or has such a vector.\<close>

definition coded_overrun :: "bytes \<Rightarrow> bool" where
  "coded_overrun buf =
     (case CommonHeader_parse buf of
        Ok h \<Rightarrow> packet_type h = Ok Coded \<and>
          (let start = 4 + unat (cci_words h) * 4 + (if has_tsi h then 4 else 0)
           in length buf < start \<or> start + 4 < length buf \<and> vector_overrun (drop (start + 4) buf))
      | _ \<Rightarrow> False)"

lemma coded_parse_panic_iff: "(CodedPacket_parse buf = Panic) = coded_overrun buf"
proof (cases "CommonHeader_parse buf")
  case (Ok h)
  let ?c = "4 + unat (cci_words h) * 4"
  have len: "4 \<le> length buf" using Ok by (cases rule: header_parse_cases [of buf]) simp_all
  show ?thesis
  proof (cases "packet_type h = Ok Coded")
    case True
    note e = CodedPacket_parse_def [of buf, unfolded Ok and_then.simps True Let_def, simplified]
    show ?thesis
    proof (cases "length buf < ?c + (if has_tsi h then 4 else 0)")
      case short: True
      then have "slice buf 4 ?c = Panic \<or> (\<exists>cci. slice buf 4 ?c = Ok cci) \<and> tsi_parse buf h ?c = Panic"
        by (auto simp: slice_def tsi_parse_def read_be32_def split: if_splits)
      then show ?thesis using short True by (auto simp: e coded_overrun_def Ok Let_def)
    next
      case False
      then obtain cci tsi where r: "slice buf 4 ?c = Ok cci" "tsi_parse buf h ?c = Ok (tsi, ?c + (if has_tsi h then 4 else 0))"
        using read_be32_Ok [of ?c buf] by (auto simp: slice_def tsi_parse_def split: if_splits)
      let ?s = "?c + (if has_tsi h then 4 else 0)"
      show ?thesis
      proof (cases "?s + 4 < length buf")
        case long: True
        then obtain cid where cid: "read_be32 buf ?s = Ok cid" using read_be32_Ok [of ?s buf] by auto
        have used: "n \<le> length rest" if "ev_parse rest cid = Ok (ev, n)" for rest ev n
          using that by (auto simp: ev_parse_def and_then_Ok_iff Let_def split: if_splits)
        have "(CodedPacket_parse buf = Panic) = (ev_parse (drop (?s + 4) buf) cid = Panic)"
          using long by (auto simp: e r cid slice_from_def and_then_Panic_iff split: prod.splits dest!: used)
        with False True long show ?thesis by (simp add: coded_overrun_def Ok Let_def ev_parse_panics)
      next
        case short: False
        then show ?thesis using False True read_be32_Ok [of ?s buf] by (auto simp: e r coded_overrun_def Ok Let_def)
      qed
    qed
  next
    case False
    then show ?thesis using len
      by (cases rule: packet_type_cases [of h]) (auto simp: CodedPacket_parse_def coded_overrun_def Ok index_def)
  qed
next
  case Panic
  then show ?thesis by (cases rule: header_parse_cases [of buf]) simp_all
qed (simp add: CodedPacket_parse_def coded_overrun_def)

text \<open>C35: the parser of coded packets panics on exactly these datagrams: those with a valid header of type Coded that end
  within the CCI or the TSI which the header announces, and those whose encoding vector has a valid flag byte
  and consistent counts but announces fewer words than its own fixed part has. On every other list of bytes, of
  any length, it returns a packet or an error. The class is not empty: four bytes that announce three CCI
  words are in it, and so is a vector of no words.\<close>

theorem coded_parse_panics:
  "(CodedPacket_parse buf = Panic) = coded_overrun buf \<and>
   coded_overrun [0x1C, 0, 1, 1] \<and> coded_overrun [0x10, 0, 1, 1, 0, 0, 0, 1, 0, 0x10, 0, 0, 0, 0, 0, 0]"
  by (simp add: coded_parse_panic_iff) (simp add: coded_overrun_def vector_overrun_def CommonHeader_parse_def header_version_def
      hdr_len_bytes_def packet_type_def packet_type_from_u8_def cci_words_def has_tsi_def Let_def)

end
