(* ===== verification/Wire_Feedback.thy ===== *)
theory Wire_Feedback
  imports Wire_Packet
begin

text \<open>
  \<^verbatim>\<open>src/wire/feedback.rs\<close> and \<^verbatim>\<open>src/wire/mod.rs\<close>: window-update packets with their
  SACK bit vector, and the top-level packet. A loss rate is the exact rational value of its finite
  \<open>f64\<close>; the scalings by 256 are exact on \<open>f64\<close>, so no rounding is left out.
\<close>

record FeedbackPacket =
  fb_tsi :: "u32 option"
  nb_missing_src :: u32
  nb_not_used_coded :: u32
  first_src_id :: u32
  plr_raw :: u8
  sack :: bytes

text \<open>\<open>f64 as u8\<close> truncates.\<close>

definition encode_plr :: "rat \<Rightarrow> u8" where
  "encode_plr loss = of_int \<lfloor>min (max 0 (min 1 loss) * 256) 255\<rfloor>"

definition decode_plr :: "u8 \<Rightarrow> rat" where
  "decode_plr raw = of_nat (unat raw) / 256"

definition set_bit_msb :: "bytes \<Rightarrow> nat \<Rightarrow> bytes" where
  "set_bit_msb sk offset =
     (let byte = offset div 8; bit = 7 - offset mod 8
      in sk[byte := sk ! byte OR push_bit bit 1])"

text \<open>The body of the loop of \<open>build_sack\<close>.\<close>

definition sack_step :: "u32 \<Rightarrow> bytes \<Rightarrow> u32 \<Rightarrow> bytes res" where
  "sack_step first sk sid =
     (if sid < first then Ok sk
      else
        let offset = unat (sid - first); byte = offset div 8
        in if byte < length sk then Ok (set_bit_msb sk offset) else Panic)"

definition build_sack :: "u32 \<Rightarrow> u32 list \<Rightarrow> bytes res" where
  "build_sack first acked_ids =
     (if acked_ids = [] then Ok []
      else
        let last_id = Max (set acked_ids) in
        if last_id < first then Ok []
        else
          let span = unat (last_id - first) + 1;
              byte_len = (span + 7) div 8
          in for_each (sack_step first) (replicate byte_len 0) acked_ids)"

definition FeedbackPacket_build :: "u32 \<Rightarrow> u32 \<Rightarrow> u32 \<Rightarrow> rat \<Rightarrow> u32 list \<Rightarrow> FeedbackPacket res" where
  "FeedbackPacket_build first nb_missing nb_not_used loss_rate acked_ids =
     and_then (build_sack first acked_ids) (\<lambda>sk.
       Ok \<lparr> fb_tsi = None, nb_missing_src = nb_missing, nb_not_used_coded = nb_not_used,
            first_src_id = first, plr_raw = encode_plr loss_rate, sack = sk \<rparr>)"

definition FeedbackPacket_serialise :: "FeedbackPacket \<Rightarrow> bytes" where
  "FeedbackPacket_serialise p =
     (let sack_bytes = length (sack p);
          sack_padded = pad32 sack_bytes;
          tsi_words = (if fb_tsi p \<noteq> None then 1 else 0) :: u8;
          hdr_words = 1 + tsi_words + 2 + 1;
          hdr = CommonHeader_new Feedback Zero (fb_tsi p \<noteq> None) hdr_words
      in header_to_bytes hdr @ tsi_bytes (fb_tsi p) @ u32_to_be_bytes (nb_missing_src p) @
         u32_to_be_bytes (nb_not_used_coded p) @ u32_to_be_bytes (first_src_id p) @
         [plr_raw p, of_nat sack_bytes] @ [0, 0] @ sack p @ replicate (sack_padded - sack_bytes) 0)"

definition FeedbackPacket_parse :: "bytes \<Rightarrow> FeedbackPacket res" where
  "FeedbackPacket_parse buf =
     and_then (CommonHeader_parse buf) (\<lambda>header.
       let off = body_offset header in
       if length buf < off + 16 then Err (BufferTooShort (off + 16) (length buf))
       else
         and_then (if has_tsi header then and_then (read_be32 buf header_SIZE) (\<lambda>t. Ok (Some t)) else Ok None) (\<lambda>tsi.
         and_then (read_be32 buf off) (\<lambda>missing.
         and_then (read_be32 buf (off + 4)) (\<lambda>not_used.
         and_then (read_be32 buf (off + 8)) (\<lambda>first.
         and_then (index buf (off + 12)) (\<lambda>plr.
         and_then (index buf (off + 13)) (\<lambda>size.
           let sack_size = unat size; sack_start = off + 16 in
           if length buf < sack_start + sack_size then Err (BufferTooShort (sack_start + sack_size) (length buf))
           else and_then (slice buf sack_start (sack_start + sack_size)) (\<lambda>sk.
             Ok \<lparr> fb_tsi = tsi, nb_missing_src = missing, nb_not_used_coded = not_used, first_src_id = first,
                  plr_raw = plr, sack = sk \<rparr>))))))))"

definition is_acked :: "FeedbackPacket \<Rightarrow> u32 \<Rightarrow> bool" where
  "is_acked p sid =
     (if sid < first_src_id p then False
      else
        let offset = unat (sid - first_src_id p); byte = offset div 8; bit = 7 - offset mod 8 in
        if byte \<ge> length (sack p) then False
        else drop_bit bit (sack p ! byte) AND 1 = 1)"

text \<open>The \<open>flat_map\<close> over bytes and the \<open>filter_map\<close> over the bits of a byte.\<close>

definition acked_ids :: "FeedbackPacket \<Rightarrow> u32 list" where
  "acked_ids p =
     concat (map (\<lambda>(byte_idx, byte).
       map (\<lambda>bit. first_src_id p + of_nat byte_idx * 8 + of_nat bit)
         (filter (\<lambda>bit. drop_bit (7 - bit) byte AND 1 = 1) [0..<8]))
       (zip [0..<length (sack p)] (sack p)))"

section \<open>The packet of the wire\<close>

datatype DelpPacket = SourceP SourcePacket | CodedP CodedPacket | FeedbackP FeedbackPacket

definition DelpPacket_parse :: "bytes \<Rightarrow> DelpPacket res" where
  "DelpPacket_parse buf =
     (if length buf < header_SIZE then Err (BufferTooShort header_SIZE (length buf))
      else
        and_then (CommonHeader_parse buf) (\<lambda>hdr.
        and_then (packet_type hdr) (\<lambda>pt. case pt of
            Source \<Rightarrow> and_then (SourcePacket_parse buf) (\<lambda>p. Ok (SourceP p))
          | Coded \<Rightarrow> and_then (CodedPacket_parse buf) (\<lambda>p. Ok (CodedP p))
          | Feedback \<Rightarrow> and_then (FeedbackPacket_parse buf) (\<lambda>p. Ok (FeedbackP p)))))"

section \<open>Loss rates\<close>

lemma encode_plr_256th:
  assumes "k \<le> 255"
  shows "encode_plr (of_nat k / 256) = of_nat k"
proof -
  have "max 0 (min 1 (of_nat k / 256 :: rat)) * 256 = of_nat k" "min (of_nat k) (255 :: rat) = of_nat k"
    using assms of_nat_le_iff [of k 255, where 'a = rat] by (simp_all add: min_def max_def)
  then show ?thesis by (simp add: encode_plr_def del: of_nat_le_iff)
qed

lemma encode_decode_plr: "encode_plr (decode_plr raw) = raw"
  using encode_plr_256th [of "unat raw"] u8_unat_less [of raw] unfolding decode_plr_def by simp

lemma encode_plr_floor: "unat (encode_plr l) = nat \<lfloor>min (max 0 (min 1 l) * 256) 255\<rfloor>"
proof -
  let ?x = "min (max 0 (min 1 l) * 256) 255"
  have "0 \<le> ?x" "?x < 256" by (auto simp: min_def max_def)
  then have "0 \<le> \<lfloor>?x\<rfloor>" "\<lfloor>?x\<rfloor> < 256" by (auto simp: floor_less_iff)
  then obtain k where "\<lfloor>?x\<rfloor> = int k" "k < 256" by (metis nonneg_int_cases of_nat_less_iff of_nat_numeral)
  then show ?thesis by (simp add: encode_plr_def unat_of_nat)
qed

lemma decode_encode_plr:
  assumes "0 \<le> l" "l \<le> 1"
  shows "decode_plr (encode_plr l) \<le> l" "l - decode_plr (encode_plr l) \<le> 1 / 256"
proof -
  let ?x = "min (l * 256) 255"
  have u: "(of_nat (unat (encode_plr l)) :: rat) = of_int \<lfloor>?x\<rfloor>"
    unfolding encode_plr_floor using assms by (auto simp: max_def min_def of_nat_nat)
  have "of_int \<lfloor>?x\<rfloor> \<le> ?x" "?x < of_int \<lfloor>?x\<rfloor> + 1" by linarith+
  moreover have "?x = l * 256 \<or> ?x = 255 \<and> 255 \<le> l * 256" by (auto simp: min_def)
  ultimately show "decode_plr (encode_plr l) \<le> l" "l - decode_plr (encode_plr l) \<le> 1 / 256"
    using assms unfolding decode_plr_def u by (auto simp: field_simps)
qed

section \<open>The SACK vector\<close>

lemma and_one_bit: "(drop_bit n w AND 1 = 1) = bit w n" for w :: u8
  by (metis and_one_eq bit_iff_odd_drop_bit odd_iff_mod_2_eq_one)

definition sack_bit :: "bytes \<Rightarrow> nat \<Rightarrow> bool" where
  "sack_bit sk n = (n div 8 < length sk \<and> bit (sk ! (n div 8)) (7 - n mod 8))"

lemma is_acked_sack_bit:
  "is_acked p sid = (first_src_id p \<le> sid \<and> sack_bit (sack p) (unat (sid - first_src_id p)))"
  by (auto simp: is_acked_def Let_def sack_bit_def and_one_bit)

lemma sack_bit_set:
  assumes "n div 8 < length sk"
  shows "sack_bit (set_bit_msb sk n) m = (m = n \<or> sack_bit sk m)"
proof -
  have "m div 8 = n div 8 \<Longrightarrow> (7 - m mod 8 = 7 - n mod 8) = (m = n)"
    by (metis diff_diff_cancel div_mult_mod_eq less_Suc_eq_le mod_less_divisor numeral_eq_Suc pred_numeral_simps(2,3)
        zero_less_numeral Num.BitM.simps semiring_norm(26,27,28))
  with assms show ?thesis
    by (auto simp: sack_bit_def set_bit_msb_def Let_def nth_list_update bit_or_iff bit_push_bit_iff bit_exp_iff)
qed

lemma length_set_bit_msb [simp]: "length (set_bit_msb sk n) = length sk"
  by (simp add: set_bit_msb_def Let_def)

lemma sack_bit_zero [simp]: "\<not> sack_bit (replicate k 0) n" "\<not> sack_bit (0 # replicate k 0) n"
  by (simp_all add: sack_bit_def flip: replicate_Suc)

lemma build_sack_loop:
  assumes "\<forall>sid \<in> set ids. first \<le> sid \<longrightarrow> unat (sid - first) div 8 < length sk"
  shows "\<exists>sk'. for_each (sack_step first) sk ids = Ok sk' \<and> length sk' = length sk \<and>
    (\<forall>n. sack_bit sk' n = (sack_bit sk n \<or> (\<exists>sid \<in> set ids. first \<le> sid \<and> unat (sid - first) = n)))"
  using assms
proof (induction ids arbitrary: sk)
  case (Cons sid ids)
  show ?case
  proof (cases "sid < first")
    case True
    then have "sack_step first sk sid = Ok sk" "\<not> first \<le> sid" by (simp_all add: sack_step_def)
    with Cons.IH [of sk] Cons.prems show ?thesis by simp
  next
    case False
    let ?n = "unat (sid - first)"
    have n: "?n div 8 < length sk" using False Cons.prems by simp
    then have step: "sack_step first sk sid = Ok (set_bit_msb sk ?n)" using False by (simp add: sack_step_def)
    from Cons.IH [of "set_bit_msb sk ?n"] Cons.prems obtain sk' where
      "for_each (sack_step first) (set_bit_msb sk ?n) ids = Ok sk'" "length sk' = length sk"
      "\<forall>m. sack_bit sk' m = (sack_bit (set_bit_msb sk ?n) m \<or> (\<exists>sid \<in> set ids. first \<le> sid \<and> unat (sid - first) = m))"
      by auto
    with False step show ?thesis by (intro exI [of _ sk']) (auto simp: sack_bit_set [OF n])
  qed
qed simp

lemma build_sack_bits:
  obtains sk where "build_sack first ids = Ok sk"
    "\<And>n. sack_bit sk n = (\<exists>sid \<in> set ids. first \<le> sid \<and> unat (sid - first) = n)"
proof (cases "ids = [] \<or> Max (set ids) < first")
  case True
  then have "\<not> first \<le> sid" if "sid \<in> set ids" for sid
    using that Max_ge [of "set ids" sid] by (metis List.finite_set empty_iff list.set(1) leD order_trans)
  with True show ?thesis by (intro that [of "[]"]) (auto simp: build_sack_def Let_def sack_bit_def)
next
  case False
  let ?len = "(unat (Max (set ids) - first) + 1 + 7) div 8"
  have "unat (sid - first) div 8 < ?len" if "sid \<in> set ids" "first \<le> sid" for sid
  proof -
    have "unat sid \<le> unat (Max (set ids))" using that by (simp flip: word_le_nat_alt)
    then have "unat (sid - first) \<le> unat (Max (set ids) - first)"
      using that False by (simp add: unat_sub word_le_nat_alt not_less)
    then show ?thesis by linarith
  qed
  then have "\<forall>sid \<in> set ids. first \<le> sid \<longrightarrow> unat (sid - first) div 8 < length (replicate ?len (0 :: u8))" by simp
  from build_sack_loop [OF this] show ?thesis
    using False that by (auto simp: build_sack_def Let_def)
qed

lemma sack_acks:
  assumes "FeedbackPacket_build first missing unused loss ids = Ok p"
  shows "is_acked p sid = (sid \<in> set ids \<and> first \<le> sid)"
proof -
  obtain sk where "build_sack first ids = Ok sk"
    "\<And>n. sack_bit sk n = (\<exists>sid \<in> set ids. first \<le> sid \<and> unat (sid - first) = n)"
    using build_sack_bits [of first ids] by blast
  moreover from this have "sack p = sk" "first_src_id p = first" using assms by (auto simp: FeedbackPacket_build_def)
  ultimately show ?thesis by (auto simp: is_acked_sack_bit word_unat_eq_iff [symmetric])
qed

lemma acked_ids_iff:
  assumes "unat (first_src_id p) + 8 * length (sack p) \<le> 2 ^ 32"
  shows "sid \<in> set (acked_ids p) = is_acked p sid"
proof -
  let ?b = "first_src_id p"
  have "sid \<in> set (acked_ids p) = (\<exists>n < 8 * length (sack p). sack_bit (sack p) n \<and> sid = ?b + of_nat n)"
  proof
    assume "sid \<in> set (acked_ids p)"
    then obtain i j where "i < length (sack p)" "j < 8" "bit (sack p ! i) (7 - j)" "sid = ?b + of_nat i * 8 + of_nat j"
      by (auto simp: acked_ids_def and_one_bit set_zip)
    then show "\<exists>n < 8 * length (sack p). sack_bit (sack p) n \<and> sid = ?b + of_nat n"
      by (intro exI [of _ "8 * i + j"]) (auto simp: sack_bit_def)
  next
    assume "\<exists>n < 8 * length (sack p). sack_bit (sack p) n \<and> sid = ?b + of_nat n"
    then obtain n where n: "n div 8 < length (sack p)" "bit (sack p ! (n div 8)) (7 - n mod 8)" "sid = ?b + of_nat n"
      by (auto simp: sack_bit_def)
    have "(of_nat n :: u32) = of_nat (n div 8) * 8 + of_nat (n mod 8)"
      by (metis div_mult_mod_eq of_nat_add of_nat_mult of_nat_numeral)
    with n show "sid \<in> set (acked_ids p)"
      by (auto simp: acked_ids_def set_zip and_one_bit image_iff add.assoc intro!: exI [of _ "n div 8"])
         (intro exI [of _ "sack p ! (n div 8)"] conjI exI [of _ "n div 8"] exI [of _ "n mod 8"]; simp)
  qed
  also have "\<dots> = is_acked p sid"
  proof
    assume "\<exists>n < 8 * length (sack p). sack_bit (sack p) n \<and> sid = ?b + of_nat n"
    then obtain n where n: "n < 8 * length (sack p)" "sack_bit (sack p) n" "sid = ?b + of_nat n" by blast
    then have "unat (of_nat n :: u32) = n" "unat sid = unat ?b + n"
      using assms by (simp_all add: unat_of_nat unat_word_ariths)
    then show "is_acked p sid" using n by (simp add: is_acked_sack_bit word_le_nat_alt)
  next
    assume a: "is_acked p sid"
    then have "sack_bit (sack p) (unat (sid - ?b))" by (simp add: is_acked_sack_bit)
    moreover from this have "unat (sid - ?b) < 8 * length (sack p)" by (auto simp: sack_bit_def)
    ultimately show "\<exists>n < 8 * length (sack p). sack_bit (sack p) n \<and> sid = ?b + of_nat n" by force
  qed
  finally show ?thesis .
qed

section \<open>Round trip and robustness of parsing\<close>

lemma feedback_parse_serialise:
  assumes "length (sack p) \<le> 255"
  shows "FeedbackPacket_parse (FeedbackPacket_serialise p @ rest) = Ok p"
proof -
  let ?w = "1 + (if fb_tsi p \<noteq> None then 1 else 0) + 2 + 1 :: u8"
  define h where "h = CommonHeader_new Feedback Zero (fb_tsi p \<noteq> None) ?w"
  define t where "t = tsi_bytes (fb_tsi p)"
  define pad where "pad = replicate (pad32 (length (sack p)) - length (sack p)) (0 :: u8)"
  define buf where "buf = FeedbackPacket_serialise p @ rest"
  let ?m = "u32_to_be_bytes (nb_missing_src p)" and ?u = "u32_to_be_bytes (nb_not_used_coded p)"
    and ?f = "u32_to_be_bytes (first_src_id p)" and ?e = "[plr_raw p, of_nat (length (sack p)), 0, 0]"
  have buf: "buf = header_to_bytes h @ t @ ?m @ ?u @ ?f @ ?e @ sack p @ pad @ rest"
    by (simp add: buf_def FeedbackPacket_serialise_def Let_def h_def t_def pad_def)
  have "unat ?w * 4 \<le> 20" by (cases "fb_tsi p") simp_all
  then have parse: "CommonHeader_parse buf = Ok h"
    unfolding buf by (intro header_parse_bytes) (simp_all add: hdr_len_bytes_def h_def wire_simps)
  let ?o = "4 + length t"
  have off: "body_offset h = ?o" by (simp add: body_offset_def h_def wire_simps t_def)
  have tsi: "(if has_tsi h then and_then (read_be32 buf 4) (\<lambda>t. Ok (Some t)) else Ok None) = Ok (fb_tsi p)"
    using read_be32_append [of 4 "header_to_bytes h"]
    by (cases "fb_tsi p") (simp_all add: buf t_def tsi_bytes_def, simp_all add: h_def wire_simps)
  have m: "read_be32 buf ?o = Ok (nb_missing_src p)"
    using read_be32_append [of ?o "header_to_bytes h @ t"] by (simp add: buf)
  have u: "read_be32 buf (?o + 4) = Ok (nb_not_used_coded p)"
    using read_be32_append [of "?o + 4" "header_to_bytes h @ t @ ?m"] by (simp add: buf)
  have f: "read_be32 buf (?o + 8) = Ok (first_src_id p)"
    using read_be32_append [of "?o + 8" "header_to_bytes h @ t @ ?m @ ?u"] by (simp add: buf)
  have i: "index buf (?o + 12) = Ok (plr_raw p)" "index buf (?o + 13) = Ok (of_nat (length (sack p)))"
    using index_append [of "?o + 12" "header_to_bytes h @ t @ ?m @ ?u @ ?f"]
      index_append [of "?o + 13" "header_to_bytes h @ t @ ?m @ ?u @ ?f @ [plr_raw p]"] by (simp_all add: buf)
  have s: "slice buf (?o + 16) (?o + 16 + length (sack p)) = Ok (sack p)"
    using slice_append(2) [of "?o + 16" "header_to_bytes h @ t @ ?m @ ?u @ ?f @ ?e" "?o + 16 + length (sack p)" "sack p"]
    by (simp add: buf)
  have n: "unat (of_nat (length (sack p)) :: u8) = length (sack p)" using assms by (simp add: unat_of_nat)
  have "\<not> length buf < ?o + 16" "\<not> length buf < ?o + 16 + length (sack p)" by (simp_all add: buf)
  then show ?thesis
    unfolding buf_def [symmetric] FeedbackPacket_parse_def parse Let_def and_then.simps off tsi using m u f i s n by simp
qed

text \<open>C28: a window update with at most 255 bytes of SACK vector is parsed back exactly from its serialisation,
  and is recognised as a feedback packet.\<close>

theorem feedback_roundtrip:
  assumes "length (sack p) \<le> 255"
  shows "DelpPacket_parse (FeedbackPacket_serialise p) = Ok (FeedbackP p)"
proof -
  let ?w = "1 + (if fb_tsi p \<noteq> None then 1 else 0) + 2 + 1 :: u8"
  let ?h = "CommonHeader_new Feedback Zero (fb_tsi p \<noteq> None) ?w"
  obtain rest where buf: "FeedbackPacket_serialise p = header_to_bytes ?h @ rest" "16 \<le> length rest"
    by (simp add: FeedbackPacket_serialise_def Let_def)
  have "unat ?w * 4 \<le> 20" by (cases "fb_tsi p") simp_all
  then have "CommonHeader_parse (header_to_bytes ?h @ rest) = Ok ?h"
    using buf(2) by (intro header_parse_bytes) (simp_all add: hdr_len_bytes_def wire_simps)
  then show ?thesis
    using feedback_parse_serialise [OF assms, of "[]"] by (simp add: DelpPacket_parse_def buf(1) wire_simps)
qed

theorem feedback_roundtrip_witness:
  "DelpPacket_parse (FeedbackPacket_serialise \<lparr> fb_tsi = Some 3, nb_missing_src = 1, nb_not_used_coded = 0,
       first_src_id = 70, plr_raw = 12, sack = [0x80, 1] \<rparr>) =
     Ok (FeedbackP \<lparr> fb_tsi = Some 3, nb_missing_src = 1, nb_not_used_coded = 0, first_src_id = 70, plr_raw = 12,
       sack = [0x80, 1] \<rparr>)"
  by (rule feedback_roundtrip) simp

lemma feedback_parse_total: "FeedbackPacket_parse buf \<noteq> Panic"
proof (cases rule: header_parse_cases [of buf])
  case (2 h)
  have o: "4 \<le> body_offset h" by (simp add: body_offset_def)
  have r: "\<exists>v. read_be32 buf a = Ok v" if "a + 4 \<le> length buf" for a using that by (rule read_be32_Ok)
  show ?thesis
  proof (cases "length buf < body_offset h + 16")
    case False
    with o obtain a b c d where "read_be32 buf 4 = Ok a" "read_be32 buf (body_offset h) = Ok b"
      "read_be32 buf (body_offset h + 4) = Ok c" "read_be32 buf (body_offset h + 8) = Ok d"
      using r [of 4] r [of "body_offset h"] r [of "body_offset h + 4"] r [of "body_offset h + 8"] by auto
    with 2 False show ?thesis by (simp add: FeedbackPacket_parse_def Let_def index_def slice_def)
  qed (use 2 in \<open>simp add: FeedbackPacket_parse_def Let_def\<close>)
qed (simp add: FeedbackPacket_parse_def)

text \<open>C29: a feedback packet built from a set of received identifiers acknowledges exactly those of them that
  are not below its first identifier, and the iterator over the acknowledged identifiers yields exactly
  these as long as the vector does not reach past the last identifier.\<close>

theorem feedback_acks_received:
  assumes "FeedbackPacket_build first missing unused loss ids = Ok p"
  shows "is_acked p sid = (sid \<in> set ids \<and> first \<le> sid) \<and>
    (unat first + 8 * length (sack p) \<le> 2 ^ 32 \<longrightarrow> set (acked_ids p) = {sid \<in> set ids. first \<le> sid})"
proof -
  have "first_src_id p = first" using assms by (auto simp: FeedbackPacket_build_def)
  then show ?thesis using sack_acks [OF assms] acked_ids_iff [of p] by auto
qed

theorem feedback_acks_received_witness:
  "\<exists>p. FeedbackPacket_build 10 2 0 (1 / 10) [10, 11, 13, 8] = Ok p \<and> is_acked p 13 \<and> \<not> is_acked p 12 \<and> \<not> is_acked p 8"
proof -
  obtain sk where "build_sack 10 [10, 11, 13, 8] = Ok sk" using build_sack_bits by blast
  then obtain p where "FeedbackPacket_build 10 2 0 (1 / 10) [10, 11, 13, 8] = Ok p"
    by (simp add: FeedbackPacket_build_def)
  with feedback_acks_received [OF this, of 13] feedback_acks_received [OF this, of 12] feedback_acks_received [OF this, of 8]
  show ?thesis by auto
qed

text \<open>The loss rate on the wire: encoding a decoded byte gives the byte back, and a rate between 0 and 1
  is rounded down by at most one 256th.\<close>

lemma plr_bounds:
  "encode_plr (decode_plr raw) = raw \<and>
   (0 \<le> l \<and> l \<le> 1 \<longrightarrow> decode_plr (encode_plr l) \<le> l \<and> l - decode_plr (encode_plr l) \<le> 1 / 256)"
  using encode_decode_plr decode_encode_plr by blast

end
