(* ===== verification/Btree_Map.thy ===== *)
theory Btree_Map
  imports Delp_Prelude
begin

text \<open>
  \<open>std::collections::BTreeMap\<close> as the association list of its entries in ascending key order. The
  locale \<open>ordered_map\<close> is what the codec relies on; the interpretation \<open>bt\<close> shows that the
  list operations provide it.
\<close>

type_synonym ('k, 'v) btree = "('k \<times> 'v) list"

fun bt_get :: "('k, 'v) btree \<Rightarrow> 'k \<Rightarrow> 'v option" where
  "bt_get [] k = None"
| "bt_get ((a, v) # m) k = (if k = a then Some v else bt_get m k)"

fun bt_insert :: "('k::linorder, 'v) btree \<Rightarrow> 'k \<Rightarrow> 'v \<Rightarrow> ('k, 'v) btree" where
  "bt_insert [] k v = [(k, v)]"
| "bt_insert ((a, w) # m) k v =
     (if k < a then (k, v) # (a, w) # m
      else if k = a then (k, v) # m
      else (a, w) # bt_insert m k v)"

fun bt_remove :: "('k, 'v) btree \<Rightarrow> 'k \<Rightarrow> ('k, 'v) btree" where
  "bt_remove [] k = []"
| "bt_remove ((a, v) # m) k = (if k = a then m else (a, v) # bt_remove m k)"

definition bt_keys :: "('k, 'v) btree \<Rightarrow> 'k list" where
  "bt_keys m = map fst m"

definition bt_contains_key :: "('k, 'v) btree \<Rightarrow> 'k \<Rightarrow> bool" where
  "bt_contains_key m k = (bt_get m k \<noteq> None)"

text \<open>\<open>entry(k).or_insert(v)\<close> keeps what is there.\<close>

definition bt_or_insert :: "('k::linorder, 'v) btree \<Rightarrow> 'k \<Rightarrow> 'v \<Rightarrow> ('k, 'v) btree" where
  "bt_or_insert m k v = (if bt_contains_key m k then m else bt_insert m k v)"

text \<open>A loop over \<open>values_mut()\<close>: keys stay, every value is replaced.\<close>

definition bt_map_values :: "('k \<Rightarrow> 'v \<Rightarrow> 'w) \<Rightarrow> ('k, 'v) btree \<Rightarrow> ('k, 'w) btree" where
  "bt_map_values f m = map (\<lambda>(k, v). (k, f k v)) m"

definition bt_ok :: "('k::linorder, 'v) btree \<Rightarrow> bool" where
  "bt_ok m = sorted_wrt (<) (bt_keys m)"

section \<open>The interface\<close>

locale ordered_map =
  fixes empty :: 'm
    and get :: "'m \<Rightarrow> 'k::linorder \<Rightarrow> 'v option"
    and insert :: "'m \<Rightarrow> 'k \<Rightarrow> 'v \<Rightarrow> 'm"
    and remove :: "'m \<Rightarrow> 'k \<Rightarrow> 'm"
    and keys :: "'m \<Rightarrow> 'k list"
    and inv :: "'m \<Rightarrow> bool"
  assumes inv_empty: "inv empty"
    and inv_insert: "inv m \<Longrightarrow> inv (insert m k v)"
    and inv_remove: "inv m \<Longrightarrow> inv (remove m k)"
    and get_empty: "get empty k = None"
    and get_insert: "inv m \<Longrightarrow> get (insert m k v) j = (if j = k then Some v else get m j)"
    and get_remove: "inv m \<Longrightarrow> get (remove m k) j = (if j = k then None else get m j)"
    and set_keys: "inv m \<Longrightarrow> set (keys m) = {k. get m k \<noteq> None}"
    and sorted_keys: "inv m \<Longrightarrow> sorted_wrt (<) (keys m)"
begin

lemma keys_distinct: "inv m \<Longrightarrow> distinct (keys m)"
  using sorted_keys [of m] by (simp add: strict_sorted_iff)

lemma get_None_iff: "inv m \<Longrightarrow> (get m k = None) = (k \<notin> set (keys m))"
  by (simp add: set_keys)

lemma keys_insert: "inv m \<Longrightarrow> set (keys (insert m k v)) = Set.insert k (set (keys m))"
  by (auto simp: set_keys inv_insert get_insert split: if_splits)

lemma keys_remove: "inv m \<Longrightarrow> set (keys (remove m k)) = set (keys m) - {k}"
  by (auto simp: set_keys inv_remove get_remove split: if_splits)

lemma length_keys_insert:
  "inv m \<Longrightarrow> length (keys (insert m k v)) = (if get m k = None then Suc (length (keys m)) else length (keys m))"
  using keys_insert [of m k v] keys_distinct [of m] keys_distinct [OF inv_insert, of m k v]
  by (simp add: get_None_iff insert_absorb flip: distinct_card)

lemma length_keys_remove:
  "inv m \<Longrightarrow> length (keys (remove m k)) = (if get m k = None then length (keys m) else length (keys m) - 1)"
  using keys_remove [of m k] keys_distinct [of m] keys_distinct [OF inv_remove, of m k]
  by (simp add: get_None_iff flip: distinct_card)

lemma remove_shrinks: "inv m \<Longrightarrow> get m k \<noteq> None \<Longrightarrow> length (keys (remove m k)) < length (keys m)"
proof -
  assume a: "inv m" "get m k \<noteq> None"
  then have "keys m \<noteq> []" using set_keys [of m] by auto
  with a show ?thesis by (auto simp: length_keys_remove)
qed

lemma insert_grows_by_one: "inv m \<Longrightarrow> length (keys (insert m k v)) \<le> Suc (length (keys m))"
  by (simp add: length_keys_insert)

text \<open>The least key comes first.\<close>

lemma hd_keys_least: "inv m \<Longrightarrow> get m k \<noteq> None \<Longrightarrow> hd (keys m) \<le> k"
proof -
  assume a: "inv m" "get m k \<noteq> None"
  then have "k \<in> set (keys m)" by (simp add: set_keys)
  then show ?thesis using sorted_keys [OF a(1)] by (cases "keys m") auto
qed

end

section \<open>The association list provides it\<close>

lemma bt_get_map_of: "bt_get m = map_of m"
  by (rule ext, induct_tac m) auto

lemma bt_get_None_iff: "(bt_get m k = None) = (k \<notin> set (bt_keys m))"
  by (simp add: bt_get_map_of bt_keys_def map_of_eq_None_iff)

lemma bt_keys_simps [simp]: "bt_keys [] = []" "bt_keys (p # m) = fst p # bt_keys m"
  by (simp_all add: bt_keys_def)

lemma length_bt_keys [simp]: "length (bt_keys m) = length m"
  by (simp add: bt_keys_def)

lemma bt_ok_simps [simp]:
  "bt_ok []" "bt_ok (p # m) = ((\<forall>k \<in> set (bt_keys m). fst p < k) \<and> bt_ok m)"
  by (simp_all add: bt_ok_def)

lemma set_bt_keys_insert: "set (bt_keys (bt_insert m k v)) = insert k (set (bt_keys m))"
  by (induction m k v rule: bt_insert.induct) auto

lemma set_bt_keys_remove: "set (bt_keys (bt_remove m k)) \<subseteq> set (bt_keys m)"
  by (induction m k rule: bt_remove.induct) auto

lemma bt_ok_insert: "bt_ok m \<Longrightarrow> bt_ok (bt_insert m k v)"
  by (induction m k v rule: bt_insert.induct) (auto simp: set_bt_keys_insert)

lemma bt_ok_remove: "bt_ok m \<Longrightarrow> bt_ok (bt_remove m k)"
  by (induction m k rule: bt_remove.induct) (use set_bt_keys_remove in fastforce)+

lemma bt_get_insert: "bt_ok m \<Longrightarrow> bt_get (bt_insert m k v) j = (if j = k then Some v else bt_get m j)"
  by (induction m k v rule: bt_insert.induct) auto

lemma bt_get_remove: "bt_ok m \<Longrightarrow> bt_get (bt_remove m k) j = (if j = k then None else bt_get m j)"
proof (induction m k rule: bt_remove.induct)
  case (2 a v m k)
  then have "bt_get m a = None" by (auto simp: bt_get_None_iff)
  with 2 show ?case by auto
qed simp

interpretation bt: ordered_map "[]" bt_get bt_insert bt_remove bt_keys bt_ok
proof
  show "set (bt_keys m) = {k. bt_get m k \<noteq> None}" for m :: "('k::linorder, 'v) btree"
    using bt_get_None_iff [of m] by auto
  show "sorted_wrt (<) (bt_keys m)" if "bt_ok m" for m :: "('k::linorder, 'v) btree"
    using that by (simp add: bt_ok_def)
qed (simp_all add: bt_ok_insert bt_ok_remove bt_get_insert bt_get_remove)

declare bt_get_insert [btree_simps] bt_get_remove [btree_simps] bt_ok_insert [btree_simps]
  bt_ok_remove [btree_simps]

lemma bt_get_Some_mem: "bt_get m k = Some v \<Longrightarrow> (k, v) \<in> set m"
  by (simp add: bt_get_map_of map_of_SomeD)

lemma bt_mem_get: "bt_ok m \<Longrightarrow> (k, v) \<in> set m \<Longrightarrow> bt_get m k = Some v"
proof -
  assume a: "bt_ok m" "(k, v) \<in> set m"
  have "distinct (map fst m)" using bt.keys_distinct [OF a(1)] by (simp add: bt_keys_def)
  with a(2) show ?thesis by (simp add: bt_get_map_of)
qed

lemma bt_get_map_values [btree_simps]: "bt_get (bt_map_values f m) k = map_option (f k) (bt_get m k)"
  by (induction m) (auto simp: bt_map_values_def)

lemma bt_keys_map_values [simp]: "bt_keys (bt_map_values f m) = bt_keys m"
  by (simp add: bt_keys_def bt_map_values_def comp_def case_prod_unfold)

lemma bt_ok_map_values [btree_simps]: "bt_ok (bt_map_values f m) = bt_ok m"
  by (simp add: bt_ok_def)

lemma bt_get_or_insert [btree_simps]:
  "bt_ok m \<Longrightarrow> bt_get (bt_or_insert m k v) j = (if j = k \<and> bt_get m k = None then Some v else bt_get m j)"
  by (auto simp: bt_or_insert_def bt_contains_key_def bt_get_insert)

lemma bt_ok_or_insert [btree_simps]: "bt_ok m \<Longrightarrow> bt_ok (bt_or_insert m k v)"
  by (simp add: bt_or_insert_def bt_ok_insert)

end
