(* ===== verification/Policy.thy ===== *)
theory Policy
  imports Wire_Feedback Btree_Map
begin

text \<open>
  \<^verbatim>\<open>src/policy/mod.rs\<close> and \<^verbatim>\<open>src/policy/defaults.rs\<close>: the state snapshots, the
  acknowledgement tracker, the four policy traits and their implementations. A trait is a record of
  its methods over the type of the implementing object; the contract its clients rely on is a locale,
  interpreted on every implementation that keeps it. The hash map of receivers is an ordered map: no
  policy depends on its iteration order. \<open>f64\<close> rates are rationals; the one operation that can round,
  the addition in \<open>AdaptiveFecRate\<close>, takes the rounding as a parameter.
\<close>

section \<open>State snapshots\<close>

record EncoderState =
  es_window_size :: nat
  es_window_capacity :: nat
  es_next_source_id :: SourceSymbolId
  es_next_coded_id :: CodedSymbolId
  es_loss_rate :: rat
  es_window_ids :: "SourceSymbolId list"

record DecoderState =
  ds_next_delivery_id :: SourceSymbolId
  ds_packets_received :: u64
  ds_loss_rate :: rat
  ds_nb_missing_src :: u32
  ds_nb_not_used_coded :: u32

section \<open>Acknowledgement tracking\<close>

record ReceiverEntry =
  cumulative_ack :: SourceSymbolId
  entry_sack :: "SourceSymbolId set"

datatype ReceiverAckState = ReceiverAckState (receivers: "(ReceiverId, ReceiverEntry) btree")

definition ReceiverEntry_default :: ReceiverEntry where
  "ReceiverEntry_default = \<lparr> cumulative_ack = 0, entry_sack = {} \<rparr>"

definition ReceiverAckState_default :: ReceiverAckState where
  "ReceiverAckState_default = ReceiverAckState []"

text \<open>The last loop of \<open>update\<close>; every round takes an identifier out of the set.\<close>

function advance :: "ReceiverEntry \<Rightarrow> ReceiverEntry" where
  "advance e =
     (if cumulative_ack e \<in> entry_sack e
      then advance \<lparr> cumulative_ack = cumulative_ack e + 1, entry_sack = entry_sack e - {cumulative_ack e} \<rparr>
      else e)"
  by pat_completeness auto
termination
  by (relation "measure (\<lambda>e. card (entry_sack e))") (auto intro!: diff_less simp: card_gt_0_iff)

declare advance.simps [simp del]

definition entry_update :: "ReceiverEntry \<Rightarrow> FeedbackPacket \<Rightarrow> ReceiverEntry" where
  "entry_update e pkt =
     (let e = (if first_src_id pkt > cumulative_ack e
               then \<lparr> cumulative_ack = first_src_id pkt, entry_sack = {i \<in> entry_sack e. i \<ge> first_src_id pkt} \<rparr>
               else e);
          e = e\<lparr> entry_sack := entry_sack e \<union> set (acked_ids pkt) \<rparr>
      in advance e)"

definition ack_update :: "ReceiverAckState \<Rightarrow> ReceiverId \<Rightarrow> FeedbackPacket \<Rightarrow> ReceiverAckState" where
  "ack_update s receiver_id pkt =
     (let entry = (case bt_get (receivers s) receiver_id of Some e \<Rightarrow> e | None \<Rightarrow> ReceiverEntry_default)
      in ReceiverAckState (bt_insert (receivers s) receiver_id (entry_update entry pkt)))"

definition ack_is_acked :: "ReceiverAckState \<Rightarrow> ReceiverId \<Rightarrow> SourceSymbolId \<Rightarrow> bool" where
  "ack_is_acked s receiver_id sid =
     (case bt_get (receivers s) receiver_id of
        None \<Rightarrow> False
      | Some e \<Rightarrow> sid < cumulative_ack e \<or> sid \<in> entry_sack e)"

definition receiver_ids :: "ReceiverAckState \<Rightarrow> ReceiverId list" where
  "receiver_ids s = bt_keys (receivers s)"

definition num_receivers :: "ReceiverAckState \<Rightarrow> nat" where
  "num_receivers s = length (receivers s)"

section \<open>The traits\<close>

record 'w WindowPolicy =
  symbols_to_remove :: "'w \<Rightarrow> ReceiverAckState \<Rightarrow> SourceSymbolId list \<Rightarrow> 'w \<times> SourceSymbolId list"

record 'c CongestionControl =
  generate_cci :: "'c \<Rightarrow> bytes"
  process_cci :: "'c \<Rightarrow> bytes \<Rightarrow> 'c"
  cc_on_feedback :: "'c \<Rightarrow> EncoderState \<Rightarrow> rat \<Rightarrow> u32 \<Rightarrow> u32 \<Rightarrow> 'c"
  can_send :: "'c \<Rightarrow> bool"
  on_send :: "'c \<Rightarrow> nat \<Rightarrow> 'c"

record 'f FecRateController =
  coded_packets_to_generate :: "'f \<Rightarrow> EncoderState \<Rightarrow> 'f \<times> nat"
  fec_on_feedback :: "'f \<Rightarrow> EncoderState \<Rightarrow> rat \<Rightarrow> u32 \<Rightarrow> u32 \<Rightarrow> 'f"

record 'p FeedbackPolicy =
  should_send_feedback :: "'p \<Rightarrow> DecoderState \<Rightarrow> 'p \<times> bool"

section \<open>Window policies\<close>

definition AnyAckPolicy :: "unit WindowPolicy" where
  "AnyAckPolicy = \<lparr> symbols_to_remove = (\<lambda>_ ack_state window_ids.
     ((), filter (\<lambda>sid. list_ex (\<lambda>rid. ack_is_acked ack_state rid sid) (receiver_ids ack_state)) window_ids)) \<rparr>"

definition AllAckPolicy :: "unit WindowPolicy" where
  "AllAckPolicy = \<lparr> symbols_to_remove = (\<lambda>_ ack_state window_ids.
     if num_receivers ack_state = 0 then ((), [])
     else ((), filter (\<lambda>sid. list_all (\<lambda>rid. ack_is_acked ack_state rid sid) (receiver_ids ack_state)) window_ids)) \<rparr>"

record QuorumAck =
  quorum :: nat

definition QuorumAckPolicy_new :: "nat \<Rightarrow> QuorumAck" where
  "QuorumAckPolicy_new q = \<lparr> quorum = q \<rparr>"

definition QuorumAckPolicy :: "QuorumAck WindowPolicy" where
  "QuorumAckPolicy = \<lparr> symbols_to_remove = (\<lambda>p ack_state window_ids.
     (p, filter (\<lambda>sid.
        let acked_count = length (filter (\<lambda>rid. ack_is_acked ack_state rid sid) (receiver_ids ack_state))
        in acked_count \<ge> quorum p) window_ids)) \<rparr>"

section \<open>Congestion control\<close>

definition NoCongestionControl :: "unit CongestionControl" where
  "NoCongestionControl = \<lparr> generate_cci = (\<lambda>_. []), process_cci = (\<lambda>c _. c),
     cc_on_feedback = (\<lambda>c _ _ _ _. c), can_send = (\<lambda>_. True), on_send = (\<lambda>c _. c) \<rparr>"

section \<open>Rate control\<close>

record ConstantFec =
  fec_numer :: nat
  fec_denom :: nat
  fec_acc :: nat

definition ConstantFecRate_new :: "nat \<Rightarrow> nat \<Rightarrow> ConstantFec res" where
  "ConstantFecRate_new numer denom =
     (if denom > 0 then Ok \<lparr> fec_numer = numer, fec_denom = denom, fec_acc = 0 \<rparr> else Panic)"

definition ConstantFecRate_one_to_one :: "ConstantFec res" where
  "ConstantFecRate_one_to_one = ConstantFecRate_new 1 1"

definition ConstantFecRate_disabled :: "ConstantFec res" where
  "ConstantFecRate_disabled = ConstantFecRate_new 0 1"

definition ConstantFecRate :: "ConstantFec FecRateController" where
  "ConstantFecRate = \<lparr>
     coded_packets_to_generate = (\<lambda>f _.
       let acc = fec_acc f + fec_numer f; count = acc div fec_denom f
       in (f\<lparr> fec_acc := acc mod fec_denom f \<rparr>, count)),
     fec_on_feedback = (\<lambda>f _ _ _ _. f) \<rparr>"

record AdaptiveFec =
  current_rate :: rat
  min_rate :: rat
  max_rate :: rat
  target_loss :: rat
  rate_acc :: rat

text \<open>\<open>f64::clamp\<close> panics on an empty interval.\<close>

definition AdaptiveFecRate_new :: "rat \<Rightarrow> rat \<Rightarrow> rat \<Rightarrow> rat \<Rightarrow> AdaptiveFec res" where
  "AdaptiveFecRate_new initial mn mx target =
     (if mn \<le> mx
      then Ok \<lparr> current_rate = (if initial < mn then mn else if initial > mx then mx else initial),
                min_rate = mn, max_rate = mx, target_loss = target, rate_acc = 0 \<rparr>
      else Panic)"

definition AdaptiveFecRate :: "(rat \<Rightarrow> rat) \<Rightarrow> AdaptiveFec FecRateController" where
  "AdaptiveFecRate rnd = \<lparr>
     coded_packets_to_generate = (\<lambda>f _.
       let acc = rnd (rate_acc f + current_rate f); count = nat \<lfloor>acc\<rfloor>
       in (f\<lparr> rate_acc := acc - of_nat count \<rparr>, count)),
     fec_on_feedback = (\<lambda>f _ loss_rate _ _.
       if loss_rate > target_loss f then f\<lparr> current_rate := min (current_rate f * 2) (max_rate f) \<rparr>
       else if loss_rate < target_loss f / 2 then f\<lparr> current_rate := max (current_rate f / 2) (min_rate f) \<rparr>
       else f) \<rparr>"

section \<open>Feedback policies\<close>

record ConstantFeedback =
  fp_period :: u32
  fp_counter :: u32

definition ConstantFeedbackPolicy_new :: "u32 \<Rightarrow> ConstantFeedback res" where
  "ConstantFeedbackPolicy_new period =
     (if period > 0 then Ok \<lparr> fp_period = period, fp_counter = 0 \<rparr> else Panic)"

definition ConstantFeedbackPolicy :: "ConstantFeedback FeedbackPolicy" where
  "ConstantFeedbackPolicy = \<lparr> should_send_feedback = (\<lambda>p _.
     let counter = fp_counter p + 1
     in if counter \<ge> fp_period p then (p\<lparr> fp_counter := 0 \<rparr>, True) else (p\<lparr> fp_counter := counter \<rparr>, False)) \<rparr>"

definition ImmediateFeedbackPolicy :: "unit FeedbackPolicy" where
  "ImmediateFeedbackPolicy = \<lparr> should_send_feedback = (\<lambda>p _. (p, True)) \<rparr>"

section \<open>What a receiver has acknowledged\<close>

definition entry_acked :: "ReceiverEntry \<Rightarrow> SourceSymbolId set" where
  "entry_acked e = {i. i < cumulative_ack e} \<union> entry_sack e"

lemma u32_less_succ: "n \<noteq> - 1 \<Longrightarrow> (i < n + 1) = (i \<le> n)" for i n :: u32
  using unat_succ [of n] by (auto simp: word_less_nat_alt word_le_nat_alt)

lemma advance_acked: "- 1 \<notin> entry_sack e \<Longrightarrow> entry_acked (advance e) = entry_acked e"
proof (induction e rule: advance.induct)
  case (1 e)
  show ?case
  proof (cases "cumulative_ack e \<in> entry_sack e")
    case True
    then have "cumulative_ack e \<noteq> - 1" using 1(2) by metis
    let ?e = "\<lparr> cumulative_ack = cumulative_ack e + 1, entry_sack = entry_sack e - {cumulative_ack e} \<rparr>"
    have "advance e = advance ?e" using True by (subst advance.simps) (rule if_P)
    moreover have "entry_acked (advance ?e) = entry_acked ?e" by (rule "1.IH" [OF True]) (use 1(2) in simp)
    moreover have "entry_acked ?e = entry_acked e"
      using True \<open>cumulative_ack e \<noteq> - 1\<close> by (auto simp: entry_acked_def u32_less_succ order_le_less)
    ultimately show ?thesis by simp
  qed (simp add: advance.simps)
qed

lemma advance_done: "cumulative_ack (advance e) \<notin> entry_sack (advance e)"
proof (induction e rule: advance.induct)
  case (1 e)
  then show ?case
    by (cases "cumulative_ack e \<in> entry_sack e") (simp_all add: advance.simps [of e])
qed

lemma entry_update_acked:
  assumes "- 1 \<notin> entry_sack e" "- 1 \<notin> set (acked_ids pkt)"
  shows "entry_acked (entry_update e pkt) = entry_acked e \<union> {i. i < first_src_id pkt} \<union> set (acked_ids pkt)"
  using assms unfolding entry_update_def Let_def
  by (subst advance_acked) (auto simp: entry_acked_def)

lemma ack_is_acked_entry:
  "ack_is_acked s rid sid = (case bt_get (receivers s) rid of None \<Rightarrow> False | Some e \<Rightarrow> sid \<in> entry_acked e)"
  by (simp add: ack_is_acked_def entry_acked_def split: option.split)

section \<open>The contracts\<close>

text \<open>A window policy hands back symbols of the window only, and only ones that some receiver has.\<close>

locale window_policy =
  fixes W :: "'w WindowPolicy" and winv :: "'w \<Rightarrow> bool"
  assumes keeps: "winv w \<Longrightarrow> winv (fst (symbols_to_remove W w s ids))"
    and in_window: "winv w \<Longrightarrow> i \<in> set (snd (symbols_to_remove W w s ids)) \<Longrightarrow> i \<in> set ids"
    and acked: "winv w \<Longrightarrow> i \<in> set (snd (symbols_to_remove W w s ids)) \<Longrightarrow> \<exists>rid. ack_is_acked s rid i"
begin

lemma unacked_stay:
  assumes "winv w" "\<And>rid. \<not> ack_is_acked s rid i"
  shows "i \<notin> set (snd (symbols_to_remove W w s ids))"
  using acked [OF assms(1)] assms(2) by blast

end

text \<open>The congestion control information is a whole number of words, at most three.\<close>

locale congestion_control =
  fixes C :: "'c CongestionControl" and cinv :: "'c \<Rightarrow> bool"
  assumes cci_words: "cinv c \<Longrightarrow> length (generate_cci C c) mod 4 = 0 \<and> length (generate_cci C c) \<le> 12"
    and send_keeps: "cinv c \<Longrightarrow> cinv (on_send C c n)"
    and feedback_keeps: "cinv c \<Longrightarrow> cinv (cc_on_feedback C c s l a b)"

text \<open>A feedback policy does not stay silent for ever: a rank falls with every packet without feedback.\<close>

fun feedback_run :: "'p FeedbackPolicy \<Rightarrow> 'p \<Rightarrow> DecoderState list \<Rightarrow> bool list" where
  "feedback_run P p [] = []"
| "feedback_run P p (s # ss) = (let (p, b) = should_send_feedback P p s in b # feedback_run P p ss)"

locale feedback_policy =
  fixes P :: "'p FeedbackPolicy" and pinv :: "'p \<Rightarrow> bool" and rank :: "'p \<Rightarrow> nat"
  assumes step: "pinv p \<Longrightarrow> should_send_feedback P p s = (p', b) \<Longrightarrow> pinv p' \<and> (\<not> b \<longrightarrow> rank p' < rank p)"
begin

lemma eventually_sends: "pinv p \<Longrightarrow> rank p < length ss \<Longrightarrow> True \<in> set (feedback_run P p ss)"
proof (induction ss arbitrary: p)
  case (Cons s ss)
  obtain p' b where s: "should_send_feedback P p s = (p', b)" by fastforce
  show ?case
  proof (cases b)
    case False
    with step [OF Cons.prems(1) s] Cons.prems(2) have "True \<in> set (feedback_run P p' ss)" by (intro Cons.IH) auto
    with s show ?thesis by simp
  qed (simp add: s)
qed simp

end

interpretation any_ack: window_policy AnyAckPolicy "\<lambda>_. True"
  by unfold_locales (auto simp: AnyAckPolicy_def list_ex_iff)

interpretation all_ack: window_policy AllAckPolicy "\<lambda>_. True"
proof
  fix w :: unit and s ids i assume "i \<in> set (snd (symbols_to_remove AllAckPolicy w s ids))"
  then have "num_receivers s \<noteq> 0" "\<forall>rid \<in> set (receiver_ids s). ack_is_acked s rid i"
    by (auto simp: AllAckPolicy_def list_all_iff split: if_splits)
  moreover from this(1) obtain rid where "rid \<in> set (receiver_ids s)"
    by (cases "receivers s") (auto simp: num_receivers_def receiver_ids_def bt_keys_def)
  ultimately show "\<exists>rid. ack_is_acked s rid i" by blast
qed (auto simp: AllAckPolicy_def split: if_splits)

interpretation quorum_ack: window_policy QuorumAckPolicy "\<lambda>p. 0 < quorum p"
proof
  fix p :: QuorumAck and s ids i assume "0 < quorum p" "i \<in> set (snd (symbols_to_remove QuorumAckPolicy p s ids))"
  then have "0 < length (filter (\<lambda>rid. ack_is_acked s rid i) (receiver_ids s))"
    by (auto simp: QuorumAckPolicy_def Let_def)
  then show "\<exists>rid. ack_is_acked s rid i" by (auto simp: filter_empty_conv)
qed (auto simp: QuorumAckPolicy_def)

interpretation no_cc: congestion_control NoCongestionControl "\<lambda>_. True"
  by unfold_locales (simp_all add: NoCongestionControl_def)

interpretation const_fb: feedback_policy ConstantFeedbackPolicy "\<lambda>p. fp_counter p < fp_period p"
  "\<lambda>p. unat (fp_period p) - unat (fp_counter p) - 1"
proof
  fix p :: ConstantFeedback and s p' b
  assume lt: "fp_counter p < fp_period p" and step: "should_send_feedback ConstantFeedbackPolicy p s = (p', b)"
  from lt have "fp_counter p \<noteq> - 1" using word_order.extremum_strict by metis
  then have c: "unat (fp_counter p + 1) = unat (fp_counter p) + 1" by (simp add: unat_succ)
  show "fp_counter p' < fp_period p' \<and>
      (\<not> b \<longrightarrow> unat (fp_period p') - unat (fp_counter p') - 1 < unat (fp_period p) - unat (fp_counter p) - 1)"
    using step lt c by (auto simp: ConstantFeedbackPolicy_def Let_def word_less_nat_alt word_le_nat_alt split: if_splits)
qed

interpretation immediate_fb: feedback_policy ImmediateFeedbackPolicy "\<lambda>_. True" "\<lambda>_. 0"
  by unfold_locales (auto simp: ImmediateFeedbackPolicy_def)

section \<open>Properties\<close>

text \<open>C30: the acknowledgement state is exact: after a feedback packet a receiver counts as having a symbol
  iff it did before, or the symbol is below the first identifier of the packet, or the packet
  acknowledges it; other receivers are not affected. (The last identifier, where the cumulative
  counter would wrap, is excluded.)\<close>

theorem ack_update_exact:
  assumes "bt_ok (receivers s)" "- 1 \<notin> set (acked_ids pkt)"
    and "\<forall>e. bt_get (receivers s) rid = Some e \<longrightarrow> - 1 \<notin> entry_sack e"
  shows "ack_is_acked (ack_update s rid pkt) r sid =
    (ack_is_acked s r sid \<or> r = rid \<and> (sid < first_src_id pkt \<or> sid \<in> set (acked_ids pkt)))"
proof (cases "bt_get (receivers s) rid")
  case None
  have "entry_acked (entry_update ReceiverEntry_default pkt) = {i. i < first_src_id pkt} \<union> set (acked_ids pkt)"
    using entry_update_acked [of ReceiverEntry_default pkt] assms(2) by (simp add: ReceiverEntry_default_def entry_acked_def)
  with None assms(1) show ?thesis by (simp add: ack_is_acked_entry ack_update_def bt_get_insert)
next
  case (Some e)
  with assms have "entry_acked (entry_update e pkt) = entry_acked e \<union> {i. i < first_src_id pkt} \<union> set (acked_ids pkt)"
    by (intro entry_update_acked) auto
  with Some assms(1) show ?thesis by (auto simp: ack_is_acked_entry ack_update_def bt_get_insert)
qed

theorem ack_update_exact_witness:
  "ack_is_acked (ack_update ReceiverAckState_default 1 \<lparr> fb_tsi = None, nb_missing_src = 0, nb_not_used_coded = 0,
     first_src_id = 10, plr_raw = 0, sack = [0x40] \<rparr>) 1 11 \<and>
   \<not> ack_is_acked (ack_update ReceiverAckState_default 1 \<lparr> fb_tsi = None, nb_missing_src = 0, nb_not_used_coded = 0,
     first_src_id = 10, plr_raw = 0, sack = [0x40] \<rparr>) 1 10"
proof -
  let ?p = "\<lparr> fb_tsi = None, nb_missing_src = 0, nb_not_used_coded = 0, first_src_id = 10, plr_raw = 0, sack = [0x40] \<rparr>"
  have a: "acked_ids ?p = [11]" by (simp add: acked_ids_def upt_rec)
  have h: "bt_ok (receivers ReceiverAckState_default)" "- 1 \<notin> set (acked_ids ?p)"
    "\<forall>e. bt_get (receivers ReceiverAckState_default) 1 = Some e \<longrightarrow> - 1 \<notin> entry_sack e"
    by (simp_all add: ReceiverAckState_default_def a)
  show ?thesis
    using ack_update_exact [OF h, of 1 11] ack_update_exact [OF h, of 1 10]
    by (simp add: a ack_is_acked_def ReceiverAckState_default_def)
qed

text \<open>The number of coded packets a controller asks for in a run.\<close>

fun fec_run :: "'f FecRateController \<Rightarrow> 'f \<Rightarrow> EncoderState list \<Rightarrow> 'f \<times> nat" where
  "fec_run F f [] = (f, 0)"
| "fec_run F f (s # ss) =
     (let (f, n) = coded_packets_to_generate F f s; (f, m) = fec_run F f ss in (f, n + m))"

lemma constant_fec_run:
  assumes "0 < fec_denom f" "fec_acc f < fec_denom f"
  shows "snd (fec_run ConstantFecRate f ss) = (fec_acc f + length ss * fec_numer f) div fec_denom f"
  using assms
proof (induction ss arbitrary: f)
  case (Cons s ss)
  let ?a = "fec_acc f + fec_numer f" and ?d = "fec_denom f"
  let ?f = "f\<lparr> fec_acc := ?a mod ?d \<rparr>"
  have "snd (fec_run ConstantFecRate f (s # ss)) = ?a div ?d + snd (fec_run ConstantFecRate ?f ss)"
    by (simp add: ConstantFecRate_def Let_def split_beta)
  also have "\<dots> = ?a div ?d + (?a mod ?d + length ss * fec_numer f) div ?d"
    using Cons.IH [of ?f] Cons.prems(1) by simp
  also have "\<dots> = (?d * (?a div ?d) + (?a mod ?d + length ss * fec_numer f)) div ?d"
    by (rule div_mult_self4 [symmetric]) (use Cons.prems(1) in simp)
  also have "\<dots> = (?a + length ss * fec_numer f) div ?d"
    unfolding add.assoc [symmetric] by simp
  finally show ?case by (simp add: algebra_simps)
qed simp

text \<open>The constant controller keeps its rate exactly: after any number \<open>n\<close> of source symbols it has asked
  for the integer part of \<open>n * numer / denom\<close> coded packets.\<close>

lemma constant_rate_exact:
  assumes "ConstantFecRate_new numer denom = Ok f"
  shows "snd (fec_run ConstantFecRate f ss) = length ss * numer div denom"
proof -
  have "0 < denom" "f = \<lparr> fec_numer = numer, fec_denom = denom, fec_acc = 0 \<rparr>"
    using assms by (auto simp: ConstantFecRate_new_def split: if_splits)
  then show ?thesis using constant_fec_run [of f ss] by simp
qed

definition adaptive_ok :: "AdaptiveFec \<Rightarrow> bool" where
  "adaptive_ok f = (0 \<le> min_rate f \<and> min_rate f \<le> current_rate f \<and> current_rate f \<le> max_rate f)"

text \<open>C32: the adaptive controller keeps its rate between its minimum and its maximum whatever losses are
  reported, as long as the minimum is not negative.\<close>

theorem adaptive_rate_bounds:
  assumes "0 \<le> mn"
  shows "(AdaptiveFecRate_new initial mn mx target = Ok f \<longrightarrow> adaptive_ok f) \<and>
    (adaptive_ok g \<longrightarrow> adaptive_ok (fec_on_feedback (AdaptiveFecRate rnd) g s loss a b) \<and>
       adaptive_ok (fst (coded_packets_to_generate (AdaptiveFecRate rnd) g s)))"
  using assms
  by (auto simp: AdaptiveFecRate_new_def AdaptiveFecRate_def adaptive_ok_def Let_def min_def max_def split: if_splits)

theorem adaptive_rate_bounds_witness:
  "\<exists>f. AdaptiveFecRate_new (1/4) (1/10) 1 (1/20) = Ok f \<and> adaptive_ok f"
proof -
  obtain f where "AdaptiveFecRate_new (1/4) (1/10) 1 (1/20) = Ok f" by (simp add: AdaptiveFecRate_new_def)
  with adaptive_rate_bounds [of "1/10" "1/4" 1 "1/20" f] show ?thesis by simp
qed

text \<open>The receiver does not stay silent: among any \<open>period\<close> consecutive packets the constant feedback
  policy asks for feedback at least once.\<close>

lemma feedback_liveness:
  assumes "ConstantFeedbackPolicy_new period = Ok p" "unat period \<le> length ss"
  shows "True \<in> set (feedback_run ConstantFeedbackPolicy p ss)"
proof -
  have "0 < period" "p = \<lparr> fp_period = period, fp_counter = 0 \<rparr>"
    using assms(1) by (auto simp: ConstantFeedbackPolicy_new_def split: if_splits)
  moreover from this have "0 < unat period" by (simp add: word_less_nat_alt)
  ultimately show ?thesis using assms(2) by (intro const_fb.eventually_sends) auto
qed

end
