(* ===== verification/Gf_Tables.thy ===== *)
theory Gf_Tables
  imports Delp_Prelude
begin

text \<open>
  The compile-time log/tbl tables of \<^verbatim>\<open>src/gf/tables.rs\<close>. The two \<open>while\<close> loops of
  each constant are the recursions \<open>fill_exp\<close> and \<open>fill_log\<close>; the locale \<open>gf_cyclic\<close>
  collects what a generator of the multiplicative group promises and derives, once for both
  fields, that multiplication by adding logarithms is a field multiplication.
\<close>

section \<open>The table loops\<close>

text \<open>\<^verbatim>\<open>while i < n { exp[i] = x as u8; x = step(x); i += 1; }\<close>\<close>

function fill_exp :: "nat \<Rightarrow> ('x \<Rightarrow> 'x) \<Rightarrow> ('x \<Rightarrow> u8) \<Rightarrow> nat \<Rightarrow> 'x \<Rightarrow> u8 list \<Rightarrow> u8 list" where
  "fill_exp n step cast i x tbl =
     (if i < n then fill_exp n step cast (Suc i) (step x) (tbl[i := cast x]) else tbl)"
  by pat_completeness auto
termination
  by (relation "measure (\<lambda>(n, step, cast, i, x, tbl). n - i)") auto

text \<open>\<^verbatim>\<open>while i < n { log[EXP[i] as usize] = i as u8; i += 1; }\<close>\<close>

function fill_log :: "nat \<Rightarrow> u8 list \<Rightarrow> nat \<Rightarrow> u8 list \<Rightarrow> u8 list" where
  "fill_log n tbl i ltbl =
     (if i < n then fill_log n tbl (Suc i) (ltbl[unat (tbl ! i) := of_nat i]) else ltbl)"
  by pat_completeness auto
termination
  by (relation "measure (\<lambda>(n, tbl, i, ltbl). n - i)") auto

text \<open>\<^verbatim>\<open>while j < n { exp[n + j] = exp[j]; j += 1; }\<close>\<close>

function mirror_exp :: "nat \<Rightarrow> nat \<Rightarrow> u8 list \<Rightarrow> u8 list" where
  "mirror_exp n j tbl =
     (if j < n then mirror_exp n (Suc j) (tbl[n + j := tbl ! j]) else tbl)"
  by pat_completeness auto
termination
  by (relation "measure (\<lambda>(n, j, tbl). n - j)") auto

declare fill_exp.simps [simp del] fill_log.simps [simp del] mirror_exp.simps [simp del]

section \<open>GF(2^4)\<close>

definition GF2_4_ORDER :: nat where "GF2_4_ORDER = 16"
definition GF2_4_POLY :: u8 where "GF2_4_POLY = 0x13"

definition gf2_4_exp_step :: "u8 \<Rightarrow> u8" where
  "gf2_4_exp_step x =
     (let x = push_bit 1 x in
      if x AND 0x10 \<noteq> 0
      then let x = x XOR (GF2_4_POLY AND 0x0F); x = x XOR 0x10 in x AND 0x0F
      else x)"

definition GF2_4_EXP :: "u8 list" where
  "GF2_4_EXP =
     (fill_exp (GF2_4_ORDER - 1) gf2_4_exp_step id 0 1 (replicate GF2_4_ORDER 0))
       [GF2_4_ORDER - 1 := 1]"

definition GF2_4_LOG :: "u8 list" where
  "GF2_4_LOG = fill_log (GF2_4_ORDER - 1) GF2_4_EXP 0 (replicate GF2_4_ORDER 0xFF)"

section \<open>GF(2^8)\<close>

definition GF2_8_ORDER :: nat where "GF2_8_ORDER = 256"
definition GF2_8_POLY :: u16 where "GF2_8_POLY = 0x11D"

definition gf2_8_exp_step :: "u16 \<Rightarrow> u16" where
  "gf2_8_exp_step x =
     (let x = push_bit 1 x in if x AND 0x100 \<noteq> 0 then x XOR GF2_8_POLY else x)"

definition GF2_8_EXP :: "u8 list" where
  "GF2_8_EXP =
     (let tbl = fill_exp 255 gf2_8_exp_step ucast 0 1 (replicate 512 0);
          tbl = mirror_exp 255 0 tbl
      in tbl[510 := tbl ! 0])"

definition GF2_8_LOG :: "u8 list" where
  "GF2_8_LOG = fill_log 255 GF2_8_EXP 0 (replicate GF2_8_ORDER 0xFF)"

section \<open>What the loops compute\<close>

lemma length_fill_exp [simp]: "length (fill_exp n step cast i x tbl) = length tbl"
  by (induction n step cast i x tbl rule: fill_exp.induct)
     (subst fill_exp.simps, simp)

lemma nth_fill_exp:
  "n \<le> length tbl \<Longrightarrow> j < length tbl \<Longrightarrow>
   fill_exp n step cast i x tbl ! j =
     (if i \<le> j \<and> j < n then cast ((step ^^ (j - i)) x) else tbl ! j)"
proof (induction n step cast i x tbl rule: fill_exp.induct)
  case (1 n step cast i x tbl)
  show ?case
  proof (cases "i < n")
    case True
    have "fill_exp n step cast i x tbl ! j =
      (if Suc i \<le> j \<and> j < n then cast ((step ^^ (j - Suc i)) (step x))
       else tbl[i := cast x] ! j)"
      using "1.IH" [OF True] "1.prems" True by (subst fill_exp.simps) simp
    moreover have "Suc i \<le> j \<Longrightarrow> (step ^^ (j - Suc i)) (step x) = (step ^^ (j - i)) x"
      by (metis Suc_diff_Suc Suc_le_lessD comp_apply funpow_Suc_right)
    ultimately show ?thesis
      using "1.prems" True by (auto simp: nth_list_update Suc_le_eq)
  next
    case False
    then show ?thesis by (subst fill_exp.simps) auto
  qed
qed

lemma length_fill_log [simp]: "length (fill_log n tbl i ltbl) = length ltbl"
  by (induction n tbl i ltbl rule: fill_log.induct) (subst fill_log.simps, simp)

lemma nth_fill_log:
  "inj_on ((!) tbl) {..<n} \<Longrightarrow> (\<And>k. k < n \<Longrightarrow> unat (tbl ! k) < length ltbl) \<Longrightarrow> j < n \<Longrightarrow>
   (j < i \<Longrightarrow> ltbl ! unat (tbl ! j) = of_nat j) \<Longrightarrow>
   fill_log n tbl i ltbl ! unat (tbl ! j) = of_nat j"
proof (induction n tbl i ltbl rule: fill_log.induct)
  case (1 n tbl i ltbl)
  show ?case
  proof (cases "i < n")
    case True
    let ?l = "ltbl[unat (tbl ! i) := of_nat i]"
    have ne: "unat (tbl ! j) \<noteq> unat (tbl ! i)" if "j \<noteq> i"
      using that "1.prems"(1,3) True by (metis inj_onD lessThan_iff word_unat_eq_iff)
    have "fill_log n tbl (Suc i) ?l ! unat (tbl ! j) = of_nat j"
    proof (rule "1.IH" [OF True "1.prems"(1)])
      show "?l ! unat (tbl ! j) = of_nat j" if "j < Suc i"
        using that ne "1.prems"(2,3,4) True by (cases "j = i") auto
    qed (use "1.prems" in auto)
    with True show ?thesis by (subst fill_log.simps) simp
  next
    case False
    then show ?thesis using "1.prems" by (subst fill_log.simps) simp
  qed
qed

lemma length_mirror_exp [simp]: "length (mirror_exp n j tbl) = length tbl"
  by (induction n j tbl rule: mirror_exp.induct) (subst mirror_exp.simps, simp)

lemma nth_mirror_exp:
  "2 * n \<le> length tbl \<Longrightarrow> k < length tbl \<Longrightarrow>
   mirror_exp n j tbl ! k = (if n + j \<le> k \<and> k < 2 * n then tbl ! (k - n) else tbl ! k)"
proof (induction n j tbl rule: mirror_exp.induct)
  case (1 n j tbl)
  show ?case
  proof (cases "j < n")
    case True
    have "mirror_exp n (Suc j) (tbl[n + j := tbl ! j]) ! k =
      (if n + Suc j \<le> k \<and> k < 2 * n then tbl[n + j := tbl ! j] ! (k - n)
       else tbl[n + j := tbl ! j] ! k)"
      by (rule "1.IH" [OF True]) (use "1.prems" in auto)
    then show ?thesis
      using True "1.prems" by (subst mirror_exp.simps) (auto simp: nth_list_update)
  next
    case False
    then show ?thesis by (subst mirror_exp.simps) auto
  qed
qed

section \<open>Generators of a binary field\<close>

lemma funpow_fix_mult: "(f ^^ a) x = x \<Longrightarrow> (f ^^ (a * q)) x = x"
  by (induction q) (auto simp: funpow_add)

lemma funpow_fix_gcd: "(f ^^ a) x = x \<Longrightarrow> (f ^^ b) x = x \<Longrightarrow> (f ^^ gcd a b) x = x"
proof (induction a b rule: gcd_nat_induct)
  case (step a b)
  have "(f ^^ (a mod b + b * (a div b))) x = x" using step.prems(1) by simp
  then have "(f ^^ (a mod b)) x = x"
    unfolding funpow_add comp_apply using funpow_fix_mult [OF step.prems(2)] by simp
  with step show ?case by (simp add: gcd_red_nat [of a b])
qed simp


text \<open>
  What the tables rely on: a linear step function \<open>step\<close> on the carrier \<open>C\<close> (multiplication
  by the primitive element) whose iterates from 1 have period \<open>n\<close> and no smaller one, with
  \<open>C\<close> of \<open>n + 1\<close> elements.
\<close>

locale gf_cyclic =
  fixes step :: "u8 \<Rightarrow> u8" and n :: nat and C :: "u8 set"
  assumes zero_C: "0 \<in> C" and one_C: "1 \<in> C"
    and xor_C: "x \<in> C \<Longrightarrow> y \<in> C \<Longrightarrow> x XOR y \<in> C"
    and step_C: "x \<in> C \<Longrightarrow> step x \<in> C"
    and step_xor: "x \<in> C \<Longrightarrow> y \<in> C \<Longrightarrow> step (x XOR y) = step x XOR step y"
    and card_C: "card C = Suc n"
    and period: "(step ^^ n) 1 = 1"
    and order: "0 < k \<Longrightarrow> k < n \<Longrightarrow> (step ^^ k) 1 \<noteq> 1"
begin

definition pw :: "nat \<Rightarrow> u8" where
  "pw i = (step ^^ i) 1"

definition dlog :: "u8 \<Rightarrow> nat" where
  "dlog x = inv_into {..<n} pw x"

definition gmul :: "u8 \<Rightarrow> u8 \<Rightarrow> u8" where
  "gmul x y = (if x = 0 \<or> y = 0 then 0 else pw (dlog x + dlog y))"

lemma n_pos: "0 < n"
proof (rule ccontr)
  assume "\<not> 0 < n"
  with card_C have "card C = 1" by simp
  then obtain z where "C = {z}" by (rule card_1_singletonE)
  with zero_C one_C show False by auto
qed

lemma step_0 [simp]: "step 0 = 0"
  using step_xor [OF zero_C zero_C] by simp

lemma iter_0 [simp]: "(step ^^ i) 0 = 0"
  by (induction i) auto

lemma iter_C: "x \<in> C \<Longrightarrow> (step ^^ i) x \<in> C"
  by (induction i) (auto intro: step_C)

lemma iter_xor: "x \<in> C \<Longrightarrow> y \<in> C \<Longrightarrow> (step ^^ i) (x XOR y) = (step ^^ i) x XOR (step ^^ i) y"
  by (induction i) (auto simp: step_xor iter_C)

lemma pw_add: "pw (i + j) = (step ^^ i) (pw j)"
  by (simp add: pw_def funpow_add)

lemma pw_C: "pw i \<in> C"
  by (simp add: pw_def iter_C one_C)

lemma pw_n: "pw n = 1" and pw_0: "pw 0 = 1"
  by (simp_all add: pw_def period)

lemma pw_period: "pw (n + i) = pw i"
  using pw_add [of i n] pw_add [of i 0] by (simp add: pw_n pw_0 add.commute)

lemma pw_mod: "pw (i mod n) = pw i"
proof (induction i rule: less_induct)
  case (less i)
  show ?case
  proof (cases "i < n")
    case False
    then have "pw ((i - n) mod n) = pw (i - n)" using less n_pos by simp
    moreover have "pw i = pw (i - n)" using pw_period [of "i - n"] False by simp
    ultimately show ?thesis using False by (simp add: le_mod_geq)
  qed simp
qed

lemma pw_nz: "pw i \<noteq> 0"
proof
  assume "pw i = 0"
  then have "pw (i mod n) = 0" by (simp add: pw_mod)
  then have "pw (n - i mod n + i mod n) = 0" by (simp only: pw_add iter_0)
  with n_pos show False by (simp add: pw_n)
qed

lemma pw_inj: "inj_on pw {..<n}"
proof (rule linorder_inj_onI)
  fix i j assume "i < j" "i \<in> {..<n}" "j \<in> {..<n}"
  then have ij: "0 < n - j + i" "n - j + i < n" "j < n" by auto
  show "pw i \<noteq> pw j"
  proof
    assume "pw i = pw j"
    then have "pw (n - j + i) = pw (n - j + j)" by (simp only: pw_add)
    then have "pw (n - j + i) = 1" using ij by (simp add: pw_n)
    with order [OF ij(1,2)] show False by (simp add: pw_def)
  qed
qed auto

lemma pw_image: "pw ` {..<n} = C - {0}"
proof (rule card_subset_eq)
  show "finite (C - {0})" by simp
  show "pw ` {..<n} \<subseteq> C - {0}" by (auto simp: pw_C pw_nz)
  show "card (pw ` {..<n}) = card (C - {0})"
    using card_C zero_C by (simp add: card_image [OF pw_inj] card_Diff_singleton)
qed

lemma dlog_less: "x \<in> C \<Longrightarrow> x \<noteq> 0 \<Longrightarrow> dlog x < n"
  using inv_into_into [of x pw "{..<n}"] pw_image by (auto simp: dlog_def)

lemma pw_dlog: "x \<in> C \<Longrightarrow> x \<noteq> 0 \<Longrightarrow> pw (dlog x) = x"
  unfolding dlog_def by (rule f_inv_into_f) (use pw_image in auto)

lemma dlog_pw: "dlog (pw i) = i mod n"
proof -
  have "dlog (pw (i mod n)) = i mod n"
    unfolding dlog_def by (rule inv_into_f_f [OF pw_inj]) (simp add: n_pos)
  then show ?thesis by (simp add: pw_mod)
qed

lemma gmul_iter: "x \<in> C \<Longrightarrow> x \<noteq> 0 \<Longrightarrow> y \<in> C \<Longrightarrow> gmul x y = (step ^^ dlog x) y"
  by (auto simp: gmul_def pw_add pw_dlog)

lemma gmul_C: "gmul x y \<in> C"
  by (simp add: gmul_def zero_C pw_C)

lemma gmul_zero [simp]: "gmul 0 x = 0" "gmul x 0 = 0"
  by (simp_all add: gmul_def)

lemma gmul_commute: "gmul x y = gmul y x"
  by (auto simp: gmul_def add.commute)

lemma gmul_one: "x \<in> C \<Longrightarrow> gmul 1 x = x"
  using dlog_pw [of 0] by (simp add: gmul_iter one_C pw_0)

lemma gmul_nz: "x \<noteq> 0 \<Longrightarrow> y \<noteq> 0 \<Longrightarrow> gmul x y \<noteq> 0"
  by (simp add: gmul_def pw_nz)

lemma gmul_xor: "x \<in> C \<Longrightarrow> y \<in> C \<Longrightarrow> z \<in> C \<Longrightarrow> gmul x (y XOR z) = gmul x y XOR gmul x z"
  by (cases "x = 0") (simp_all add: gmul_iter iter_xor xor_C)

lemma gmul_assoc:
  assumes "x \<in> C" "y \<in> C" "z \<in> C"
  shows "gmul (gmul x y) z = gmul x (gmul y z)"
proof (cases "x = 0 \<or> y = 0 \<or> z = 0")
  case False
  have "gmul (gmul x y) z = pw ((dlog x + dlog y) mod n + dlog z)"
    using False by (simp add: gmul_def dlog_pw pw_nz)
  also have "\<dots> = pw (dlog x + (dlog y + dlog z) mod n)"
    using pw_mod [of "(dlog x + dlog y) mod n + dlog z"]
      pw_mod [of "dlog x + (dlog y + dlog z) mod n"]
    by (simp add: mod_simps add.assoc)
  also have "\<dots> = gmul x (gmul y z)"
    using False by (simp add: gmul_def dlog_pw pw_nz)
  finally show ?thesis .
qed (auto simp: gmul_def)

lemma gmul_inverse: "x \<in> C \<Longrightarrow> x \<noteq> 0 \<Longrightarrow> gmul x (pw (n - dlog x)) = 1"
  using dlog_less [of x] pw_mod [of "dlog x + (n - dlog x) mod n"] n_pos
  by (simp add: gmul_def pw_nz dlog_pw pw_0 mod_simps)

text \<open>A pair of tables filled by the loops computes the logarithm and the powers.\<close>

lemma fill_log_dlog:
  assumes tbl: "\<And>i. i < n \<Longrightarrow> tbl ! i = pw i"
    and len: "length ltbl = m" "\<And>x. x \<in> C \<Longrightarrow> unat x < m" and x: "x \<in> C" "x \<noteq> 0"
  shows "fill_log n tbl 0 ltbl ! unat x = of_nat (dlog x)"
proof -
  have "inj_on ((!) tbl) {..<n}"
    using pw_inj tbl by (simp add: inj_on_def)
  moreover have "\<And>k. k < n \<Longrightarrow> unat (tbl ! k) < length ltbl"
    by (simp add: tbl len pw_C)
  ultimately have "fill_log n tbl 0 ltbl ! unat (tbl ! dlog x) = of_nat (dlog x)"
    by (rule nth_fill_log) (simp_all add: dlog_less x)
  then show ?thesis by (simp add: tbl dlog_less pw_dlog x)
qed

end

end
