(* ===== verification/Gf_Field.thy ===== *)
theory Gf_Field
  imports Gf_Tables Delp_Error
begin

text \<open>
  \<^verbatim>\<open>src/gf/mod.rs\<close>, \<^verbatim>\<open>gf2_8.rs\<close> and \<^verbatim>\<open>gf2_4.rs\<close>: the element types, their
  arithmetic on the log/exp tables, and the field laws. \<open>gf_cyclic\<close> is interpreted on the step
  functions of both tables; the element types are instances of the library's class \<open>field\<close>.
\<close>

section \<open>Multiplication by the primitive element\<close>

definition alpha8 :: "u8 \<Rightarrow> u8" where
  "alpha8 x = (if bit x 7 then push_bit 1 x XOR 0x1D else push_bit 1 x)"

lemma alpha8_xor: "alpha8 (x XOR y) = alpha8 x XOR alpha8 y"
  by (auto simp: alpha8_def bit_xor_iff ac_simps)

lemma u16_and_256: "(x AND 0x100 \<noteq> 0) = bit x 8" for x :: u16
  using and_exp_eq_0_iff_not_bit [of x 8] by simp

lemma gf2_8_exp_step_ucast: "gf2_8_exp_step (ucast x) = ucast (alpha8 x)" for x :: u8
proof (rule bit_word_eqI)
  fix i assume "i < LENGTH(16)"
  then have i: "i \<in> {0,1,2,3,4,5,6,7,8,9,10,11,12,13,14,15}" by (intro nat_less_16_cases) simp
  have b8: "bit (push_bit 1 (ucast x :: u16)) 8 = bit x 7"
    by (simp add: bit_push_bit_iff bit_ucast_iff)
  have red: "bit (push_bit 1 (ucast x) XOR 0x11D :: u16) i =
      bit (ucast (push_bit 1 x XOR 0x1D) :: u16) i" if "bit x 7"
    using i that
    by (elim insertE emptyE) (simp_all add: bit_xor_iff bit_push_bit_iff bit_ucast_iff)
  have nored: "bit (push_bit 1 (ucast x) :: u16) i = bit (ucast (push_bit 1 x) :: u16) i"
    if "\<not> bit x 7"
    using i that
    by (elim insertE emptyE) (simp_all add: bit_push_bit_iff bit_ucast_iff)
  show "bit (gf2_8_exp_step (ucast x)) i = bit (ucast (alpha8 x) :: u16) i"
    unfolding gf2_8_exp_step_def Let_def u16_and_256 GF2_8_POLY_def alpha8_def b8
    using red nored by (cases "bit x 7") simp_all
qed

lemma gf2_8_exp_step_iter: "(gf2_8_exp_step ^^ i) 1 = ucast ((alpha8 ^^ i) 1)"
  by (induction i) (simp_all add: gf2_8_exp_step_ucast)

text \<open>The masked form keeps numerals below 256 while the simplifier evaluates.\<close>

lemma alpha8_norm:
  "alpha8 x = (if bit x 7 then push_bit 1 x XOR 0x1D else push_bit 1 x) AND 0xFF"
  by (simp add: alpha8_def)

lemma alpha8_powers:
  "(alpha8 ^^ 15) 1 = 38" "(alpha8 ^^ 51) 1 = 10" "(alpha8 ^^ 85) 1 = 214" "(alpha8 ^^ 255) 1 = 1"
  by (simp_all add: funpow_numeral alpha8_norm)

lemma divisors_255:
  assumes "d dvd 255" "d < 255"
  shows "d dvd 15 \<or> d dvd 51 \<or> d dvd (85 :: nat)"
proof (cases "2 \<le> d")
  case True
  have "list_all (\<lambda>d. 255 mod d = 0 \<longrightarrow> 15 mod d = 0 \<or> 51 mod d = 0 \<or> 85 mod d = (0::nat)) [2..<255]"
    by simp
  moreover have "d \<in> set [2..<255]"
    using True assms(2) by (simp only: set_upt atLeastLessThan_iff)
  ultimately have "255 mod d = 0 \<longrightarrow> 15 mod d = 0 \<or> 51 mod d = 0 \<or> 85 mod d = 0"
    unfolding list_all_iff by (rule bspec)
  with assms(1) show ?thesis by (simp add: mod_eq_0_iff_dvd)
next
  case False
  then have "d = 0 \<or> d = 1" by arith
  with assms(1) show ?thesis by auto
qed

interpretation gf8: gf_cyclic alpha8 255 UNIV
proof
  show "card (UNIV :: u8 set) = Suc 255" by (simp add: card_word)
  show "(alpha8 ^^ k) 1 \<noteq> 1" if k: "0 < k" "k < 255" for k
  proof
    assume "(alpha8 ^^ k) 1 = 1"
    then have d: "(alpha8 ^^ gcd 255 k) 1 = 1"
      using alpha8_powers(4) by (intro funpow_fix_gcd)
    have "gcd 255 k \<le> k" using k by (simp add: dvd_imp_le)
    then have "gcd 255 k < 255" using k(2) by (rule le_less_trans)
    then have "gcd 255 k dvd 15 \<or> gcd 255 k dvd 51 \<or> gcd 255 k dvd 85"
      by (intro divisors_255) auto
    then show False
      using funpow_fix_mult [OF d] alpha8_powers(1,2,3) by (auto elim!: dvdE)
  qed
qed (simp_all add: alpha8_xor alpha8_powers)

lemma u8_less_16_bit: "x < 16 \<Longrightarrow> bit x j \<Longrightarrow> j < 4" for x :: u8
proof -
  assume "x < 16" "bit x j"
  then have "bit (x AND 15) j" by simp
  moreover have "j < 8" using \<open>bit x j\<close> bit_imp_le_length [of x j] by simp
  ultimately show ?thesis by (auto dest!: nat_less_8_cases simp: bit_and_iff)
qed

lemma gf4_step_eq:
  assumes x: "x < 16"
  shows "gf2_4_exp_step x = (push_bit 1 x AND 15) XOR (if bit x 3 then 3 else 0)"
proof (rule bit_word_eqI)
  fix i assume "i < LENGTH(8)"
  then have i: "i \<in> {0,1,2,3,4,5,6,7}" by (intro nat_less_8_cases) simp
  have "(y AND 0x10 \<noteq> 0) = bit y 4" for y :: u8
    using and_exp_eq_0_iff_not_bit [of y 4] by simp
  moreover have "\<not> bit x 4" "\<not> bit x 5" "\<not> bit x 6" "\<not> bit x 7"
    using u8_less_16_bit [OF x] by fastforce+
  ultimately show "bit (gf2_4_exp_step x) i =
      bit ((push_bit 1 x AND 15) XOR (if bit x 3 then 3 else 0)) i"
    unfolding gf2_4_exp_step_def Let_def GF2_4_POLY_def using i
    by (cases "bit x 3"; elim insertE emptyE)
       (simp_all add: bit_xor_iff bit_and_iff bit_push_bit_iff)
qed

lemma gf4_step_xor:
  assumes "x < 16" "y < 16"
  shows "gf2_4_exp_step (x XOR y) = gf2_4_exp_step x XOR gf2_4_exp_step y"
proof -
  have "push_bit 1 (x XOR y) AND 15 = (push_bit 1 x AND 15) XOR (push_bit 1 y AND 15)"
    by (rule bit_word_eqI) (auto simp: bit_xor_iff bit_and_iff)
  then show ?thesis
    using assms by (simp add: gf4_step_eq u8_xor_less_16 bit_xor_iff ac_simps)
qed

lemma card_u8_less_16: "card {x :: u8. x < 16} = 16"
proof -
  have "{x :: u8. x < 16} = of_nat ` {..<16}"
  proof (intro set_eqI iffI)
    fix x :: u8 assume "x \<in> {x. x < 16}"
    then show "x \<in> of_nat ` {..<16}"
      by (intro image_eqI [of _ _ "unat x"]) (simp_all add: u8_less_16_unat)
  qed (auto simp: word_less_nat_alt unat_of_nat)
  moreover have "inj_on (of_nat :: nat \<Rightarrow> u8) {..<16}"
    by (rule inj_on_inverseI [of _ unat]) (simp add: unat_of_nat)
  ultimately show ?thesis by (simp add: card_image)
qed

lemma gf4_powers: "map (\<lambda>k. (gf2_4_exp_step ^^ k) 1) [0..<16] =
    [1, 2, 4, 8, 3, 6, 12, 11, 5, 10, 7, 14, 15, 13, 9, 1]"
  by (simp add: upt_rec funpow_numeral gf2_4_exp_step_def GF2_4_POLY_def Let_def)

interpretation gf4: gf_cyclic gf2_4_exp_step 15 "{x. x < 16}"
proof
  show "x \<in> {x. x < 16} \<Longrightarrow> gf2_4_exp_step x \<in> {x. x < 16}" for x
    by (simp add: gf4_step_eq u8_xor_less_16)
  have nth: "(gf2_4_exp_step ^^ k) 1 =
      [1, 2, 4, 8, 3, 6, 12, 11, 5, 10, 7, 14, 15, 13, 9, 1] ! k" if "k < 16" for k
    using arg_cong [OF gf4_powers, of "\<lambda>xs. xs ! k"] that by simp
  then show "(gf2_4_exp_step ^^ 15) 1 = 1" by simp
  show "(gf2_4_exp_step ^^ k) 1 \<noteq> 1" if k: "0 < k" "k < 15" for k
    using nth [of k] k nat_less_16_cases [of k] by auto
qed (simp_all add: u8_xor_less_16 gf4_step_xor card_u8_less_16)

section \<open>Carry-less multiplication, the reference\<close>

text \<open>
  Multiplication of polynomials over two elements reduced by the field polynomial, one bit of
  the left factor at a time; \<open>step\<close> multiplies by the indeterminate.
\<close>

fun clmul :: "(u8 \<Rightarrow> u8) \<Rightarrow> nat \<Rightarrow> u8 \<Rightarrow> u8 \<Rightarrow> u8" where
  "clmul step 0 a b = 0"
| "clmul step (Suc k) a b = (if bit a 0 then b else 0) XOR clmul step k (drop_bit 1 a) (step b)"

lemma clmul_xor_sum:
  "clmul step k a b = xor_sum (\<lambda>i. if bit a i then (step ^^ i) b else 0) {..<k}"
proof (induction k arbitrary: a b)
  case (Suc k)
  show ?case
    unfolding clmul.simps Suc.IH xsum.lessThan_Suc_shift funpow_Suc_right comp_apply
    by (simp add: bit_drop_bit_eq)
qed simp

lemma u8_bit_expansion: "x = xor_sum (\<lambda>i. if bit x i then 2 ^ i else 0) {..<8}" for x :: u8
proof (rule bit_word_eqI)
  define f where "f i = (if bit x i then 2 ^ i else 0 :: u8)" for i
  have sum: "xor_sum f {..<8} = f 0 XOR f 1 XOR f 2 XOR f 3 XOR f 4 XOR f 5 XOR f 6 XOR f 7"
    by (simp add: numeral_eq_Suc ac_simps)
  have f: "bit (f i) j = (bit x i \<and> i = j \<and> j < 8)" for i j
    by (auto simp: f_def bit_exp_iff)
  fix j assume "j < LENGTH(8)"
  then have "j \<in> {0,1,2,3,4,5,6,7}" by (intro nat_less_8_cases) simp
  then have "bit x j = bit (xor_sum f {..<8}) j"
    unfolding sum bit_xor_iff f by (elim insertE emptyE) simp_all
  then show "bit x j = bit (xor_sum (\<lambda>i. if bit x i then 2 ^ i else 0) {..<8}) j"
    by (simp add: f_def)
qed

context gf_cyclic
begin

lemma gmul_xor_sum:
  "x \<in> C \<Longrightarrow> finite A \<Longrightarrow> (\<And>i. i \<in> A \<Longrightarrow> f i \<in> C) \<Longrightarrow>
   xor_sum f A \<in> C \<and> gmul x (xor_sum f A) = xor_sum (\<lambda>i. gmul x (f i)) A"
proof (induction A rule: infinite_finite_induct)
  case (insert a A)
  then show ?case by (simp add: gmul_xor xor_C)
qed (auto simp: zero_C)

lemma gmul_pw: "b \<in> C \<Longrightarrow> gmul b (pw i) = (step ^^ i) b"
proof (cases "b = 0")
  case False
  assume b: "b \<in> C"
  have "gmul b (pw i) = pw ((dlog b + i mod n) mod n)"
    using False by (simp only: gmul_def pw_nz dlog_pw pw_mod) simp
  also have "\<dots> = pw (i + dlog b)"
    unfolding mod_add_right_eq by (simp only: pw_mod add.commute)
  also have "\<dots> = (step ^^ i) b"
    using b False by (simp add: pw_add pw_dlog)
  finally show ?thesis .
qed simp

lemma gmul_clmul:
  assumes a: "a \<in> C" and b: "b \<in> C" and pw: "\<And>i. i < k \<Longrightarrow> pw i = 2 ^ i"
    and exp: "a = xor_sum (\<lambda>i. if bit a i then 2 ^ i else 0) {..<k}"
  shows "gmul a b = clmul step k a b"
proof -
  let ?f = "\<lambda>i. if bit a i then 2 ^ i else 0 :: u8"
  have f: "?f i \<in> C" if "i \<in> {..<k}" for i
    using pw_C [of i] pw [of i] that by (simp add: zero_C)
  have "gmul a b = gmul b (xor_sum ?f {..<k})"
    using exp by (simp add: gmul_commute)
  also have "\<dots> = xor_sum (\<lambda>i. gmul b (?f i)) {..<k}"
    using gmul_xor_sum [OF b, of "{..<k}" ?f] f by blast
  also have "\<dots> = xor_sum (\<lambda>i. if bit a i then (step ^^ i) b else 0) {..<k}"
  proof (rule xsum.cong)
    fix i assume "i \<in> {..<k}"
    then have "(2 :: u8) ^ i = pw i" using pw by simp
    then show "gmul b (?f i) = (if bit a i then (step ^^ i) b else 0)"
      using b by (simp add: gmul_pw)
  qed simp
  finally show ?thesis by (simp add: clmul_xor_sum)
qed

end

section \<open>GF(2^8)\<close>

text \<open>The struct \<open>Gf2_8(u8)\<close>: every byte is an element.\<close>

datatype Gf2_8 = Gf2_8 (gf8_value: u8)

definition gf2_8_mul_raw :: "u8 \<Rightarrow> u8 \<Rightarrow> u8" where
  "gf2_8_mul_raw a b =
     (if a = 0 \<or> b = 0 then 0
      else GF2_8_EXP ! (unat (GF2_8_LOG ! unat a) + unat (GF2_8_LOG ! unat b)))"

definition Gf2_8_add :: "Gf2_8 \<Rightarrow> Gf2_8 \<Rightarrow> Gf2_8" where
  "Gf2_8_add a b = Gf2_8 (gf8_value a XOR gf8_value b)"

definition Gf2_8_mul :: "Gf2_8 \<Rightarrow> Gf2_8 \<Rightarrow> Gf2_8" where
  "Gf2_8_mul a b = Gf2_8 (gf2_8_mul_raw (gf8_value a) (gf8_value b))"

text \<open>\<open>assert_ne!(self.0, 0)\<close> stays in release builds: inverting zero panics.\<close>

definition Gf2_8_inv :: "Gf2_8 \<Rightarrow> Gf2_8 res" where
  "Gf2_8_inv a =
     (if gf8_value a = 0 then Panic
      else let log_a = unat (GF2_8_LOG ! unat (gf8_value a)) in Ok (Gf2_8 (GF2_8_EXP ! (255 - log_a))))"

definition Gf2_8_alpha_pow :: "u32 \<Rightarrow> Gf2_8" where
  "Gf2_8_alpha_pow ex = Gf2_8 (GF2_8_EXP ! (unat ex mod 255))"

text \<open>The provided method \<open>Field::vandermonde\<close>, for a field of \<open>order\<close> elements.\<close>

definition field_vandermonde :: "nat \<Rightarrow> (u32 \<Rightarrow> 'f) \<Rightarrow> u32 \<Rightarrow> u32 \<Rightarrow> 'f" where
  "field_vandermonde order alpha_pow src_id coded_id =
     (let modulus = of_nat (order - 1) :: u64;
          ex = (ucast src_id * ucast coded_id :: u64) mod modulus
      in alpha_pow (ucast ex))"

definition Gf2_8_vandermonde :: "u32 \<Rightarrow> u32 \<Rightarrow> Gf2_8" where
  "Gf2_8_vandermonde = field_vandermonde GF2_8_ORDER Gf2_8_alpha_pow"

lemma length_GF2_8_EXP [simp]: "length GF2_8_EXP = 512"
  and length_GF2_8_LOG [simp]: "length GF2_8_LOG = 256"
  by (simp_all add: GF2_8_EXP_def GF2_8_LOG_def GF2_8_ORDER_def Let_def)

lemma GF2_8_EXP_nth: "i < 511 \<Longrightarrow> GF2_8_EXP ! i = gf8.pw i"
proof -
  let ?e = "fill_exp 255 gf2_8_exp_step ucast 0 1 (replicate 512 (0 :: u8))"
  have e: "?e ! j = gf8.pw j" if "j < 255" for j
    using that by (simp add: nth_fill_exp gf2_8_exp_step_iter gf8.pw_def)
  have m: "mirror_exp 255 0 ?e ! j = gf8.pw j" if "j < 510" for j
    using that e gf8.pw_period [of "j - 255"] by (cases "j < 255") (simp_all add: nth_mirror_exp)
  assume "i < 511"
  moreover have "gf8.pw 510 = gf8.pw 0"
    using gf8.pw_period [of 255] gf8.pw_period [of 0] by simp
  ultimately show ?thesis
    using m by (cases "i = 510") (simp_all add: GF2_8_EXP_def Let_def)
qed

lemma GF2_8_LOG_nth: "x \<noteq> 0 \<Longrightarrow> unat (GF2_8_LOG ! unat x) = gf8.dlog x"
proof -
  assume x: "x \<noteq> 0"
  have "GF2_8_LOG ! unat x = of_nat (gf8.dlog x)"
    unfolding GF2_8_LOG_def
    by (rule gf8.fill_log_dlog [where m = 256]) (simp_all add: GF2_8_EXP_nth GF2_8_ORDER_def x)
  moreover have "gf8.dlog x < 255" using x by (simp add: gf8.dlog_less)
  ultimately show ?thesis by (simp add: unat_of_nat)
qed

lemma gf2_8_mul_raw_gmul: "gf2_8_mul_raw = gf8.gmul"
proof (intro ext)
  fix a b
  show "gf2_8_mul_raw a b = gf8.gmul a b"
    using gf8.dlog_less [of a] gf8.dlog_less [of b]
    by (auto simp: gf2_8_mul_raw_def gf8.gmul_def GF2_8_LOG_nth GF2_8_EXP_nth)
qed

lemma Gf2_8_inv_eq:
  "Gf2_8_inv a = (if gf8_value a = 0 then Panic
     else Ok (Gf2_8 (gf8.pw (255 - gf8.dlog (gf8_value a)))))"
  by (auto simp: Gf2_8_inv_def Let_def GF2_8_LOG_nth GF2_8_EXP_nth)

text \<open>The element type is a field of the library.\<close>

lemma Gf2_8_inv_raw:
  "Gf2_8_inv a = Ok b \<Longrightarrow> gf8.gmul (gf8_value a) (gf8_value b) = 1"
  by (auto simp: Gf2_8_inv_eq gf8.gmul_inverse split: if_splits)

instantiation Gf2_8 :: field
begin

definition "0 = Gf2_8 0"
definition "1 = Gf2_8 1"
definition "a + b = Gf2_8_add a b"
definition "a - b = Gf2_8_add a b"
definition "- a = (a :: Gf2_8)"
definition "a * b = Gf2_8_mul a b"
definition "inverse a = (case Gf2_8_inv a of Ok b \<Rightarrow> b | _ \<Rightarrow> 0)"
definition "a div b = a * inverse (b :: Gf2_8)"

instance
proof
  fix a b c :: Gf2_8
  note defs = zero_Gf2_8_def one_Gf2_8_def plus_Gf2_8_def minus_Gf2_8_def uminus_Gf2_8_def
    times_Gf2_8_def Gf2_8_add_def Gf2_8_mul_def gf2_8_mul_raw_gmul
  show "a + b + c = a + (b + c)" "a + b = b + a" "0 + a = a" "- a + a = 0" "a - b = a + - b"
    by (simp_all add: defs ac_simps)
  show "a * b * c = a * (b * c)" "1 * a = a"
    by (simp_all add: defs gf8.gmul_assoc gf8.gmul_one)
  show "a * b = b * a" by (simp add: defs gf8.gmul_commute)
  show "(a + b) * c = a * c + b * c"
    using gf8.gmul_xor [of "gf8_value c" "gf8_value a" "gf8_value b"]
    by (simp add: defs gf8.gmul_commute)
  show "(0 :: Gf2_8) \<noteq> 1" by (simp add: defs)
  show "inverse a * a = 1" if "a \<noteq> 0"
  proof -
    have "gf8_value a \<noteq> 0" using that by (cases a) (simp add: defs)
    then obtain b where b: "Gf2_8_inv a = Ok b" by (simp add: Gf2_8_inv_eq)
    then have "gf8.gmul (gf8_value a) (gf8_value b) = 1" by (rule Gf2_8_inv_raw)
    then show ?thesis by (simp add: inverse_Gf2_8_def b defs gf8.gmul_commute)
  qed
  show "inverse (0 :: Gf2_8) = 0" by (simp add: inverse_Gf2_8_def Gf2_8_inv_def defs)
  show "a div b = a * inverse b" by (rule divide_Gf2_8_def)
qed

end

lemma gf8_value_simps [simp]:
  "gf8_value 0 = 0" "gf8_value 1 = 1" "gf8_value (a + b) = gf8_value a XOR gf8_value b"
  "gf8_value (a * b) = gf2_8_mul_raw (gf8_value a) (gf8_value b)"
  by (simp_all add: zero_Gf2_8_def one_Gf2_8_def plus_Gf2_8_def times_Gf2_8_def Gf2_8_add_def
    Gf2_8_mul_def)

lemma Gf2_8_inv_inverse: "Gf2_8_inv a = (if a = 0 then Panic else Ok (inverse a))"
  by (cases a) (auto simp: inverse_Gf2_8_def Gf2_8_inv_eq zero_Gf2_8_def)

text \<open>The default methods of the trait: subtraction and division.\<close>

definition Gf2_8_sub :: "Gf2_8 \<Rightarrow> Gf2_8 \<Rightarrow> Gf2_8" where
  "Gf2_8_sub a b = Gf2_8_add a b"

definition Gf2_8_div :: "Gf2_8 \<Rightarrow> Gf2_8 \<Rightarrow> Gf2_8 res" where
  "Gf2_8_div a b = and_then (Gf2_8_inv b) (\<lambda>i. Ok (Gf2_8_mul a i))"

lemma Gf2_8_sub_minus: "Gf2_8_sub a b = a - b"
  by (simp add: Gf2_8_sub_def minus_Gf2_8_def)

lemma Gf2_8_div_divide: "Gf2_8_div a b = (if b = 0 then Panic else Ok (a / b))"
  by (simp add: Gf2_8_div_def Gf2_8_inv_inverse times_Gf2_8_def [symmetric] field_class.field_divide_inverse)

section \<open>GF(2^4)\<close>

text \<open>The struct \<open>Gf2_4(u8)\<close> keeps its high nibble zero: \<open>new\<close> and \<open>from_u8\<close> mask, the
  table entries are below 16.\<close>

typedef Gf2_4 = "{v :: u8. v < 16}"
  morphisms gf4_value Abs_Gf2_4
  by (rule exI [of _ 0]) simp

definition gf2_4_mul_raw :: "u8 \<Rightarrow> u8 \<Rightarrow> u8" where
  "gf2_4_mul_raw a b =
     (if a = 0 \<or> b = 0 then 0
      else let s = unat (GF2_4_LOG ! unat a) + unat (GF2_4_LOG ! unat b)
           in GF2_4_EXP ! (s mod (GF2_4_ORDER - 1)))"

lemma length_GF2_4_EXP [simp]: "length GF2_4_EXP = 16"
  and length_GF2_4_LOG [simp]: "length GF2_4_LOG = 16"
  by (simp_all add: GF2_4_EXP_def GF2_4_LOG_def GF2_4_ORDER_def)

lemma GF2_4_EXP_nth: "i < 16 \<Longrightarrow> GF2_4_EXP ! i = gf4.pw i"
  by (cases "i = 15")
     (simp_all add: GF2_4_EXP_def GF2_4_ORDER_def nth_fill_exp gf4.pw_def gf4.period)

lemma GF2_4_LOG_nth: "x \<noteq> 0 \<Longrightarrow> x < 16 \<Longrightarrow> unat (GF2_4_LOG ! unat x) = gf4.dlog x"
proof -
  assume x: "x \<noteq> 0" "x < 16"
  have "GF2_4_LOG ! unat x = of_nat (gf4.dlog x)"
    unfolding GF2_4_LOG_def GF2_4_ORDER_def
    by (simp, rule gf4.fill_log_dlog [where m = 16])
       (simp_all add: GF2_4_EXP_nth x word_less_nat_alt [of _ 16, symmetric] u8_less_16_unat [symmetric])
  moreover have "gf4.dlog x < 15" using x by (simp add: gf4.dlog_less)
  ultimately show ?thesis by (simp add: unat_of_nat)
qed

lemma gf2_4_mul_raw_gmul: "a < 16 \<Longrightarrow> b < 16 \<Longrightarrow> gf2_4_mul_raw a b = gf4.gmul a b"
  by (auto simp: gf2_4_mul_raw_def gf4.gmul_def GF2_4_LOG_nth GF2_4_EXP_nth GF2_4_ORDER_def
    Let_def gf4.pw_mod)

lemma gf2_4_mul_raw_less: "a < 16 \<Longrightarrow> b < 16 \<Longrightarrow> gf2_4_mul_raw a b < 16"
  using gf4.gmul_C [of a b] by (simp add: gf2_4_mul_raw_gmul)

definition Gf2_4_new :: "u8 \<Rightarrow> Gf2_4" where
  "Gf2_4_new v = Abs_Gf2_4 (v AND 0x0F)"

definition Gf2_4_add :: "Gf2_4 \<Rightarrow> Gf2_4 \<Rightarrow> Gf2_4" where
  "Gf2_4_add a b = Abs_Gf2_4 (gf4_value a XOR gf4_value b)"

definition Gf2_4_mul :: "Gf2_4 \<Rightarrow> Gf2_4 \<Rightarrow> Gf2_4" where
  "Gf2_4_mul a b = Abs_Gf2_4 (gf2_4_mul_raw (gf4_value a) (gf4_value b))"

definition Gf2_4_alpha_pow :: "u32 \<Rightarrow> Gf2_4" where
  "Gf2_4_alpha_pow ex = Abs_Gf2_4 (GF2_4_EXP ! (unat ex mod (GF2_4_ORDER - 1)))"

text \<open>\<open>inv\<close> asserts that its argument is not zero.\<close>

definition Gf2_4_inv :: "Gf2_4 \<Rightarrow> Gf2_4 res" where
  "Gf2_4_inv a =
     (if gf4_value a = 0 then Panic
      else let log_a = unat (GF2_4_LOG ! unat (gf4_value a))
           in Ok (Abs_Gf2_4 (GF2_4_EXP ! ((GF2_4_ORDER - 1 - log_a) mod (GF2_4_ORDER - 1)))))"

definition Gf2_4_vandermonde :: "u32 \<Rightarrow> u32 \<Rightarrow> Gf2_4" where
  "Gf2_4_vandermonde = field_vandermonde GF2_4_ORDER Gf2_4_alpha_pow"

text \<open>The packed-byte helpers \<open>mul_packed_byte\<close> and \<open>mul_acc_byte\<close>.\<close>

definition mul_packed_byte :: "u8 \<Rightarrow> u8 \<Rightarrow> u8" where
  "mul_packed_byte byte coef =
     (let hi_in = drop_bit 4 byte AND 0x0F; lo_in = byte AND 0x0F;
          c_hi = drop_bit 4 coef AND 0x0F; c_lo = coef AND 0x0F;
          hi_out = gf2_4_mul_raw hi_in c_hi; lo_out = gf2_4_mul_raw lo_in c_lo
      in push_bit 4 hi_out OR lo_out)"

definition mul_acc_byte :: "u8 \<Rightarrow> u8 \<Rightarrow> u8 \<Rightarrow> u8" where
  "mul_acc_byte dst src coef = dst XOR mul_packed_byte src coef"

lemma gf4_value_less [simp]: "gf4_value a < 16"
  using gf4_value [of a] by simp

lemma gf4_value_rep_eqs:
  "gf4_value (Gf2_4_new v) = v AND 15"
  "gf4_value (Gf2_4_add a b) = gf4_value a XOR gf4_value b"
  "gf4_value (Gf2_4_mul a b) = gf2_4_mul_raw (gf4_value a) (gf4_value b)"
  "gf4_value (Gf2_4_alpha_pow ex) = gf4.pw (unat ex)"
  using gf4.pw_C
  by (simp_all add: Gf2_4_new_def Gf2_4_add_def Gf2_4_mul_def Gf2_4_alpha_pow_def
    Abs_Gf2_4_inverse u8_xor_less_16 gf2_4_mul_raw_less GF2_4_EXP_nth GF2_4_ORDER_def gf4.pw_mod)

lemma gf4_eq_iff: "(a = b) = (gf4_value a = gf4_value b)"
  by (simp add: gf4_value_inject)

lemma Gf2_4_inv_eq:
  "Gf2_4_inv a = (if gf4_value a = 0 then Panic
     else Ok (Abs_Gf2_4 (gf4.pw (15 - gf4.dlog (gf4_value a)))))"
  by (simp add: Gf2_4_inv_def Let_def GF2_4_ORDER_def GF2_4_LOG_nth GF2_4_EXP_nth gf4.pw_mod)

lemma Gf2_4_inv_raw: "Gf2_4_inv a = Ok b \<Longrightarrow> gf4.gmul (gf4_value a) (gf4_value b) = 1"
  using gf4.gmul_inverse [of "gf4_value a"] gf4.pw_C
  by (auto simp: Gf2_4_inv_eq Abs_Gf2_4_inverse split: if_splits)

lemma gf4_value_Abs_0 [simp]: "gf4_value (Abs_Gf2_4 0) = 0"
  and gf4_value_Abs_1 [simp]: "gf4_value (Abs_Gf2_4 1) = 1"
  by (rule Abs_Gf2_4_inverse, simp)+

instantiation Gf2_4 :: field
begin

definition "0 = Abs_Gf2_4 0"
definition "1 = Abs_Gf2_4 1"
definition "a + b = Gf2_4_add a b"
definition "a - b = Gf2_4_add a b"
definition "- a = (a :: Gf2_4)"
definition "a * b = Gf2_4_mul a b"
definition "inverse a = (case Gf2_4_inv a of Ok b \<Rightarrow> b | _ \<Rightarrow> 0)"
definition "a div b = a * inverse (b :: Gf2_4)"

instance
proof
  fix a b c :: Gf2_4
  note defs = zero_Gf2_4_def one_Gf2_4_def plus_Gf2_4_def minus_Gf2_4_def uminus_Gf2_4_def
    times_Gf2_4_def gf4_eq_iff gf4_value_rep_eqs gf2_4_mul_raw_gmul
    gf2_4_mul_raw_less u8_xor_less_16 gf4.gmul_C [simplified]
  show "a + b + c = a + (b + c)" "a + b = b + a" "0 + a = a" "- a + a = 0" "a - b = a + - b"
    by (simp_all add: defs ac_simps)
  show "a * b * c = a * (b * c)" "1 * a = a"
    by (simp_all add: defs gf4.gmul_assoc gf4.gmul_one)
  show "a * b = b * a" by (simp add: defs gf4.gmul_commute)
  show "(a + b) * c = a * c + b * c"
    using gf4.gmul_xor [of "gf4_value c" "gf4_value a" "gf4_value b"]
    by (simp add: defs gf4.gmul_commute)
  show "(0 :: Gf2_4) \<noteq> 1" by (simp add: defs)
  show "inverse a * a = 1" if "a \<noteq> 0"
  proof -
    have "gf4_value a \<noteq> 0" using that by (simp add: defs)
    then obtain b where b: "Gf2_4_inv a = Ok b" by (simp add: Gf2_4_inv_eq)
    then have "gf4.gmul (gf4_value a) (gf4_value b) = 1" by (rule Gf2_4_inv_raw)
    then show ?thesis by (simp add: inverse_Gf2_4_def b defs gf4.gmul_commute)
  qed
  show "inverse (0 :: Gf2_4) = 0" by (simp add: inverse_Gf2_4_def Gf2_4_inv_def defs)
  show "a div b = a * inverse b" by (rule divide_Gf2_4_def)
qed

end

lemma gf4_value_simps [simp]:
  "gf4_value 0 = 0" "gf4_value 1 = 1" "gf4_value (a + b) = gf4_value a XOR gf4_value b"
  "gf4_value (a * b) = gf2_4_mul_raw (gf4_value a) (gf4_value b)"
  "gf4_value (Gf2_4_new v) = v AND 15"
  by (simp_all add: zero_Gf2_4_def one_Gf2_4_def plus_Gf2_4_def times_Gf2_4_def
    gf4_value_rep_eqs)

lemma Gf2_4_inv_inverse: "Gf2_4_inv a = (if a = 0 then Panic else Ok (inverse a))"
  by (auto simp: inverse_Gf2_4_def Gf2_4_inv_eq gf4_eq_iff)

definition Gf2_4_sub :: "Gf2_4 \<Rightarrow> Gf2_4 \<Rightarrow> Gf2_4" where
  "Gf2_4_sub a b = Gf2_4_add a b"

definition Gf2_4_div :: "Gf2_4 \<Rightarrow> Gf2_4 \<Rightarrow> Gf2_4 res" where
  "Gf2_4_div a b = and_then (Gf2_4_inv b) (\<lambda>i. Ok (Gf2_4_mul a i))"

lemma Gf2_4_sub_minus: "Gf2_4_sub a b = a - b"
  by (simp add: Gf2_4_sub_def minus_Gf2_4_def)

lemma Gf2_4_div_divide: "Gf2_4_div a b = (if b = 0 then Panic else Ok (a / b))"
  by (simp add: Gf2_4_div_def Gf2_4_inv_inverse times_Gf2_4_def [symmetric] field_class.field_divide_inverse)

end
