(* ===== verification/Gf_Simd.thy ===== *)
theory Gf_Simd
  imports Gf_Field
begin

text \<open>
  \<^verbatim>\<open>src/gf/simd.rs\<close>: split-nibble tables, the scalar, SSSE3, AVX2 and NEON kernels and the
  public multiply-accumulate and scale entry points. A vector register is the list of its bytes,
  lowest address first; the intrinsics are the documented functions of \<^verbatim>\<open>std::arch\<close> on such
  lists. \<open>dispatch()\<close> depends on the host processor and is a parameter. The theory shows that
  every kernel computes the element-wise reference.
\<close>

section \<open>Split-nibble tables\<close>

record NibbleTables =
  nt_lo :: bytes
  nt_hi :: bytes

definition for_gf2_8 :: "u8 \<Rightarrow> NibbleTables" where
  "for_gf2_8 coef =
     \<lparr> nt_lo = map (\<lambda>x. gf2_8_mul_raw (of_nat x) coef) [0..<16],
       nt_hi = map (\<lambda>x. gf2_8_mul_raw (push_bit 4 (of_nat x)) coef) [0..<16] \<rparr>"

definition for_gf2_4 :: "u8 \<Rightarrow> NibbleTables" where
  "for_gf2_4 coef =
     (let c_lo = coef AND 0x0F; c_hi = drop_bit 4 coef in
      \<lparr> nt_lo = map (\<lambda>x. gf2_4_mul_raw (of_nat x) c_lo) [0..<16],
        nt_hi = map (\<lambda>x. push_bit 4 (gf2_4_mul_raw (of_nat x) c_hi)) [0..<16] \<rparr>)"

definition gf2_8_tbl :: "NibbleTables list" where
  "gf2_8_tbl = map (\<lambda>c. for_gf2_8 (of_nat c)) [0..<256]"

definition gf2_4_tbl :: "NibbleTables list" where
  "gf2_4_tbl = map (\<lambda>c. for_gf2_4 (of_nat c)) [0..<256]"

section \<open>The scalar kernels\<close>

text \<open>\<open>for (d, &s) in dst.iter_mut().zip(src)\<close> stops at the shorter sequence and leaves the rest
  of \<open>dst\<close> alone.\<close>

fun scalar_mul_acc :: "bytes \<Rightarrow> bytes \<Rightarrow> NibbleTables \<Rightarrow> bytes" where
  "scalar_mul_acc (d # ds) (s # ss) t =
     (d XOR (nt_lo t ! unat (s AND 0x0F) XOR nt_hi t ! unat (drop_bit 4 s))) # scalar_mul_acc ds ss t"
| "scalar_mul_acc ds ss t = ds"

definition scalar_mul_scale :: "bytes \<Rightarrow> NibbleTables \<Rightarrow> bytes" where
  "scalar_mul_scale dst t =
     map (\<lambda>s. nt_lo t ! unat (s AND 0x0F) XOR nt_hi t ! unat (drop_bit 4 s)) dst"

section \<open>Vector registers\<close>

definition vload :: "nat \<Rightarrow> bytes \<Rightarrow> nat \<Rightarrow> bytes" where
  "vload w xs off = take w (drop off xs)"

definition vstore :: "bytes \<Rightarrow> nat \<Rightarrow> bytes \<Rightarrow> bytes" where
  "vstore xs off v = take off xs @ v @ drop (off + length v) xs"

definition mm_and :: "bytes \<Rightarrow> bytes \<Rightarrow> bytes" where
  "mm_and a b = map2 (AND) a b"

definition mm_xor :: "bytes \<Rightarrow> bytes \<Rightarrow> bytes" where
  "mm_xor a b = map2 (XOR) a b"

text \<open>\<open>_mm_srli_epi16\<close>, \<open>_mm256_srli_epi16\<close>: a logical shift of little-endian 16-bit lanes.\<close>

fun mm_srli_epi16 :: "bytes \<Rightarrow> nat \<Rightarrow> bytes" where
  "mm_srli_epi16 (l # h # v) n =
     (let w = drop_bit n (push_bit 8 (ucast h) OR ucast l :: u16)
      in ucast w # ucast (drop_bit 8 w) # mm_srli_epi16 v n)"
| "mm_srli_epi16 v n = []"

text \<open>\<open>_mm_shuffle_epi8\<close> selects by the low four bits and clears a byte whose index has its top
  bit set; \<open>_mm256_shuffle_epi8\<close> does so within each 128-bit lane.\<close>

definition mm_shuffle_epi8 :: "bytes \<Rightarrow> bytes \<Rightarrow> bytes" where
  "mm_shuffle_epi8 tbl idx = map (\<lambda>i. if bit i 7 then 0 else tbl ! unat (i AND 0x0F)) idx"

definition mm256_shuffle_epi8 :: "bytes \<Rightarrow> bytes \<Rightarrow> bytes" where
  "mm256_shuffle_epi8 tbl idx =
     mm_shuffle_epi8 (take 16 tbl) (take 16 idx) @ mm_shuffle_epi8 (drop 16 tbl) (drop 16 idx)"

text \<open>\<open>vshrq_n_u8\<close> and \<open>vqtbl1q_u8\<close> (an index past the table reads 0).\<close>

definition vshrq_n_u8 :: "bytes \<Rightarrow> nat \<Rightarrow> bytes" where
  "vshrq_n_u8 v n = map (drop_bit n) v"

definition vqtbl1q_u8 :: "bytes \<Rightarrow> bytes \<Rightarrow> bytes" where
  "vqtbl1q_u8 tbl idx = map (\<lambda>i. if unat i < 16 then tbl ! unat i else 0) idx"

section \<open>The vector kernels\<close>

definition ssse3_product :: "NibbleTables \<Rightarrow> bytes \<Rightarrow> bytes" where
  "ssse3_product t inp =
     (let mask_0f = replicate 16 0x0F;
          lo_n = mm_and inp mask_0f;
          hi_n = mm_and (mm_srli_epi16 inp 4) mask_0f
      in mm_xor (mm_shuffle_epi8 (nt_lo t) lo_n) (mm_shuffle_epi8 (nt_hi t) hi_n))"

definition ssse3_mul_acc :: "bytes \<Rightarrow> bytes \<Rightarrow> NibbleTables \<Rightarrow> bytes" where
  "ssse3_mul_acc dst src t =
     (let chunks = length dst div 16; tail = length dst mod 16;
          dst = foldl (\<lambda>dst i. let off = i * 16; prod = ssse3_product t (vload 16 src off);
                                   cur = vload 16 dst off
                               in vstore dst off (mm_xor cur prod)) dst [0..<chunks];
          base = chunks * 16
      in take base dst @ scalar_mul_acc (take tail (drop base dst)) (take tail (drop base src)) t)"

definition ssse3_mul_scale :: "bytes \<Rightarrow> NibbleTables \<Rightarrow> bytes" where
  "ssse3_mul_scale dst t =
     (let chunks = length dst div 16; tail = length dst mod 16;
          dst = foldl (\<lambda>dst i. let off = i * 16
                               in vstore dst off (ssse3_product t (vload 16 dst off))) dst [0..<chunks];
          base = chunks * 16
      in take base dst @ scalar_mul_scale (take tail (drop base dst)) t)"

text \<open>The AVX2 kernel runs two independent 32-byte chains per iteration and hands the remainder
  to the SSSE3 kernel.\<close>

definition avx2_product :: "NibbleTables \<Rightarrow> bytes \<Rightarrow> bytes" where
  "avx2_product t inp =
     (let lo_tbl = nt_lo t @ nt_lo t; hi_tbl = nt_hi t @ nt_hi t; mask_0f = replicate 32 0x0F
      in mm_xor (mm256_shuffle_epi8 lo_tbl (mm_and inp mask_0f))
                (mm256_shuffle_epi8 hi_tbl (mm_and (mm_srli_epi16 inp 4) mask_0f)))"

definition avx2_mul_acc :: "bytes \<Rightarrow> bytes \<Rightarrow> NibbleTables \<Rightarrow> bytes" where
  "avx2_mul_acc dst src t =
     (let unrolled = length dst div 64; rem = length dst mod 64;
          dst = foldl (\<lambda>dst i.
            let off = i * 64;
                prod_a = avx2_product t (vload 32 src off); cur_a = vload 32 dst off;
                prod_b = avx2_product t (vload 32 src (off + 32)); cur_b = vload 32 dst (off + 32);
                dst = vstore dst off (mm_xor cur_a prod_a)
            in vstore dst (off + 32) (mm_xor cur_b prod_b)) dst [0..<unrolled];
          base = unrolled * 64
      in take base dst @ ssse3_mul_acc (take rem (drop base dst)) (take rem (drop base src)) t)"

definition avx2_mul_scale :: "bytes \<Rightarrow> NibbleTables \<Rightarrow> bytes" where
  "avx2_mul_scale dst t =
     (let unrolled = length dst div 64; rem = length dst mod 64;
          dst = foldl (\<lambda>dst i.
            let off = i * 64;
                prod_a = avx2_product t (vload 32 dst off);
                prod_b = avx2_product t (vload 32 dst (off + 32));
                dst = vstore dst off prod_a
            in vstore dst (off + 32) prod_b) dst [0..<unrolled];
          base = unrolled * 64
      in take base dst @ ssse3_mul_scale (take rem (drop base dst)) t)"

definition neon_product :: "NibbleTables \<Rightarrow> bytes \<Rightarrow> bytes" where
  "neon_product t inp =
     (let lo_n = mm_and inp (replicate 16 0x0F); hi_n = vshrq_n_u8 inp 4
      in mm_xor (vqtbl1q_u8 (nt_lo t) lo_n) (vqtbl1q_u8 (nt_hi t) hi_n))"

definition neon_mul_acc :: "bytes \<Rightarrow> bytes \<Rightarrow> NibbleTables \<Rightarrow> bytes" where
  "neon_mul_acc dst src t =
     (let len = length dst; chunks = len div 16; tail = len mod 16;
          dst = foldl (\<lambda>dst i. let p = i * 16; prod = neon_product t (vload 16 src p);
                                   cur = vload 16 dst p
                               in vstore dst p (mm_xor cur prod)) dst [0..<chunks]
      in if tail > 0
         then let base = chunks * 16
              in take base dst @ scalar_mul_acc (take tail (drop base dst)) (take tail (drop base src)) t
         else dst)"

definition neon_mul_scale :: "bytes \<Rightarrow> NibbleTables \<Rightarrow> bytes" where
  "neon_mul_scale dst t =
     (let len = length dst; chunks = len div 16; tail = len mod 16;
          dst = foldl (\<lambda>dst i. let p = i * 16
                               in vstore dst p (neon_product t (vload 16 dst p))) dst [0..<chunks]
      in if tail > 0
         then let base = chunks * 16
              in take base dst @ scalar_mul_scale (take tail (drop base dst)) t
         else dst)"

section \<open>Dispatch and the public entry points\<close>

datatype Dispatch = Avx2 | Ssse3 | Neon | Scalar

text \<open>The detection, with the target architecture and the features of the processor as parameters.\<close>

datatype TargetArch = X86 | Aarch64 | OtherArch

definition dispatch :: "TargetArch \<Rightarrow> (string \<Rightarrow> bool) \<Rightarrow> Dispatch" where
  "dispatch arch detected =
     (if arch = X86 \<and> detected ''avx2'' then Avx2
      else if arch = X86 \<and> detected ''ssse3'' then Ssse3
      else if arch = Aarch64 \<and> detected ''neon'' then Neon
      else Scalar)"

lemma dispatch_supported:
  "case dispatch arch detected of
     Avx2 \<Rightarrow> arch = X86 \<and> detected ''avx2''
   | Ssse3 \<Rightarrow> arch = X86 \<and> detected ''ssse3'' \<and> \<not> detected ''avx2''
   | Neon \<Rightarrow> arch = Aarch64 \<and> detected ''neon''
   | Scalar \<Rightarrow> True"
  by (simp add: dispatch_def)

fun mul_acc_raw :: "bytes \<Rightarrow> bytes \<Rightarrow> NibbleTables \<Rightarrow> Dispatch \<Rightarrow> bytes" where
  "mul_acc_raw dst src t Avx2 = avx2_mul_acc dst src t"
| "mul_acc_raw dst src t Ssse3 = ssse3_mul_acc dst src t"
| "mul_acc_raw dst src t Neon = neon_mul_acc dst src t"
| "mul_acc_raw dst src t Scalar = scalar_mul_acc dst src t"

definition mul_acc_gf2_8 :: "Dispatch \<Rightarrow> bytes \<Rightarrow> bytes \<Rightarrow> u8 \<Rightarrow> bytes res" where
  "mul_acc_gf2_8 disp dst src coef =
     (if length dst \<noteq> length src then Panic
      else if coef = 0 then Ok dst
      else let t = gf2_8_tbl ! unat coef in
        Ok (case disp of
          Avx2 \<Rightarrow> avx2_mul_acc dst src t
        | Ssse3 \<Rightarrow> ssse3_mul_acc dst src t
        | Neon \<Rightarrow> neon_mul_acc dst src t
        | Scalar \<Rightarrow> scalar_mul_acc dst src t))"

definition mul_scale_gf2_8 :: "Dispatch \<Rightarrow> bytes \<Rightarrow> u8 \<Rightarrow> bytes" where
  "mul_scale_gf2_8 disp buf coef =
     (if coef = 0 then replicate (length buf) 0
      else if coef = 1 then buf
      else let t = gf2_8_tbl ! unat coef in
        (case disp of
          Avx2 \<Rightarrow> avx2_mul_scale buf t
        | Ssse3 \<Rightarrow> ssse3_mul_scale buf t
        | Neon \<Rightarrow> neon_mul_scale buf t
        | Scalar \<Rightarrow> scalar_mul_scale buf t))"

definition mul_acc_gf2_4 :: "Dispatch \<Rightarrow> bytes \<Rightarrow> bytes \<Rightarrow> u8 \<Rightarrow> bytes res" where
  "mul_acc_gf2_4 disp dst src coef =
     (if length dst \<noteq> length src then Panic
      else let c = coef AND 0x0F in
        if c = 0 then Ok dst
        else let packed = push_bit 4 c OR c; t = gf2_4_tbl ! unat packed in
          Ok (case disp of
            Avx2 \<Rightarrow> avx2_mul_acc dst src t
          | Ssse3 \<Rightarrow> ssse3_mul_acc dst src t
          | Neon \<Rightarrow> neon_mul_acc dst src t
          | Scalar \<Rightarrow> scalar_mul_acc dst src t))"

definition mul_scale_gf2_4 :: "Dispatch \<Rightarrow> bytes \<Rightarrow> u8 \<Rightarrow> bytes" where
  "mul_scale_gf2_4 disp buf coef =
     (let c = coef AND 0x0F in
      if c = 0 then replicate (length buf) 0
      else let packed = push_bit 4 c OR c; t = gf2_4_tbl ! unat packed in
        (case disp of
          Avx2 \<Rightarrow> avx2_mul_scale buf t
        | Ssse3 \<Rightarrow> ssse3_mul_scale buf t
        | Neon \<Rightarrow> neon_mul_scale buf t
        | Scalar \<Rightarrow> scalar_mul_scale buf t))"

section \<open>The reference implementations\<close>

fun mul_acc_gf2_8_reference :: "bytes \<Rightarrow> bytes \<Rightarrow> u8 \<Rightarrow> bytes" where
  "mul_acc_gf2_8_reference (d # ds) (s # ss) coef =
     (d XOR gf2_8_mul_raw s coef) # mul_acc_gf2_8_reference ds ss coef"
| "mul_acc_gf2_8_reference ds ss coef = ds"

definition mul_scale_gf2_8_reference :: "bytes \<Rightarrow> u8 \<Rightarrow> bytes" where
  "mul_scale_gf2_8_reference buf coef = map (\<lambda>b. gf2_8_mul_raw b coef) buf"

fun mul_acc_gf2_4_reference :: "bytes \<Rightarrow> bytes \<Rightarrow> u8 \<Rightarrow> bytes" where
  "mul_acc_gf2_4_reference (d # ds) (s # ss) coef =
     (let c = coef AND 0x0F;
          hi = push_bit 4 (gf2_4_mul_raw (drop_bit 4 s AND 0x0F) c);
          lo = gf2_4_mul_raw (s AND 0x0F) c
      in (d XOR (hi OR lo)) # mul_acc_gf2_4_reference ds ss coef)"
| "mul_acc_gf2_4_reference ds ss coef = ds"

section \<open>Every kernel is the element-wise product\<close>

definition nib :: "NibbleTables \<Rightarrow> u8 \<Rightarrow> u8" where
  "nib t s = nt_lo t ! unat (s AND 0x0F) XOR nt_hi t ! unat (drop_bit 4 s)"

lemma scalar_mul_acc_map2:
  "length dst = length src \<Longrightarrow> scalar_mul_acc dst src t = map2 (\<lambda>d s. d XOR nib t s) dst src"
  by (induction dst src t rule: scalar_mul_acc.induct) (auto simp: nib_def)

lemma scalar_mul_scale_map: "scalar_mul_scale dst t = map (nib t) dst"
  by (simp add: scalar_mul_scale_def nib_def)

lemma length_mm_srli_epi16: "even (length v) \<Longrightarrow> length (mm_srli_epi16 v n) = length v"
  by (induction v n rule: mm_srli_epi16.induct) (auto simp: Let_def)

lemma srli_low_lane:
  "(ucast (drop_bit 4 (push_bit 8 (ucast h) OR ucast l :: u16)) :: u8) AND 15 = drop_bit 4 l" for l h :: u8
proof (rule bit_word_eqI)
  fix i assume "i < LENGTH(8)"
  then have "i \<in> {0,1,2,3,4,5,6,7}" by (intro nat_less_8_cases) simp
  then show "bit ((ucast (drop_bit 4 (push_bit 8 (ucast h) OR ucast l :: u16)) :: u8) AND 15) i =
      bit (drop_bit 4 l) i"
    by (elim insertE emptyE)
       (simp_all add: bit_and_iff bit_or_iff bit_ucast_iff bit_drop_bit_eq bit_push_bit_iff)
qed

lemma srli_high_lane:
  "(ucast (drop_bit 8 (drop_bit 4 (push_bit 8 (ucast h) OR ucast l :: u16))) :: u8) AND 15 = drop_bit 4 h"
  for l h :: u8
proof (rule bit_word_eqI)
  fix i assume "i < LENGTH(8)"
  then have "i \<in> {0,1,2,3,4,5,6,7}" by (intro nat_less_8_cases) simp
  then show "bit ((ucast (drop_bit 8 (drop_bit 4 (push_bit 8 (ucast h) OR ucast l :: u16))) :: u8) AND 15) i =
      bit (drop_bit 4 h) i"
    by (elim insertE emptyE)
       (simp_all add: bit_and_iff bit_or_iff bit_ucast_iff bit_drop_bit_eq bit_push_bit_iff)
qed

lemma mask_srli_epi16: "even (length v) \<Longrightarrow> map (\<lambda>b. b AND 15) (mm_srli_epi16 v 4) = map (drop_bit 4) v"
proof (induction v "4::nat" rule: mm_srli_epi16.induct)
  case (1 l h v)
  then have "map (\<lambda>b. b AND 15) (mm_srli_epi16 v 4) = map (drop_bit 4) v" by simp
  then show ?case
    unfolding mm_srli_epi16.simps Let_def list.map srli_low_lane srli_high_lane by simp
qed auto

lemma mm_and_replicate: "n = length v \<Longrightarrow> mm_and v (replicate n m) = map (\<lambda>b. b AND m) v"
  by (auto simp: mm_and_def intro: nth_equalityI)

lemma mm_xor_map: "mm_xor (map f v) (map g v) = map (\<lambda>b. f b XOR g b) v"
  by (auto simp: mm_xor_def intro: nth_equalityI)

lemma low_nibble_no_top_bit [simp]: "\<not> bit (b AND 15) 7" "\<not> bit (drop_bit 4 b) 7" for b :: u8
  by (simp_all add: bit_and_iff bit_drop_bit_eq)

lemma ssse3_product_nib: "length inp = 16 \<Longrightarrow> ssse3_product t inp = map (nib t) inp"
  unfolding ssse3_product_def Let_def
  by (simp add: mm_and_replicate length_mm_srli_epi16 mask_srli_epi16 mm_shuffle_epi8_def
    mm_xor_map comp_def nib_def)

lemma mm256_shuffle_broadcast:
  "length tbl = 16 \<Longrightarrow> mm256_shuffle_epi8 (tbl @ tbl) idx = mm_shuffle_epi8 tbl idx"
  by (simp add: mm256_shuffle_epi8_def mm_shuffle_epi8_def flip: map_append)

lemma avx2_product_nib:
  "length inp = 32 \<Longrightarrow> length (nt_lo t) = 16 \<Longrightarrow> length (nt_hi t) = 16 \<Longrightarrow>
   avx2_product t inp = map (nib t) inp"
  unfolding avx2_product_def Let_def
  by (simp add: mm256_shuffle_broadcast mm_and_replicate length_mm_srli_epi16 mask_srli_epi16
    mm_shuffle_epi8_def mm_xor_map comp_def nib_def)

lemma neon_product_nib: "length inp = 16 \<Longrightarrow> neon_product t inp = map (nib t) inp"
  unfolding neon_product_def Let_def
  by (simp add: mm_and_replicate vshrq_n_u8_def vqtbl1q_u8_def mm_xor_map comp_def nib_def
    flip: u8_less_16_unat)

text \<open>A kernel works on blocks of \<open>w\<close> bytes and is element-wise on each. The interface and the
  two loops over it, once for all instruction sets.\<close>

lemma map2_take_drop:
  "length xs = length ys \<Longrightarrow> map2 f (take k xs) (take k ys) @ map2 f (drop k xs) (drop k ys) = map2 f xs ys"
  by (simp flip: map_append take_zip drop_zip)

lemma chunk_loop:
  assumes body: "\<And>dst i. i < n \<Longrightarrow> length dst = length src \<Longrightarrow>
      body dst i = vstore dst (i * w) (map2 f (vload w dst (i * w)) (vload w src (i * w)))"
    and len: "length dst = length src" "n * w \<le> length src"
  shows "foldl body dst [0..<n] = map2 f (take (n * w) dst) (take (n * w) src) @ drop (n * w) dst"
  using body len
proof (induction n)
  case (Suc n)
  let ?d = "map2 f (take (n * w) dst) (take (n * w) src) @ drop (n * w) dst"
  have "foldl body dst [0..<Suc n] = body ?d n"
    using Suc by simp
  also have "\<dots> = vstore ?d (n * w) (map2 f (vload w ?d (n * w)) (vload w src (n * w)))"
    using Suc.prems by (intro Suc.prems(1)) auto
  also have "\<dots> = map2 f (take (Suc n * w) dst) (take (Suc n * w) src) @ drop (Suc n * w) dst"
    using Suc.prems(2,3)
    by (simp add: vstore_def vload_def take_add zip_append add.commute [of w] map2_map_map)
  finally show ?case .
qed simp

locale block_kernel =
  fixes w :: nat and product :: "bytes \<Rightarrow> bytes" and g :: "u8 \<Rightarrow> u8"
  assumes product_map: "length inp = w \<Longrightarrow> product inp = map g inp"
begin

lemma product_block:
  "i < length xs div w \<Longrightarrow> product (vload w xs (i * w)) = map g (vload w xs (i * w))"
proof (rule product_map)
  assume "i < length xs div w"
  then have "Suc i * w \<le> length xs div w * w" by (intro mult_le_mono1) simp
  also have "\<dots> \<le> length xs" by simp
  finally show "length (vload w xs (i * w)) = w" by (simp add: vload_def)
qed

lemma acc_loop:
  assumes len: "length dst = length src"
    and body: "\<And>d i. length d = length src \<Longrightarrow> i < length src div w \<Longrightarrow> body d i =
      vstore d (i * w) (mm_xor (vload w d (i * w)) (product (vload w src (i * w))))"
  shows "foldl body dst [0..<length dst div w] =
    map2 (\<lambda>d s. d XOR g s) (take (length dst div w * w) dst) (take (length dst div w * w) src) @
    drop (length dst div w * w) dst"
proof (rule chunk_loop [OF _ len])
  show "length dst div w * w \<le> length src" by (simp add: len)
  fix d :: bytes and i assume "i < length dst div w" "length d = length src"
  then show "body d i = vstore d (i * w)
      (map2 (\<lambda>d s. d XOR g s) (vload w d (i * w)) (vload w src (i * w)))"
    by (simp add: body len product_block mm_xor_def zip_map2 case_prod_unfold comp_def)
qed

lemma scale_loop:
  assumes body: "\<And>d i. length d = length dst \<Longrightarrow> i < length dst div w \<Longrightarrow> body d i =
      vstore d (i * w) (product (vload w d (i * w)))"
  shows "foldl body dst [0..<length dst div w] =
    map g (take (length dst div w * w) dst) @ drop (length dst div w * w) dst"
proof -
  have fst: "map2 (\<lambda>d s. g d) xs ys = map g xs" if "length xs = length ys" for xs ys :: bytes
    using that by (induction xs ys rule: list_induct2) auto
  have "foldl body dst [0..<length dst div w] =
      map2 (\<lambda>d s. g d) (take (length dst div w * w) dst) (take (length dst div w * w) dst) @
      drop (length dst div w * w) dst"
  proof (rule chunk_loop)
    fix d :: bytes and i assume a: "i < length dst div w" "length d = length dst"
    then have "length (vload w d (i * w)) = length (vload w dst (i * w))" by (simp add: vload_def)
    with a show "body d i = vstore d (i * w) (map2 (\<lambda>d s. g d) (vload w d (i * w)) (vload w dst (i * w)))"
      using product_block [of i d] by (simp add: body fst)
  qed simp_all
  then show ?thesis by (simp add: fst)
qed

text \<open>The loop over whole blocks followed by an element-wise routine on the remainder.\<close>

lemma acc_kernel:
  assumes len: "length dst = length src"
    and body: "\<And>d i. length d = length src \<Longrightarrow> i < length src div w \<Longrightarrow> body d i =
      vstore d (i * w) (mm_xor (vload w d (i * w)) (product (vload w src (i * w))))"
    and rest: "\<And>d s. length d = length s \<Longrightarrow> rest d s = map2 (\<lambda>d s. d XOR g s) d s"
    and fin: "d' = foldl body dst [0..<length dst div w]" and b: "b = length dst div w * w"
  shows "take b d' @ rest (take (length dst mod w) (drop b d')) (take (length dst mod w) (drop b src)) =
    map2 (\<lambda>d s. d XOR g s) dst src"
    and "length dst mod w = 0 \<Longrightarrow> d' = map2 (\<lambda>d s. d XOR g s) dst src"
proof -
  have le: "b \<le> length dst" "b \<le> length src" and m: "length dst mod w = length dst - b"
    using len by (simp_all add: b minus_div_mult_eq_mod)
  have d': "d' = map2 (\<lambda>d s. d XOR g s) (take b dst) (take b src) @ drop b dst"
    unfolding fin b by (rule acc_loop [OF len body])
  have "take b d' = map2 (\<lambda>d s. d XOR g s) (take b dst) (take b src)" "drop b d' = drop b dst"
    using le by (simp_all add: d')
  then show "take b d' @ rest (take (length dst mod w) (drop b d')) (take (length dst mod w) (drop b src)) =
      map2 (\<lambda>d s. d XOR g s) dst src"
    using le len by (simp add: m [unfolded len] rest map2_take_drop)
  show "d' = map2 (\<lambda>d s. d XOR g s) dst src" if "length dst mod w = 0"
    using that le len by (simp add: m [unfolded len] d')
qed

lemma scale_kernel:
  assumes body: "\<And>d i. length d = length dst \<Longrightarrow> i < length dst div w \<Longrightarrow> body d i =
      vstore d (i * w) (product (vload w d (i * w)))"
    and rest: "\<And>d. rest d = map g d"
    and fin: "d' = foldl body dst [0..<length dst div w]" and b: "b = length dst div w * w"
  shows "take b d' @ rest (take (length dst mod w) (drop b d')) = map g dst"
    and "length dst mod w = 0 \<Longrightarrow> d' = map g dst"
proof -
  have le: "b \<le> length dst" and m: "length dst mod w = length dst - b"
    by (simp_all add: b minus_div_mult_eq_mod)
  have d': "d' = map g (take b dst) @ drop b dst"
    unfolding fin b by (rule scale_loop [OF body])
  have "take b d' = map g (take b dst)" "drop b d' = drop b dst"
    using le by (simp_all add: d')
  moreover have "map g (take b dst) @ map g (drop b dst) = map g dst"
    by (metis append_take_drop_id map_append)
  ultimately show "take b d' @ rest (take (length dst mod w) (drop b d')) = map g dst"
    using le by (simp add: m rest)
  show "d' = map g dst" if "length dst mod w = 0"
    using that le by (simp add: m d')
qed

end

interpretation ssse3: block_kernel 16 "ssse3_product t" "nib t" for t
  by unfold_locales (rule ssse3_product_nib)

interpretation neon: block_kernel 16 "neon_product t" "nib t" for t
  by unfold_locales (rule neon_product_nib)

text \<open>The AVX2 loop body stores two adjacent 32-byte blocks, which is one block of 64.\<close>

lemma vload_add: "vload (a + b) xs off = vload a xs off @ vload b xs (off + a)"
  by (simp add: vload_def take_add add.commute)

lemma vstore_vstore:
  assumes "off + length v + length v' \<le> length xs"
  shows "vstore (vstore xs off v) (off + length v) v' = vstore xs off (v @ v')"
  using assms by (cases v) (auto simp: vstore_def min_def ac_simps)

lemma mm_xor_append: "length a = length b \<Longrightarrow> mm_xor (a @ a') (b @ b') = mm_xor a b @ mm_xor a' b'"
  by (simp add: mm_xor_def)

definition avx2_pair :: "NibbleTables \<Rightarrow> bytes \<Rightarrow> bytes" where
  "avx2_pair t inp = avx2_product t (take 32 inp) @ avx2_product t (drop 32 inp)"

definition nt_ok :: "NibbleTables \<Rightarrow> bool" where
  "nt_ok t = (length (nt_lo t) = 16 \<and> length (nt_hi t) = 16)"

lemma avx2_kernel: "nt_ok t \<Longrightarrow> block_kernel 64 (avx2_pair t) (nib t)"
  by unfold_locales (simp add: avx2_pair_def avx2_product_nib nt_ok_def flip: map_append)

lemma length_vload [simp]: "off + w \<le> length xs \<Longrightarrow> length (vload w xs off) = w"
  by (simp add: vload_def)

lemma block_64_le: "i < n div 64 \<Longrightarrow> i * 64 + 64 \<le> (n :: nat)"
proof -
  assume "i < n div 64"
  then have "Suc i * 64 \<le> n div 64 * 64" by (intro mult_le_mono1) simp
  also have "\<dots> \<le> n" by simp
  finally show ?thesis by simp
qed

lemma vload_64: "vload 64 xs off = vload 32 xs off @ vload 32 xs (off + 32)"
  using vload_add [of 32 32 xs off] by simp

lemma avx2_mul_acc_body:
  assumes "length d = length src" "i < length src div 64" "nt_ok t"
  shows "vstore (vstore d (i * 64) (mm_xor (vload 32 d (i * 64)) (avx2_product t (vload 32 src (i * 64)))))
      (i * 64 + 32) (mm_xor (vload 32 d (i * 64 + 32)) (avx2_product t (vload 32 src (i * 64 + 32)))) =
    vstore d (i * 64) (mm_xor (vload 64 d (i * 64)) (avx2_pair t (vload 64 src (i * 64))))"
proof -
  have b: "i * 64 + 64 \<le> length src" by (rule block_64_le) fact
  have l: "length (avx2_product t v) = length v" if "length v = 32" for v
    using that assms(3) by (simp add: avx2_product_nib nt_ok_def)
  let ?x = "mm_xor (vload 32 d (i * 64)) (avx2_product t (vload 32 src (i * 64)))"
  have lx: "length ?x = 32" using b assms(1) by (simp add: mm_xor_def l)
  have "length (mm_xor (vload 32 d (i * 64 + 32)) (avx2_product t (vload 32 src (i * 64 + 32)))) = 32"
    using b assms(1) by (simp add: mm_xor_def l)
  then show ?thesis
    using vstore_vstore [of "i * 64" ?x _ d] b assms(1) unfolding lx
    by (simp add: vload_64 avx2_pair_def mm_xor_append l)
qed

lemma avx2_mul_scale_body:
  assumes "length d = n" "i < n div 64" "nt_ok t"
  shows "vstore (vstore d (i * 64) (avx2_product t (vload 32 d (i * 64))))
      (i * 64 + 32) (avx2_product t (vload 32 d (i * 64 + 32))) =
    vstore d (i * 64) (avx2_pair t (vload 64 d (i * 64)))"
proof -
  have b: "i * 64 + 64 \<le> n" by (rule block_64_le) fact
  have l: "length (avx2_product t v) = length v" if "length v = 32" for v
    using that assms(3) by (simp add: avx2_product_nib nt_ok_def)
  have "length (avx2_product t (vload 32 d (i * 64))) = 32" using b assms(1) by (simp add: l)
  then show ?thesis
    using vstore_vstore [of "i * 64" "avx2_product t (vload 32 d (i * 64))" _ d] b assms(1)
    by (simp add: vload_64 avx2_pair_def l)
qed

text \<open>Each kernel on whole buffers.\<close>

lemma ssse3_mul_acc_map2:
  "length dst = length src \<Longrightarrow> ssse3_mul_acc dst src t = map2 (\<lambda>d s. d XOR nib t s) dst src"
  unfolding ssse3_mul_acc_def Let_def
  by (rule ssse3.acc_kernel(1) [where rest = "\<lambda>d s. scalar_mul_acc d s t", OF _ _ _ refl])
     (simp_all add: scalar_mul_acc_map2)

lemma ssse3_mul_scale_map: "ssse3_mul_scale dst t = map (nib t) dst"
  unfolding ssse3_mul_scale_def Let_def
  by (rule ssse3.scale_kernel(1) [where rest = "\<lambda>d. scalar_mul_scale d t", OF _ _ refl])
     (simp_all add: scalar_mul_scale_map)

lemma neon_mul_acc_map2:
  "length dst = length src \<Longrightarrow> neon_mul_acc dst src t = map2 (\<lambda>d s. d XOR nib t s) dst src"
  unfolding neon_mul_acc_def Let_def
  using neon.acc_kernel [where rest = "\<lambda>d s. scalar_mul_acc d s t" and t = t, OF _ _ _ refl refl, of dst src]
  by (auto simp: scalar_mul_acc_map2)

lemma neon_mul_scale_map: "neon_mul_scale dst t = map (nib t) dst"
  unfolding neon_mul_scale_def Let_def
  using neon.scale_kernel [where rest = "\<lambda>d. scalar_mul_scale d t" and t = t, OF _ _ refl refl, of dst]
  by (auto simp: scalar_mul_scale_map)

lemma avx2_mul_acc_map2:
  "length dst = length src \<Longrightarrow> nt_ok t \<Longrightarrow> avx2_mul_acc dst src t = map2 (\<lambda>d s. d XOR nib t s) dst src"
  unfolding avx2_mul_acc_def Let_def
  by (rule block_kernel.acc_kernel(1) [where rest = "\<lambda>d s. ssse3_mul_acc d s t", OF avx2_kernel _ _ _ refl])
     (simp_all only: avx2_mul_acc_body ssse3_mul_acc_map2)

lemma avx2_mul_scale_map: "nt_ok t \<Longrightarrow> avx2_mul_scale dst t = map (nib t) dst"
  unfolding avx2_mul_scale_def Let_def
  by (rule block_kernel.scale_kernel(1) [where rest = "\<lambda>d. ssse3_mul_scale d t", OF avx2_kernel _ _ refl])
     (simp_all only: avx2_mul_scale_body ssse3_mul_scale_map)

lemmas kernel_maps = scalar_mul_acc_map2 ssse3_mul_acc_map2 neon_mul_acc_map2 avx2_mul_acc_map2
  scalar_mul_scale_map ssse3_mul_scale_map neon_mul_scale_map avx2_mul_scale_map

text \<open>Every table entry is the product with the nibble, so a table lookup pair is a field product.\<close>

lemma nt_ok_tables [simp]: "nt_ok (for_gf2_8 c)" "nt_ok (for_gf2_4 c)"
  by (simp_all add: nt_ok_def for_gf2_8_def for_gf2_4_def Let_def)

lemma u8_nibble_index [simp]: "unat (s AND 15) < 16" "unat (drop_bit 4 s) < 16" for s :: u8
  using u8_low_nibble_less [of s] u8_high_nibble_less [of s] by (simp_all only: u8_less_16_unat)

lemma nib_for_gf2_8: "nib (for_gf2_8 c) s = gf2_8_mul_raw s c"
proof -
  have "gf2_8_mul_raw s c = gf2_8_mul_raw ((s AND 15) XOR push_bit 4 (drop_bit 4 s)) c"
    using u8_nibbles [of s] by simp
  also have "\<dots> = gf2_8_mul_raw (s AND 15) c XOR gf2_8_mul_raw (push_bit 4 (drop_bit 4 s)) c"
    using gf8.gmul_xor [of c "s AND 15" "push_bit 4 (drop_bit 4 s)"]
    by (simp add: gf2_8_mul_raw_gmul gf8.gmul_commute)
  finally show ?thesis by (simp add: nib_def for_gf2_8_def)
qed

lemma nib_for_gf2_4: "nib (for_gf2_4 c) s = mul_packed_byte s c"
proof -
  have 1: "drop_bit 4 s AND 15 = drop_bit 4 s" for s :: u8 by simp
  have 2: "push_bit 4 h OR l = l XOR push_bit 4 h" if "l < 16" for h l :: u8
  proof (rule bit_word_eqI)
    fix i assume "i < LENGTH(8)"
    then have i: "i \<in> {0,1,2,3,4,5,6,7}" by (intro nat_less_8_cases) simp
    have "l AND 15 = l" using that by simp
    then have "bit l i = (bit l i \<and> bit (15::u8) i)" by (metis bit_and_iff)
    then show "bit (push_bit 4 h OR l) i = bit (l XOR push_bit 4 h) i"
      using i by (elim insertE emptyE) (simp_all add: bit_or_iff bit_xor_iff bit_push_bit_iff)
  qed
  show ?thesis
    by (simp add: nib_def for_gf2_4_def mul_packed_byte_def Let_def 1 2 gf2_4_mul_raw_less)
qed

lemma gf2_8_tbl_nth: "gf2_8_tbl ! unat c = for_gf2_8 c"
  by (simp add: gf2_8_tbl_def)

lemma gf2_4_tbl_nth: "gf2_4_tbl ! unat c = for_gf2_4 c"
  by (simp add: gf2_4_tbl_def)

section \<open>The entry points equal the references\<close>

text \<open>The product of a packed byte with one GF(2^4) coefficient.\<close>

definition gf2_4_byte_mul :: "u8 \<Rightarrow> u8 \<Rightarrow> u8" where
  "gf2_4_byte_mul s coef = mul_packed_byte s (push_bit 4 (coef AND 0x0F) OR (coef AND 0x0F))"

lemma mul_packed_byte_dup:
  "c < 16 \<Longrightarrow> mul_packed_byte s (push_bit 4 c OR c) =
     push_bit 4 (gf2_4_mul_raw (drop_bit 4 s) c) OR gf2_4_mul_raw (s AND 15) c"
  by (simp add: mul_packed_byte_def Let_def nibble_pair del: drop_bit_or)

lemma gf2_4_byte_mul_eq:
  "gf2_4_byte_mul s coef = push_bit 4 (gf2_4_mul_raw (drop_bit 4 s) (coef AND 15)) OR
     gf2_4_mul_raw (s AND 15) (coef AND 15)"
  unfolding gf2_4_byte_mul_def by (rule mul_packed_byte_dup) simp

lemma mul_raw_zero [simp]:
  "gf2_8_mul_raw 0 c = 0" "gf2_8_mul_raw c 0 = 0" "gf2_4_mul_raw 0 c = 0" "gf2_4_mul_raw c 0 = 0"
  by (simp_all add: gf2_8_mul_raw_def gf2_4_mul_raw_def)

lemma map2_xor_zero: "length xs = length ys \<Longrightarrow> map2 (\<lambda>d s. d XOR 0) xs ys = (xs :: bytes)"
  by (induction xs ys rule: list_induct2) auto

lemma mul_acc_gf2_8_eq:
  "mul_acc_gf2_8 disp dst src coef =
     (if length dst \<noteq> length src then Panic
      else Ok (map2 (\<lambda>d s. d XOR gf2_8_mul_raw s coef) dst src))"
  by (cases disp) (simp_all add: mul_acc_gf2_8_def Let_def gf2_8_tbl_nth kernel_maps nib_for_gf2_8
    map2_xor_zero [simplified])

lemma mul_acc_gf2_4_eq:
  "mul_acc_gf2_4 disp dst src coef =
     (if length dst \<noteq> length src then Panic
      else Ok (map2 (\<lambda>d s. d XOR gf2_4_byte_mul s coef) dst src))"
proof -
  define c where "c = coef AND 15"
  have "c < 16" by (simp add: c_def)
  then show ?thesis
    unfolding mul_acc_gf2_4_def gf2_4_byte_mul_eq c_def [symmetric]
    by (cases disp) (simp_all add: Let_def gf2_4_tbl_nth kernel_maps nib_for_gf2_4
      map2_xor_zero [simplified] mul_packed_byte_dup)
qed

lemma mul_scale_gf2_8_eq: "mul_scale_gf2_8 disp buf coef = map (\<lambda>b. gf2_8_mul_raw b coef) buf"
proof -
  have "gf2_8_mul_raw b 1 = b" for b
    using gf8.gmul_one [of b] by (simp add: gf2_8_mul_raw_gmul gf8.gmul_commute)
  then show ?thesis
    by (cases disp) (simp_all add: mul_scale_gf2_8_def Let_def gf2_8_tbl_nth kernel_maps nib_for_gf2_8
      map_replicate_const)
qed

lemma mul_scale_gf2_4_eq: "mul_scale_gf2_4 disp buf coef = map (\<lambda>b. gf2_4_byte_mul b coef) buf"
proof -
  define c where "c = coef AND 15"
  have "c < 16" by (simp add: c_def)
  then show ?thesis
    unfolding mul_scale_gf2_4_def gf2_4_byte_mul_eq c_def [symmetric]
    by (cases disp) (simp_all add: Let_def gf2_4_tbl_nth kernel_maps nib_for_gf2_4
      map_replicate_const mul_packed_byte_dup)
qed

lemma mul_acc_gf2_8_reference_eq:
  "length dst = length src \<Longrightarrow>
   mul_acc_gf2_8_reference dst src coef = map2 (\<lambda>d s. d XOR gf2_8_mul_raw s coef) dst src"
  by (induction dst src rule: list_induct2) auto

lemma mul_acc_gf2_4_reference_eq:
  "length dst = length src \<Longrightarrow>
   mul_acc_gf2_4_reference dst src coef = map2 (\<lambda>d s. d XOR gf2_4_byte_mul s coef) dst src"
  by (induction dst src rule: list_induct2) (simp_all add: gf2_4_byte_mul_eq Let_def)

end
