(* ===== verification/Gf_Ops.thy ===== *)
theory Gf_Ops
  imports Gf_Simd Config
begin

text \<open>
  The kernels as the codec uses them: the \<open>match field\<close> dispatch of the encoder and of the
  decoding matrix, and the interface \<open>byte_scaling\<close> of the laws that elimination rests on, with
  its interpretation on the product of both fields.
\<close>

text \<open>A payload byte times a coefficient: one GF(2^8) product, or both nibbles times the low nibble
  of the coefficient.\<close>

fun byte_mul :: "Field \<Rightarrow> u8 \<Rightarrow> u8 \<Rightarrow> u8" where
  "byte_mul Gf2_8_field s c = gf2_8_mul_raw s c"
| "byte_mul Gf2_4_field s c = gf2_4_byte_mul s c"

fun mul_acc_field :: "Field \<Rightarrow> Dispatch \<Rightarrow> bytes \<Rightarrow> bytes \<Rightarrow> u8 \<Rightarrow> bytes res" where
  "mul_acc_field Gf2_8_field disp dst src c = mul_acc_gf2_8 disp dst src c"
| "mul_acc_field Gf2_4_field disp dst src c = mul_acc_gf2_4 disp dst src c"

fun mul_scale_field :: "Field \<Rightarrow> Dispatch \<Rightarrow> bytes \<Rightarrow> u8 \<Rightarrow> bytes" where
  "mul_scale_field Gf2_8_field disp buf c = mul_scale_gf2_8 disp buf c"
| "mul_scale_field Gf2_4_field disp buf c = mul_scale_gf2_4 disp buf c"

lemma mul_acc_field_eq:
  "mul_acc_field f disp dst src c =
     (if length dst \<noteq> length src then Panic else Ok (map2 (\<lambda>d s. d XOR byte_mul f s c) dst src))"
  by (cases f) (simp_all add: mul_acc_gf2_8_eq mul_acc_gf2_4_eq)

lemma mul_scale_field_eq: "mul_scale_field f disp buf c = map (\<lambda>b. byte_mul f b c) buf"
  by (cases f) (simp_all add: mul_scale_gf2_8_eq mul_scale_gf2_4_eq)

section \<open>The laws of scaling\<close>

locale byte_scaling =
  fixes mul :: "u8 \<Rightarrow> u8 \<Rightarrow> u8"
  assumes mul_xor_left: "mul (a XOR b) c = mul a c XOR mul b c"
    and mul_xor_right: "mul a (b XOR c) = mul a b XOR mul a c"
    and mul_assoc: "mul (mul a b) c = mul a (mul b c)"
    and mul_one: "mul a 1 = a"
begin

lemma mul_zero_left [simp]: "mul 0 c = 0"
  using mul_xor_left [of 0 0 c] by simp

lemma mul_zero_right [simp]: "mul a 0 = 0"
  using mul_xor_right [of a 0 0] by simp

lemma mul_sum_left: "finite A \<Longrightarrow> mul (xor_sum h A) c = xor_sum (\<lambda>i. mul (h i) c) A"
  by (induction A rule: finite_induct) (auto simp: mul_xor_left)

text \<open>Adding a multiple of one equation to another, and scaling an equation.\<close>

lemma equation_add:
  assumes "finite A" "xor_sum (\<lambda>i. mul (x i) (a i)) A = p" "xor_sum (\<lambda>i. mul (x i) (b i)) A = q"
  shows "xor_sum (\<lambda>i. mul (x i) (a i XOR mul (b i) c)) A = p XOR mul q c"
proof -
  have "xor_sum (\<lambda>i. mul (x i) (a i XOR mul (b i) c)) A =
      xor_sum (\<lambda>i. mul (x i) (a i) XOR mul (mul (x i) (b i)) c) A"
    by (simp add: mul_xor_right mul_assoc)
  then show ?thesis
    using assms by (simp add: xsum.distrib mul_sum_left flip: assms(3))
qed

lemma equation_scale:
  assumes "finite A" "xor_sum (\<lambda>i. mul (x i) (a i)) A = p"
  shows "xor_sum (\<lambda>i. mul (x i) (mul (a i) c)) A = mul p c"
  using assms(1) by (simp add: mul_sum_left mul_assoc flip: assms(2))

end

lemma gf2_4_byte_mul_nibbles:
  "gf2_4_byte_mul s c AND 15 = gf2_4_mul_raw (s AND 15) (c AND 15)"
  "drop_bit 4 (gf2_4_byte_mul s c) = gf2_4_mul_raw (drop_bit 4 s) (c AND 15)"
  unfolding gf2_4_byte_mul_eq by (rule nibble_pair; simp add: gf2_4_mul_raw_less)+

lemma u8_eq_nibbles: "x AND 15 = y AND 15 \<Longrightarrow> drop_bit 4 x = drop_bit 4 y \<Longrightarrow> x = y" for x y :: u8
  by (metis u8_nibbles)

interpretation fs: byte_scaling "byte_mul f" for f
proof (cases f)
  case Gf2_8_field
  then show "byte_scaling (byte_mul f)"
    by unfold_locales
       (simp_all add: gf2_8_mul_raw_gmul gf8.gmul_xor gf8.gmul_assoc gf8.gmul_commute [of _ 1] gf8.gmul_one,
        metis gf8.gmul_xor gf8.gmul_commute UNIV_I)
next
  case Gf2_4_field
  have n: "(x XOR y) AND 15 = (x AND 15) XOR (y AND 15)" for x y :: u8
    by (rule bit_word_eqI) (auto simp: bit_xor_iff bit_and_iff)
  note facts = gf2_4_byte_mul_nibbles gf2_4_mul_raw_gmul n drop_bit_xor gf2_4_mul_raw_less
    u8_xor_less_16 gf4.gmul_C [simplified]
  have "byte_scaling gf2_4_byte_mul"
  proof
    fix a b c :: u8
    show "gf2_4_byte_mul (a XOR b) c = gf2_4_byte_mul a c XOR gf2_4_byte_mul b c"
      by (rule u8_eq_nibbles) (simp_all add: facts gf4.gmul_commute [of _ "c AND 15"] gf4.gmul_xor)
    show "gf2_4_byte_mul a (b XOR c) = gf2_4_byte_mul a b XOR gf2_4_byte_mul a c"
      by (rule u8_eq_nibbles) (simp_all add: facts gf4.gmul_xor)
    show "gf2_4_byte_mul (gf2_4_byte_mul a b) c = gf2_4_byte_mul a (gf2_4_byte_mul b c)"
      by (rule u8_eq_nibbles) (simp_all add: facts gf4.gmul_assoc)
    show "gf2_4_byte_mul a 1 = a"
      by (rule u8_eq_nibbles) (simp_all add: facts gf4.gmul_one gf4.gmul_commute [of _ 1])
  qed
  moreover have "byte_mul f = gf2_4_byte_mul" using Gf2_4_field by (simp add: fun_eq_iff)
  ultimately show "byte_scaling (byte_mul f)" by simp
qed

end
