(* ===== verification/Gf_Mds.thy ===== *)
theory Gf_Mds
  imports Gf_Ops
begin

text \<open>
  Cauchy and Vandermonde systems over an arbitrary field have only the trivial solution. The two
  coefficient generators of \<^verbatim>\<open>src/wire/ev/coef_gen.rs\<close> are instances; the theory also carries
  sums of field elements over to exclusive-or sums of bytes.
\<close>

section \<open>Cauchy systems\<close>

lemma cauchy_eliminate:
  fixes xa xi y yk :: "'a::field"
  assumes "xi + y \<noteq> 0" "xi + yk \<noteq> 0"
  shows "(xa + y) / (xi + y) - (xa + yk) / (xi + yk) = (xa - xi) / (xi + yk) * (yk - y) / (xi + y)"
  using assms by (simp add: field_simps)

lemma cauchy_system_trivial:
  fixes x :: "'i \<Rightarrow> 'a::field" and y :: "'j \<Rightarrow> 'a"
  assumes "finite I" "finite J" "card I = card J" "inj_on x I" "inj_on y J"
    and "\<And>i j. i \<in> I \<Longrightarrow> j \<in> J \<Longrightarrow> x i + y j \<noteq> 0"
    and "\<And>j. j \<in> J \<Longrightarrow> (\<Sum>i\<in>I. d i / (x i + y j)) = 0"
    and "i \<in> I"
  shows "d i = 0"
  using assms
proof (induction I arbitrary: J d i rule: finite_induct)
  case (insert a I)
  from insert.prems(2) insert.hyps obtain k where k: "k \<in> J" by fastforce
  let ?J = "J - {k}" and ?e = "\<lambda>i. d i * ((x a - x i) / (x i + y k))"
  have nz: "x i + y j \<noteq> 0" if "i = a \<or> i \<in> I" "j \<in> J" for i j
    using insert.prems(5) [of i j] that by blast
  have full: "d a / (x a + y j) + (\<Sum>i\<in>I. d i / (x i + y j)) = 0" if "j \<in> J" for j
    using insert.prems(6) [OF that] insert.hyps by simp
  have scaled: "d a + (\<Sum>i\<in>I. d i * ((x a + y j) / (x i + y j))) = 0" if "j \<in> J" for j
  proof -
    have "(x a + y j) * (d a / (x a + y j) + (\<Sum>i\<in>I. d i / (x i + y j))) = 0"
      using full [OF that] by simp
    then have "(x a + y j) * (d a / (x a + y j)) + (\<Sum>i\<in>I. (x a + y j) * (d i / (x i + y j))) = 0"
      by (simp only: distrib_left sum_distrib_left)
    then show ?thesis using nz [of a j] that by (simp add: mult.commute)
  qed
  have "?e i = 0" if "i \<in> I" for i
  proof (rule insert.IH [where J = ?J])
    show "finite ?J" "inj_on x I" "inj_on y ?J" "i \<in> I"
      using insert.prems that by (auto intro: inj_on_subset)
    show "card I = card ?J" using insert.prems(1,2) insert.hyps k by simp
    show "x i + y j \<noteq> 0" if "i \<in> I" "j \<in> ?J" for i j using nz that by blast
    fix j assume j: "j \<in> ?J"
    then have ne: "y k - y j \<noteq> 0" using insert.prems(4) k by (auto dest: inj_onD)
    have "(\<Sum>i\<in>I. d i * ((x a + y j) / (x i + y j))) - (\<Sum>i\<in>I. d i * ((x a + y k) / (x i + y k))) = 0"
      using scaled [of j] scaled [OF k] j by (simp add: add_eq_0_iff2)
    then have "(\<Sum>i\<in>I. d i * ((x a + y j) / (x i + y j) - (x a + y k) / (x i + y k))) = 0"
      by (simp add: right_diff_distrib sum_subtractf)
    also have "(\<Sum>i\<in>I. d i * ((x a + y j) / (x i + y j) - (x a + y k) / (x i + y k))) =
        (\<Sum>i\<in>I. (y k - y j) * (?e i / (x i + y j)))"
    proof (rule sum.cong [OF refl])
      fix i assume "i \<in> I"
      then have "x i + y j \<noteq> 0" "x i + y k \<noteq> 0" using nz k j by blast+
      then show "d i * ((x a + y j) / (x i + y j) - (x a + y k) / (x i + y k)) =
          (y k - y j) * (?e i / (x i + y j))"
        by (simp add: cauchy_eliminate)
    qed
    finally have "(y k - y j) * (\<Sum>i\<in>I. ?e i / (x i + y j)) = 0" by (simp only: sum_distrib_left)
    with ne show "(\<Sum>i\<in>I. ?e i / (x i + y j)) = 0" by (simp only: mult_eq_0_iff simp_thms)
  qed
  moreover have "x a - x i \<noteq> 0" if "i \<in> I" for i
    using inj_onD [OF insert.prems(3), of a i] insert.hyps(2) that by auto
  ultimately have dI: "d i = 0" if "i \<in> I" for i
    using that nz [of i k] k by (metis divide_eq_0_iff mult_eq_0_iff)
  then have "d a / (x a + y k) = 0" using full [OF k] by simp
  then have "d a = 0" using nz [of a k] k by simp
  with dI insert.prems(7) show ?case by blast
qed simp

section \<open>Vandermonde systems\<close>

lemma vandermonde_system_trivial:
  fixes x :: "'i \<Rightarrow> 'a::field"
  assumes "finite I" "inj_on x I" "\<And>i. i \<in> I \<Longrightarrow> x i \<noteq> 0"
    and "\<And>c. c0 \<le> c \<Longrightarrow> c < c0 + card I \<Longrightarrow> (\<Sum>i\<in>I. d i * x i ^ c) = 0"
    and "i \<in> I"
  shows "d i = 0"
  using assms
proof (induction I arbitrary: d i rule: finite_induct)
  case (insert a I)
  have full: "d a * x a ^ c + (\<Sum>i\<in>I. d i * x i ^ c) = 0" if "c0 \<le> c" "c \<le> c0 + card I" for c
    using insert.prems(3) [of c] insert.hyps that by simp
  have "d i * (x i - x a) = 0" if "i \<in> I" for i
  proof (rule insert.IH [OF _ _ _ that])
    show "inj_on x I" using insert.prems(1) by simp
    show "x i \<noteq> 0" if "i \<in> I" for i using insert.prems(2) that by blast
    fix c assume c: "c0 \<le> c" "c < c0 + card I"
    have "(\<Sum>i\<in>I. d i * (x i - x a) * x i ^ c) =
        (\<Sum>i\<in>I. d i * x i ^ Suc c) - x a * (\<Sum>i\<in>I. d i * x i ^ c)"
      by (simp add: algebra_simps sum_subtractf sum_distrib_left)
    also have "(\<Sum>i\<in>I. d i * x i ^ Suc c) = - (d a * x a ^ Suc c)"
      using full [of "Suc c"] c by (simp add: eq_neg_iff_add_eq_0 add.commute)
    also have "(\<Sum>i\<in>I. d i * x i ^ c) = - (d a * x a ^ c)"
      using full [of c] c by (simp add: eq_neg_iff_add_eq_0 add.commute)
    finally show "(\<Sum>i\<in>I. d i * (x i - x a) * x i ^ c) = 0" by simp
  qed
  moreover have "x i - x a \<noteq> 0" if "i \<in> I" for i
    using inj_onD [OF insert.prems(1), of i a] insert.hyps(2) that by auto
  ultimately have dI: "d i = 0" if "i \<in> I" for i using that by (metis mult_eq_0_iff)
  then have "d a * x a ^ c0 = 0" using full [of c0] by simp
  then have "d a = 0" using insert.prems(2) [of a] by simp
  with dI insert.prems(4) show ?case by blast
qed simp

section \<open>Sums of elements and of bytes\<close>

lemma gf8_value_sum: "gf8_value (sum f A) = xor_sum (\<lambda>i. gf8_value (f i)) A"
  by (induction A rule: infinite_finite_induct) auto

lemma gf4_value_sum: "gf4_value (sum f A) = xor_sum (\<lambda>i. gf4_value (f i)) A"
  by (induction A rule: infinite_finite_induct) auto

lemma gf8_eq_0_iff: "(a = 0) = (gf8_value a = 0)"
  by (cases a) (simp add: zero_Gf2_8_def)

lemma gf4_eq_0_iff: "(a = 0) = (gf4_value a = 0)"
  by (simp add: gf4_eq_iff)

lemma gf8_sum_eq_0:
  "((\<Sum>i\<in>A. Gf2_8 (v i) * f i) = 0) = (xor_sum (\<lambda>i. gf2_8_mul_raw (v i) (gf8_value (f i))) A = 0)"
  by (simp add: gf8_eq_0_iff gf8_value_sum)

lemma low_nibble_xor: "(x XOR y) AND 15 = (x AND 15) XOR (y AND 15)" for x y :: u8
  by (rule bit_word_eqI) (auto simp: bit_xor_iff bit_and_iff)

lemma xor_sum_nibbles:
  "xor_sum f A AND 15 = xor_sum (\<lambda>i. f i AND 15) A"
  "drop_bit 4 (xor_sum f A) = xor_sum (\<lambda>i. drop_bit 4 (f i)) A"
  by (induction A rule: infinite_finite_induct) (simp_all add: low_nibble_xor drop_bit_xor)

text \<open>Both nibbles of a packed sum.\<close>

lemma gf4_sum_eq_0:
  assumes "xor_sum (\<lambda>i. gf2_4_byte_mul (v i) (gf4_value (f i))) A = 0"
  shows "(\<Sum>i\<in>A. Gf2_4_new (v i) * f i) = 0" "(\<Sum>i\<in>A. Gf2_4_new (drop_bit 4 (v i)) * f i) = 0"
proof -
  let ?s = "xor_sum (\<lambda>i. gf2_4_byte_mul (v i) (gf4_value (f i))) A"
  have "?s AND 15 = 0" "drop_bit 4 ?s = 0" using assms by simp_all
  then show "(\<Sum>i\<in>A. Gf2_4_new (v i) * f i) = 0" "(\<Sum>i\<in>A. Gf2_4_new (drop_bit 4 (v i)) * f i) = 0"
    unfolding xor_sum_nibbles gf2_4_byte_mul_nibbles
    by (simp_all add: gf4_eq_0_iff gf4_value_sum)
qed

end
