(* ===== verification/Coef_Gen.thy ===== *)
theory Coef_Gen
  imports Gf_Mds
begin

text \<open>
  \<^verbatim>\<open>src/wire/ev/coef_gen.rs\<close>: Vandermonde and Cauchy coefficients. The theory shows that the
  coefficients never vanish, that both families recover as many erased symbols as coded symbols
  arrive, and what the generation rotation of the Cauchy family amounts to.
\<close>

section \<open>Vandermonde\<close>

fun vandermonde_coef :: "Field \<Rightarrow> u32 \<Rightarrow> u32 \<Rightarrow> u8" where
  "vandermonde_coef Gf2_8_field src_id coded_id = gf8_value (Gf2_8_vandermonde src_id coded_id)"
| "vandermonde_coef Gf2_4_field src_id coded_id = gf4_value (Gf2_4_vandermonde src_id coded_id)"

definition vandermonde_packed_gf2_4 :: "u32 \<Rightarrow> u32 \<Rightarrow> u32 \<Rightarrow> u8" where
  "vandermonde_packed_gf2_4 src_id_hi src_id_lo coded_id =
     (let hi = gf4_value (Gf2_4_vandermonde src_id_hi coded_id) AND 0x0F;
          lo = gf4_value (Gf2_4_vandermonde src_id_lo coded_id) AND 0x0F
      in push_bit 4 hi OR lo)"

fun vandermonde_batch :: "Field \<Rightarrow> u32 list \<Rightarrow> u32 \<Rightarrow> bytes" where
  "vandermonde_batch Gf2_8_field source_ids coded_id =
     map (\<lambda>sid. gf8_value (Gf2_8_vandermonde sid coded_id)) source_ids"
| "vandermonde_batch Gf2_4_field source_ids coded_id =
     map (\<lambda>sid. gf4_value (Gf2_4_vandermonde sid coded_id) AND 0x0F) source_ids"

record VandermondeRow =
  vr_field :: Field
  vr_coded_id :: u32

definition VandermondeRow_new :: "Field \<Rightarrow> u32 \<Rightarrow> VandermondeRow" where
  "VandermondeRow_new field coded_id = \<lparr> vr_field = field, vr_coded_id = coded_id \<rparr>"

definition VandermondeRow_coef :: "VandermondeRow \<Rightarrow> u32 \<Rightarrow> u8" where
  "VandermondeRow_coef r src_id = vandermonde_coef (vr_field r) src_id (vr_coded_id r)"

section \<open>Cauchy\<close>

definition cauchy_coef_gf2_8 :: "u32 \<Rightarrow> u32 \<Rightarrow> u8 \<Rightarrow> u8 res" where
  "cauchy_coef_gf2_8 src_id coded_id generation =
     (let x = ucast (src_id AND 0x7F) :: u8;
          y_offset = (coded_id + ucast generation * 7) AND 0x7F;
          y = 128 + ucast y_offset :: u8;
          denom = Gf2_8 (x XOR y)
      in and_then (Gf2_8_inv denom) (\<lambda>i. Ok (gf8_value i)))"

definition cauchy_batch_gf2_8 :: "u32 list \<Rightarrow> u32 \<Rightarrow> u8 \<Rightarrow> bytes res" where
  "cauchy_batch_gf2_8 source_ids coded_id generation =
     for_each (\<lambda>v sid. and_then (cauchy_coef_gf2_8 sid coded_id generation) (\<lambda>c. Ok (v @ [c])))
       [] source_ids"

definition cauchy_coef_gf2_4 :: "u32 \<Rightarrow> u32 \<Rightarrow> u8 \<Rightarrow> u8 res" where
  "cauchy_coef_gf2_4 src_id coded_id generation =
     (let x = ucast (src_id mod 7) :: u8;
          y_offset = ucast ((coded_id + ucast generation * 3) mod 7) :: u8;
          y = 8 + y_offset;
          denom = Gf2_4_new (x XOR y)
      in and_then (Gf2_4_inv denom) (\<lambda>i. Ok (gf4_value i)))"

definition cauchy_batch_gf2_4 :: "u32 list \<Rightarrow> u32 \<Rightarrow> u8 \<Rightarrow> bytes res" where
  "cauchy_batch_gf2_4 source_ids coded_id generation =
     for_each (\<lambda>v sid. and_then (cauchy_coef_gf2_4 sid coded_id generation) (\<lambda>c. Ok (v @ [c])))
       [] source_ids"

text \<open>\<open>verify_cauchy_2x2_nonsingular\<close> and its GF(2^4) sibling.\<close>

definition verify_cauchy_2x2_nonsingular :: "u32 \<Rightarrow> u32 \<Rightarrow> u32 \<Rightarrow> u32 \<Rightarrow> bool res" where
  "verify_cauchy_2x2_nonsingular s0 s1 c0 c1 =
     and_then (cauchy_coef_gf2_8 s0 c0 0) (\<lambda>a00.
     and_then (cauchy_coef_gf2_8 s0 c1 0) (\<lambda>a01.
     and_then (cauchy_coef_gf2_8 s1 c0 0) (\<lambda>a10.
     and_then (cauchy_coef_gf2_8 s1 c1 0) (\<lambda>a11.
       let det = Gf2_8_add (Gf2_8_mul (Gf2_8 a00) (Gf2_8 a11)) (Gf2_8_mul (Gf2_8 a01) (Gf2_8 a10))
       in Ok (det \<noteq> Gf2_8 0)))))"

definition verify_cauchy_gf2_4_2x2_nonsingular :: "u32 \<Rightarrow> u32 \<Rightarrow> u32 \<Rightarrow> u32 \<Rightarrow> bool res" where
  "verify_cauchy_gf2_4_2x2_nonsingular s0 s1 c0 c1 =
     and_then (cauchy_coef_gf2_4 s0 c0 0) (\<lambda>a00.
     and_then (cauchy_coef_gf2_4 s0 c1 0) (\<lambda>a01.
     and_then (cauchy_coef_gf2_4 s1 c0 0) (\<lambda>a10.
     and_then (cauchy_coef_gf2_4 s1 c1 0) (\<lambda>a11.
       let det = Gf2_4_add (Gf2_4_mul (Gf2_4_new a00) (Gf2_4_new a11))
                   (Gf2_4_mul (Gf2_4_new a01) (Gf2_4_new a10))
       in Ok (det \<noteq> 0)))))"

section \<open>The points of the Cauchy construction\<close>

text \<open>The coefficients as elements: \<open>1 / (x + y)\<close> at the points of the two identifiers.\<close>

definition cx8 :: "u32 \<Rightarrow> Gf2_8" where
  "cx8 s = Gf2_8 (ucast (s AND 0x7F))"

definition cy8 :: "u8 \<Rightarrow> u32 \<Rightarrow> Gf2_8" where
  "cy8 g c = Gf2_8 (128 + ucast ((c + ucast g * 7) AND 0x7F))"

definition cx4 :: "u32 \<Rightarrow> Gf2_4" where
  "cx4 s = Gf2_4_new (ucast (s mod 7))"

definition cy4 :: "u8 \<Rightarrow> u32 \<Rightarrow> Gf2_4" where
  "cy4 g c = Gf2_4_new (8 + ucast ((c + ucast g * 3) mod 7))"

lemma u32_and_7F_u8: "\<not> bit (ucast (w AND 0x7F :: u32) :: u8) 7"
  by (simp add: bit_ucast_iff bit_and_iff)

lemma u8_128_plus: "\<not> bit z 7 \<Longrightarrow> 128 + z = 128 XOR z" for z :: u8
proof -
  assume "\<not> bit z 7"
  have "128 AND z = 0"
  proof (rule bit_word_eqI)
    fix i assume "i < LENGTH(8)"
    then have "i \<in> {0,1,2,3,4,5,6,7}" by (intro nat_less_8_cases) simp
    with \<open>\<not> bit z 7\<close> show "bit (128 AND z) i = bit (0 :: u8) i"
      by (elim insertE emptyE) (simp_all add: bit_and_iff)
  qed
  then show ?thesis by (simp add: disjunctive_add_eq_xor)
qed

lemma cauchy_points_8: "cx8 s + cy8 g c \<noteq> 0"
proof -
  let ?x = "ucast (s AND 0x7F) :: u8" and ?z = "ucast ((c + ucast g * 7) AND 0x7F) :: u8"
  have "bit (?x XOR (128 XOR ?z)) 7"
    by (simp add: bit_xor_iff u32_and_7F_u8)
  then have "?x XOR (128 + ?z) \<noteq> 0" by (metis bit_0_eq bot_apply bot_bool_def u32_and_7F_u8 u8_128_plus)
  then show ?thesis by (simp add: gf8_eq_0_iff cx8_def cy8_def)
qed

lemma cauchy_coef_gf2_8_eq: "cauchy_coef_gf2_8 s c g = Ok (gf8_value (1 / (cx8 s + cy8 g c)))"
proof -
  have "Gf2_8 (ucast (s AND 0x7F) XOR (128 + ucast ((c + ucast g * 7) AND 0x7F))) = cx8 s + cy8 g c"
    by (simp add: cx8_def cy8_def plus_Gf2_8_def Gf2_8_add_def)
  with cauchy_points_8 [of s g c] show ?thesis
    by (simp add: cauchy_coef_gf2_8_def Let_def Gf2_8_inv_inverse inverse_eq_divide)
qed

lemma u32_unat_and_7F: "unat (w AND 0x7F :: u32) = unat w mod 128"
proof -
  have "w AND 0x7F = take_bit 7 w" by (simp add: take_bit_eq_mask mask_eq_exp_minus_1)
  then show ?thesis by (simp only: unsigned_take_bit_eq) (simp add: take_bit_eq_mod)
qed

lemma u32_unat_add_mod: "unat (a + b :: u32) mod 128 = (unat a + unat b) mod 128"
  by (simp add: unat_word_ariths mod_mod_cancel)

lemma unat_ucast_u8: "unat a < 256 \<Longrightarrow> unat (ucast a :: u8) = unat a" for a :: u32
  by (simp add: unsigned_ucast_eq take_bit_nat_eq_self_iff)

lemma nat_mod_add_cancel: "((a :: nat) + k) mod m = (b + k) mod m \<Longrightarrow> a mod m = b mod m"
  by (auto simp: nat_mod_eq_iff)

lemma inj_cx8: "inj_on (\<lambda>s. unat s mod 128) S \<Longrightarrow> inj_on cx8 S"
proof (rule inj_onI)
  fix s t assume i: "inj_on (\<lambda>s. unat s mod 128) S" and m: "s \<in> S" "t \<in> S" and "cx8 s = cx8 t"
  then have "unat (ucast (s AND 0x7F) :: u8) = unat (ucast (t AND 0x7F) :: u8)" by (simp add: cx8_def)
  moreover have "unat (w AND 0x7F :: u32) < 256" for w
    unfolding u32_unat_and_7F using mod_less_divisor [of 128 "unat w"] by linarith
  ultimately have "unat s mod 128 = unat t mod 128"
    by (simp only: unat_ucast_u8 u32_unat_and_7F)
  with i m show "s = t" by (auto dest: inj_onD)
qed

lemma inj_cy8: "inj_on (\<lambda>c. unat c mod 128) C \<Longrightarrow> inj_on (cy8 g) C"
proof (rule inj_onI)
  fix c e assume i: "inj_on (\<lambda>c. unat c mod 128) C" and m: "c \<in> C" "e \<in> C" and "cy8 g c = cy8 g e"
  then have "unat (ucast ((c + ucast g * 7) AND 0x7F) :: u8) = unat (ucast ((e + ucast g * 7) AND 0x7F) :: u8)"
    by (simp add: cy8_def)
  moreover have "unat (w AND 0x7F :: u32) < 256" for w
    unfolding u32_unat_and_7F using mod_less_divisor [of 128 "unat w"] by linarith
  ultimately have "(unat c + unat (ucast g * 7 :: u32)) mod 128 = (unat e + unat (ucast g * 7 :: u32)) mod 128"
    by (simp only: unat_ucast_u8 u32_unat_and_7F u32_unat_add_mod)
  then have "unat c mod 128 = unat e mod 128" by (rule nat_mod_add_cancel)
  with i m show "c = e" by (auto dest: inj_onD)
qed

lemma xor_sum_eq_iff: "(xor_sum f A = xor_sum g A) = (xor_sum (\<lambda>i. f i XOR g i) A = 0)"
  by (simp add: xsum.distrib)

text \<open>The GF(2^8) Cauchy code is MDS: for any set of erased source symbols distinct modulo 128 and
  any equally large set of coded symbols of one generation, the coded payload bytes determine the
  erased bytes.\<close>

lemma cauchy_determines_gf2_8:
  assumes "finite S" "finite C" "card S = card C"
    and "inj_on (\<lambda>s. unat s mod 128) S" "inj_on (\<lambda>c. unat c mod 128) C"
    and coef: "\<And>s c. s \<in> S \<Longrightarrow> c \<in> C \<Longrightarrow> cauchy_coef_gf2_8 s c g = Ok (k s c)"
    and eq: "\<And>c. c \<in> C \<Longrightarrow>
      xor_sum (\<lambda>s. gf2_8_mul_raw (v s) (k s c)) S = xor_sum (\<lambda>s. gf2_8_mul_raw (w s) (k s c)) S"
    and "s \<in> S"
  shows "v s = w s"
proof -
  have "Gf2_8 (v s XOR w s) = 0"
  proof (rule cauchy_system_trivial [where x = cx8 and y = "cy8 g" and I = S and J = C and i = s])
    show "(\<Sum>s\<in>S. Gf2_8 (v s XOR w s) / (cx8 s + cy8 g c)) = 0" if "c \<in> C" for c
    proof -
      have k: "gf8_value (1 / (cx8 s + cy8 g c)) = k s c" if "s \<in> S" for s
        using coef [OF that \<open>c \<in> C\<close>] by (simp add: cauchy_coef_gf2_8_eq)
      have "xor_sum (\<lambda>s. gf2_8_mul_raw (v s XOR w s) (k s c)) S = 0"
        using eq [OF that] fs.mul_xor_left [of Gf2_8_field] unfolding xor_sum_eq_iff by simp
      then have "xor_sum (\<lambda>s. gf2_8_mul_raw (v s XOR w s) (gf8_value (1 / (cx8 s + cy8 g c)))) S = 0"
        by (simp add: k cong: xsum.cong)
      then show ?thesis unfolding gf8_sum_eq_0 [symmetric] by simp
    qed
  qed (use assms(1-5,8) in \<open>simp_all add: inj_cx8 inj_cy8 cauchy_points_8\<close>)
  then show ?thesis by (simp add: zero_Gf2_8_def)
qed

section \<open>The GF(2^4) construction\<close>

lemma u32_mod_7: "unat (a mod 7 :: u32) = unat a mod 7"
  by (simp add: unat_mod_distrib)

lemma u8_less_7_cases: "unat i < 7 \<Longrightarrow> i \<in> {0,1,2,3,4,5,6}" for i :: u8
proof -
  assume "unat i < 7"
  then have "unat i \<in> {0,1,2,3,4,5,6}" unfolding insert_iff empty_iff by arith
  then have "of_nat (unat i) \<in> {0,1,2,3,4,5,6 :: u8}" by (elim insertE emptyE) simp_all
  then show ?thesis by simp
qed

lemma u8_points_4:
  fixes i j :: u8
  assumes "unat i < 7" "unat j < 7"
  shows "(i XOR (8 + j)) AND 15 \<noteq> 0" "8 + j < 16" "i < 16"
proof -
  show "(i XOR (8 + j)) AND 15 \<noteq> 0" "8 + j < 16" "i < 16"
    using u8_less_7_cases [OF assms(1)] u8_less_7_cases [OF assms(2)]
    by (elim insertE emptyE; simp)+
qed

lemma cauchy_unat_4:
  "unat (ucast (s mod 7 :: u32) :: u8) = unat s mod 7"
proof -
  have "unat (s mod 7) < 7" by (simp add: u32_mod_7)
  then show ?thesis by (simp add: unat_ucast_u8 u32_mod_7)
qed

lemma cauchy_points_4: "cx4 s + cy4 g c \<noteq> 0"
proof -
  let ?i = "ucast (s mod 7) :: u8" and ?j = "ucast ((c + ucast g * 3) mod 7) :: u8"
  have "unat ?i < 7" "unat ?j < 7" by (simp_all add: cauchy_unat_4)
  then have "(?i XOR (8 + ?j)) AND 15 \<noteq> 0" by (rule u8_points_4)
  then show ?thesis by (simp add: gf4_eq_0_iff cx4_def cy4_def low_nibble_xor)
qed

lemma cauchy_coef_gf2_4_eq: "cauchy_coef_gf2_4 s c g = Ok (gf4_value (1 / (cx4 s + cy4 g c)))"
proof -
  have "Gf2_4_new (ucast (s mod 7) XOR (8 + ucast ((c + ucast g * 3) mod 7))) = cx4 s + cy4 g c"
    by (simp add: gf4_eq_iff cx4_def cy4_def low_nibble_xor)
  with cauchy_points_4 [of s g c] show ?thesis
    by (simp add: cauchy_coef_gf2_4_def Let_def Gf2_4_inv_inverse inverse_eq_divide)
qed

lemma inj_cx4: "inj_on (\<lambda>s. unat s mod 7) S \<Longrightarrow> inj_on cx4 S"
proof (rule inj_onI)
  fix s t assume i: "inj_on (\<lambda>s. unat s mod 7) S" and m: "s \<in> S" "t \<in> S" and "cx4 s = cx4 t"
  then have "(ucast (s mod 7) :: u8) AND 15 = ucast (t mod 7) AND 15" by (simp add: cx4_def gf4_eq_iff)
  then have "(ucast (s mod 7) :: u8) = ucast (t mod 7)"
    using u8_points_4(3) [of _ 0] by (simp add: cauchy_unat_4)
  then have "unat s mod 7 = unat t mod 7" by (metis cauchy_unat_4)
  with i m show "s = t" by (auto dest: inj_onD)
qed

lemma unat_ucast_u8_u32: "unat (ucast g :: u32) = unat g" for g :: u8
proof -
  have "unat g < 4294967296" using u8_unat_less [of g] by linarith
  then show ?thesis by (simp add: unsigned_ucast_eq take_bit_nat_eq_self_iff)
qed

lemma unat_coded_4: "c < 7 \<Longrightarrow> unat (c + ucast (g :: u8) * 3 :: u32) = unat c + unat g * 3"
proof -
  assume "c < 7"
  then have "unat c < 7" by (simp add: word_less_nat_alt)
  moreover have "unat g < 256" by simp
  moreover have "unat (ucast g :: u32) = unat g" by (rule unat_ucast_u8_u32)
  ultimately have "unat c + unat g * 3 < 4294967296" "unat (ucast g :: u32) * 3 < 4294967296"
    "unat (ucast g :: u32) = unat g" by linarith+
  then show ?thesis by (simp add: unat_word_ariths)
qed

lemma inj_cy4: "\<forall>c \<in> C. c < 7 \<Longrightarrow> inj_on (cy4 g) C"
proof (rule inj_onI)
  fix c e assume l: "\<forall>c \<in> C. c < 7" and m: "c \<in> C" "e \<in> C" and eq: "cy4 g c = cy4 g e"
  let ?f = "\<lambda>c. ucast ((c + ucast g * 3) mod 7 :: u32) :: u8"
  have "8 + ?f c = 8 + ?f e"
    using eq u8_points_4(2) [of 0 "?f c"] u8_points_4(2) [of 0 "?f e"]
    by (simp add: cy4_def gf4_eq_iff cauchy_unat_4)
  then have "?f c = ?f e" by simp
  then have "(unat c + unat g * 3) mod 7 = (unat e + unat g * 3) mod 7"
    using l m by (metis cauchy_unat_4 unat_coded_4)
  then have "unat c mod 7 = unat e mod 7" by (rule nat_mod_add_cancel)
  moreover have "unat c < 7" "unat e < 7" using l m by (simp_all add: word_less_nat_alt)
  ultimately show "c = e" by (simp add: word_unat_eq_iff)
qed

lemma cauchy_system_gf2_4:
  assumes "finite S" "card S = card C" "inj_on (\<lambda>s. unat s mod 7) S" "\<forall>c \<in> C. c < 7" "s \<in> S"
    and "\<And>c. c \<in> C \<Longrightarrow> (\<Sum>s\<in>S. d s * (1 / (cx4 s + cy4 g c))) = 0"
  shows "d s = 0"
proof (rule cauchy_system_trivial [where x = cx4 and y = "cy4 g" and I = S and J = C and i = s])
  show "(\<Sum>s\<in>S. d s / (cx4 s + cy4 g c)) = 0" if "c \<in> C" for c
    using assms(6) [OF that] by (simp only: times_divide_eq_right mult_1_right)
qed (use assms(1-5) in \<open>simp_all add: inj_cx4 inj_cy4 cauchy_points_4\<close>)

text \<open>The GF(2^4) Cauchy code is MDS on windows of at most seven symbols: as many coded symbols as
  there are erased source symbols determine both nibbles of every erased byte.\<close>

lemma cauchy_determines_gf2_4:
  assumes "finite S" "card S = card C"
    and "inj_on (\<lambda>s. unat s mod 7) S" and C: "\<forall>c \<in> C. c < 7"
    and coef: "\<And>s c. s \<in> S \<Longrightarrow> c \<in> C \<Longrightarrow> cauchy_coef_gf2_4 s c g = Ok (k s c)"
    and eq: "\<And>c. c \<in> C \<Longrightarrow>
      xor_sum (\<lambda>s. gf2_4_byte_mul (v s) (k s c)) S = xor_sum (\<lambda>s. gf2_4_byte_mul (w s) (k s c)) S"
    and "s \<in> S"
  shows "v s = w s"
proof -
  let ?f = "\<lambda>c s. 1 / (cx4 s + cy4 g c)"
  have sum: "xor_sum (\<lambda>s. gf2_4_byte_mul (v s XOR w s) (gf4_value (?f c s))) S = 0" if "c \<in> C" for c
  proof -
    have k: "gf4_value (?f c s) = k s c" if "s \<in> S" for s
      using coef [OF that \<open>c \<in> C\<close>] by (simp add: cauchy_coef_gf2_4_eq)
    have "xor_sum (\<lambda>s. gf2_4_byte_mul (v s XOR w s) (k s c)) S = 0"
      using eq [OF that] fs.mul_xor_left [of Gf2_4_field] unfolding xor_sum_eq_iff by simp
    then show ?thesis by (simp add: k cong: xsum.cong)
  qed
  note zero = cauchy_system_gf2_4 [OF assms(1-3) C \<open>s \<in> S\<close>]
  have "Gf2_4_new (v s XOR w s) = 0" by (rule zero) (rule gf4_sum_eq_0(1) [OF sum])
  moreover have "Gf2_4_new (drop_bit 4 (v s XOR w s)) = 0" by (rule zero) (rule gf4_sum_eq_0(2) [OF sum])
  ultimately have "(v s XOR w s) AND 15 = 0 AND 15" "drop_bit 4 (v s XOR w s) = drop_bit 4 0"
    by (simp_all add: gf4_eq_0_iff del: xor_eq_zero_iff drop_bit_xor)
  then have "v s XOR w s = 0" by (rule u8_eq_nibbles)
  then show ?thesis by simp
qed

section \<open>Batches and rotation\<close>

lemma for_each_map: "(\<And>x. x \<in> set xs \<Longrightarrow> f x = Ok (h x)) \<Longrightarrow>
  for_each (\<lambda>v x. and_then (f x) (\<lambda>c. Ok (v @ [c]))) acc xs = Ok (acc @ map h xs)"
  by (induction xs arbitrary: acc) simp_all

lemma cauchy_batch_gf2_8_eq:
  "cauchy_batch_gf2_8 ids c g = Ok (map (\<lambda>s. gf8_value (1 / (cx8 s + cy8 g c))) ids)"
  unfolding cauchy_batch_gf2_8_def
  using for_each_map [where f = "\<lambda>s. cauchy_coef_gf2_8 s c g" and acc = "[]" and xs = ids, OF cauchy_coef_gf2_8_eq]
  by simp

lemma cauchy_batch_gf2_4_eq:
  "cauchy_batch_gf2_4 ids c g = Ok (map (\<lambda>s. gf4_value (1 / (cx4 s + cy4 g c))) ids)"
  unfolding cauchy_batch_gf2_4_def
  using for_each_map [where f = "\<lambda>s. cauchy_coef_gf2_4 s c g" and acc = "[]" and xs = ids, OF cauchy_coef_gf2_4_eq]
  by simp

lemma cauchy_coef_8_nonzero: "cauchy_coef_gf2_8 s c g = Ok k \<Longrightarrow> k \<noteq> 0"
  using cauchy_points_8 [of s g c] by (auto simp: cauchy_coef_gf2_8_eq simp flip: gf8_eq_0_iff)

lemma cauchy_coef_4_nonzero: "cauchy_coef_gf2_4 s c g = Ok k \<Longrightarrow> k \<noteq> 0 \<and> k < 16"
  using cauchy_points_4 [of s g c] by (auto simp: cauchy_coef_gf2_4_eq simp flip: gf4_eq_0_iff)

text \<open>Advancing the generation relabels the rows of the GF(2^8) matrix.\<close>

lemma cauchy_rotation_8:
  "cauchy_coef_gf2_8 s c (g + 1) = cauchy_coef_gf2_8 s ((c + 7) AND 0x7F) g"
proof -
  have m7: "unat (ucast g * 7 :: u32) = unat g * 7"
  proof -
    have "unat g * 7 < 4294967296" using u8_unat_less [of g] by linarith
    then show ?thesis by (simp add: unat_word_ariths unat_ucast_u8_u32)
  qed
  have m7': "unat (ucast (g + 1) * 7 :: u32) mod 128 = (unat g * 7 + 7) mod 128"
  proof -
    have "unat (ucast (g + 1) * 7 :: u32) = (unat g + 1) mod 256 * 7"
    proof -
      have "unat (g + 1) = (unat g + 1) mod 256" by (simp add: unat_word_ariths)
      moreover have "(unat g + 1) mod 256 * 7 < 4294967296"
        using mod_less_divisor [of 256 "unat g + 1"] by linarith
      ultimately show ?thesis by (simp add: unat_word_ariths unat_ucast_u8_u32)
    qed
    moreover have "(unat g + 1) mod 256 * 7 mod 128 = ((unat g + 1) mod 256 mod 128) * 7 mod 128"
      by (simp only: mod_mult_left_eq)
    moreover have "(unat g + 1) mod 256 mod 128 = (unat g + 1) mod 128"
      by (simp add: mod_mod_cancel)
    moreover have "((unat g + 1) mod 128) * 7 mod 128 = (unat g * 7 + 7) mod 128"
      by (simp only: mod_mult_left_eq add_mult_distrib mult_1)
    ultimately show ?thesis by (simp only:)
  qed
  have "unat ((c + ucast (g + 1) * 7) AND 0x7F) = unat (((c + 7) AND 0x7F) + ucast g * 7 AND 0x7F)"
  proof -
    have "unat ((c + ucast (g + 1) * 7) AND 0x7F) = (unat c + (unat g * 7 + 7) mod 128) mod 128"
    proof -
      have "unat ((c + ucast (g + 1) * 7) AND 0x7F) =
          (unat c + unat (ucast (g + 1) * 7 :: u32) mod 128) mod 128"
        by (simp only: u32_unat_and_7F u32_unat_add_mod mod_add_right_eq)
      then show ?thesis by (simp only: m7')
    qed
    moreover have "unat (((c + 7) AND 0x7F) + ucast g * 7 AND 0x7F) =
        ((unat c + 7) mod 128 + unat g * 7) mod 128"
      by (simp only: u32_unat_and_7F u32_unat_add_mod m7) simp
    ultimately show ?thesis by (simp only: mod_add_left_eq mod_add_right_eq) (simp only: ac_simps)
  qed
  then have "(c + ucast (g + 1) * 7) AND 0x7F = ((c + 7) AND 0x7F) + ucast g * 7 AND 0x7F"
    by (simp only: word_unat_eq_iff)
  then show ?thesis by (simp only: cauchy_coef_gf2_8_def)
qed

section \<open>Vandermonde coefficients are powers\<close>

lemma gf8_pw_power: "Gf2_8 (gf8.pw i) = Gf2_8 (gf8.pw 1) ^ i"
proof (induction i)
  case (Suc i)
  have "gf8.gmul (gf8.pw 1) (gf8.pw i) = gf8.pw (Suc i)"
    using gf8.gmul_pw [of "gf8.pw 1" i] gf8.pw_add [of i 1] by simp
  then have "Gf2_8 (gf8.pw (Suc i)) = Gf2_8 (gf8.pw 1) * Gf2_8 (gf8.pw i)"
    by (simp add: times_Gf2_8_def Gf2_8_mul_def gf2_8_mul_raw_gmul)
  with Suc show ?case by simp
qed (simp add: gf8.pw_0 one_Gf2_8_def)

lemma gf4_pw_power: "Abs_Gf2_4 (gf4.pw i) = Abs_Gf2_4 (gf4.pw 1) ^ i"
proof (induction i)
  case (Suc i)
  have l: "gf4.pw j < 16" for j using gf4.pw_C [of j] by simp
  have "gf4.gmul (gf4.pw 1) (gf4.pw i) = gf4.pw (Suc i)"
    using gf4.gmul_pw [of "gf4.pw 1" i] gf4.pw_add [of i 1] gf4.pw_C by simp
  then have "Abs_Gf2_4 (gf4.pw (Suc i)) = Abs_Gf2_4 (gf4.pw 1) * Abs_Gf2_4 (gf4.pw i)"
    using l by (simp add: gf4_eq_iff Abs_Gf2_4_inverse gf2_4_mul_raw_gmul)
  with Suc show ?case by simp
qed (simp add: gf4.pw_0 one_Gf2_4_def)

lemma u64_product_mod:
  fixes s c :: u32
  assumes "0 < m" "m < 256"
  shows "unat (ucast ((ucast s * ucast c :: u64) mod of_nat m) :: u32) = unat s * unat c mod m"
proof -
  have u: "unat (ucast w :: u64) = unat w" for w :: u32
    using u32_unat_less [of w] by (simp add: unsigned_ucast_eq take_bit_nat_eq_self_iff del: u32_unat_less)
  have "unat s * unat c \<le> 4294967295 * 4294967295"
    using u32_unat_less [of s] u32_unat_less [of c] by (intro mult_le_mono) linarith+
  then have "unat (ucast s * ucast c :: u64) = unat s * unat c"
    by (simp add: unat_word_ariths u)
  moreover have "unat (of_nat m :: u64) = m" using assms by (simp add: unat_of_nat)
  ultimately have p: "unat ((ucast s * ucast c :: u64) mod of_nat m) = unat s * unat c mod m"
    by (simp add: unat_mod_distrib)
  moreover have "unat s * unat c mod m < 4294967296"
    using mod_less_divisor [OF assms(1), of "unat s * unat c"] assms(2) by linarith
  ultimately show ?thesis by (simp add: unsigned_ucast_eq take_bit_nat_eq_self_iff)
qed

lemma Gf2_8_vandermonde_power: "Gf2_8_vandermonde s c = (Gf2_8 (gf8.pw 1) ^ unat s) ^ unat c"
  using u64_product_mod [of 255 s c]
  by (simp add: Gf2_8_vandermonde_def field_vandermonde_def GF2_8_ORDER_def Gf2_8_alpha_pow_def
    GF2_8_EXP_nth gf8.pw_mod gf8_pw_power [of "unat s * unat c"] power_mult Let_def)

lemma Gf2_4_vandermonde_power: "Gf2_4_vandermonde s c = (Abs_Gf2_4 (gf4.pw 1) ^ unat s) ^ unat c"
  using u64_product_mod [of 15 s c]
  by (simp add: Gf2_4_vandermonde_def field_vandermonde_def GF2_4_ORDER_def Gf2_4_alpha_pow_def
    GF2_4_EXP_nth gf4.pw_mod gf4_pw_power [of "unat s * unat c"] power_mult Let_def)

text \<open>Distinct exponents below the order give distinct points.\<close>

lemma inj_vandermonde_8: "inj_on (\<lambda>s. unat s mod 255) S \<Longrightarrow> inj_on (\<lambda>s. Gf2_8 (gf8.pw 1) ^ unat s) S"
proof (rule inj_onI)
  fix s t assume i: "inj_on (\<lambda>s. unat s mod 255) S" and m: "s \<in> S" "t \<in> S"
    and "Gf2_8 (gf8.pw 1) ^ unat s = Gf2_8 (gf8.pw 1) ^ unat t"
  then have "Gf2_8 (gf8.pw (unat s)) = Gf2_8 (gf8.pw (unat t))" by (simp only: gf8_pw_power [symmetric])
  then have "gf8.pw (unat s mod 255) = gf8.pw (unat t mod 255)" by (simp add: gf8.pw_mod)
  then have "unat s mod 255 = unat t mod 255" by (rule inj_onD [OF gf8.pw_inj]) simp_all
  with i m show "s = t" by (auto dest: inj_onD)
qed

lemma inj_vandermonde_4: "inj_on (\<lambda>s. unat s mod 15) S \<Longrightarrow> inj_on (\<lambda>s. Abs_Gf2_4 (gf4.pw 1) ^ unat s) S"
proof (rule inj_onI)
  fix s t assume i: "inj_on (\<lambda>s. unat s mod 15) S" and m: "s \<in> S" "t \<in> S"
    and "Abs_Gf2_4 (gf4.pw 1) ^ unat s = Abs_Gf2_4 (gf4.pw 1) ^ unat t"
  then have "Abs_Gf2_4 (gf4.pw (unat s)) = Abs_Gf2_4 (gf4.pw (unat t))" by (simp only: gf4_pw_power [symmetric])
  then have "gf4.pw (unat s mod 15) = gf4.pw (unat t mod 15)"
    using gf4.pw_C by (simp add: gf4.pw_mod gf4_eq_iff Abs_Gf2_4_inverse)
  then have "unat s mod 15 = unat t mod 15" by (rule inj_onD [OF gf4.pw_inj]) simp_all
  with i m show "s = t" by (auto dest: inj_onD)
qed

lemma vandermonde_coef_range: "vandermonde_coef f s c \<noteq> 0" "vandermonde_coef Gf2_4_field s c < 16"
proof -
  have "Gf2_8 (gf8.pw 1) \<noteq> 0" "Abs_Gf2_4 (gf4.pw 1) \<noteq> 0"
    using gf8.pw_nz [of 1] gf4.pw_nz [of 1] gf4.pw_C [of 1]
    by (simp_all add: zero_Gf2_8_def gf4_eq_0_iff Abs_Gf2_4_inverse)
  then show "vandermonde_coef f s c \<noteq> 0"
    by (cases f) (simp_all add: Gf2_8_vandermonde_power Gf2_4_vandermonde_power
      flip: gf8_eq_0_iff gf4_eq_0_iff)
  show "vandermonde_coef Gf2_4_field s c < 16" by simp
qed

text \<open>For the GF(2^8) Vandermonde code, any erased source symbols distinct modulo 255 are
  determined by as many coded symbols with consecutive identifiers.\<close>

lemma vandermonde_determines_gf2_8:
  assumes "finite S" "inj_on (\<lambda>s. unat s mod 255) S" "unat c0 + card S \<le> 2 ^ 32" "s \<in> S"
    and eq: "\<And>c. c0 \<le> c \<Longrightarrow> unat c < unat c0 + card S \<Longrightarrow>
      xor_sum (\<lambda>s. gf2_8_mul_raw (v s) (vandermonde_coef Gf2_8_field s c)) S =
      xor_sum (\<lambda>s. gf2_8_mul_raw (w s) (vandermonde_coef Gf2_8_field s c)) S"
  shows "v s = w s"
proof -
  have "Gf2_8 (v s XOR w s) = 0"
  proof (rule vandermonde_system_trivial [where x = "\<lambda>s. Gf2_8 (gf8.pw 1) ^ unat s" and I = S and i = s])
    have "Gf2_8 (gf8.pw 1) \<noteq> 0" using gf8.pw_nz [of 1] by (simp add: zero_Gf2_8_def)
    then show "Gf2_8 (gf8.pw 1) ^ unat s \<noteq> 0" for s :: u32 by simp
    fix n assume n: "unat c0 \<le> n" "n < unat c0 + card S"
    define c :: u32 where "c = of_nat n"
    have c: "unat c = n" using n assms(3) by (simp add: c_def unat_of_nat)
    then have "xor_sum (\<lambda>s. gf2_8_mul_raw (v s XOR w s) (vandermonde_coef Gf2_8_field s c)) S = 0"
      using eq [of c] n fs.mul_xor_left [of Gf2_8_field] unfolding xor_sum_eq_iff
      by (simp add: word_le_nat_alt)
    then show "(\<Sum>s\<in>S. Gf2_8 (v s XOR w s) * (Gf2_8 (gf8.pw 1) ^ unat s) ^ n) = 0"
      unfolding gf8_sum_eq_0 by (simp add: Gf2_8_vandermonde_power c)
  qed (use assms(1,2,4) inj_vandermonde_8 in \<open>simp_all\<close>)
  then show ?thesis by (simp add: zero_Gf2_8_def)
qed

text \<open>The same over GF(2^4), for symbols distinct modulo 15.\<close>

lemma vandermonde_determines_gf2_4:
  assumes "finite S" "inj_on (\<lambda>s. unat s mod 15) S" "unat c0 + card S \<le> 2 ^ 32" "s \<in> S"
    and eq: "\<And>c. c0 \<le> c \<Longrightarrow> unat c < unat c0 + card S \<Longrightarrow>
      xor_sum (\<lambda>s. gf2_4_byte_mul (v s) (vandermonde_coef Gf2_4_field s c)) S =
      xor_sum (\<lambda>s. gf2_4_byte_mul (w s) (vandermonde_coef Gf2_4_field s c)) S"
  shows "v s = w s"
proof -
  have zero: "d s = 0"
    if "\<And>n. unat c0 \<le> n \<Longrightarrow> n < unat c0 + card S \<Longrightarrow> (\<Sum>s\<in>S. d s * (Abs_Gf2_4 (gf4.pw 1) ^ unat s) ^ n) = 0" for d
  proof (rule vandermonde_system_trivial [where x = "\<lambda>s. Abs_Gf2_4 (gf4.pw 1) ^ unat s" and I = S and i = s])
    have "Abs_Gf2_4 (gf4.pw 1) \<noteq> 0"
      using gf4.pw_nz [of 1] gf4.pw_C [of 1] by (simp add: gf4_eq_0_iff Abs_Gf2_4_inverse)
    then show "Abs_Gf2_4 (gf4.pw 1) ^ unat s \<noteq> 0" for s :: u32 by simp
  qed (use assms(1,2,4) inj_vandermonde_4 that in \<open>simp_all\<close>)
  have sum: "xor_sum (\<lambda>s. gf2_4_byte_mul (v s XOR w s) (gf4_value ((Abs_Gf2_4 (gf4.pw 1) ^ unat s) ^ n))) S = 0"
    if n: "unat c0 \<le> n" "n < unat c0 + card S" for n
  proof -
    define c :: u32 where "c = of_nat n"
    have c: "unat c = n" using n assms(3) by (simp add: c_def unat_of_nat)
    then have "xor_sum (\<lambda>s. gf2_4_byte_mul (v s XOR w s) (vandermonde_coef Gf2_4_field s c)) S = 0"
      using eq [of c] n fs.mul_xor_left [of Gf2_4_field] unfolding xor_sum_eq_iff by (simp add: word_le_nat_alt)
    then show ?thesis by (simp add: Gf2_4_vandermonde_power c)
  qed
  have "Gf2_4_new (v s XOR w s) = 0" by (rule zero) (rule gf4_sum_eq_0(1) [OF sum])
  moreover have "Gf2_4_new (drop_bit 4 (v s XOR w s)) = 0" by (rule zero) (rule gf4_sum_eq_0(2) [OF sum])
  ultimately have "(v s XOR w s) AND 15 = 0 AND 15" "drop_bit 4 (v s XOR w s) = drop_bit 4 0"
    by (simp_all add: gf4_eq_0_iff del: xor_eq_zero_iff drop_bit_xor)
  then have "v s XOR w s = 0" by (rule u8_eq_nibbles)
  then show ?thesis by simp
qed

text \<open>The rows over all coded identifiers and generations.\<close>

lemma cauchy_rows:
  fixes row :: "'y::field \<Rightarrow> u32 \<Rightarrow> u8 res" and y :: "u8 \<Rightarrow> u32 \<Rightarrow> 'y"
  assumes "inj row" "\<And>g c. y g c = y 0 (p g c)" "\<And>g c. unat (p g c) < n" "inj_on (y 0) (of_nat ` {..<n})" "n \<le> 128"
  shows "card (range (\<lambda>(c, g). row (y g c))) = n"
proof -
  have "range (\<lambda>(c, g). y g c) = y 0 ` of_nat ` {..<n}"
  proof (intro equalityI subsetI)
    fix v assume "v \<in> range (\<lambda>(c, g). y g c)"
    then obtain c g where "v = y 0 (p g c)" using assms(2) by fastforce
    moreover have "p g c \<in> of_nat ` {..<n}" using assms(3) [of g c] by (intro image_eqI [of _ _ "unat (p g c)"]) simp_all
    ultimately show "v \<in> y 0 ` of_nat ` {..<n}" by blast
  qed auto
  moreover have "range (\<lambda>(c, g). row (y g c)) = row ` range (\<lambda>(c, g). y g c)" by (simp add: image_image split_beta)
  moreover have "inj_on (of_nat :: nat \<Rightarrow> u32) {..<n}"
  proof (rule inj_onI)
    fix a b assume ab: "a \<in> {..<n}" "b \<in> {..<n}" "(of_nat a :: u32) = of_nat b"
    moreover have "unat (of_nat k :: u32) = k" if "k \<in> {..<n}" for k using that assms(5) by (simp add: unat_of_nat)
    ultimately show "a = b" by metis
  qed
  ultimately show ?thesis
    using assms(1,4) by (simp add: card_image inj_on_subset)
qed

lemma cauchy_row_count:
  "card (range (\<lambda>(c, g) s. cauchy_coef_gf2_8 s c g)) = 128 \<and> card (range (\<lambda>(c, g) s. cauchy_coef_gf2_4 s c g)) = 7"
proof
  let ?r8 = "\<lambda>y s. Ok (gf8_value (1 / (cx8 s + y)))" and ?r4 = "\<lambda>y s. Ok (gf4_value (1 / (cx4 s + y)))"
  have "card (range (\<lambda>(c, g). ?r8 (cy8 g c))) = 128"
  proof (rule cauchy_rows)
    show "inj ?r8" by (rule injI) (auto dest!: fun_cong [where x = 0] Gf2_8.expand)
    show "cy8 g c = cy8 0 ((c + ucast g * 7) AND 0x7F)" for g c by (simp add: cy8_def)
    show "unat ((c + ucast g * 7) AND 0x7F) < 128" for g :: u8 and c :: u32 by (simp add: u32_unat_and_7F)
    show "inj_on (cy8 0) (of_nat ` {..<128})"
      by (rule inj_cy8) (auto intro!: inj_onI simp: unat_of_nat)
  qed simp
  then show "card (range (\<lambda>(c, g) s. cauchy_coef_gf2_8 s c g)) = 128" by (simp only: cauchy_coef_gf2_8_eq)
  have "card (range (\<lambda>(c, g). ?r4 (cy4 g c))) = 7"
  proof (rule cauchy_rows)
    show "inj ?r4" by (rule injI) (auto dest!: fun_cong [where x = 0] simp: gf4_eq_iff [symmetric])
    have "x mod 7 mod 7 = x mod 7" for x :: u32 by (simp add: word_unat_eq_iff unat_mod)
    then show "cy4 g c = cy4 0 ((c + ucast g * 3) mod 7)" for g c by (simp add: cy4_def)
    show "unat ((c + ucast g * 3) mod 7) < 7" for g :: u8 and c :: u32 by (simp add: unat_mod)
    show "inj_on (cy4 0) (of_nat ` {..<7})"
      by (rule inj_cy4) (auto simp: word_less_nat_alt unat_of_nat)
  qed simp
  then show "card (range (\<lambda>(c, g) s. cauchy_coef_gf2_4 s c g)) = 7" by (simp only: cauchy_coef_gf2_4_eq)
qed

text \<open>C38: generations bring no new Cauchy rows. In GF(2^8) the row of coded symbol \<open>c\<close> in generation
  \<open>g + 1\<close> is the row of coded symbol \<open>(c + 7) mod 128\<close> in generation \<open>g\<close>; over all coded identifiers and
  all generations there are exactly 128 different rows, and in GF(2^4) exactly 7.\<close>

theorem cauchy_rotation:
  "cauchy_coef_gf2_8 s c (g + 1) = cauchy_coef_gf2_8 s ((c + 7) AND 0x7F) g \<and>
   card (range (\<lambda>(c, g) s. cauchy_coef_gf2_8 s c g)) = 128 \<and> card (range (\<lambda>(c, g) s. cauchy_coef_gf2_4 s c g)) = 7"
  using cauchy_rotation_8 cauchy_row_count by blast

end
