(* ===== verification/Encoder.thy ===== *)
theory Encoder
  imports Enc_Window Policy Coef_Gen Gf_Ops
begin

text \<open>
  \<^verbatim>\<open>src/codec/encoder/mod.rs\<close>: the sliding-window encoder. It is generic in the window
  policy, the congestion control and the rate controller; the operations take the three records of
  trait methods and the instruction set \<open>dispatch()\<close> selects as arguments. Log events are left
  out.
\<close>

datatype EncoderOutput = SourceOut bytes | CodedOut bytes

record ('w, 'c, 'f) Encoder =
  enc_config :: EncoderConfig
  enc_window :: EncodingWindow
  enc_next_coded_id :: u32
  coded_ids_used :: u64
  enc_generation :: u8
  ack_state :: ReceiverAckState
  enc_policy :: 'w
  enc_cc :: 'c
  enc_fec :: 'f
  scratch :: bytes

definition Encoder_new :: "EncoderConfig \<Rightarrow> 'w \<Rightarrow> 'c \<Rightarrow> 'f \<Rightarrow> ('w, 'c, 'f) Encoder" where
  "Encoder_new config policy cc fec =
     (let cap = ec_window_capacity config;
          first = (case ec_matrix_strategy config of Cauchy \<Rightarrow> 0 | Vandermonde \<Rightarrow> 1)
      in \<lparr> enc_config = config, enc_window = EncodingWindow_new cap, enc_next_coded_id = first,
           coded_ids_used = 0, enc_generation = 0, ack_state = ReceiverAckState_default,
           enc_policy = policy, enc_cc = cc, enc_fec = fec,
           scratch = replicate (ec_symbol_size config) 0 \<rparr>)"

definition make_encoder_state :: "EncodingWindow \<Rightarrow> nat \<Rightarrow> EncoderState" where
  "make_encoder_state window capacity =
     \<lparr> es_window_size = window_len window, es_window_capacity = capacity, es_next_source_id = next_id window,
       es_next_coded_id = 0, es_loss_rate = 0, es_window_ids = [] \<rparr>"

definition coded_id_cycle :: "('w, 'c, 'f) Encoder \<Rightarrow> u32" where
  "coded_id_cycle e =
     (case ec_matrix_strategy (enc_config e) of
        Cauchy \<Rightarrow> (case ec_field (enc_config e) of Gf2_8_field \<Rightarrow> 128 | Gf2_4_field \<Rightarrow> 7)
      | Vandermonde \<Rightarrow> (case ec_field (enc_config e) of Gf2_8_field \<Rightarrow> 254 | Gf2_4_field \<Rightarrow> 14))"

section \<open>The coded payload\<close>

text \<open>The body of the loop over identifiers and coefficients; the lookup is \<open>expect\<close>ed to succeed.\<close>

definition payload_step :: "Dispatch \<Rightarrow> Field \<Rightarrow> EncodingWindow \<Rightarrow> bytes \<Rightarrow> u32 \<times> u8 \<Rightarrow> bytes res" where
  "payload_step disp field w acc p =
     (let (sid, coef) = p in
      case field of
        Gf2_8_field \<Rightarrow>
          if coef = 0 then Ok acc
          else (case window_get w sid of
                  None \<Rightarrow> Panic
                | Some data \<Rightarrow> Ok (mul_acc_raw acc data (gf2_8_tbl ! unat coef) disp))
      | Gf2_4_field \<Rightarrow>
          let c = coef AND 0x0F in
          if c = 0 then Ok acc
          else (case window_get w sid of
                  None \<Rightarrow> Panic
                | Some data \<Rightarrow>
                    let packed = push_bit 4 c OR c
                    in Ok (mul_acc_raw acc data (gf2_4_tbl ! unat packed) disp)))"

definition compute_coded_payload_targeted :: "Dispatch \<Rightarrow> ('w, 'c, 'f) Encoder \<Rightarrow> u32 list \<Rightarrow> bytes \<Rightarrow>
    (('w, 'c, 'f) Encoder \<times> bytes) res" where
  "compute_coded_payload_targeted disp e cover coefs =
     (let scratch0 = replicate (length (scratch e)) 0 in
      and_then (for_each (payload_step disp (ec_field (enc_config e)) (enc_window e)) scratch0 (zip cover coefs)) (\<lambda>s.
        Ok (e\<lparr> scratch := s \<rparr>, s)))"

section \<open>Coded packets\<close>

definition advance_coded_id :: "('w, 'c, 'f) Encoder \<Rightarrow> ('w, 'c, 'f) Encoder" where
  "advance_coded_id e =
     (let next' = enc_next_coded_id e + 1;
          e' = e\<lparr> enc_next_coded_id := next', coded_ids_used := coded_ids_used e + 1 \<rparr>
      in case ec_matrix_strategy (enc_config e) of
           Vandermonde \<Rightarrow>
             let order_minus_1 = (case ec_field (enc_config e) of Gf2_8_field \<Rightarrow> 255 | Gf2_4_field \<Rightarrow> 15)
             in if next' \<ge> order_minus_1 then e'\<lparr> enc_next_coded_id := 1 \<rparr> else e'
         | Cauchy \<Rightarrow>
             let cycle = coded_id_cycle e
             in if next' \<ge> cycle
                then e'\<lparr> enc_next_coded_id := 0, enc_generation := enc_generation e + 1 \<rparr> else e')"

definition coefs_and_ev :: "EncoderConfig \<Rightarrow> u32 list \<Rightarrow> u32 \<Rightarrow> u8 \<Rightarrow> (bytes \<times> EncodingVector) res" where
  "coefs_and_ev config cover coded_id generation =
     (case ec_matrix_strategy config of
        Vandermonde \<Rightarrow>
          let c = vandermonde_batch (ec_field config) cover coded_id;
              e = EncodingVector_vandermonde (ec_field config) coded_id cover
          in Ok (c, e)
      | Cauchy \<Rightarrow>
          and_then (case ec_field config of
              Gf2_8_field \<Rightarrow> cauchy_batch_gf2_8 cover coded_id generation
            | Gf2_4_field \<Rightarrow> cauchy_batch_gf2_4 cover coded_id generation) (\<lambda>c.
          and_then (EncodingVector_explicit (ec_field config) coded_id cover c) (\<lambda>e.
            Ok (c, with_generation e generation))))"

definition generate_coded_inner :: "Dispatch \<Rightarrow> 'c CongestionControl \<Rightarrow> ('w, 'c, 'f) Encoder \<Rightarrow> u32 list \<Rightarrow>
    (('w, 'c, 'f) Encoder \<times> EncoderOutput option) res" where
  "generate_coded_inner disp C e cover =
     (let coded_id = enc_next_coded_id e;
          generation = enc_generation e;
          e = advance_coded_id e in
      and_then (coefs_and_ev (enc_config e) cover coded_id generation) (\<lambda>(coefs, ev).
      and_then (compute_coded_payload_targeted disp e cover coefs) (\<lambda>(e, payload).
      let cci = generate_cci C (enc_cc e) in
      and_then (CodedPacket_serialise coded_id ev payload cci None) (\<lambda>pkt.
        Ok (e\<lparr> enc_cc := on_send C (enc_cc e) (length pkt) \<rparr>, Some (CodedOut pkt))))))"

definition generate_coded :: "Dispatch \<Rightarrow> 'c CongestionControl \<Rightarrow> ('w, 'c, 'f) Encoder \<Rightarrow>
    (('w, 'c, 'f) Encoder \<times> EncoderOutput option) res" where
  "generate_coded disp C e =
     (if window_is_empty (enc_window e) then Ok (e, None)
      else generate_coded_inner disp C e (map ws_id (win_symbols (enc_window e))))"

definition generate_coded_targeted :: "Dispatch \<Rightarrow> 'c CongestionControl \<Rightarrow> ('w, 'c, 'f) Encoder \<Rightarrow> SourceSymbolId list \<Rightarrow>
    (('w, 'c, 'f) Encoder \<times> EncoderOutput option) res" where
  "generate_coded_targeted disp C e cover_ids =
     (if window_is_empty (enc_window e) then Ok (e, None)
      else
        let in_window = set (map ws_id (win_symbols (enc_window e)));
            cover = filter (\<lambda>sid. sid \<in> in_window) cover_ids
        in if cover = [] then Ok (e, None) else generate_coded_inner disp C e cover)"

definition generate_coded_recent :: "Dispatch \<Rightarrow> 'c CongestionControl \<Rightarrow> ('w, 'c, 'f) Encoder \<Rightarrow> nat \<Rightarrow>
    (('w, 'c, 'f) Encoder \<times> EncoderOutput option) res" where
  "generate_coded_recent disp C e n =
     (if window_is_empty (enc_window e) \<or> n = 0 then Ok (e, None)
      else
        let syms = win_symbols (enc_window e); k = min n (length syms);
            cover = map ws_id (drop (length syms - k) syms)
        in generate_coded_inner disp C e cover)"

definition generate_coded_for_receiver :: "Dispatch \<Rightarrow> 'c CongestionControl \<Rightarrow> ('w, 'c, 'f) Encoder \<Rightarrow> ReceiverId \<Rightarrow>
    (('w, 'c, 'f) Encoder \<times> EncoderOutput option) res" where
  "generate_coded_for_receiver disp C e receiver_id =
     (if window_is_empty (enc_window e) then Ok (e, None)
      else
        let cover = filter (\<lambda>sid. \<not> ack_is_acked (ack_state e) receiver_id sid) (map ws_id (win_symbols (enc_window e)))
        in if cover = [] then Ok (e, None) else generate_coded_inner disp C e cover)"

section \<open>Source symbols and feedback\<close>

text \<open>The loop \<open>for _ in 0..n_coded\<close>, which a missing packet ends early.\<close>

fun coded_loop :: "Dispatch \<Rightarrow> 'c CongestionControl \<Rightarrow> nat \<Rightarrow> ('w, 'c, 'f) Encoder \<Rightarrow> EncoderOutput list \<Rightarrow>
    (('w, 'c, 'f) Encoder \<times> EncoderOutput list) res" where
  "coded_loop disp C 0 e out = Ok (e, out)"
| "coded_loop disp C (Suc n) e out =
     and_then (generate_coded disp C e) (\<lambda>(e, r).
       case r of Some coded \<Rightarrow> coded_loop disp C n e (out @ [coded]) | None \<Rightarrow> Ok (e, out))"

definition submit_source :: "Dispatch \<Rightarrow> 'c CongestionControl \<Rightarrow> 'f FecRateController \<Rightarrow> ('w, 'c, 'f) Encoder \<Rightarrow> bytes \<Rightarrow>
    (('w, 'c, 'f) Encoder \<times> EncoderOutput list) res" where
  "submit_source disp C F e data =
     (if length data \<noteq> ec_symbol_size (enc_config e)
      then Err (SymbolSizeMismatch (ec_symbol_size (enc_config e)) (length data))
      else
        and_then (if is_full (enc_window e)
                  then (case ec_backpressure (enc_config e) of
                          Reject \<Rightarrow> Err (WindowFull (ec_window_capacity (enc_config e)))
                        | EvictOldest \<Rightarrow> Ok (evict_oldest (enc_window e)))
                  else Ok (enc_window e)) (\<lambda>w.
          let (w, source_id) = window_push w data;
              e = e\<lparr> enc_window := w \<rparr>;
              cci = generate_cci C (enc_cc e) in
          and_then (SourcePacket_serialise source_id data cci None) (\<lambda>src_pkt.
            let e = e\<lparr> enc_cc := on_send C (enc_cc e) (length src_pkt) \<rparr>;
                state = make_encoder_state (enc_window e) (ec_window_capacity (enc_config e));
                (fec, n_coded) = coded_packets_to_generate F (enc_fec e) state;
                e = e\<lparr> enc_fec := fec \<rparr>
            in coded_loop disp C n_coded e [SourceOut src_pkt])))"

definition handle_feedback :: "'w WindowPolicy \<Rightarrow> 'c CongestionControl \<Rightarrow> 'f FecRateController \<Rightarrow> ('w, 'c, 'f) Encoder \<Rightarrow>
    ReceiverId \<Rightarrow> FeedbackPacket \<Rightarrow> ('w, 'c, 'f) Encoder" where
  "handle_feedback W C F e receiver_id pkt =
     (let acks = ack_update (ack_state e) receiver_id pkt;
          ids = id_slice (enc_window e);
          (policy, to_rm) = symbols_to_remove W (enc_policy e) acks ids;
          w = (if to_rm \<noteq> [] then remove_ids (enc_window e) to_rm else enc_window e);
          loss = decode_plr (plr_raw pkt);
          nb_miss = nb_missing_src pkt;
          nb_unused = nb_not_used_coded pkt;
          state = make_encoder_state w (ec_window_capacity (enc_config e));
          fec = fec_on_feedback F (enc_fec e) state loss nb_miss nb_unused;
          state = make_encoder_state w (ec_window_capacity (enc_config e));
          cc = cc_on_feedback C (enc_cc e) state loss nb_miss nb_unused
      in e\<lparr> ack_state := acks, enc_window := w, enc_policy := policy, enc_fec := fec, enc_cc := cc \<rparr>)"

definition window_size :: "('w, 'c, 'f) Encoder \<Rightarrow> nat" where
  "window_size e = window_len (enc_window e)"

definition next_source_id :: "('w, 'c, 'f) Encoder \<Rightarrow> u32" where
  "next_source_id e = next_id (enc_window e)"

end
