(* ===== verification/Dec_Buffer.thy ===== *)
theory Dec_Buffer
  imports Btree_Map
begin

text \<open>
  \<^verbatim>\<open>src/codec/decoder/buffer.rs\<close>: the in-order delivery buffer. Its draining loop
  terminates because every iteration takes an entry out of the map; it delivers consecutive
  identifiers and stops at the first one that is missing.
\<close>

record SymbolBuffer =
  symbols :: "(SourceSymbolId, bytes) btree"
  next_delivery_id :: SourceSymbolId

definition SymbolBuffer_new :: "SourceSymbolId \<Rightarrow> SymbolBuffer" where
  "SymbolBuffer_new start_id = \<lparr> symbols = [], next_delivery_id = start_id \<rparr>"

definition buffer_insert :: "SymbolBuffer \<Rightarrow> SourceSymbolId \<Rightarrow> bytes \<Rightarrow> SymbolBuffer" where
  "buffer_insert b sid data =
     (if sid \<ge> next_delivery_id b then b\<lparr> symbols := bt_or_insert (symbols b) sid data \<rparr> else b)"

definition buffer_contains :: "SymbolBuffer \<Rightarrow> SourceSymbolId \<Rightarrow> bool" where
  "buffer_contains b sid = bt_contains_key (symbols b) sid"

definition buffer_get :: "SymbolBuffer \<Rightarrow> SourceSymbolId \<Rightarrow> bytes option" where
  "buffer_get b sid = bt_get (symbols b) sid"

definition highest_id :: "SymbolBuffer \<Rightarrow> SourceSymbolId option" where
  "highest_id b = (if symbols b = [] then None else Some (last (bt_keys (symbols b))))"

text \<open>The loop of \<open>drain_deliverable\<close>; \<open>out\<close> is the vector built so far.\<close>

lemma length_bt_remove: "bt_get m k = Some v \<Longrightarrow> length (bt_remove m k) < length m"
  by (induction m) (auto split: if_splits)

function drain_loop :: "(SourceSymbolId, bytes) btree \<Rightarrow> SourceSymbolId \<Rightarrow> (SourceSymbolId \<times> bytes) list \<Rightarrow>
    (SourceSymbolId, bytes) btree \<times> SourceSymbolId \<times> (SourceSymbolId \<times> bytes) list" where
  "drain_loop m n out =
     (case bt_get m n of
        None \<Rightarrow> (m, n, out)
      | Some data \<Rightarrow> drain_loop (bt_remove m n) (n + 1) (out @ [(n, data)]))"
  by pat_completeness auto
termination
  by (relation "measure (\<lambda>(m, n, out). length m)") (auto simp: length_bt_remove)

declare drain_loop.simps [simp del]

definition drain_deliverable :: "SymbolBuffer \<Rightarrow> SymbolBuffer \<times> (SourceSymbolId \<times> bytes) list" where
  "drain_deliverable b =
     (let (m, n, out) = drain_loop (symbols b) (next_delivery_id b) []
      in (\<lparr> symbols = m, next_delivery_id = n \<rparr>, out))"

definition prune_below :: "SymbolBuffer \<Rightarrow> SourceSymbolId \<Rightarrow> SymbolBuffer" where
  "prune_below b fl =
     (let b = b\<lparr> symbols := filter (\<lambda>(sid, _). sid \<ge> fl) (symbols b) \<rparr>
      in if next_delivery_id b < fl then b\<lparr> next_delivery_id := fl \<rparr> else b)"

definition ids_from :: "SymbolBuffer \<Rightarrow> SourceSymbolId \<Rightarrow> SourceSymbolId list" where
  "ids_from b from = filter (\<lambda>sid. sid \<ge> from) (bt_keys (symbols b))"

definition buffer_len :: "SymbolBuffer \<Rightarrow> nat" where
  "buffer_len b = length (symbols b)"

section \<open>Invariant\<close>

definition buffer_ok :: "SymbolBuffer \<Rightarrow> bool" where
  "buffer_ok b = (bt_ok (symbols b) \<and> (\<forall>sid \<in> set (bt_keys (symbols b)). next_delivery_id b \<le> sid))"

lemma buffer_ok_new: "buffer_ok (SymbolBuffer_new n)"
  by (simp add: buffer_ok_def SymbolBuffer_new_def)

lemma buffer_ok_insert: "buffer_ok b \<Longrightarrow> buffer_ok (buffer_insert b sid data)"
  by (auto simp: buffer_ok_def buffer_insert_def bt_or_insert_def bt_ok_insert set_bt_keys_insert)

lemma bt_filter_keys: "bt_keys (filter (\<lambda>(k, _). P k) m) = filter P (bt_keys m)"
  by (induction m) auto

lemma bt_ok_filter: "bt_ok m \<Longrightarrow> bt_ok (filter (\<lambda>(k, _). P k) m)"
  by (simp add: bt_ok_def bt_filter_keys sorted_wrt_filter)

lemma bt_get_filter: "bt_get (filter (\<lambda>(k, _). P k) m) j = (if P j then bt_get m j else None)"
  by (induction m) auto

lemma buffer_ok_prune: "buffer_ok b \<Longrightarrow> buffer_ok (prune_below b fl)"
  by (auto simp: buffer_ok_def prune_below_def Let_def bt_ok_filter bt_filter_keys)

lemma u32_succ_le: "n \<le> sid \<Longrightarrow> sid \<noteq> n \<Longrightarrow> n + 1 \<le> sid" for n sid :: u32
  by (metis order.not_eq_order_implies_strict inc_le)

text \<open>The delivered entries are the run of consecutive identifiers that starts at the delivery
  pointer; what remains is the rest of the map, and the run is maximal.\<close>

lemma drain_loop_run:
  assumes "drain_loop m n out = (m', n', out')" "bt_ok m" "\<forall>sid \<in> set (bt_keys m). n \<le> sid"
  shows "\<exists>run. out' = out @ run \<and> map fst run = map (\<lambda>i. n + of_nat i) [0..<length run] \<and>
    n' = n + of_nat (length run) \<and> (\<forall>(sid, d) \<in> set run. bt_get m sid = Some d) \<and>
    bt_get m' n' = None \<and> bt_ok m' \<and> (\<forall>sid \<in> set (bt_keys m'). n' \<le> sid) \<and>
    (\<forall>sid. bt_get m' sid = (if sid \<in> fst ` set run then None else bt_get m sid))"
  using assms
proof (induction m n out rule: drain_loop.induct)
  case (1 m n out)
  show ?case
  proof (cases "bt_get m n")
    case None
    with 1 show ?thesis by (intro exI [of _ "[]"]) (auto simp: drain_loop.simps)
  next
    case (Some d)
    have keys: "\<forall>sid \<in> set (bt_keys (bt_remove m n)). n + 1 \<le> sid"
    proof
      fix sid assume "sid \<in> set (bt_keys (bt_remove m n))"
      then have "sid \<in> set (bt_keys m)" "sid \<noteq> n" by (simp_all add: bt.keys_remove 1)
      with 1 show "n + 1 \<le> sid" by (simp add: u32_succ_le)
    qed
    have "drain_loop (bt_remove m n) (n + 1) (out @ [(n, d)]) = (m', n', out')"
      using 1 Some by (simp add: drain_loop.simps [of m])
    from "1.IH" [OF Some this bt_ok_remove [OF "1.prems"(2)] keys] obtain run where
      r: "out' = out @ [(n, d)] @ run" "map fst run = map (\<lambda>i. n + 1 + of_nat i) [0..<length run]"
        "n' = n + 1 + of_nat (length run)" "\<forall>(sid, e) \<in> set run. bt_get (bt_remove m n) sid = Some e"
        "bt_get m' n' = None" "bt_ok m'" "\<forall>sid \<in> set (bt_keys m'). n' \<le> sid"
        "\<forall>sid. bt_get m' sid = (if sid \<in> fst ` set run then None else bt_get (bt_remove m n) sid)"
      by auto
    have "map fst ((n, d) # run) = map (\<lambda>i. n + of_nat i) [0..<length ((n, d) # run)]"
      using r(2) by (simp add: upt_conv_Cons map_Suc_upt [symmetric] comp_def ac_simps del: upt_Suc)
    then show ?thesis
      using r Some "1.prems"(2)
      by (intro exI [of _ "(n, d) # run"]) (auto simp: bt_get_remove split: if_splits)
  qed
qed

lemma drain_deliverable_run:
  assumes "drain_deliverable b = (b', out)" "buffer_ok b"
  shows "map fst out = map (\<lambda>i. next_delivery_id b + of_nat i) [0..<length out]"
    and "next_delivery_id b' = next_delivery_id b + of_nat (length out)"
    and "\<forall>(sid, d) \<in> set out. buffer_get b sid = Some d"
    and "buffer_get b' (next_delivery_id b') = None"
    and "buffer_ok b'"
    and "\<forall>sid. buffer_get b' sid = (if sid \<in> fst ` set out then None else buffer_get b sid)"
proof -
  obtain m n o' where d: "drain_loop (symbols b) (next_delivery_id b) [] = (m, n, o')"
    by (metis prod_cases3)
  with assms(1) have b': "b' = \<lparr>symbols = m, next_delivery_id = n\<rparr>" "out = o'"
    by (simp_all add: drain_deliverable_def)
  have ok: "bt_ok (symbols b)" "\<forall>sid \<in> set (bt_keys (symbols b)). next_delivery_id b \<le> sid"
    using assms(2) by (simp_all add: buffer_ok_def)
  from drain_loop_run [OF d ok]
  show "map fst out = map (\<lambda>i. next_delivery_id b + of_nat i) [0..<length out]"
    "next_delivery_id b' = next_delivery_id b + of_nat (length out)"
    "\<forall>(sid, d) \<in> set out. buffer_get b sid = Some d"
    "buffer_get b' (next_delivery_id b') = None" "buffer_ok b'"
    "\<forall>sid. buffer_get b' sid = (if sid \<in> fst ` set out then None else buffer_get b sid)"
    by (auto simp: b' buffer_get_def buffer_ok_def)
qed

lemma buffer_get_insert:
  "buffer_ok b \<Longrightarrow> buffer_get (buffer_insert b sid data) j =
     (if j = sid \<and> next_delivery_id b \<le> sid \<and> buffer_get b sid = None then Some data else buffer_get b j)"
  by (auto simp: buffer_get_def buffer_insert_def buffer_ok_def bt_get_or_insert)

lemma buffer_get_prune:
  "buffer_get (prune_below b fl) j = (if fl \<le> j then buffer_get b j else None)"
  by (simp add: buffer_get_def prune_below_def Let_def bt_get_filter)

lemma next_delivery_id_insert: "next_delivery_id (buffer_insert b sid data) = next_delivery_id b"
  by (simp add: buffer_insert_def)

lemma next_delivery_id_prune: "next_delivery_id (prune_below b fl) = max (next_delivery_id b) fl"
  by (auto simp: prune_below_def Let_def max_def)

section \<open>Properties\<close>

text \<open>Draining delivers, in order and without a gap, exactly the run of stored symbols that starts at
  the delivery pointer, each with the payload stored for it; it advances the pointer past the run, stops
  at an identifier that is missing, leaves every other entry alone, and keeps the invariant that nothing
  below the pointer is stored.\<close>

lemma drain_in_order:
  assumes "buffer_ok b" "drain_deliverable b = (b', out)"
  shows "map fst out = map (\<lambda>i. next_delivery_id b + of_nat i) [0..<length out] \<and>
    next_delivery_id b' = next_delivery_id b + of_nat (length out) \<and>
    (\<forall>(sid, d) \<in> set out. buffer_get b sid = Some d) \<and>
    buffer_get b' (next_delivery_id b') = None \<and>
    (\<forall>sid. buffer_get b' sid = (if sid \<in> fst ` set out then None else buffer_get b sid)) \<and>
    buffer_ok b'"
  using drain_deliverable_run [OF assms(2,1)] by blast

text \<open>Inserting never overwrites and never resurrects: a symbol below the delivery pointer is ignored,
  the first payload stored for an identifier stays; pruning removes exactly the entries below the floor
  and moves the pointer up to it. Both keep the invariant.\<close>

lemma buffer_insert_prune:
  assumes "buffer_ok b"
  shows "buffer_ok (buffer_insert b sid data) \<and> buffer_ok (prune_below b fl) \<and>
    buffer_get (buffer_insert b sid data) j =
      (if j = sid \<and> next_delivery_id b \<le> sid \<and> buffer_get b sid = None then Some data else buffer_get b j) \<and>
    next_delivery_id (buffer_insert b sid data) = next_delivery_id b \<and>
    buffer_get (prune_below b fl) j = (if fl \<le> j then buffer_get b j else None) \<and>
    next_delivery_id (prune_below b fl) = max (next_delivery_id b) fl"
  by (intro conjI buffer_ok_insert [OF assms] buffer_ok_prune [OF assms] buffer_get_insert [OF assms]
      buffer_get_prune next_delivery_id_insert next_delivery_id_prune)

end
