(* ===== verification/Dense_Coefs.thy ===== *)
theory Dense_Coefs
  imports Gf_Ops Btree_Map
begin

text \<open>
  The dense coefficient rows and the matrix rows of \<^verbatim>\<open>src/codec/decoder/matrix.rs\<close>. A row
  \<open>d\<close> stands for the function \<open>dense_get d\<close> from source identifiers to coefficients; every
  operation is described by what it does to that function.
\<close>

record DenseCoefs =
  base_id :: SourceSymbolId
  coefs :: bytes

definition DenseCoefs_new :: "SourceSymbolId \<Rightarrow> nat \<Rightarrow> DenseCoefs" where
  "DenseCoefs_new b len = \<lparr> base_id = b, coefs = replicate len 0 \<rparr>"

text \<open>An assignment to an element: out of range panics.\<close>

definition set_index :: "'a list \<Rightarrow> nat \<Rightarrow> 'a \<Rightarrow> 'a list res" where
  "set_index xs i v = (if i < length xs then Ok (xs[i := v]) else Panic)"

definition from_map :: "(SourceSymbolId, u8) btree \<Rightarrow> DenseCoefs res" where
  "from_map m =
     (if m = [] then Ok \<lparr> base_id = 0, coefs = [] \<rparr>
      else
        let min' = hd (bt_keys m); max' = last (bt_keys m);
            len = unat (max' - min') + 1
        in for_each (\<lambda>c (sid, coef).
             and_then (set_index (coefs c) (unat (sid - min')) coef) (\<lambda>cs. Ok (c\<lparr> coefs := cs \<rparr>)))
             (DenseCoefs_new min' len) m)"

definition dense_get :: "DenseCoefs \<Rightarrow> SourceSymbolId \<Rightarrow> u8" where
  "dense_get d sid =
     (if sid < base_id d then 0
      else let idx = unat (sid - base_id d) in if idx < length (coefs d) then coefs d ! idx else 0)"

definition ensure_covers :: "DenseCoefs \<Rightarrow> SourceSymbolId \<Rightarrow> DenseCoefs" where
  "ensure_covers d sid =
     (if coefs d = [] then \<lparr> base_id = sid, coefs = [0] \<rparr>
      else if sid < base_id d then
        let prepend = unat (base_id d - sid)
        in \<lparr> base_id = sid, coefs = replicate prepend 0 @ coefs d \<rparr>
      else
        let needed = unat (sid - base_id d) + 1
        in if needed > length (coefs d)
           then d\<lparr> coefs := coefs d @ replicate (needed - length (coefs d)) 0 \<rparr>
           else d)"

definition dense_set :: "DenseCoefs \<Rightarrow> SourceSymbolId \<Rightarrow> u8 \<Rightarrow> DenseCoefs res" where
  "dense_set d sid val =
     (let d = ensure_covers d sid
      in and_then (set_index (coefs d) (unat (sid - base_id d)) val) (\<lambda>cs. Ok (d\<lparr> coefs := cs \<rparr>)))"

definition dense_subtract_scaled ::
    "Dispatch \<Rightarrow> DenseCoefs \<Rightarrow> DenseCoefs \<Rightarrow> u8 \<Rightarrow> Field \<Rightarrow> DenseCoefs res" where
  "dense_subtract_scaled disp d other factor field =
     (if coefs other = [] \<or> factor = 0 then Ok d
      else
        let other_end = base_id other + of_nat (length (coefs other));
            d = ensure_covers d (base_id other);
            d = ensure_covers d (if other_end = 0 then 0 else other_end - 1);
            dst_off = unat (base_id other - base_id d);
            len = length (coefs other)
        in and_then (slice (coefs d) dst_off (dst_off + len)) (\<lambda>dst.
           and_then (mul_acc_field field disp dst (coefs other) factor) (\<lambda>dst.
             Ok (d\<lparr> coefs := take dst_off (coefs d) @ dst @ drop (dst_off + len) (coefs d) \<rparr>))))"

definition dense_scale :: "Dispatch \<Rightarrow> DenseCoefs \<Rightarrow> u8 \<Rightarrow> Field \<Rightarrow> DenseCoefs" where
  "dense_scale disp d factor field = d\<lparr> coefs := mul_scale_field field disp (coefs d) factor \<rparr>"

fun is_solved_loop :: "SourceSymbolId \<Rightarrow> nat \<Rightarrow> SourceSymbolId option \<Rightarrow> bytes \<Rightarrow> SourceSymbolId option" where
  "is_solved_loop b i pivot [] = pivot"
| "is_solved_loop b i pivot (c # cs) =
     (if c \<noteq> 0 then (if pivot \<noteq> None then None else is_solved_loop b (i + 1) (Some (b + of_nat i)) cs)
      else is_solved_loop b (i + 1) pivot cs)"

definition is_solved :: "DenseCoefs \<Rightarrow> SourceSymbolId option" where
  "is_solved d = is_solved_loop (base_id d) 0 None (coefs d)"

definition pivot_id :: "DenseCoefs \<Rightarrow> SourceSymbolId option" where
  "pivot_id d =
     map_option (\<lambda>(i, _). base_id d + of_nat i)
       (find (\<lambda>(_, c). c \<noteq> 0) (zip [0..<length (coefs d)] (coefs d)))"

definition pivot_coef :: "DenseCoefs \<Rightarrow> u8 option" where
  "pivot_coef d = find (\<lambda>c. c \<noteq> 0) (coefs d)"

definition dense_remove :: "DenseCoefs \<Rightarrow> SourceSymbolId \<Rightarrow> DenseCoefs" where
  "dense_remove d sid =
     (if sid < base_id d then d
      else let idx = unat (sid - base_id d)
           in if idx < length (coefs d) then d\<lparr> coefs := (coefs d)[idx := 0] \<rparr> else d)"

definition is_zero :: "DenseCoefs \<Rightarrow> bool" where
  "is_zero d = list_all (\<lambda>c. c = 0) (coefs d)"

definition nonzero_ids :: "DenseCoefs \<Rightarrow> SourceSymbolId list" where
  "nonzero_ids d =
     map (\<lambda>(i, _). base_id d + of_nat i)
       (filter (\<lambda>(_, c). c \<noteq> 0) (zip [0..<length (coefs d)] (coefs d)))"

section \<open>Matrix rows\<close>

record MatrixRow =
  row_coefs :: DenseCoefs
  row_payload :: bytes

definition row_subtract_scaled ::
    "Dispatch \<Rightarrow> MatrixRow \<Rightarrow> MatrixRow \<Rightarrow> u8 \<Rightarrow> Field \<Rightarrow> MatrixRow res" where
  "row_subtract_scaled disp r other factor field =
     and_then (dense_subtract_scaled disp (row_coefs r) (row_coefs other) factor field) (\<lambda>cs.
     and_then (mul_acc_field field disp (row_payload r) (row_payload other) factor) (\<lambda>p.
       Ok \<lparr> row_coefs = cs, row_payload = p \<rparr>))"

definition gf_inv :: "u8 \<Rightarrow> Field \<Rightarrow> u8 res" where
  "gf_inv v field =
     (if v = 0 then Err DivisionByZero
      else case field of
        Gf2_8_field \<Rightarrow> and_then (Gf2_8_inv (Gf2_8 v)) (\<lambda>i. Ok (gf8_value i))
      | Gf2_4_field \<Rightarrow> and_then (Gf2_4_inv (Gf2_4_new (v AND 0x0F))) (\<lambda>i. Ok (gf4_value i)))"

definition gf_mul :: "u8 \<Rightarrow> u8 \<Rightarrow> Field \<Rightarrow> u8" where
  "gf_mul a b field = (case field of
     Gf2_8_field \<Rightarrow> gf8_value (Gf2_8_mul (Gf2_8 a) (Gf2_8 b))
   | Gf2_4_field \<Rightarrow> gf4_value (Gf2_4_mul (Gf2_4_new (a AND 0x0F)) (Gf2_4_new (b AND 0x0F))))"

definition normalize :: "Dispatch \<Rightarrow> MatrixRow \<Rightarrow> Field \<Rightarrow> MatrixRow res" where
  "normalize disp r field =
     (case pivot_coef (row_coefs r) of
        None \<Rightarrow> Err (MalformedEncodingVector ''zero pivot'')
      | Some pivot_c \<Rightarrow>
          if pivot_c = 1 then Ok r
          else and_then (gf_inv pivot_c field) (\<lambda>inv.
            Ok \<lparr> row_coefs = dense_scale disp (row_coefs r) inv field,
                 row_payload = mul_scale_field field disp (row_payload r) inv \<rparr>))"

section \<open>Coefficients as functions of the identifier\<close>

text \<open>The identifiers of a row do not reach the last 32-bit value, so that its end does not wrap.\<close>

definition dense_ok :: "DenseCoefs \<Rightarrow> bool" where
  "dense_ok d = (unat (base_id d) + length (coefs d) < 2 ^ 32)"

definition dense_at :: "DenseCoefs \<Rightarrow> nat \<Rightarrow> u8" where
  "dense_at d n = (if unat (base_id d) \<le> n \<and> n < unat (base_id d) + length (coefs d)
     then coefs d ! (n - unat (base_id d)) else 0)"

lemma dense_get_at: "dense_get d sid = dense_at d (unat sid)"
proof (cases "sid < base_id d")
  case False
  then have "base_id d \<le> sid" by simp
  then have "unat (sid - base_id d) = unat sid - unat (base_id d)" "unat (base_id d) \<le> unat sid"
    by (simp_all add: unat_sub word_le_nat_alt)
  with False show ?thesis by (auto simp: dense_get_def dense_at_def Let_def)
qed (simp add: dense_get_def dense_at_def word_less_nat_alt)

lemma ensure_covers_at:
  "dense_at (ensure_covers d sid) n = dense_at d n"
proof (cases "coefs d = []")
  case False
  show ?thesis
  proof (cases "sid < base_id d")
    case True
    then have "unat (base_id d - sid) = unat (base_id d) - unat sid" "unat sid \<le> unat (base_id d)"
      by (simp_all add: unat_sub word_le_nat_alt word_less_nat_alt less_imp_le)
    with True False show ?thesis
      by (auto simp: ensure_covers_def dense_at_def Let_def nth_append)
  next
    case le: False
    with False show ?thesis by (auto simp: ensure_covers_def dense_at_def Let_def nth_append)
  qed
qed (auto simp: ensure_covers_def dense_at_def)

lemma ensure_covers_bounds:
  "unat (base_id (ensure_covers d sid)) \<le> unat sid"
  "unat sid < unat (base_id (ensure_covers d sid)) + length (coefs (ensure_covers d sid))"
  "coefs d \<noteq> [] \<Longrightarrow> unat (base_id (ensure_covers d sid)) \<le> unat (base_id d)"
  "coefs d \<noteq> [] \<Longrightarrow> unat (base_id d) + length (coefs d) \<le>
     unat (base_id (ensure_covers d sid)) + length (coefs (ensure_covers d sid))"
  "unat (base_id (ensure_covers d sid)) + length (coefs (ensure_covers d sid)) \<le>
     max (unat (base_id d) + length (coefs d)) (unat sid + 1)"
proof -
  have "sid < base_id d \<Longrightarrow> unat (base_id d - sid) = unat (base_id d) - unat sid \<and> unat sid < unat (base_id d)"
    by (simp add: unat_sub word_less_nat_alt less_imp_le word_le_nat_alt)
  moreover have "\<not> sid < base_id d \<Longrightarrow>
      unat (sid - base_id d) = unat sid - unat (base_id d) \<and> unat (base_id d) \<le> unat sid"
    by (simp add: unat_sub word_le_nat_alt word_less_nat_alt)
  ultimately show "unat (base_id (ensure_covers d sid)) \<le> unat sid"
    "unat sid < unat (base_id (ensure_covers d sid)) + length (coefs (ensure_covers d sid))"
    "coefs d \<noteq> [] \<Longrightarrow> unat (base_id (ensure_covers d sid)) \<le> unat (base_id d)"
    "coefs d \<noteq> [] \<Longrightarrow> unat (base_id d) + length (coefs d) \<le>
       unat (base_id (ensure_covers d sid)) + length (coefs (ensure_covers d sid))"
    "unat (base_id (ensure_covers d sid)) + length (coefs (ensure_covers d sid)) \<le>
       max (unat (base_id d) + length (coefs d)) (unat sid + 1)"
    by (cases "sid < base_id d"; auto simp: ensure_covers_def Let_def)+
qed

lemma ensure_covers_nonempty: "coefs (ensure_covers d sid) \<noteq> []"
  using ensure_covers_bounds(1,2) [where d = d and sid = sid] by auto

lemma nth_splice:
  "k + length xs \<le> length cs \<Longrightarrow> m < length cs \<Longrightarrow> (take k cs @ xs @ drop (k + length xs) cs) ! m =
     (if k \<le> m \<and> m < k + length xs then xs ! (m - k) else cs ! m)"
  by (auto simp: nth_append)

lemma dense_at_splice:
  assumes "unat (base_id d) \<le> b" "b + length xs \<le> unat (base_id d) + length (coefs d)"
  shows "dense_at (d\<lparr> coefs := take (b - unat (base_id d)) (coefs d) @ xs @
      drop (b - unat (base_id d) + length xs) (coefs d) \<rparr>) n =
    (if b \<le> n \<and> n < b + length xs then xs ! (n - b) else dense_at d n)"
proof -
  define k where "k = b - unat (base_id d)"
  have b: "b = unat (base_id d) + k" and k: "k + length xs \<le> length (coefs d)"
    using assms by (auto simp: k_def)
  have len: "length (take k (coefs d) @ xs @ drop (k + length xs) (coefs d)) = length (coefs d)" using k by simp
  show ?thesis
    using nth_splice [OF k, of "n - unat (base_id d)"] k
    by (auto simp: dense_at_def len b simp del: length_append length_take length_drop)
qed

lemma mul_acc_field_Ok:
  "length dst = length src \<Longrightarrow> \<exists>r. mul_acc_field f disp dst src c = Ok r \<and> length r = length dst \<and>
     (\<forall>i < length dst. r ! i = dst ! i XOR byte_mul f (src ! i) c)"
  by (simp add: mul_acc_field_eq)

lemma dense_subtract_scaled_at:
  assumes ok: "dense_ok d" "dense_ok other"
  shows "\<exists>d'. dense_subtract_scaled disp d other c f = Ok d' \<and> dense_ok d' \<and>
    (\<forall>n. dense_at d' n = dense_at d n XOR byte_mul f (dense_at other n) c)"
proof (cases "coefs other = [] \<or> c = 0")
  case True
  then have "byte_mul f (dense_at other n) c = 0" for n by (auto simp: dense_at_def)
  with True ok show ?thesis by (auto simp: dense_subtract_scaled_def)
next
  case False
  let ?len = "length (coefs other)" and ?b = "unat (base_id other)"
  let ?stop = "base_id other + of_nat ?len"
  have "?b + ?len < 2 ^ 32" using ok(2) by (simp add: dense_ok_def)
  then have e: "unat ?stop = ?b + ?len" by (simp add: unat_word_ariths unat_of_nat)
  then have nz: "?stop \<noteq> 0" and e1: "unat (?stop - 1) = ?b + ?len - 1"
    using False by (auto simp: unat_eq_zero [symmetric] unat_minus_one simp del: unat_eq_zero)
  define d1 where "d1 = ensure_covers d (base_id other)"
  define d2 where "d2 = ensure_covers d1 (?stop - 1)"
  have b1: "unat (base_id d1) \<le> ?b" "coefs d1 \<noteq> []"
    unfolding d1_def by (rule ensure_covers_bounds ensure_covers_nonempty)+
  have b2: "unat (base_id d2) \<le> ?b" "?b + ?len \<le> unat (base_id d2) + length (coefs d2)"
    using ensure_covers_bounds(3) [OF b1(2), of "?stop - 1"] b1(1)
      ensure_covers_bounds(2) [of "?stop - 1" d1] e1 False
    by (simp_all add: d2_def)
  have at2: "dense_at d2 n = dense_at d n" for n by (simp add: d2_def d1_def ensure_covers_at)
  have ok2: "dense_ok d2"
  proof -
    have "unat (base_id d1) + length (coefs d1) < 2 ^ 32"
      using ensure_covers_bounds(5) [of d "base_id other"] ok False
      by (cases "coefs other") (auto simp: dense_ok_def d1_def max_def split: if_splits)
    then show ?thesis
      using ensure_covers_bounds(5) [of d1 "?stop - 1"] e1 ok(2) False
      by (cases "coefs other") (auto simp: dense_ok_def d2_def max_def split: if_splits)
  qed
  let ?o = "?b - unat (base_id d2)"
  have off: "unat (base_id other - base_id d2) = ?o" using b2(1) by (simp add: unat_sub word_le_nat_alt)
  have sl: "slice (coefs d2) ?o (?o + ?len) = Ok (take ?len (drop ?o (coefs d2)))"
    using b2 by (auto simp: slice_def)
  have lt: "length (take ?len (drop ?o (coefs d2))) = ?len" using b2 by simp
  obtain r where r: "mul_acc_field f disp (take ?len (drop ?o (coefs d2))) (coefs other) c = Ok r"
      "length r = ?len" "\<forall>i < ?len. r ! i = coefs d2 ! (?o + i) XOR byte_mul f (coefs other ! i) c"
    using mul_acc_field_Ok [OF lt, of f disp c] b2 by auto
  define d' where "d' = d2\<lparr> coefs := take ?o (coefs d2) @ r @ drop (?o + ?len) (coefs d2) \<rparr>"
  have "dense_subtract_scaled disp d other c f = Ok d'"
    unfolding dense_subtract_scaled_def Let_def d1_def [symmetric]
    using False nz off sl r(1) by (simp add: d'_def flip: d2_def)
  moreover have "dense_ok d'" using ok2 b2 r(2) by (simp add: dense_ok_def d'_def)
  moreover have "dense_at d' n = dense_at d n XOR byte_mul f (dense_at other n) c" for n
  proof -
    have "dense_at d' n = (if ?b \<le> n \<and> n < ?b + ?len then r ! (n - ?b) else dense_at d2 n)"
      unfolding d'_def using dense_at_splice [of d2 ?b r n] b2 r(2) by simp
    also have "\<dots> = dense_at d2 n XOR byte_mul f (dense_at other n) c"
      using r(3) b2 by (auto simp: dense_at_def)
    finally show ?thesis by (simp add: at2)
  qed
  ultimately show ?thesis by blast
qed

lemma dense_subtract_scaled_get:
  assumes "dense_ok d" "dense_ok other"
  obtains d' where "dense_subtract_scaled disp d other c f = Ok d'" "dense_ok d'"
    "\<And>i. dense_get d' i = dense_get d i XOR byte_mul f (dense_get other i) c"
  using dense_subtract_scaled_at [OF assms, of disp c f] by (auto simp: dense_get_at)

lemma dense_scale_get [simp]:
  "dense_get (dense_scale disp d c f) i = byte_mul f (dense_get d i) c"
  "dense_ok (dense_scale disp d c f) = dense_ok d"
  by (simp_all add: dense_get_def dense_scale_def mul_scale_field_eq dense_ok_def Let_def)

lemma dense_remove_get [simp]:
  "dense_get (dense_remove d i) j = (if j = i then 0 else dense_get d j)"
  "dense_ok (dense_remove d i) = dense_ok d"
proof -
  have "unat (j - base_id d) \<noteq> unat (i - base_id d)" if "j \<noteq> i"
    using that by (simp add: unat_eq_nat_uint [symmetric] word_unat_eq_iff [symmetric])
  then show "dense_get (dense_remove d i) j = (if j = i then 0 else dense_get d j)"
    by (auto simp: dense_get_def dense_remove_def Let_def)
  show "dense_ok (dense_remove d i) = dense_ok d"
    by (simp add: dense_ok_def dense_remove_def Let_def)
qed

text \<open>Positions of a row and identifiers.\<close>

lemma dense_get_pos:
  assumes "dense_ok d" "k < length (coefs d)"
  shows "dense_get d (base_id d + of_nat k) = coefs d ! k"
proof -
  have "unat (base_id d + of_nat k) = unat (base_id d) + k"
    using assms by (simp add: dense_ok_def unat_word_ariths unat_of_nat)
  with assms show ?thesis by (simp add: dense_get_at dense_at_def)
qed

lemma dense_get_nonzero_pos:
  assumes "dense_get d i \<noteq> 0"
  shows "\<exists>k < length (coefs d). i = base_id d + of_nat k \<and> coefs d ! k \<noteq> 0"
  using assms
  by (intro exI [of _ "unat (i - base_id d)"]) (auto simp: dense_get_def Let_def split: if_splits)

lemma dense_pos_inj:
  assumes "dense_ok d" "k < length (coefs d)" "l < length (coefs d)"
    "base_id d + of_nat k = base_id d + of_nat l"
  shows "k = l"
proof -
  have "unat (base_id d + of_nat j) = unat (base_id d) + j" if "j < length (coefs d)" for j
    using assms(1) that by (simp add: dense_ok_def unat_word_ariths unat_of_nat)
  then show ?thesis using assms(2-4) by (metis add_left_cancel)
qed

lemma is_zero_iff:
  assumes "dense_ok d" shows "is_zero d = (\<forall>i. dense_get d i = 0)"
proof
  assume z: "is_zero d"
  show "\<forall>i. dense_get d i = 0"
  proof
    fix i show "dense_get d i = 0"
      using z dense_get_nonzero_pos [of d i] by (auto simp: is_zero_def list_all_length)
  qed
next
  assume "\<forall>i. dense_get d i = 0"
  then show "is_zero d" using dense_get_pos [OF assms] by (simp add: is_zero_def list_all_length)
qed

abbreviation zeros :: "bytes \<Rightarrow> bool" where
  "zeros \<equiv> list_all (\<lambda>c. c = 0)"

lemma is_solved_loop_Some: "is_solved_loop b i (Some q) cs = Some x \<longleftrightarrow> x = q \<and> zeros cs"
  by (induction cs arbitrary: i) auto

lemma is_solved_loop_None:
  "is_solved_loop b i None cs = Some x \<longleftrightarrow>
     (\<exists>pre c post. cs = pre @ c # post \<and> c \<noteq> 0 \<and> zeros pre \<and> zeros post \<and> x = b + of_nat (i + length pre))"
proof (induction cs arbitrary: i)
  case (Cons a cs)
  show ?case
  proof (cases "a = 0")
    case True
    have "(\<exists>pre c post. a # cs = pre @ c # post \<and> c \<noteq> 0 \<and> zeros pre \<and> zeros post \<and> x = b + of_nat (i + length pre))
      = (\<exists>pre c post. cs = pre @ c # post \<and> c \<noteq> 0 \<and> zeros pre \<and> zeros post \<and> x = b + of_nat (Suc i + length pre))"
      (is "?l = ?r")
    proof
      assume ?r
      then obtain pre c post where "cs = pre @ c # post" "c \<noteq> 0" "zeros pre" "zeros post"
        "x = b + of_nat (Suc i + length pre)" by blast
      with True show ?l by (intro exI [of _ "0 # pre"] exI [of _ c] exI [of _ post]) simp
    next
      assume ?l
      then obtain pre c post where p: "a # cs = pre @ c # post" "c \<noteq> 0" "zeros pre" "zeros post"
        "x = b + of_nat (i + length pre)" by blast
      with True obtain pre' where "pre = 0 # pre'" "cs = pre' @ c # post" by (auto simp: Cons_eq_append_conv)
      with p show ?r by (intro exI [of _ pre'] exI [of _ c] exI [of _ post]) simp
    qed
    with True Cons.IH [of "Suc i"] show ?thesis by simp
  next
    case False
    have "\<exists>pre c post. a # cs = pre @ c # post \<and> c \<noteq> 0 \<and> zeros pre \<and> zeros post \<and> x = b + of_nat (i + length pre)"
      if "zeros cs" "x = b + of_nat i"
      using that False by (intro exI [of _ "[]"] exI [of _ a] exI [of _ cs]) simp
    with False show ?thesis by (auto simp: is_solved_loop_Some Cons_eq_append_conv)
  qed
qed simp

lemma zeros_nth: "zeros cs \<Longrightarrow> k < length cs \<Longrightarrow> cs ! k = 0"
  by (simp add: list_all_length)

lemma is_solved_iff:
  assumes "dense_ok d"
  shows "is_solved d = Some p \<longleftrightarrow> dense_get d p \<noteq> 0 \<and> (\<forall>q. q \<noteq> p \<longrightarrow> dense_get d q = 0)"
proof
  assume "is_solved d = Some p"
  then obtain pre c post where cs: "coefs d = pre @ c # post" "c \<noteq> 0" "zeros pre" "zeros post"
      "p = base_id d + of_nat (length pre)"
    by (auto simp: is_solved_def is_solved_loop_None)
  have "dense_get d p = c" using dense_get_pos [OF assms, of "length pre"] cs by simp
  moreover have "dense_get d q = 0" if "q \<noteq> p" for q
  proof (rule ccontr)
    assume "dense_get d q \<noteq> 0"
    then obtain k where k: "k < length (coefs d)" "q = base_id d + of_nat k" "coefs d ! k \<noteq> 0"
      using dense_get_nonzero_pos by blast
    with cs that have "k \<noteq> length pre" by auto
    with k(1,3) cs show False
      by (auto simp: nth_append nth_Cons' list_all_length split: if_splits)
  qed
  ultimately show "dense_get d p \<noteq> 0 \<and> (\<forall>q. q \<noteq> p \<longrightarrow> dense_get d q = 0)" using cs(2) by simp
next
  assume a: "dense_get d p \<noteq> 0 \<and> (\<forall>q. q \<noteq> p \<longrightarrow> dense_get d q = 0)"
  then obtain k where k: "k < length (coefs d)" "p = base_id d + of_nat k" "coefs d ! k \<noteq> 0"
    using dense_get_nonzero_pos by blast
  have z: "coefs d ! l = 0" if "l < length (coefs d)" "l \<noteq> k" for l
    using that a k dense_get_pos [OF assms, of l] dense_pos_inj [OF assms, of l k] by metis
  have "coefs d = take k (coefs d) @ coefs d ! k # drop (Suc k) (coefs d)"
    using k(1) by (rule id_take_nth_drop)
  moreover have "zeros (take k (coefs d))" "zeros (drop (Suc k) (coefs d))"
    using z k(1) by (simp_all add: list_all_length)
  ultimately show "is_solved d = Some p"
    unfolding is_solved_def is_solved_loop_None using k
    by (intro exI [of _ "take k (coefs d)"] exI [of _ "coefs d ! k"] exI [of _ "drop (Suc k) (coefs d)"]) simp
qed

lemma find_zip_upt:
  "find (\<lambda>(_, c). c \<noteq> 0) (zip [i..<i + length cs] cs) =
     (case dropWhile (\<lambda>c. c = 0) cs of [] \<Rightarrow> None
      | c # _ \<Rightarrow> Some (i + length (takeWhile (\<lambda>c. c = 0) cs), c))"
proof (induction cs arbitrary: i)
  case (Cons c cs)
  have e: "[i..<i + length (c # cs)] = i # [Suc i..<Suc i + length cs]"
    by (simp add: upt_conv_Cons del: upt_Suc)
  show ?case
    unfolding e zip_Cons_Cons find.simps Cons.IH [of "Suc i"]
    by (cases "c = 0"; cases "dropWhile (\<lambda>c. c = 0) cs") (simp_all del: dropWhile_eq_Nil_conv)
qed simp

lemma find_dropWhile:
  "find (\<lambda>c. c \<noteq> 0) cs = (case dropWhile (\<lambda>c. c = 0) cs of [] \<Rightarrow> None | c # _ \<Rightarrow> Some c)"
  by (induction cs) auto

lemma pivot_id_eq:
  "pivot_id d = (case dropWhile (\<lambda>c. c = 0) (coefs d) of [] \<Rightarrow> None
     | c # _ \<Rightarrow> Some (base_id d + of_nat (length (takeWhile (\<lambda>c. c = 0) (coefs d)))))"
  using find_zip_upt [of 0 "coefs d"] 
  by (cases "dropWhile (\<lambda>c. c = 0) (coefs d)") (simp_all add: pivot_id_def del: dropWhile_eq_Nil_conv)

text \<open>A row that is not zero has a pivot, and its coefficient is the one found.\<close>

lemma pivot_exists:
  assumes "dense_ok d" "\<not> is_zero d"
  obtains p where "pivot_id d = Some p" "pivot_coef d = Some (dense_get d p)" "dense_get d p \<noteq> 0"
proof -
  obtain c rest where c: "dropWhile (\<lambda>c. c = 0) (coefs d) = c # rest"
    using assms(2) by (cases "dropWhile (\<lambda>c. c = 0) (coefs d)") (auto simp: is_zero_def list_all_iff dropWhile_eq_Nil_conv)
  let ?k = "length (takeWhile (\<lambda>c. c = 0) (coefs d))"
  have "coefs d = takeWhile (\<lambda>c. c = 0) (coefs d) @ c # rest"
    using takeWhile_dropWhile_id [of "\<lambda>c. c = 0" "coefs d"] c by simp
  then have k: "?k < length (coefs d)" "coefs d ! ?k = c"
    by (metis length_append less_add_same_cancel1 length_Cons zero_less_Suc) (metis nth_append_length \<open>coefs d = _\<close>)
  have "c \<noteq> 0" using hd_dropWhile [of "\<lambda>c. c = 0" "coefs d"] c by auto
  moreover have "pivot_id d = Some (base_id d + of_nat ?k)" "pivot_coef d = Some c"
    using find_zip_upt [of 0 "coefs d"] by (simp_all add: pivot_id_def pivot_coef_def find_dropWhile c)
  moreover have "dense_get d (base_id d + of_nat ?k) = c" using dense_get_pos [OF assms(1) k(1)] k(2) by simp
  ultimately show ?thesis using that by metis
qed

section \<open>Rows from coefficient maps\<close>

lemma dense_get_update:
  assumes "base_id d \<le> i" "unat (i - base_id d) < length (coefs d)"
  shows "dense_get (d\<lparr> coefs := (coefs d)[unat (i - base_id d) := v] \<rparr>) j = (if j = i then v else dense_get d j)"
proof -
  have "unat (j - base_id d) \<noteq> unat (i - base_id d)" if "j \<noteq> i"
    using that by (simp add: word_unat_eq_iff [symmetric])
  with assms show ?thesis by (auto simp: dense_get_def Let_def)
qed

lemma from_map_loop:
  assumes "distinct (bt_keys m)" "\<forall>k \<in> set (bt_keys m). base_id d \<le> k \<and> unat (k - base_id d) < length (coefs d)"
  shows "\<exists>d'. for_each (\<lambda>c (sid, coef). and_then (set_index (coefs c) (unat (sid - base_id d)) coef)
      (\<lambda>cs. Ok (c\<lparr> coefs := cs \<rparr>))) d m = Ok d' \<and> base_id d' = base_id d \<and> length (coefs d') = length (coefs d) \<and>
    (\<forall>i. dense_get d' i = (case bt_get m i of Some v \<Rightarrow> v | None \<Rightarrow> dense_get d i))"
  using assms
proof (induction m arbitrary: d)
  case (Cons p m)
  obtain k v where p: "p = (k, v)" by (cases p)
  let ?d = "d\<lparr> coefs := (coefs d)[unat (k - base_id d) := v] \<rparr>"
  have k: "base_id d \<le> k" "unat (k - base_id d) < length (coefs d)" using Cons.prems(2) p by auto
  obtain d' where d': "for_each (\<lambda>c (sid, coef). and_then (set_index (coefs c) (unat (sid - base_id ?d)) coef)
      (\<lambda>cs. Ok (c\<lparr> coefs := cs \<rparr>))) ?d m = Ok d'" "base_id d' = base_id d" "length (coefs d') = length (coefs d)"
      "\<forall>i. dense_get d' i = (case bt_get m i of Some v \<Rightarrow> v | None \<Rightarrow> dense_get ?d i)"
    using Cons.IH [of ?d] Cons.prems by auto
  have "bt_get m k = None" using Cons.prems(1) p by (simp add: bt_get_None_iff)
  then have "\<forall>i. dense_get d' i = (case bt_get (p # m) i of Some v \<Rightarrow> v | None \<Rightarrow> dense_get d i)"
    using d'(4) dense_get_update [OF k] by (auto simp: p split: option.splits)
  with d' k show ?case by (simp add: p set_index_def)
qed simp

lemma dense_get_new: "dense_get (DenseCoefs_new b n) i = 0"
  by (simp add: DenseCoefs_new_def dense_get_def Let_def)

lemma sorted_le_last: "sorted xs \<Longrightarrow> k \<in> set xs \<Longrightarrow> k \<le> last xs"
  by (induction xs) (auto dest: last_in_set)

lemma from_map_get:
  assumes "bt_ok m" "- 1 \<notin> set (bt_keys m)"
  obtains d where "from_map m = Ok d" "dense_ok d"
    "\<And>i. dense_get d i = (case bt_get m i of Some v \<Rightarrow> v | None \<Rightarrow> 0)"
proof (cases "m = []")
  case True
  then show ?thesis by (intro that) (auto simp: from_map_def dense_ok_def dense_get_def)
next
  case False
  let ?mn = "hd (bt_keys m)" and ?mx = "last (bt_keys m)"
  let ?d = "DenseCoefs_new ?mn (unat (?mx - ?mn) + 1)"
  have ks: "bt_keys m \<noteq> []" using False by (simp add: bt_keys_def)
  have range: "?mn \<le> k \<and> k \<le> ?mx" if "k \<in> set (bt_keys m)" for k
  proof
    show "?mn \<le> k" using that by (intro bt.hd_keys_least assms) (simp add: bt_get_None_iff)
    have "sorted (bt_keys m)" using assms(1) by (simp add: bt_ok_def strict_sorted_iff)
    then show "k \<le> ?mx" using that by (rule sorted_le_last)
  qed
  have mm: "?mn \<le> ?mx" and mx: "?mx \<noteq> - 1" using range [of ?mx] ks assms(2) last_in_set by metis+
  have "\<exists>d'. for_each (\<lambda>c (sid, coef). and_then (set_index (coefs c) (unat (sid - base_id ?d)) coef)
      (\<lambda>cs. Ok (c\<lparr> coefs := cs \<rparr>))) ?d m = Ok d' \<and> base_id d' = base_id ?d \<and> length (coefs d') = length (coefs ?d) \<and>
    (\<forall>i. dense_get d' i = (case bt_get m i of Some v \<Rightarrow> v | None \<Rightarrow> dense_get ?d i))"
  proof (rule from_map_loop)
    show "distinct (bt_keys m)" by (rule bt.keys_distinct) fact
    show "\<forall>k \<in> set (bt_keys m). base_id ?d \<le> k \<and> unat (k - base_id ?d) < length (coefs ?d)"
    proof
      fix k assume "k \<in> set (bt_keys m)"
      from range [OF this] mm show "base_id ?d \<le> k \<and> unat (k - base_id ?d) < length (coefs ?d)"
        by (simp add: DenseCoefs_new_def unat_sub word_le_nat_alt less_Suc_eq_le diff_le_mono)
    qed
  qed
  then obtain d' where d': "from_map m = Ok d'" "base_id d' = ?mn" "length (coefs d') = unat (?mx - ?mn) + 1"
      "\<forall>i. dense_get d' i = (case bt_get m i of Some v \<Rightarrow> v | None \<Rightarrow> dense_get ?d i)"
    using False by (auto simp: from_map_def DenseCoefs_new_def Let_def)
  have "unat (?mx + 1) = Suc (unat ?mx)" using mx by (metis unatSuc add.commute add_eq_0_iff2 eq_neg_iff_add_eq_0)
  then have "Suc (unat ?mx) < 2 ^ 32" using u32_unat_less [of "?mx + 1"] by simp
  then have "dense_ok d'" using mm by (simp add: dense_ok_def d' unat_sub word_le_nat_alt)
  with d' show ?thesis by (intro that) (auto simp: dense_get_new split: option.split)
qed

section \<open>Rows as equations\<close>

text \<open>An assignment \<open>X\<close> of payloads to all source symbols satisfies a row when, byte by byte, the
  weighted exclusive-or sum of the payloads is the payload of the row.\<close>

definition lin :: "Field \<Rightarrow> (SourceSymbolId \<Rightarrow> bytes) \<Rightarrow> (SourceSymbolId \<Rightarrow> u8) \<Rightarrow> nat \<Rightarrow> u8" where
  "lin f X c k = xor_sum (\<lambda>i. byte_mul f (X i ! k) (c i)) UNIV"

definition row_sat :: "Field \<Rightarrow> (SourceSymbolId \<Rightarrow> bytes) \<Rightarrow> MatrixRow \<Rightarrow> bool" where
  "row_sat f X r = (\<forall>k < length (row_payload r). lin f X (dense_get (row_coefs r)) k = row_payload r ! k)"

definition coef_ok :: "Field \<Rightarrow> u8 \<Rightarrow> bool" where
  "coef_ok f c = (f = Gf2_4_field \<longrightarrow> c < 16)"

definition row_ok :: "Field \<Rightarrow> nat \<Rightarrow> MatrixRow \<Rightarrow> bool" where
  "row_ok f L r = (dense_ok (row_coefs r) \<and> length (row_payload r) = L \<and>
     (\<forall>i. coef_ok f (dense_get (row_coefs r) i)))"

lemma lin_add: "lin f X (\<lambda>i. a i XOR byte_mul f (b i) c) k = lin f X a k XOR byte_mul f (lin f X b k) c"
  unfolding lin_def by (rule fs.equation_add) simp_all

lemma lin_scale: "lin f X (\<lambda>i. byte_mul f (a i) c) k = byte_mul f (lin f X a k) c"
  unfolding lin_def by (rule fs.equation_scale) simp_all

lemma lin_remove: "lin f X (\<lambda>j. if j = i then 0 else a j) k = lin f X a k XOR byte_mul f (X i ! k) (a i)"
proof -
  have "lin f X a k = byte_mul f (X i ! k) (a i) XOR xor_sum (\<lambda>j. byte_mul f (X j ! k) (a j)) (UNIV - {i})"
    unfolding lin_def by (rule xsum.remove) simp_all
  moreover have "lin f X (\<lambda>j. if j = i then 0 else a j) k = xor_sum (\<lambda>j. byte_mul f (X j ! k) (a j)) (UNIV - {i})"
    unfolding lin_def by (subst xsum.remove [of UNIV i]) (auto intro: xsum.cong)
  ultimately show ?thesis by (simp add: xor.commute)
qed

lemma coef_ok_xor: "coef_ok f a \<Longrightarrow> coef_ok f b \<Longrightarrow> coef_ok f (a XOR b)"
  by (auto simp: coef_ok_def u8_xor_less_16)

lemma coef_ok_mul: "coef_ok f a \<Longrightarrow> coef_ok f (byte_mul f a c)"
proof (cases f)
  case Gf2_4_field
  assume "coef_ok f a"
  with Gf2_4_field have "drop_bit 4 a = 0"
    by (simp add: coef_ok_def u8_high_nibble_zero)
  then have "gf2_4_byte_mul a c = gf2_4_mul_raw (a AND 15) (c AND 15)" by (simp add: gf2_4_byte_mul_eq)
  with Gf2_4_field show ?thesis by (simp add: coef_ok_def gf2_4_mul_raw_less)
qed (simp add: coef_ok_def)

lemma coef_ok_simps [simp]: "coef_ok f 0" "coef_ok f 1"
  by (simp_all add: coef_ok_def)

text \<open>\<open>gf_inv\<close> of a coefficient of the field succeeds and inverts.\<close>

lemma gf_inv_Ok:
  assumes "c \<noteq> 0" "coef_ok f c"
  obtains i where "gf_inv c f = Ok i" "byte_mul f c i = 1" "byte_mul f i c = 1"
proof (cases f)
  case Gf2_8_field
  have nz: "Gf2_8 c \<noteq> 0" using assms(1) by (simp add: zero_Gf2_8_def)
  let ?i = "gf8_value (inverse (Gf2_8 c))"
  have "gf2_8_mul_raw c ?i = 1" "gf2_8_mul_raw ?i c = 1"
    using nz by (metis Gf2_8.sel gf8_value_simps(2,4) right_inverse left_inverse)+
  with nz Gf2_8_field assms(1) show ?thesis
    by (intro that [of ?i]) (simp_all add: gf_inv_def Gf2_8_inv_inverse)
next
  case Gf2_4_field
  then have c: "c < 16" using assms(2) by (simp add: coef_ok_def)
  then have nz: "Gf2_4_new c \<noteq> 0" using assms(1) by (simp add: gf4_eq_iff)
  let ?i = "gf4_value (inverse (Gf2_4_new c))"
  have "gf4_value (Gf2_4_new c) = c" using c by simp
  then have "gf2_4_mul_raw c ?i = 1" "gf2_4_mul_raw ?i c = 1"
    using nz by (metis gf4_value_simps(2,4) right_inverse left_inverse)+
  with nz Gf2_4_field assms(1) c show ?thesis
    by (intro that [of ?i]) (simp_all add: gf_inv_def Gf2_4_inv_inverse gf2_4_byte_mul_eq u8_high_nibble_zero)
qed

lemma row_satD: "row_sat f X r \<Longrightarrow> k < length (row_payload r) \<Longrightarrow>
  lin f X (dense_get (row_coefs r)) k = row_payload r ! k"
  by (simp add: row_sat_def)

lemma row_subtract_scaled_Ok:
  assumes r: "row_ok f L r" and o: "row_ok f L other"
  obtains r' where "row_subtract_scaled disp r other c f = Ok r'" "row_ok f L r'"
    "\<And>i. dense_get (row_coefs r') i = dense_get (row_coefs r) i XOR byte_mul f (dense_get (row_coefs other) i) c"
    "\<And>X. row_sat f X other \<Longrightarrow> row_sat f X r' = row_sat f X r"
proof -
  have "dense_ok (row_coefs r)" "dense_ok (row_coefs other)" using r o by (simp_all add: row_ok_def)
  then obtain d where d: "dense_subtract_scaled disp (row_coefs r) (row_coefs other) c f = Ok d" "dense_ok d"
      "\<And>i. dense_get d i = dense_get (row_coefs r) i XOR byte_mul f (dense_get (row_coefs other) i) c"
    by (rule dense_subtract_scaled_get) blast
  obtain p where p: "mul_acc_field f disp (row_payload r) (row_payload other) c = Ok p" "length p = L"
      "\<forall>k < L. p ! k = row_payload r ! k XOR byte_mul f (row_payload other ! k) c"
    using mul_acc_field_Ok [of "row_payload r" "row_payload other" f disp c] r o by (auto simp: row_ok_def)
  let ?r = "\<lparr> row_coefs = d, row_payload = p \<rparr>"
  have fn: "dense_get d = (\<lambda>i. dense_get (row_coefs r) i XOR byte_mul f (dense_get (row_coefs other) i) c)"
    using d(3) by (rule ext)
  show ?thesis
  proof (rule that [of ?r])
    show "row_subtract_scaled disp r other c f = Ok ?r" by (simp add: row_subtract_scaled_def d p)
    show "row_ok f L ?r" using r o d(2,3) p by (auto simp: row_ok_def coef_ok_xor coef_ok_mul)
    show "dense_get (row_coefs ?r) i = dense_get (row_coefs r) i XOR byte_mul f (dense_get (row_coefs other) i) c" for i
      by (simp add: d)
    show "row_sat f X ?r = row_sat f X r" if "row_sat f X other" for X
      using p row_satD [OF that] r o by (simp add: row_sat_def fn lin_add row_ok_def)
  qed
qed

lemma byte_mul_cancel:
  assumes "byte_mul f c i = 1" shows "(byte_mul f a c = byte_mul f b c) = (a = b)"
proof
  assume "byte_mul f a c = byte_mul f b c"
  then have "byte_mul f (byte_mul f a c) i = byte_mul f (byte_mul f b c) i" by simp
  then show "a = b" by (simp add: fs.mul_assoc assms fs.mul_one)
qed simp

lemma normalize_Ok:
  assumes r: "row_ok f L r" and nz: "\<not> is_zero (row_coefs r)"
  obtains r' p where "normalize disp r f = Ok r'" "row_ok f L r'" "pivot_id (row_coefs r') = Some p"
    "dense_get (row_coefs r') p = 1"
    "\<And>i. (dense_get (row_coefs r') i = 0) = (dense_get (row_coefs r) i = 0)"
    "\<And>X. row_sat f X r' = row_sat f X r"
proof -
  have ok: "dense_ok (row_coefs r)" and len: "length (row_payload r) = L" using r by (simp_all add: row_ok_def)
  obtain p where p: "pivot_id (row_coefs r) = Some p" "pivot_coef (row_coefs r) = Some (dense_get (row_coefs r) p)"
      "dense_get (row_coefs r) p \<noteq> 0"
    using pivot_exists [OF ok nz] .
  show ?thesis
  proof (cases "dense_get (row_coefs r) p = 1")
    case True
    with p r show ?thesis by (intro that [of r p]) (simp_all add: normalize_def)
  next
    case False
    obtain inv where inv: "gf_inv (dense_get (row_coefs r) p) f = Ok inv"
        "byte_mul f (dense_get (row_coefs r) p) inv = 1" "byte_mul f inv (dense_get (row_coefs r) p) = 1"
      using gf_inv_Ok [OF p(3), of f] r by (auto simp: row_ok_def)
    let ?r = "\<lparr> row_coefs = dense_scale disp (row_coefs r) inv f,
        row_payload = mul_scale_field f disp (row_payload r) inv \<rparr>"
    have fn: "dense_get (dense_scale disp (row_coefs r) inv f) = (\<lambda>i. byte_mul f (dense_get (row_coefs r) i) inv)"
      by (rule ext) simp
    have zero: "(byte_mul f a inv = 0) = (a = 0)" for a
      using byte_mul_cancel [OF inv(3), of a 0] by simp
    have ok': "dense_ok (row_coefs ?r)" "\<not> is_zero (row_coefs ?r)"
      using ok nz by (simp_all add: is_zero_iff zero)
    have piv: "pivot_id (row_coefs ?r) = Some p"
      using p(1)
      by (cases "dropWhile (\<lambda>c. c = 0) (coefs (row_coefs r))")
         (simp_all add: pivot_id_eq dense_scale_def mul_scale_field_eq dropWhile_map takeWhile_map comp_def zero
           del: dropWhile_eq_Nil_conv)
    show ?thesis
    proof (rule that [of ?r p])
      show "normalize disp r f = Ok ?r" using False by (simp add: normalize_def p inv)
      show "row_ok f L ?r" using r by (auto simp: row_ok_def mul_scale_field_eq coef_ok_mul)
      show "pivot_id (row_coefs ?r) = Some p" by (rule piv)
      show "dense_get (row_coefs ?r) p = 1" by (simp add: inv)
      show "(dense_get (row_coefs ?r) i = 0) = (dense_get (row_coefs r) i = 0)" for i by (simp add: zero)
      show "row_sat f X ?r = row_sat f X r" for X
        by (simp add: row_sat_def fn lin_scale mul_scale_field_eq byte_mul_cancel [OF inv(3)])
    qed
  qed
qed

text \<open>Substituting a known symbol.\<close>

lemma row_known_Ok:
  assumes r: "row_ok f L r" and data: "length data = L"
  obtains p where "mul_acc_field f disp (row_payload r) data (dense_get (row_coefs r) sid) = Ok p"
    "row_ok f L \<lparr> row_coefs = dense_remove (row_coefs r) sid, row_payload = p \<rparr>"
    "\<And>X. X sid = data \<Longrightarrow>
       row_sat f X \<lparr> row_coefs = dense_remove (row_coefs r) sid, row_payload = p \<rparr> = row_sat f X r"
proof -
  let ?c = "dense_get (row_coefs r) sid"
  obtain p where p: "mul_acc_field f disp (row_payload r) data ?c = Ok p" "length p = L"
      "\<forall>k < L. p ! k = row_payload r ! k XOR byte_mul f (data ! k) ?c"
    using mul_acc_field_Ok [of "row_payload r" data f disp ?c] r data by (auto simp: row_ok_def)
  have fn: "dense_get (dense_remove (row_coefs r) sid) = (\<lambda>j. if j = sid then 0 else dense_get (row_coefs r) j)"
    by (rule ext) simp
  show ?thesis
  proof (rule that [OF p(1)])
    show "row_ok f L \<lparr> row_coefs = dense_remove (row_coefs r) sid, row_payload = p \<rparr>"
      using r p(2) by (simp add: row_ok_def)
    show "row_sat f X \<lparr> row_coefs = dense_remove (row_coefs r) sid, row_payload = p \<rparr> = row_sat f X r"
      if "X sid = data" for X
      using p r that by (simp add: row_sat_def fn lin_remove row_ok_def)
  qed
qed

text \<open>A row with a single coefficient, equal to one, is the payload of that symbol.\<close>

lemma row_sat_singleton:
  assumes "dense_get (row_coefs r) p = 1" "\<forall>q. q \<noteq> p \<longrightarrow> dense_get (row_coefs r) q = 0"
    "length (X p) = length (row_payload r)"
  shows "row_sat f X r = (X p = row_payload r)"
proof -
  have "lin f X (dense_get (row_coefs r)) k = X p ! k" for k
  proof -
    have "lin f X (dense_get (row_coefs r)) k = byte_mul f (X p ! k) (dense_get (row_coefs r) p)"
      unfolding lin_def using assms(2) by (intro xor_sum_single) simp_all
    then show ?thesis by (simp add: assms(1) fs.mul_one)
  qed
  then show ?thesis using assms(3) by (auto simp: row_sat_def list_eq_iff_nth_eq)
qed

end
