(* ===== verification/Dec_Matrix.thy ===== *)
theory Dec_Matrix
  imports Dense_Coefs Encoding_Vector Coef_Gen
begin

text \<open>
  \<^verbatim>\<open>src/codec/decoder/matrix.rs\<close>: the incremental Gaussian elimination of the decoder. The
  rows are keyed by pivot; \<open>matrix_ok\<close> is the reduced echelon form the comments of the source
  promise. Under it every operation succeeds, keeps it, keeps the set of solutions of the system,
  and returns only payloads that every solution has.
\<close>

record DecodingMatrix =
  dm_rows :: "(SourceSymbolId, MatrixRow) btree"
  dm_field :: Field
  dm_symbol_size :: nat
  dm_max_rows :: nat

definition DecodingMatrix_new :: "Field \<Rightarrow> nat \<Rightarrow> nat \<Rightarrow> DecodingMatrix" where
  "DecodingMatrix_new field symbol_size max_rows =
     \<lparr> dm_rows = [], dm_field = field, dm_symbol_size = symbol_size, dm_max_rows = max_rows \<rparr>"

type_synonym recovered = "(SourceSymbolId \<times> bytes) list"

section \<open>add_known_source\<close>

text \<open>The loop over \<open>rows.values_mut()\<close>: the updated rows and \<open>newly_solved\<close>.\<close>

fun substitute_rows :: "Dispatch \<Rightarrow> Field \<Rightarrow> SourceSymbolId \<Rightarrow> bytes \<Rightarrow>
    (SourceSymbolId, MatrixRow) btree \<Rightarrow> ((SourceSymbolId, MatrixRow) btree \<times> SourceSymbolId list) res" where
  "substitute_rows disp field sym_id sym_data [] = Ok ([], [])"
| "substitute_rows disp field sym_id sym_data ((key, row) # rows) =
     (let c = dense_get (row_coefs row) sym_id in
      if c = 0 then
        and_then (substitute_rows disp field sym_id sym_data rows) (\<lambda>(rows, newly_solved).
          Ok ((key, row) # rows, newly_solved))
      else
        let cs = dense_remove (row_coefs row) sym_id in
        and_then (mul_acc_field field disp (row_payload row) sym_data c) (\<lambda>p.
        and_then (substitute_rows disp field sym_id sym_data rows) (\<lambda>(rows, newly_solved).
          Ok ((key, \<lparr> row_coefs = cs, row_payload = p \<rparr>) # rows,
              (case is_solved cs of Some solved_id \<Rightarrow> [solved_id] | None \<Rightarrow> []) @ newly_solved))))"

text \<open>The loop over \<open>newly_solved\<close>: rows taken out, symbols recovered, work queued.\<close>

fun extract_solved :: "SourceSymbolId list \<Rightarrow> (SourceSymbolId, bytes) btree \<Rightarrow>
    (SourceSymbolId, MatrixRow) btree \<Rightarrow> recovered \<Rightarrow> recovered \<Rightarrow>
    (SourceSymbolId, MatrixRow) btree \<times> recovered \<times> recovered" where
  "extract_solved [] local_known rows queue all_recovered = (rows, queue, all_recovered)"
| "extract_solved (solved_id # newly_solved) local_known rows queue all_recovered =
     (case bt_get rows solved_id of
        None \<Rightarrow> extract_solved newly_solved local_known rows queue all_recovered
      | Some row \<Rightarrow>
          extract_solved newly_solved local_known (bt_remove rows solved_id)
            (if bt_contains_key local_known solved_id then queue else queue @ [(solved_id, row_payload row)])
            (all_recovered @ [(solved_id, row_payload row)]))"

lemma bt_remove_length: "bt_get m k = Some v \<Longrightarrow> Suc (length (bt_remove m k)) = length m"
  by (induction m) (auto split: if_splits)

lemma extract_solved_measure:
  "extract_solved ns known rows queue rec = (rows', queue', rec') \<Longrightarrow>
   length rows' + length queue' \<le> length rows + length queue \<and> length rows' \<le> length rows"
proof (induction ns known rows queue rec rule: extract_solved.induct)
  case (2 s ns known rows queue rec)
  then show ?case
    by (cases "bt_get rows s") (fastforce dest: bt_remove_length split: if_splits)+
qed simp

lemma substitute_rows_length: "substitute_rows disp f sid data rows = Ok (rows', ns) \<Longrightarrow> length rows' = length rows"
  by (induction rows arbitrary: rows' ns) (auto simp: Let_def split: if_splits)

text \<open>The work queue: every entry that is queued took a row out of the matrix.\<close>

function known_loop :: "Dispatch \<Rightarrow> Field \<Rightarrow> (SourceSymbolId, MatrixRow) btree \<Rightarrow> recovered \<Rightarrow>
    (SourceSymbolId, bytes) btree \<Rightarrow> recovered \<Rightarrow> ((SourceSymbolId, MatrixRow) btree \<times> recovered) res" where
  "known_loop disp field rows [] local_known all_recovered = Ok (rows, all_recovered)"
| "known_loop disp field rows ((sym_id, sym_data) # queue) local_known all_recovered =
     (case substitute_rows disp field sym_id sym_data rows of
        Err e \<Rightarrow> Err e
      | Panic \<Rightarrow> Panic
      | Ok (rows, newly_solved) \<Rightarrow>
          let local_known = bt_insert local_known sym_id sym_data;
              (rows, queue, all_recovered) = extract_solved newly_solved local_known rows queue all_recovered
          in known_loop disp field rows queue local_known all_recovered)"
  by pat_completeness auto
termination
proof (relation "measure (\<lambda>(disp, f, rows, queue, known, rec). length rows + length queue)", goal_cases)
  case (2 disp f rows sid data queue known rec x rows1 ns known' y rows2 z queue2 rec2)
  then have "length rows1 = length rows" "length rows2 + length queue2 \<le> length rows1 + length queue"
    by (auto dest: substitute_rows_length extract_solved_measure [OF sym])
  then show ?case by simp
qed simp

declare known_loop.simps(2) [simp del]

definition add_known_source :: "Dispatch \<Rightarrow> DecodingMatrix \<Rightarrow> SourceSymbolId \<Rightarrow> bytes \<Rightarrow>
    (SourceSymbolId, bytes) btree \<Rightarrow> (DecodingMatrix \<times> recovered) res" where
  "add_known_source disp m sid data known_sources =
     and_then (known_loop disp (dm_field m) (dm_rows m) [(sid, data)] known_sources []) (\<lambda>(rows, all_recovered).
       Ok (m\<lparr> dm_rows := rows \<rparr>, all_recovered))"

section \<open>Elimination\<close>

definition forward_eliminate :: "Dispatch \<Rightarrow> DecodingMatrix \<Rightarrow> MatrixRow \<Rightarrow> MatrixRow res" where
  "forward_eliminate disp m row =
     for_each (\<lambda>row pid.
       let c = dense_get (row_coefs row) pid in
       if c = 0 then Ok row
       else case bt_get (dm_rows m) pid of
              None \<Rightarrow> Panic
            | Some existing \<Rightarrow> row_subtract_scaled disp row existing c (dm_field m))
       row (bt_keys (dm_rows m))"

definition back_substitute :: "Dispatch \<Rightarrow> DecodingMatrix \<Rightarrow> SourceSymbolId \<Rightarrow> MatrixRow \<Rightarrow> DecodingMatrix res" where
  "back_substitute disp m new_pivot new_row =
     for_each (\<lambda>m pid.
       case bt_get (dm_rows m) pid of
         None \<Rightarrow> Panic
       | Some row \<Rightarrow>
           let c = dense_get (row_coefs row) new_pivot in
           if c = 0 then Ok m
           else and_then (row_subtract_scaled disp row new_row c (dm_field m)) (\<lambda>row.
             Ok (m\<lparr> dm_rows := bt_insert (dm_rows m) pid row \<rparr>)))
       m (bt_keys (dm_rows m))"

section \<open>add_coded\<close>

text \<open>The coefficient map of an encoding vector.\<close>

fun coef_map_loop :: "EncodingVector \<Rightarrow> nat \<Rightarrow> u32 list \<Rightarrow> (SourceSymbolId, u8) btree \<Rightarrow>
    (SourceSymbolId, u8) btree res" where
  "coef_map_loop ev i [] coef_map = Ok coef_map"
| "coef_map_loop ev i (sid # ids) coef_map =
     and_then (if has_explicit_coefs ev then index (ev_coefficients ev) i
               else Ok (vandermonde_coef (ev_field ev) sid (ev_coded_id ev))) (\<lambda>c.
       coef_map_loop ev (i + 1) ids (if c \<noteq> 0 then bt_insert coef_map sid c else coef_map))"

text \<open>Substitution of the known sources into the new row.\<close>

definition substitute_known :: "Dispatch \<Rightarrow> Field \<Rightarrow> MatrixRow \<Rightarrow> (SourceSymbolId, bytes) btree \<Rightarrow> MatrixRow res" where
  "substitute_known disp field row known_sources =
     for_each (\<lambda>row (sid, data).
       let c = dense_get (row_coefs row) sid in
       if c = 0 then Ok row
       else
         let cs = dense_remove (row_coefs row) sid in
         and_then (mul_acc_field field disp (row_payload row) data c) (\<lambda>p.
           Ok \<lparr> row_coefs = cs, row_payload = p \<rparr>))
       row known_sources"

text \<open>One pass of the final loop over the pivots of the singleton rows.\<close>

fun solve_pass :: "Dispatch \<Rightarrow> SourceSymbolId list \<Rightarrow> DecodingMatrix \<Rightarrow> recovered \<Rightarrow>
    (SourceSymbolId, bytes) btree \<Rightarrow> (DecodingMatrix \<times> recovered \<times> (SourceSymbolId, bytes) btree) res" where
  "solve_pass disp [] m all_recovered extra_known = Ok (m, all_recovered, extra_known)"
| "solve_pass disp (pid # solved) m all_recovered extra_known =
     (case bt_get (dm_rows m) pid of
        None \<Rightarrow> solve_pass disp solved m all_recovered extra_known
      | Some row \<Rightarrow>
          let m = m\<lparr> dm_rows := bt_remove (dm_rows m) pid \<rparr> in
          (case is_solved (row_coefs row) of
             None \<Rightarrow> solve_pass disp solved m all_recovered extra_known
           | Some solved_id \<Rightarrow>
               let sym = row_payload row;
                   all_recovered = all_recovered @ [(solved_id, sym)];
                   extra_known = bt_insert extra_known solved_id sym
               in and_then (add_known_source disp m solved_id sym extra_known) (\<lambda>(m, more).
                    let extra_known = foldl (\<lambda>k (rid, rdata). bt_insert k rid rdata) extra_known more
                    in solve_pass disp solved m (all_recovered @ more) extra_known)))"

definition singleton_pivots :: "DecodingMatrix \<Rightarrow> SourceSymbolId list" where
  "singleton_pivots m =
     map fst (filter (\<lambda>(pid, row). is_solved (row_coefs row) \<noteq> None) (dm_rows m))"

lemma known_loop_length:
  "known_loop disp f rows queue known rec = Ok (rows', rec') \<Longrightarrow> length rows' \<le> length rows"
proof (induction disp f rows queue known rec rule: known_loop.induct)
  case (2 disp f rows sid data queue known rec)
  then obtain rows1 ns where s: "substitute_rows disp f sid data rows = Ok (rows1, ns)"
    by (auto simp: known_loop.simps(2) split: res.splits)
  obtain rows2 queue2 rec2 where e: "extract_solved ns (bt_insert known sid data) rows1 queue rec = (rows2, queue2, rec2)"
    by (metis prod_cases3)
  from 2 s e have "length rows' \<le> length rows2" by (simp add: known_loop.simps(2))
  with extract_solved_measure [OF e] substitute_rows_length [OF s] show ?case by simp
qed simp

lemma add_known_source_length:
  "add_known_source disp m sid data known = Ok (m', rec) \<Longrightarrow> length (dm_rows m') \<le> length (dm_rows m)"
  by (auto simp: add_known_source_def dest: known_loop_length)

lemma solve_pass_length:
  "solve_pass disp solved m rec known = Ok (m', rec', known') \<Longrightarrow> length (dm_rows m') \<le> length (dm_rows m)"
proof (induction disp solved m rec known arbitrary: m' rec' known' rule: solve_pass.induct)
  case (2 disp pid solved m rec known)
  show ?case
  proof (cases "bt_get (dm_rows m) pid")
    case None with 2 show ?thesis by simp
  next
    case (Some row)
    note l = bt_remove_length [OF Some]
    show ?thesis
    proof (cases "is_solved (row_coefs row)")
      case None with Some l 2 show ?thesis by (fastforce simp: Let_def)
    next
      case s: (Some i)
      from "2.prems" Some s obtain m1 more where m1: "add_known_source disp (m\<lparr> dm_rows := bt_remove (dm_rows m) pid \<rparr>)
          i (row_payload row) (bt_insert known i (row_payload row)) = Ok (m1, more)"
        "solve_pass disp solved m1 ((rec @ [(i, row_payload row)]) @ more)
          (foldl (\<lambda>k (rid, rdata). bt_insert k rid rdata) (bt_insert known i (row_payload row)) more) = Ok (m', rec', known')"
        by (auto simp: Let_def)
      have "length (dm_rows m') \<le> length (dm_rows m1)"
        by (rule "2.IH"(3) [OF Some refl s refl refl refl refl m1(2)])
      with add_known_source_length [OF m1(1)] l show ?thesis by simp
    qed
  qed
qed simp

lemma solve_pass_shrinks:
  assumes "solve_pass disp (pid # solved) m rec known = Ok (m', rec', known')" "bt_get (dm_rows m) pid = Some row"
  shows "length (dm_rows m') < length (dm_rows m)"
proof -
  note l = bt_remove_length [OF assms(2)]
  show ?thesis
  proof (cases "is_solved (row_coefs row)")
    case None
    with assms have "solve_pass disp solved (m\<lparr> dm_rows := bt_remove (dm_rows m) pid \<rparr>) rec known = Ok (m', rec', known')"
      by (simp add: Let_def)
    with l show ?thesis using solve_pass_length by fastforce
  next
    case (Some i)
    with assms obtain m1 more where m1: "add_known_source disp (m\<lparr> dm_rows := bt_remove (dm_rows m) pid \<rparr>)
        i (row_payload row) (bt_insert known i (row_payload row)) = Ok (m1, more)"
      "solve_pass disp solved m1 ((rec @ [(i, row_payload row)]) @ more)
        (foldl (\<lambda>k (rid, rdata). bt_insert k rid rdata) (bt_insert known i (row_payload row)) more) = Ok (m', rec', known')"
      by (auto simp: Let_def)
    from solve_pass_length [OF m1(2)] add_known_source_length [OF m1(1)] l show ?thesis by simp
  qed
qed

lemma singleton_pivots_get: "singleton_pivots m = pid # solved \<Longrightarrow> \<exists>row. bt_get (dm_rows m) pid = Some row"
proof -
  assume "singleton_pivots m = pid # solved"
  then have "pid \<in> set (singleton_pivots m)" by simp
  then have "pid \<in> set (bt_keys (dm_rows m))" by (auto simp: singleton_pivots_def bt_keys_def)
  then show ?thesis using bt_get_None_iff [of "dm_rows m" pid] by (cases "bt_get (dm_rows m) pid") auto
qed

text \<open>The final loop of \<open>add_coded\<close>: each round takes at least one row out.\<close>

function solve_loop :: "Dispatch \<Rightarrow> DecodingMatrix \<Rightarrow> recovered \<Rightarrow> (SourceSymbolId, bytes) btree \<Rightarrow>
    (DecodingMatrix \<times> recovered) res" where
  "solve_loop disp m all_recovered extra_known =
     (let solved = singleton_pivots m in
      if solved = [] then Ok (m, all_recovered)
      else case solve_pass disp solved m all_recovered extra_known of
             Err e \<Rightarrow> Err e
           | Panic \<Rightarrow> Panic
           | Ok (m, all_recovered, extra_known) \<Rightarrow> solve_loop disp m all_recovered extra_known)"
  by pat_completeness auto
termination
proof (relation "measure (\<lambda>(disp, m, rec, known). length (dm_rows m))", goal_cases)
  case (2 disp m rec known solved x m' y rec' known')
  then obtain pid rest where "singleton_pivots m = pid # rest" by (cases "singleton_pivots m") auto
  moreover from this obtain row where "bt_get (dm_rows m) pid = Some row" using singleton_pivots_get by blast
  ultimately show ?case
    using 2 solve_pass_shrinks [of disp pid rest m rec known m' rec' known' row] by (auto simp del: solve_pass.simps)
qed simp

declare solve_loop.simps [simp del]

definition add_coded :: "Dispatch \<Rightarrow> DecodingMatrix \<Rightarrow> EncodingVector \<Rightarrow> bytes \<Rightarrow>
    (SourceSymbolId, bytes) btree \<Rightarrow> (DecodingMatrix \<times> recovered) res" where
  "add_coded disp m ev payload known_sources =
     and_then (coef_map_loop ev 0 (ev_source_ids ev) []) (\<lambda>coef_map.
     and_then (from_map coef_map) (\<lambda>cs.
     let row = \<lparr> row_coefs = cs, row_payload = payload \<rparr> in
     and_then (substitute_known disp (dm_field m) row known_sources) (\<lambda>row.
     if is_zero (row_coefs row) then Ok (m, [])
     else and_then (forward_eliminate disp m row) (\<lambda>row.
     if is_zero (row_coefs row) then Ok (m, [])
     else and_then (normalize disp row (dm_field m)) (\<lambda>row.
     case pivot_id (row_coefs row) of
       None \<Rightarrow> Err (MalformedEncodingVector ''no pivot after elimination'')
     | Some pivot \<Rightarrow>
         and_then (back_substitute disp m pivot row) (\<lambda>m.
         let m = (if length (dm_rows m) \<ge> dm_max_rows m
                  then (case dm_rows m of [] \<Rightarrow> m
                        | (oldest, _) # _ \<Rightarrow> m\<lparr> dm_rows := bt_remove (dm_rows m) oldest \<rparr>)
                  else m);
             m = m\<lparr> dm_rows := bt_insert (dm_rows m) pivot row \<rparr>
         in solve_loop disp m [] known_sources))))))"

definition row_count :: "DecodingMatrix \<Rightarrow> nat" where
  "row_count m = length (dm_rows m)"

end
