(* ===== verification/Decoder.thy ===== *)
theory Decoder
  imports Dec_Buffer Dec_Matrix Policy
begin

text \<open>
  \<^verbatim>\<open>src/codec/decoder/mod.rs\<close>: the decoder state machine. It is generic in the feedback
  policy; \<open>rnd\<close> is the rounding of \<open>f64\<close> conversions and divisions, on which nothing but the
  reported loss rate depends. Neither matrix operation ever returns an error (\<open>add_coded_no_err\<close>,
  \<open>add_known_source_no_err\<close>), so no error leaves a half-updated decoder behind. Log events are
  left out.
\<close>

datatype DecoderEvent =
    SourceReady SourceSymbolId bytes
  | SendFeedback bytes
  | UnrecoverableGap SourceSymbolId u32

section \<open>Loss tracking\<close>

record LossTracker =
  lt_received :: u64
  lt_expected :: u64
  last_seen :: u32

definition LossTracker_default :: LossTracker where
  "LossTracker_default = \<lparr> lt_received = 0, lt_expected = 0, last_seen = 0 \<rparr>"

definition on_source :: "LossTracker \<Rightarrow> u32 \<Rightarrow> LossTracker" where
  "on_source t sid =
     (let gap = ucast (min (sid - last_seen t) 1000) :: u64
      in \<lparr> lt_received = lt_received t + 1, lt_expected = lt_expected t + gap, last_seen = sid \<rparr>)"

definition on_coded :: "LossTracker \<Rightarrow> LossTracker" where
  "on_coded t = t\<lparr> lt_received := lt_received t + 1, lt_expected := lt_expected t + 1 \<rparr>"

definition tracker_loss_rate :: "(rat \<Rightarrow> rat) \<Rightarrow> LossTracker \<Rightarrow> rat" where
  "tracker_loss_rate rnd t =
     (if lt_expected t = 0 then 0
      else
        let lost = (if lt_received t \<le> lt_expected t then lt_expected t - lt_received t else 0)
        in max 0 (min 1 (rnd (rnd (of_nat (unat lost)) / rnd (of_nat (unat (lt_expected t)))))))"

section \<open>The decoder\<close>

record 'p Decoder =
  dec_config :: DecoderConfig
  dec_buffer :: SymbolBuffer
  dec_matrix :: DecodingMatrix
  known :: "(SourceSymbolId, bytes) btree"
  encoder_win_min :: SourceSymbolId
  loss :: LossTracker
  dec_policy :: 'p
  packets_received :: u64

definition Decoder_new :: "DecoderConfig \<Rightarrow> 'p \<Rightarrow> 'p Decoder" where
  "Decoder_new config policy =
     \<lparr> dec_config = config, dec_buffer = SymbolBuffer_new 0,
       dec_matrix = DecodingMatrix_new (dc_field config) (dc_symbol_size config) (dc_max_matrix_rows config),
       known = [], encoder_win_min = 0, loss = LossTracker_default, dec_policy = policy, packets_received = 0 \<rparr>"

definition Decoder_with_defaults :: "DecoderConfig \<Rightarrow> ConstantFeedback Decoder res" where
  "Decoder_with_defaults config =
     and_then (ConstantFeedbackPolicy_new 16) (\<lambda>policy. Ok (Decoder_new config policy))"

definition absorb_recovered :: "'p Decoder \<Rightarrow> SourceSymbolId \<times> bytes \<Rightarrow> 'p Decoder" where
  "absorb_recovered d r =
     (let (rid, rdata) = r
      in d\<lparr> known := bt_or_insert (known d) rid rdata, dec_buffer := buffer_insert (dec_buffer d) rid rdata \<rparr>)"

definition drain_to_events :: "'p Decoder \<Rightarrow> DecoderEvent list \<Rightarrow> 'p Decoder \<times> DecoderEvent list" where
  "drain_to_events d events =
     (let (b, out) = drain_deliverable (dec_buffer d)
      in (d\<lparr> dec_buffer := b \<rparr>, events @ map (\<lambda>(sid, data). SourceReady sid data) out))"

definition count_missing :: "'p Decoder \<Rightarrow> u32" where
  "count_missing d =
     (let next = next_delivery_id (dec_buffer d);
          high = (case highest_id (dec_buffer d) of Some h \<Rightarrow> h | None \<Rightarrow> next)
      in if high < next then 0
         else let span = high - next + 1; buffered = of_nat (length (ids_from (dec_buffer d) next))
              in if buffered \<le> span then span - buffered else 0)"

definition make_state :: "(rat \<Rightarrow> rat) \<Rightarrow> 'p Decoder \<Rightarrow> DecoderState" where
  "make_state rnd d =
     \<lparr> ds_next_delivery_id = next_delivery_id (dec_buffer d), ds_packets_received = packets_received d,
       ds_loss_rate = tracker_loss_rate rnd (loss d), ds_nb_missing_src = count_missing d,
       ds_nb_not_used_coded = of_nat (row_count (dec_matrix d)) \<rparr>"

definition maybe_send_feedback :: "(rat \<Rightarrow> rat) \<Rightarrow> 'p FeedbackPolicy \<Rightarrow> 'p Decoder \<Rightarrow> DecoderEvent list \<Rightarrow>
    ('p Decoder \<times> DecoderEvent list) res" where
  "maybe_send_feedback rnd P d events =
     (let (policy, send) = should_send_feedback P (dec_policy d) (make_state rnd d);
          d = d\<lparr> dec_policy := policy \<rparr> in
      if \<not> send then Ok (d, events)
      else
        let next = next_delivery_id (dec_buffer d);
            acked = take 256 (ids_from (dec_buffer d) next);
            nb_missing = count_missing d in
        and_then (FeedbackPacket_build next nb_missing (of_nat (row_count (dec_matrix d)))
            (tracker_loss_rate rnd (loss d)) acked) (\<lambda>pkt.
          Ok (d, events @ [SendFeedback (FeedbackPacket_serialise pkt)])))"

definition check_gap :: "'p Decoder \<Rightarrow> DecoderEvent list \<Rightarrow> 'p Decoder \<times> DecoderEvent list" where
  "check_gap d events =
     (let next = next_delivery_id (dec_buffer d) in
      if encoder_win_min d > next then
        let count = encoder_win_min d - next
        in (d\<lparr> dec_buffer := prune_below (dec_buffer d) (encoder_win_min d) \<rparr>, events @ [UnrecoverableGap next count])
      else (d, events))"

text \<open>The end of both handlers.\<close>

definition finish_packet :: "(rat \<Rightarrow> rat) \<Rightarrow> 'p FeedbackPolicy \<Rightarrow> 'p Decoder \<Rightarrow> ('p Decoder \<times> DecoderEvent list) res" where
  "finish_packet rnd P d =
     (let (d, events) = drain_to_events d [] in
      and_then (maybe_send_feedback rnd P d events) (\<lambda>(d, events). Ok (check_gap d events)))"

definition handle_source :: "(rat \<Rightarrow> rat) \<Rightarrow> Dispatch \<Rightarrow> 'p FeedbackPolicy \<Rightarrow> 'p Decoder \<Rightarrow> SourcePacket \<Rightarrow>
    ('p Decoder \<times> DecoderEvent list) res" where
  "handle_source rnd disp P d pkt =
     (if length (sp_payload pkt) \<noteq> dc_symbol_size (dec_config d)
      then Err (SymbolSizeMismatch (dc_symbol_size (dec_config d)) (length (sp_payload pkt)))
      else
        let sid = source_symbol_id pkt;
            data = sp_payload pkt;
            d = d\<lparr> loss := on_source (loss d) sid, packets_received := packets_received d + 1,
                   known := bt_or_insert (known d) sid data, dec_buffer := buffer_insert (dec_buffer d) sid data \<rparr> in
        and_then (add_known_source disp (dec_matrix d) sid data (known d)) (\<lambda>(m, recovered).
          let d = foldl absorb_recovered (d\<lparr> dec_matrix := m \<rparr>) recovered
          in finish_packet rnd P d))"

definition handle_coded :: "(rat \<Rightarrow> rat) \<Rightarrow> Dispatch \<Rightarrow> 'p FeedbackPolicy \<Rightarrow> 'p Decoder \<Rightarrow> CodedPacket \<Rightarrow>
    ('p Decoder \<times> DecoderEvent list) res" where
  "handle_coded rnd disp P d pkt =
     (if length (cp_payload pkt) \<noteq> dc_symbol_size (dec_config d)
      then Err (SymbolSizeMismatch (dc_symbol_size (dec_config d)) (length (cp_payload pkt)))
      else
        let d = d\<lparr> loss := on_coded (loss d), packets_received := packets_received d + 1 \<rparr>;
            d = (case ev_source_ids (cp_ev pkt) of
                   first_src # _ \<Rightarrow>
                     if first_src > encoder_win_min d then d\<lparr> encoder_win_min := first_src \<rparr> else d
                 | [] \<Rightarrow> d) in
        and_then (add_coded disp (dec_matrix d) (cp_ev pkt) (cp_payload pkt) (known d)) (\<lambda>(m, recovered).
          let d = foldl absorb_recovered (d\<lparr> dec_matrix := m \<rparr>) recovered
          in finish_packet rnd P d))"

section \<open>No errors from the matrix\<close>

lemma and_then_Err_iff: "(and_then m f = Err e) = (m = Err e \<or> (\<exists>x. m = Ok x \<and> f x = Err e))"
  by (cases m) auto

lemma for_each_no_err: "(\<And>s x e. f s x \<noteq> Err e) \<Longrightarrow> for_each f s xs \<noteq> Err e"
  by (induction xs arbitrary: s) (auto simp: and_then_Err_iff)

lemma mul_acc_field_no_err: "mul_acc_field f disp a b c \<noteq> Err e"
  by (simp add: mul_acc_field_eq)

lemma substitute_rows_no_err: "substitute_rows disp f sid data rows \<noteq> Err e"
  by (induction rows) (auto simp: Let_def mul_acc_field_no_err and_then_Err_iff split: if_splits)

lemma known_loop_no_err: "known_loop disp f rows queue kn rec \<noteq> Err e"
proof (induction disp f rows queue kn rec rule: known_loop.induct)
  case (2 disp f rows sid data queue kn rec)
  show ?case
  proof (cases "substitute_rows disp f sid data rows")
    case (Ok p)
    obtain rows1 ns where p: "p = (rows1, ns)" by fastforce
    obtain rows2 q r where x: "extract_solved ns (bt_insert kn sid data) rows1 queue rec = (rows2, q, r)" by (metis prod_cases3)
    have "known_loop disp f rows2 q (bt_insert kn sid data) r \<noteq> Err e" by (rule 2 [OF Ok p [symmetric] refl x [symmetric] refl refl])
    then show ?thesis by (simp add: known_loop.simps(2) Ok p x)
  qed (simp_all add: known_loop.simps(2) substitute_rows_no_err)
qed simp

lemma add_known_source_no_err: "add_known_source disp m sid data kn \<noteq> Err e"
  by (auto simp: add_known_source_def known_loop_no_err and_then_Err_iff)

lemma row_subtract_scaled_no_err: "row_subtract_scaled disp r q c f \<noteq> Err e"
  by (auto simp: row_subtract_scaled_def dense_subtract_scaled_def Let_def slice_def mul_acc_field_no_err and_then_Err_iff
      split: if_splits)

lemma solve_pass_no_err: "solve_pass disp ps m rec kn \<noteq> Err e"
proof (induction disp ps m rec kn rule: solve_pass.induct)
  case (2 disp pid solved m rec kn)
  show ?case
  proof (cases "bt_get (dm_rows m) pid")
    case None
    with 2 show ?thesis by simp
  next
    case row: (Some row)
    show ?thesis
    proof (cases "is_solved (row_coefs row)")
      case None
      with 2 row show ?thesis by (simp add: Let_def)
    next
      case (Some i)
      with row show ?thesis
        using "2.IH"(3) [OF row refl Some refl refl refl] by (auto simp: Let_def and_then_Err_iff add_known_source_no_err)
    qed
  qed
qed simp

lemma solve_loop_no_err: "solve_loop disp m rec kn \<noteq> Err e"
proof (induction disp m rec kn rule: solve_loop.induct)
  case (1 disp m rec kn)
  then show ?case
    by (subst solve_loop.simps) (auto simp: Let_def solve_pass_no_err split: res.split)
qed

lemma gf_inv_no_err: "v \<noteq> 0 \<Longrightarrow> gf_inv v f \<noteq> Err e"
  by (cases f) (auto simp: gf_inv_def Gf2_8_inv_def Gf2_4_inv_def Let_def and_then_Err_iff)

lemma normalize_no_err: "\<not> is_zero (row_coefs r) \<Longrightarrow> normalize disp r f \<noteq> Err e"
  by (auto simp: normalize_def pivot_coef_def is_zero_def list_all_iff and_then_Err_iff gf_inv_no_err find_None_iff
      find_Some_iff split: option.split)

lemma gf_inv_nonzero: "gf_inv v f = Ok i \<Longrightarrow> i \<noteq> 0 \<and> coef_ok f i"
  by (cases f) (auto simp: gf_inv_def Gf2_8_inv_inverse Gf2_4_inv_inverse coef_ok_def gf8_eq_0_iff [symmetric]
      gf4_eq_0_iff [symmetric] split: if_splits)

lemma byte_mul_nonzero: "gf_inv v f = Ok i \<Longrightarrow> byte_mul f a i = 0 \<Longrightarrow> a = 0"
proof -
  assume i: "gf_inv v f = Ok i" and z: "byte_mul f a i = 0"
  obtain j where "byte_mul f i j = 1" using gf_inv_Ok gf_inv_nonzero [OF i] by metis
  from byte_mul_cancel [OF this, of a 0] z show "a = 0" by simp
qed

lemma pivot_id_None: "pivot_id d = None \<Longrightarrow> is_zero d"
  using find_zip_upt [of 0 "coefs d"]
  by (auto simp: pivot_id_def is_zero_def list_all_iff dropWhile_eq_Nil_conv split: list.splits)

lemma normalize_pivot:
  assumes "normalize disp r f = Ok r'" "\<not> is_zero (row_coefs r)"
  shows "pivot_id (row_coefs r') \<noteq> None"
proof
  assume n: "pivot_id (row_coefs r') = None"
  obtain c where c: "pivot_coef (row_coefs r) = Some c" using assms(1) by (auto simp: normalize_def split: option.splits)
  show False
  proof (cases "c = 1")
    case True
    with c assms n show False by (auto simp: normalize_def dest: pivot_id_None)
  next
    case False
    with c assms(1) obtain i where "gf_inv c f = Ok i" "row_coefs r' = dense_scale disp (row_coefs r) i f"
      by (auto simp: normalize_def)
    with pivot_id_None [OF n] assms(2) show False
      by (auto simp: dense_scale_def mul_scale_field_eq is_zero_def list_all_iff dest: byte_mul_nonzero)
  qed
qed

lemma coef_map_loop_no_err: "coef_map_loop ev i ids cm \<noteq> Err e"
  by (induction ids arbitrary: i cm) (auto simp: and_then_Err_iff index_def split: if_splits)

lemma add_coded_no_err: "add_coded disp m ev payload kn \<noteq> Err e"
proof -
  have 1: "from_map cm \<noteq> Err e" for cm
    unfolding from_map_def Let_def
    by (auto intro!: for_each_no_err simp: and_then_Err_iff set_index_def split: if_splits prod.splits)
  have 2: "substitute_known disp f row ks \<noteq> Err e" for f row ks
    unfolding substitute_known_def
    by (rule for_each_no_err) (auto simp: Let_def and_then_Err_iff mul_acc_field_no_err split: prod.splits if_splits)
  have 3: "forward_eliminate disp m row \<noteq> Err e" for row
    unfolding forward_eliminate_def
    by (rule for_each_no_err) (auto simp: Let_def row_subtract_scaled_no_err split: option.splits if_splits)
  have 4: "back_substitute disp m p row \<noteq> Err e" for p row
    unfolding back_substitute_def
    by (rule for_each_no_err) (auto simp: Let_def and_then_Err_iff row_subtract_scaled_no_err split: option.splits if_splits)
  show ?thesis
    unfolding add_coded_def Let_def
    using 1 2 3 4 normalize_no_err solve_loop_no_err coef_map_loop_no_err
    by (auto simp: and_then_Err_iff split: option.splits if_splits dest: normalize_pivot)
qed

end
