(* ===== verification/Transport.thy ===== *)
theory Transport
  imports Encoder Decoder
begin

text \<open>
  \<^verbatim>\<open>src/transport/\<close>: the sender, the receiver and the session over a UDP socket. The socket
  is outside the repository: it is a parameter, a record of the three calls the code makes on it, each
  passing the state \<open>'n\<close> of the network along. Receiving may fail, and a non-blocking receive may
  find nothing (\<open>WouldBlock\<close>). A loop that runs as long as datagrams arrive is a
  \<open>partial_function\<close>. The hash that makes a receiver id of an address is a parameter, too. An
  error of \<open>submit_source\<close> leaves the sender as it was: its own checks come before any change, and
  under the invariant of the encoder nothing later fails (\<open>submit_source_correct\<close>). Wakers, and
  the accessors of the structs, are left out.
\<close>

datatype 'io TransportError = Codec DelpError | Io 'io

text \<open>\<open>TransportResult\<close>, with panics.\<close>

datatype ('a, 'io) tres = TOk 'a | TErr "'io TransportError" | TPanic

fun lift_codec :: "'a res \<Rightarrow> ('a, 'io) tres" where
  "lift_codec (Ok x) = TOk x"
| "lift_codec (Err e) = TErr (Codec e)"
| "lift_codec Panic = TPanic"

fun t_then :: "('a, 'io) tres \<Rightarrow> ('a \<Rightarrow> ('b, 'io) tres) \<Rightarrow> ('b, 'io) tres" where
  "t_then (TOk x) f = f x"
| "t_then (TErr e) f = TErr e"
| "t_then TPanic f = TPanic"

text \<open>Results of the socket calls: a non-blocking call may find the socket not ready; awaiting a
  datagram has no result (\<open>None\<close>) while none arrives.\<close>

datatype ('a, 'io) io_result = Done 'a | WouldBlock | Failed 'io

record ('n, 'addr, 'io) UdpSocket =
  send_to :: "'n \<Rightarrow> bytes \<Rightarrow> 'addr \<Rightarrow> 'n \<times> (unit + 'io)"
  try_send_to :: "'n \<Rightarrow> bytes \<Rightarrow> 'addr \<Rightarrow> 'n \<times> (unit, 'io) io_result"
  recv_from :: "'n \<Rightarrow> ('n \<times> (bytes \<times> 'addr + 'io)) option"
  try_recv_from :: "'n \<Rightarrow> 'n \<times> (bytes \<times> 'addr, 'io) io_result"

section \<open>The sender\<close>

record ('w, 'c, 'f, 'addr) FecSender =
  tx_encoder :: "('w, 'c, 'f) Encoder"
  tx_remote :: 'addr
  receiver_id :: ReceiverId

definition FecSender_new :: "('addr \<Rightarrow> ReceiverId) \<Rightarrow> ('w, 'c, 'f) Encoder \<Rightarrow> 'addr \<Rightarrow> ('w, 'c, 'f, 'addr) FecSender" where
  "FecSender_new addr_to_receiver_id encoder remote =
     \<lparr> tx_encoder = encoder, tx_remote = remote, receiver_id = addr_to_receiver_id remote \<rparr>"

fun raw_of :: "EncoderOutput \<Rightarrow> bytes" where
  "raw_of (SourceOut b) = b"
| "raw_of (CodedOut b) = b"

text \<open>Sending a batch: the first failure ends it, the packets before it are on the wire.\<close>

fun send_all :: "('n, 'addr, 'io) UdpSocket \<Rightarrow> 'addr \<Rightarrow> 'n \<Rightarrow> EncoderOutput list \<Rightarrow> 'n \<times> (unit, 'io) tres" where
  "send_all U remote net [] = (net, TOk ())"
| "send_all U remote net (pkt # packets) =
     (case send_to U net (raw_of pkt) remote of
        (net, Inr e) \<Rightarrow> (net, TErr (Io e))
      | (net, Inl _) \<Rightarrow> send_all U remote net packets)"

definition send_source :: "('n, 'addr, 'io) UdpSocket \<Rightarrow> Dispatch \<Rightarrow> 'c CongestionControl \<Rightarrow> 'f FecRateController \<Rightarrow>
    ('w, 'c, 'f, 'addr) FecSender \<Rightarrow> 'n \<Rightarrow> bytes \<Rightarrow> ('w, 'c, 'f, 'addr) FecSender \<times> 'n \<times> (unit, 'io) tres" where
  "send_source U disp C F s net data =
     (case submit_source disp C F (tx_encoder s) data of
        Err e \<Rightarrow> (s, net, TErr (Codec e))
      | Panic \<Rightarrow> (s, net, TPanic)
      | Ok (e, packets) \<Rightarrow> (s\<lparr> tx_encoder := e \<rparr>, send_all U (tx_remote s) net packets))"

definition send_coded :: "('n, 'addr, 'io) UdpSocket \<Rightarrow> Dispatch \<Rightarrow> 'c CongestionControl \<Rightarrow>
    ('w, 'c, 'f, 'addr) FecSender \<Rightarrow> 'n \<Rightarrow> ('w, 'c, 'f, 'addr) FecSender \<times> 'n \<times> (bool, 'io) tres" where
  "send_coded U disp C s net =
     (case generate_coded disp C (tx_encoder s) of
        Err e \<Rightarrow> (s, net, TErr (Codec e))
      | Panic \<Rightarrow> (s, net, TPanic)
      | Ok (e, None) \<Rightarrow> (s\<lparr> tx_encoder := e \<rparr>, net, TOk False)
      | Ok (e, Some pkt) \<Rightarrow>
          (case send_to U net (raw_of pkt) (tx_remote s) of
             (net, Inr err) \<Rightarrow> (s\<lparr> tx_encoder := e \<rparr>, net, TErr (Io err))
           | (net, Inl _) \<Rightarrow> (s\<lparr> tx_encoder := e \<rparr>, net, TOk True)))"

text \<open>One feedback datagram; what does not parse is dropped.\<close>

definition take_feedback :: "('addr \<Rightarrow> ReceiverId) \<Rightarrow> 'w WindowPolicy \<Rightarrow> 'c CongestionControl \<Rightarrow> 'f FecRateController \<Rightarrow>
    ('w, 'c, 'f, 'addr) FecSender \<Rightarrow> bytes \<Rightarrow> 'addr \<Rightarrow> (('w, 'c, 'f, 'addr) FecSender \<times> nat) option" where
  "take_feedback addr_to_receiver_id W C F s raw src =
     (case FeedbackPacket_parse raw of
        Ok fp \<Rightarrow> Some (s\<lparr> tx_encoder := handle_feedback W C F (tx_encoder s) (addr_to_receiver_id src) fp \<rparr>, 1)
      | Err _ \<Rightarrow> Some (s, 0)
      | Panic \<Rightarrow> None)"

partial_function (option) recv_feedback_loop :: "('n, 'addr, 'io) UdpSocket \<Rightarrow> ('addr \<Rightarrow> ReceiverId) \<Rightarrow> 'w WindowPolicy \<Rightarrow>
    'c CongestionControl \<Rightarrow> 'f FecRateController \<Rightarrow> ('w, 'c, 'f, 'addr) FecSender \<Rightarrow> 'n \<Rightarrow> nat \<Rightarrow>
    (('w, 'c, 'f, 'addr) FecSender \<times> 'n \<times> (nat, 'io) tres) option" where
  "recv_feedback_loop U addr_to_receiver_id W C F s net count =
     (case try_recv_from U net of
        (net, WouldBlock) \<Rightarrow> Some (s, net, TOk count)
      | (net, Failed e) \<Rightarrow> Some (s, net, TErr (Io e))
      | (net, Done (raw, src)) \<Rightarrow>
          (case take_feedback addr_to_receiver_id W C F s (take 65536 raw) src of
             None \<Rightarrow> Some (s, net, TPanic)
           | Some (s, n) \<Rightarrow> recv_feedback_loop U addr_to_receiver_id W C F s net (count + n)))"

definition recv_feedback :: "('n, 'addr, 'io) UdpSocket \<Rightarrow> ('addr \<Rightarrow> ReceiverId) \<Rightarrow> 'w WindowPolicy \<Rightarrow>
    'c CongestionControl \<Rightarrow> 'f FecRateController \<Rightarrow> ('w, 'c, 'f, 'addr) FecSender \<Rightarrow> 'n \<Rightarrow>
    (('w, 'c, 'f, 'addr) FecSender \<times> 'n \<times> (nat, 'io) tres) option" where
  "recv_feedback U addr_to_receiver_id W C F s net = recv_feedback_loop U addr_to_receiver_id W C F s net 0"

text \<open>The blocking variant awaits one datagram; \<open>None\<close> is a wait that has not ended.\<close>

definition wait_feedback :: "('n, 'addr, 'io) UdpSocket \<Rightarrow> ('addr \<Rightarrow> ReceiverId) \<Rightarrow> 'w WindowPolicy \<Rightarrow>
    'c CongestionControl \<Rightarrow> 'f FecRateController \<Rightarrow> ('w, 'c, 'f, 'addr) FecSender \<Rightarrow> 'n \<Rightarrow>
    (('w, 'c, 'f, 'addr) FecSender \<times> 'n \<times> (unit, 'io) tres) option" where
  "wait_feedback U addr_to_receiver_id W C F s net =
     (case recv_from U net of
        None \<Rightarrow> None
      | Some (net, Inr e) \<Rightarrow> Some (s, net, TErr (Io e))
      | Some (net, Inl (raw, src)) \<Rightarrow>
          (case take_feedback addr_to_receiver_id W C F s (take 65536 raw) src of
             None \<Rightarrow> Some (s, net, TPanic)
           | Some (s, n) \<Rightarrow> Some (s, net, TOk ())))"

text \<open>The \<open>Sink\<close>: packets are queued by \<open>start_send\<close> and sent by \<open>poll_flush\<close>.\<close>

record ('w, 'c, 'f, 'addr) SinkSender =
  sink_inner :: "('w, 'c, 'f, 'addr) FecSender"
  pending :: "bytes list"

datatype ('a, 'io) poll = Ready "('a, 'io) tres" | Pending

definition SinkSender_new :: "('addr \<Rightarrow> ReceiverId) \<Rightarrow> ('w, 'c, 'f) Encoder \<Rightarrow> 'addr \<Rightarrow> ('w, 'c, 'f, 'addr) SinkSender" where
  "SinkSender_new addr_to_receiver_id encoder remote =
     \<lparr> sink_inner = FecSender_new addr_to_receiver_id encoder remote, pending = [] \<rparr>"

definition poll_ready :: "('w, 'c, 'f, 'addr) SinkSender \<Rightarrow> (unit, 'io) poll" where
  "poll_ready s = (if length (pending s) \<ge> 512 then Pending else Ready (TOk ()))"

definition start_send :: "Dispatch \<Rightarrow> 'c CongestionControl \<Rightarrow> 'f FecRateController \<Rightarrow> ('w, 'c, 'f, 'addr) SinkSender \<Rightarrow> bytes \<Rightarrow>
    ('w, 'c, 'f, 'addr) SinkSender \<times> (unit, 'io) tres" where
  "start_send disp C F s data =
     (case submit_source disp C F (tx_encoder (sink_inner s)) data of
        Err e \<Rightarrow> (s, TErr (Codec e))
      | Panic \<Rightarrow> (s, TPanic)
      | Ok (e, packets) \<Rightarrow>
          (s\<lparr> sink_inner := (sink_inner s)\<lparr> tx_encoder := e \<rparr>, pending := pending s @ map raw_of packets \<rparr>, TOk ()))"

fun flush_loop :: "('n, 'addr, 'io) UdpSocket \<Rightarrow> 'addr \<Rightarrow> 'n \<Rightarrow> bytes list \<Rightarrow> 'n \<times> bytes list \<times> (unit, 'io) poll" where
  "flush_loop U remote net [] = (net, [], Ready (TOk ()))"
| "flush_loop U remote net (pkt # pkts) =
     (case try_send_to U net pkt remote of
        (net, Done _) \<Rightarrow> flush_loop U remote net pkts
      | (net, WouldBlock) \<Rightarrow> (net, pkt # pkts, Pending)
      | (net, Failed e) \<Rightarrow> (net, pkt # pkts, Ready (TErr (Io e))))"

definition poll_flush :: "('n, 'addr, 'io) UdpSocket \<Rightarrow> ('w, 'c, 'f, 'addr) SinkSender \<Rightarrow> 'n \<Rightarrow>
    ('w, 'c, 'f, 'addr) SinkSender \<times> 'n \<times> (unit, 'io) poll" where
  "poll_flush U s net =
     (let (net, pkts, r) = flush_loop U (tx_remote (sink_inner s)) net (pending s) in (s\<lparr> pending := pkts \<rparr>, net, r))"

section \<open>The receiver\<close>

record ('p, 'addr) FecReceiver =
  rx_decoder :: "'p Decoder"
  encoder_addr :: 'addr
  ready :: "(SourceSymbolId \<times> bytes) list"

definition FecReceiver_new :: "'p Decoder \<Rightarrow> 'addr \<Rightarrow> ('p, 'addr) FecReceiver" where
  "FecReceiver_new decoder addr = \<lparr> rx_decoder = decoder, encoder_addr = addr, ready = [] \<rparr>"

text \<open>The part that \<open>process_one\<close> and \<open>dispatch_datagram\<close> share: a datagram of unknown form or type
  and a feedback packet are dropped (\<open>None\<close>); an error of the decoder is returned.\<close>

definition decode_datagram :: "(rat \<Rightarrow> rat) \<Rightarrow> Dispatch \<Rightarrow> 'p FeedbackPolicy \<Rightarrow> 'p Decoder \<Rightarrow> bytes \<Rightarrow>
    ('p Decoder \<times> DecoderEvent list) option res" where
  "decode_datagram rnd disp P d raw =
     (case and_then (CommonHeader_parse raw) packet_type of
        Panic \<Rightarrow> Panic
      | Err _ \<Rightarrow> Ok None
      | Ok Source \<Rightarrow>
          (case SourcePacket_parse raw of
             Panic \<Rightarrow> Panic
           | Err _ \<Rightarrow> Ok None
           | Ok sp \<Rightarrow> and_then (handle_source rnd disp P d sp) (\<lambda>r. Ok (Some r)))
      | Ok Coded \<Rightarrow>
          (case CodedPacket_parse raw of
             Panic \<Rightarrow> Panic
           | Err _ \<Rightarrow> Ok None
           | Ok cp \<Rightarrow> and_then (handle_coded rnd disp P d cp) (\<lambda>r. Ok (Some r)))
      | Ok Feedback \<Rightarrow> Ok None)"

text \<open>The loop over the events; \<open>tx\<close> sends feedback, its failures are ignored.\<close>

fun event_loop :: "('n \<Rightarrow> bytes \<Rightarrow> 'addr \<Rightarrow> 'n \<times> 'r) \<Rightarrow> ('p, 'addr) FecReceiver \<Rightarrow> 'n \<Rightarrow> bool \<Rightarrow>
    DecoderEvent list \<Rightarrow> ('p, 'addr) FecReceiver \<times> 'n \<times> bool" where
  "event_loop tx r net became_ready [] = (r, net, became_ready)"
| "event_loop tx r net became_ready (SourceReady i data # evs) =
     event_loop tx (r\<lparr> ready := ready r @ [(i, data)] \<rparr>) net True evs"
| "event_loop tx r net became_ready (SendFeedback raw_fb # evs) =
     event_loop tx r (fst (tx net raw_fb (encoder_addr r))) became_ready evs"
| "event_loop tx r net became_ready (UnrecoverableGap g c # evs) = event_loop tx r net became_ready evs"

text \<open>What one received datagram does. An error of the decoder leaves it as it was: the only error is
  the size check at the start of a handler.\<close>

definition process_datagram :: "('n, 'addr, 'io) UdpSocket \<Rightarrow> (rat \<Rightarrow> rat) \<Rightarrow> Dispatch \<Rightarrow> 'p FeedbackPolicy \<Rightarrow>
    ('p, 'addr) FecReceiver \<Rightarrow> 'n \<Rightarrow> bytes \<Rightarrow> ('p, 'addr) FecReceiver \<times> 'n \<times> (bool, 'io) tres" where
  "process_datagram U rnd disp P r net raw =
     (case decode_datagram rnd disp P (rx_decoder r) raw of
        Panic \<Rightarrow> (r, net, TPanic)
      | Err e \<Rightarrow> (r, net, TErr (Codec e))
      | Ok None \<Rightarrow> (r, net, TOk False)
      | Ok (Some (d, evs)) \<Rightarrow>
          let (r, net, became_ready) = event_loop (send_to U) (r\<lparr> rx_decoder := d \<rparr>) net False evs
          in (r, net, TOk became_ready))"

text \<open>The receive buffer holds 65536 bytes. \<open>None\<close>: still waiting for a datagram.\<close>

definition process_one :: "('n, 'addr, 'io) UdpSocket \<Rightarrow> (rat \<Rightarrow> rat) \<Rightarrow> Dispatch \<Rightarrow> 'p FeedbackPolicy \<Rightarrow>
    ('p, 'addr) FecReceiver \<Rightarrow> 'n \<Rightarrow> (('p, 'addr) FecReceiver \<times> 'n \<times> (bool, 'io) tres) option" where
  "process_one U rnd disp P r net =
     (case recv_from U net of
        None \<Rightarrow> None
      | Some (net, Inr e) \<Rightarrow> Some (r, net, TErr (Io e))
      | Some (net, Inl (raw, src)) \<Rightarrow> Some (process_datagram U rnd disp P r net (take 65536 raw)))"

partial_function (option) recv_source :: "('n, 'addr, 'io) UdpSocket \<Rightarrow> (rat \<Rightarrow> rat) \<Rightarrow> Dispatch \<Rightarrow> 'p FeedbackPolicy \<Rightarrow>
    ('p, 'addr) FecReceiver \<Rightarrow> 'n \<Rightarrow> (('p, 'addr) FecReceiver \<times> 'n \<times> (SourceSymbolId \<times> bytes, 'io) tres) option" where
  "recv_source U rnd disp P r net =
     (case ready r of
        s # rest \<Rightarrow> Some (r\<lparr> ready := rest \<rparr>, net, TOk s)
      | [] \<Rightarrow>
          (case process_one U rnd disp P r net of
             None \<Rightarrow> None
           | Some (r, net, TErr e) \<Rightarrow> Some (r, net, TErr e)
           | Some (r, net, TPanic) \<Rightarrow> Some (r, net, TPanic)
           | Some (r, net, TOk _) \<Rightarrow> recv_source U rnd disp P r net))"

definition try_recv_source :: "('p, 'addr) FecReceiver \<Rightarrow> ('p, 'addr) FecReceiver \<times> (SourceSymbolId \<times> bytes) option" where
  "try_recv_source r = (case ready r of [] \<Rightarrow> (r, None) | s # rest \<Rightarrow> (r\<lparr> ready := rest \<rparr>, Some s))"

definition dispatch_datagram :: "('n, 'addr, 'io) UdpSocket \<Rightarrow> (rat \<Rightarrow> rat) \<Rightarrow> Dispatch \<Rightarrow> 'p FeedbackPolicy \<Rightarrow>
    ('p, 'addr) FecReceiver \<Rightarrow> 'n \<Rightarrow> bytes \<Rightarrow> ('p, 'addr) FecReceiver \<times> 'n \<times> ((SourceSymbolId \<times> bytes) option, 'io) tres" where
  "dispatch_datagram U rnd disp P r net raw =
     (case decode_datagram rnd disp P (rx_decoder r) raw of
        Panic \<Rightarrow> (r, net, TPanic)
      | Err e \<Rightarrow> (r, net, TErr (Codec e))
      | Ok None \<Rightarrow> (r, net, TOk None)
      | Ok (Some (d, evs)) \<Rightarrow>
          let (r, net, _) = event_loop (try_send_to U) (r\<lparr> rx_decoder := d \<rparr>) net False evs;
              (r, s) = try_recv_source r
          in (r, net, TOk s))"

datatype ('a, 'io) stream_poll = Item "('a, 'io) tres" | StreamPending

definition poll_next :: "('n, 'addr, 'io) UdpSocket \<Rightarrow> (rat \<Rightarrow> rat) \<Rightarrow> Dispatch \<Rightarrow> 'p FeedbackPolicy \<Rightarrow>
    ('p, 'addr) FecReceiver \<Rightarrow> 'n \<Rightarrow> ('p, 'addr) FecReceiver \<times> 'n \<times> (SourceSymbolId \<times> bytes, 'io) stream_poll" where
  "poll_next U rnd disp P r net =
     (case try_recv_source r of
        (r, Some s) \<Rightarrow> (r, net, Item (TOk s))
      | (r, None) \<Rightarrow>
          (case try_recv_from U net of
             (net, WouldBlock) \<Rightarrow> (r, net, StreamPending)
           | (net, Failed e) \<Rightarrow> (r, net, Item (TErr (Io e)))
           | (net, Done (raw, src)) \<Rightarrow>
               (case dispatch_datagram U rnd disp P r net (take 65536 raw) of
                  (r, net, TErr e) \<Rightarrow> (r, net, Item (TErr e))
                | (r, net, TPanic) \<Rightarrow> (r, net, Item TPanic)
                | (r, net, TOk (Some s)) \<Rightarrow> (r, net, Item (TOk s))
                | (r, net, TOk None) \<Rightarrow> (r, net, StreamPending))))"

section \<open>Sessions\<close>

record ('w, 'c, 'f, 'p, 'addr) DelpSession =
  session_sender :: "('w, 'c, 'f, 'addr) FecSender"
  session_receiver :: "('p, 'addr) FecReceiver"

definition DelpSession_new :: "('addr \<Rightarrow> ReceiverId) \<Rightarrow> ('w, 'c, 'f) Encoder \<Rightarrow> 'p Decoder \<Rightarrow> 'addr \<Rightarrow>
    ('w, 'c, 'f, 'p, 'addr) DelpSession" where
  "DelpSession_new addr_to_receiver_id encoder decoder remote =
     \<lparr> session_sender = FecSender_new addr_to_receiver_id encoder remote,
       session_receiver = FecReceiver_new decoder remote \<rparr>"

record SessionBuilder =
  sb_symbol_size :: nat
  sb_window_capacity :: nat
  sb_fec_numer :: nat
  sb_fec_denom :: nat
  sb_field :: Field
  sb_strategy :: MatrixStrategy
  sb_backpressure :: BackpressureMode
  sb_feedback_every :: u32

definition SessionBuilder_default :: SessionBuilder where
  "SessionBuilder_default =
     \<lparr> sb_symbol_size = 1024, sb_window_capacity = 32, sb_fec_numer = 1, sb_fec_denom = 4, sb_field = Gf2_8_field,
       sb_strategy = Vandermonde, sb_backpressure = Reject, sb_feedback_every = 8 \<rparr>"

definition SessionBuilder_new :: SessionBuilder where
  "SessionBuilder_new = SessionBuilder_default"

definition sb_with_symbol_size :: "SessionBuilder \<Rightarrow> nat \<Rightarrow> SessionBuilder" where
  "sb_with_symbol_size b v = b\<lparr> sb_symbol_size := v \<rparr>"

definition sb_with_window_capacity :: "SessionBuilder \<Rightarrow> nat \<Rightarrow> SessionBuilder" where
  "sb_with_window_capacity b v = b\<lparr> sb_window_capacity := v \<rparr>"

definition sb_with_fec_rate :: "SessionBuilder \<Rightarrow> nat \<Rightarrow> nat \<Rightarrow> SessionBuilder" where
  "sb_with_fec_rate b numer denom = b\<lparr> sb_fec_numer := numer, sb_fec_denom := denom \<rparr>"

definition sb_with_field :: "SessionBuilder \<Rightarrow> Field \<Rightarrow> SessionBuilder" where
  "sb_with_field b f = b\<lparr> sb_field := f \<rparr>"

definition sb_with_strategy :: "SessionBuilder \<Rightarrow> MatrixStrategy \<Rightarrow> SessionBuilder" where
  "sb_with_strategy b s = b\<lparr> sb_strategy := s \<rparr>"

definition sb_with_feedback_every :: "SessionBuilder \<Rightarrow> u32 \<Rightarrow> SessionBuilder" where
  "sb_with_feedback_every b n = b\<lparr> sb_feedback_every := n \<rparr>"

definition Encoder_with_defaults :: "EncoderConfig \<Rightarrow> (unit, unit, ConstantFec) Encoder res" where
  "Encoder_with_defaults config =
     and_then (ConstantFecRate_new (ec_fec_numer config) (ec_fec_denom config)) (\<lambda>fec.
       Ok (Encoder_new config () () fec))"

text \<open>\<open>build\<close>, with the result of binding the socket as a parameter. The field
  \<open>feedback_every\<close> is not used.\<close>

definition SessionBuilder_build :: "('addr \<Rightarrow> ReceiverId) \<Rightarrow> 's + 'io \<Rightarrow> SessionBuilder \<Rightarrow> 'addr \<Rightarrow>
    ((unit, unit, ConstantFec, ConstantFeedback, 'addr) DelpSession \<times> 's, 'io) tres" where
  "SessionBuilder_build addr_to_receiver_id bound b remote =
     t_then (lift_codec (EncoderConfigBuilder_build
         (with_backpressure (with_matrix_strategy (with_field (with_fec_rate (with_window_capacity
           (EncoderConfigBuilder_new (sb_symbol_size b)) (sb_window_capacity b)) (sb_fec_numer b) (sb_fec_denom b))
           (sb_field b)) (sb_strategy b)) (sb_backpressure b)))) (\<lambda>enc_cfg.
     t_then (lift_codec (DecoderConfigBuilder_build (dec_with_field (DecoderConfigBuilder_new (sb_symbol_size b))
         (sb_field b)))) (\<lambda>dec_cfg.
     t_then (lift_codec (Encoder_with_defaults enc_cfg)) (\<lambda>encoder.
     t_then (lift_codec (Decoder_with_defaults dec_cfg)) (\<lambda>decoder.
     case bound of
       Inr e \<Rightarrow> TErr (Io e)
     | Inl socket \<Rightarrow> TOk (DelpSession_new addr_to_receiver_id encoder decoder remote, socket)))))"

section \<open>Properties\<close>

text \<open>What a drained feedback datagram does to the sender.\<close>

definition feed :: "('addr \<Rightarrow> ReceiverId) \<Rightarrow> 'w WindowPolicy \<Rightarrow> 'c CongestionControl \<Rightarrow> 'f FecRateController \<Rightarrow>
    ('w, 'c, 'f, 'addr) FecSender \<Rightarrow> bytes \<times> 'addr \<Rightarrow> ('w, 'c, 'f, 'addr) FecSender" where
  "feed h W C F s d = (case FeedbackPacket_parse (take 65536 (fst d)) of
     Ok fp \<Rightarrow> s\<lparr> tx_encoder := handle_feedback W C F (tx_encoder s) (h (snd d)) fp \<rparr> | _ \<Rightarrow> s)"

definition parses :: "bytes \<times> 'addr \<Rightarrow> bool" where
  "parses d = (case FeedbackPacket_parse (take 65536 (fst d)) of Ok _ \<Rightarrow> True | _ \<Rightarrow> False)"

lemma take_feedback_feed:
  "take_feedback h W C F s (take 65536 raw) src = Some (feed h W C F s (raw, src), if parses (raw, src) then 1 else 0)"
  using feedback_parse_total [of "take 65536 raw"]
  by (cases "FeedbackPacket_parse (take 65536 raw)") (simp_all add: take_feedback_def feed_def parses_def)

lemma recv_feedback_loop_drains:
  assumes U: "\<And>d q. try_recv_from U (d # q) = (q, Done d)" "try_recv_from U [] = ([], WouldBlock)"
  shows "recv_feedback_loop U h W C F s q n = Some (foldl (feed h W C F) s q, [], TOk (n + length (filter parses q)))"
proof (induction q arbitrary: s n)
  case Nil
  show ?case by (subst recv_feedback_loop.simps) (simp add: U)
next
  case (Cons d q)
  obtain raw src where d: "d = (raw, src)" by fastforce
  show ?case
    by (subst recv_feedback_loop.simps) (simp add: U(1) d take_feedback_feed Cons.IH)
qed

text \<open>C40: draining feedback ends whenever finitely many datagrams are waiting: every one of them that parses
  is handed to the encoder once, in the order of arrival, the others are dropped, and the number of
  those handed over is returned.\<close>

theorem recv_feedback_drains:
  assumes "\<And>d q. try_recv_from U (d # q) = (q, Done d)" "try_recv_from U [] = ([], WouldBlock)"
  shows "recv_feedback U h W C F s q = Some (foldl (feed h W C F) s q, [], TOk (length (filter parses q)))"
  unfolding recv_feedback_def by (simp add: recv_feedback_loop_drains [OF assms])

abbreviation queue_socket :: "((bytes \<times> nat) list, nat, unit) UdpSocket" where
  "queue_socket \<equiv> \<lparr> send_to = (\<lambda>n b a. (n, Inl ())), try_send_to = (\<lambda>n b a. (n, Done ())), recv_from = (\<lambda>n. None),
     try_recv_from = (\<lambda>q. case q of [] \<Rightarrow> ([], WouldBlock) | d # q \<Rightarrow> (q, Done d)) \<rparr>"

theorem recv_feedback_drains_witness:
  "\<forall>s. recv_feedback queue_socket of_nat AnyAckPolicy NoCongestionControl ConstantFecRate s [([1], 7)] = Some (s, [], TOk 0)"
proof
  fix s :: "(unit, unit, ConstantFec, nat) FecSender"
  have "FeedbackPacket_parse (take 65536 [1]) = Err (BufferTooShort 4 1)"
    by (simp add: FeedbackPacket_parse_def CommonHeader_parse_def)
  then show "recv_feedback queue_socket of_nat AnyAckPolicy NoCongestionControl ConstantFecRate s [([1], 7)] = Some (s, [], TOk 0)"
    using recv_feedback_drains [of queue_socket of_nat AnyAckPolicy NoCongestionControl ConstantFecRate s "[([1], 7)]"]
    by (simp add: feed_def parses_def)
qed

lemma flush_loop_fifo:
  "\<exists>sent net' rest r. flush_loop U remote net pkts = (net', rest, r) \<and> pkts = sent @ rest \<and>
     net' = foldl (\<lambda>n p. fst (try_send_to U n p remote)) net (sent @ take 1 rest) \<and> (rest = [] \<longleftrightarrow> r = Ready (TOk ()))"
proof (induction pkts arbitrary: net)
  case (Cons p pkts)
  obtain net1 x where t: "try_send_to U net p remote = (net1, x)" by fastforce
  show ?case
  proof (cases x)
    case (Done u)
    from Cons.IH [of net1] obtain sent net' rest r where
      i: "flush_loop U remote net1 pkts = (net', rest, r)" "pkts = sent @ rest"
        "net' = foldl (\<lambda>n p. fst (try_send_to U n p remote)) net1 (sent @ take 1 rest)" "rest = [] \<longleftrightarrow> r = Ready (TOk ())"
      by blast
    show ?thesis
      by (rule exI [of _ "p # sent"], rule exI [of _ net'], rule exI [of _ rest], rule exI [of _ r]) (use i t Done in simp)
  qed (use t in \<open>auto intro!: exI [of _ "[]"]\<close>)
qed simp

text \<open>The sink keeps the order and loses nothing: flushing sends a prefix of the queue, packet by packet
  in order, and keeps the rest; it is complete exactly when the queue is empty, and a packet whose send
  fails or would block stays at the head.\<close>

lemma sink_flush_fifo:
  "\<exists>sent s' net' r. poll_flush U s net = (s', net', r) \<and> pending s = sent @ pending s' \<and> sink_inner s' = sink_inner s \<and>
     net' = foldl (\<lambda>n p. fst (try_send_to U n p (tx_remote (sink_inner s)))) net (sent @ take 1 (pending s')) \<and>
     (pending s' = [] \<longleftrightarrow> r = Ready (TOk ()))"
proof -
  obtain sent net' rest r where
    f: "flush_loop U (tx_remote (sink_inner s)) net (pending s) = (net', rest, r)" "pending s = sent @ rest"
      "net' = foldl (\<lambda>n p. fst (try_send_to U n p (tx_remote (sink_inner s)))) net (sent @ take 1 rest)"
      "rest = [] \<longleftrightarrow> r = Ready (TOk ())"
    using flush_loop_fifo [of U "tx_remote (sink_inner s)" net "pending s"] by blast
  then show ?thesis
    by (intro exI [of _ sent] exI [of _ "s\<lparr> pending := rest \<rparr>"] exI [of _ net'] exI [of _ r]) (simp add: poll_flush_def)
qed

text \<open>The builder of a session does not use its feedback interval: the policy of the decoder it makes asks
  for feedback every 16 packets whatever was set.\<close>

lemma session_ignores_feedback_every:
  "SessionBuilder_build h bound (sb_with_feedback_every b n) remote = SessionBuilder_build h bound b remote"
  by (simp add: SessionBuilder_build_def sb_with_feedback_every_def)

end
