(* ===== verification/File_Send.thy ===== *)
theory File_Send
  imports Transport
begin

text \<open>
  \<^verbatim>\<open>delp-cli/src/send.rs\<close> and the argument types of \<^verbatim>\<open>delp-cli/src/main.rs\<close>: sending a file.
  Parameters are the socket, the result of reading the file and of binding the socket, the digest
  function of the \<^verbatim>\<open>sha2\<close> crate, the clock that seeds the loss simulation, and the hash of an
  address. What is printed and the pauses between packets are left out.
\<close>

section \<open>Outcomes\<close>

text \<open>The outcome of a call in the command line tool: \<open>anyhow\<close> errors are told apart by their causes.\<close>

datatype 'io CliError =
    Delp DelpError
  | System 'io
  | FecRatio
  | StartTooShort nat
  | MissingMagic
  | MalformedStart
  | UnsupportedStart u8
  | StartTimeout
  | InactivityTimeout
  | MissingSymbol u32
  | DigestMismatch
  | Unsound
  | WindowEmpty nat

datatype ('a, 'e) outcome = Returned 'a | Raised 'e | Panicked

fun from_res :: "'a res \<Rightarrow> ('a, 'io CliError) outcome" where
  "from_res (Ok x) = Returned x"
| "from_res (Err e) = Raised (Delp e)"
| "from_res Panic = Panicked"

fun o_then :: "('a, 'e) outcome \<Rightarrow> ('a \<Rightarrow> ('b, 'e) outcome) \<Rightarrow> ('b, 'e) outcome" where
  "o_then (Returned x) f = f x"
| "o_then (Raised e) f = Raised e"
| "o_then Panicked f = Panicked"

text \<open>Sequencing of steps that have changed a state before they fail.\<close>

fun s_then :: "'s \<times> ('a, 'e) outcome \<Rightarrow> ('s \<Rightarrow> 'a \<Rightarrow> 's \<times> ('b, 'e) outcome) \<Rightarrow> 's \<times> ('b, 'e) outcome" where
  "s_then (s, Returned x) f = f s x"
| "s_then (s, Raised e) f = (s, Raised e)"
| "s_then (s, Panicked) f = (s, Panicked)"

section \<open>Arguments\<close>

datatype Strategy = Strategy_Vandermonde | Strategy_Cauchy

fun into_delp :: "Strategy \<Rightarrow> MatrixStrategy" where
  "into_delp Strategy_Vandermonde = Vandermonde"
| "into_delp Strategy_Cauchy = Cauchy"

datatype AltcMode = Altc_None | Altc_Recent | Altc_PerReceiver

record ('path, 'addr) SendConfig =
  cfg_file :: 'path
  cfg_dest :: 'addr
  cfg_symbol_size :: nat
  cfg_window :: nat
  cfg_fec_n :: nat
  cfg_fec_d :: nat
  cfg_strategy :: Strategy
  cfg_altc :: AltcMode
  cfg_altc_recent :: nat
  cfg_loss_rate :: rat

text \<open>The standard library on strings of one-byte characters: \<open>splitn(2, sep)\<close>, \<open>trim\<close> and the parser
  of \<open>usize\<close>, which allows one plus sign and rejects the empty string, other characters and overflow.\<close>

fun split_once :: "char \<Rightarrow> string \<Rightarrow> string \<times> string option" where
  "split_once sep [] = ([], None)"
| "split_once sep (c # cs) =
     (if c = sep then ([], Some cs) else let (a, b) = split_once sep cs in (c # a, b))"

definition is_space :: "char \<Rightarrow> bool" where
  "is_space c = (of_char c \<in> {9, 10, 11, 12, 13, 32, 133, 160 :: nat})"

definition trim :: "string \<Rightarrow> string" where
  "trim s = rev (dropWhile is_space (rev (dropWhile is_space s)))"

fun parse_digits :: "nat \<Rightarrow> string \<Rightarrow> nat option" where
  "parse_digits acc [] = Some acc"
| "parse_digits acc (c # cs) =
     (let d = of_char c :: nat in
      if d < 48 \<or> 57 < d then None
      else let acc = acc * 10 + (d - 48) in if acc \<ge> 2 ^ 64 then None else parse_digits acc cs)"

definition parse_usize :: "string \<Rightarrow> nat option" where
  "parse_usize s =
     (let s = (case s of c # cs \<Rightarrow> if c = CHR ''+'' then cs else s | [] \<Rightarrow> s)
      in if s = [] then None else parse_digits 0 s)"

definition parse_fec_ratio :: "string \<Rightarrow> (nat \<times> nat, 'io CliError) outcome" where
  "parse_fec_ratio s =
     (let (first, rest) = split_once (CHR '':'') s in
      case parse_usize (trim first) of
        None \<Rightarrow> Raised FecRatio
      | Some n \<Rightarrow>
          (case rest of
             None \<Rightarrow> Raised FecRatio
           | Some second \<Rightarrow>
               (case parse_usize (trim second) of
                  None \<Rightarrow> Raised FecRatio
                | Some d \<Rightarrow> if d = 0 then Raised FecRatio else Returned (n, d))))"

section \<open>Control frames\<close>

abbreviation CTRL_START :: u8 where "CTRL_START \<equiv> 0xFF"
abbreviation CTRL_END :: u8 where "CTRL_END \<equiv> 0xFE"
abbreviation MAGIC :: bytes where "MAGIC \<equiv> [0x44, 0x45, 0x4C, 0x50]"

definition u16_to_be_bytes :: "u16 \<Rightarrow> bytes" where
  "u16_to_be_bytes x = [ucast (drop_bit 8 x), ucast x]"

definition u64_to_be_bytes :: "u64 \<Rightarrow> bytes" where
  "u64_to_be_bytes x = u32_to_be_bytes (ucast (drop_bit 32 x)) @ u32_to_be_bytes (ucast x)"

definition build_start_frame :: "u16 \<Rightarrow> u32 \<Rightarrow> u64 \<Rightarrow> bytes \<Rightarrow> bytes" where
  "build_start_frame symbol_size n_symbols file_size sha256 =
     (let buf = MAGIC @ [1] @ [0] @ u16_to_be_bytes symbol_size;
          buf = buf[3 := CTRL_START]
      in buf @ u32_to_be_bytes n_symbols @ u64_to_be_bytes file_size @ sha256)"

definition build_end_frame :: bytes where
  "build_end_frame = MAGIC[3 := CTRL_END]"

section \<open>Sending\<close>

record 'n SendState =
  snd_net :: 'n
  snd_rng :: u64
  sent_src :: u64
  sent_cod :: u64
  dropped :: u64

text \<open>The closure \<open>should_drop\<close> with its generator; \<open>rnd\<close> rounds the product of two \<open>f64\<close>.\<close>

definition loss_percent :: "(rat \<Rightarrow> rat) \<Rightarrow> rat \<Rightarrow> u32" where
  "loss_percent rnd loss_rate = of_int \<lfloor>rnd (min 1 (max 0 loss_rate) * 100)\<rfloor>"

definition should_drop :: "u32 \<Rightarrow> u64 \<Rightarrow> u64 \<times> bool" where
  "should_drop loss_pct rng =
     (let rng = rng XOR drop_bit 12 rng;
          rng = rng XOR push_bit 25 rng;
          rng = rng XOR drop_bit 27 rng
      in (rng, (ucast (drop_bit 56 (rng * 0x2545F4914F6CDD1D)) :: u32) mod 100 < loss_pct))"

definition send_packet :: "('n, 'addr, 'io) UdpSocket \<Rightarrow> 'addr \<Rightarrow> u32 \<Rightarrow> 'n SendState \<Rightarrow> bytes \<Rightarrow> bool \<Rightarrow>
    'n SendState \<times> (unit, 'io CliError) outcome" where
  "send_packet U dest loss_pct st raw is_source =
     (let (rng, drop_it) = should_drop loss_pct (snd_rng st); st = st\<lparr> snd_rng := rng \<rparr> in
      if drop_it then (st\<lparr> dropped := dropped st + 1 \<rparr>, Returned ())
      else
        (case send_to U (snd_net st) raw dest of
           (net, Inr e) \<Rightarrow> (st\<lparr> snd_net := net \<rparr>, Raised (System e))
         | (net, Inl _) \<Rightarrow>
             let st = st\<lparr> snd_net := net \<rparr>
             in (if is_source then st\<lparr> sent_src := sent_src st + 1 \<rparr> else st\<lparr> sent_cod := sent_cod st + 1 \<rparr>, Returned ())))"

fun send_outputs :: "('n, 'addr, 'io) UdpSocket \<Rightarrow> 'addr \<Rightarrow> u32 \<Rightarrow> 'n SendState \<Rightarrow> EncoderOutput list \<Rightarrow>
    'n SendState \<times> (unit, 'io CliError) outcome" where
  "send_outputs U dest loss_pct st [] = (st, Returned ())"
| "send_outputs U dest loss_pct st (pkt # outputs) =
     s_then (case pkt of SourceOut b \<Rightarrow> send_packet U dest loss_pct st b True
                       | CodedOut b \<Rightarrow> send_packet U dest loss_pct st b False)
       (\<lambda>st _. send_outputs U dest loss_pct st outputs)"

text \<open>One extra coded packet per symbol, by the mode.\<close>

fun altc_packet :: "Dispatch \<Rightarrow> 'c CongestionControl \<Rightarrow> ReceiverId \<Rightarrow> AltcMode \<Rightarrow> nat \<Rightarrow> ('w, 'c, 'f) Encoder \<Rightarrow>
    (('w, 'c, 'f) Encoder \<times> EncoderOutput option) res" where
  "altc_packet disp C rid Altc_None n e = Ok (e, None)"
| "altc_packet disp C rid Altc_Recent n e = generate_coded_recent disp C e n"
| "altc_packet disp C rid Altc_PerReceiver n e = generate_coded_for_receiver disp C e rid"

definition send_extra :: "('n, 'addr, 'io) UdpSocket \<Rightarrow> 'addr \<Rightarrow> u32 \<Rightarrow> 'n SendState \<Rightarrow> EncoderOutput option \<Rightarrow>
    'n SendState \<times> (unit, 'io CliError) outcome" where
  "send_extra U dest loss_pct st r =
     (case r of Some (CodedOut raw) \<Rightarrow> send_packet U dest loss_pct st raw False | _ \<Rightarrow> (st, Returned ()))"

text \<open>The body of the loop over the symbols of the file.\<close>

definition send_symbol :: "('n, 'addr, 'io) UdpSocket \<Rightarrow> Dispatch \<Rightarrow> 'c CongestionControl \<Rightarrow> 'f FecRateController \<Rightarrow>
    ReceiverId \<Rightarrow> ('path, 'addr) SendConfig \<Rightarrow> u32 \<Rightarrow> bytes \<Rightarrow> 'n SendState \<Rightarrow> ('w, 'c, 'f) Encoder \<Rightarrow> nat \<Rightarrow>
    'n SendState \<times> (('w, 'c, 'f) Encoder, 'io CliError) outcome" where
  "send_symbol U disp C F rid cfg loss_pct padded st e i =
     (let off = i * cfg_symbol_size cfg in
      s_then (st, from_res (and_then (slice padded off (off + cfg_symbol_size cfg)) (submit_source disp C F e))) (\<lambda>st (e, outputs).
      s_then (send_outputs U (cfg_dest cfg) loss_pct st outputs) (\<lambda>st _.
      s_then (st, from_res (altc_packet disp C rid (cfg_altc cfg) (cfg_altc_recent cfg) e)) (\<lambda>st (e, r).
      s_then (send_extra U (cfg_dest cfg) loss_pct st r) (\<lambda>st _. (st, Returned e))))))"

fun send_symbols :: "('n, 'addr, 'io) UdpSocket \<Rightarrow> Dispatch \<Rightarrow> 'c CongestionControl \<Rightarrow> 'f FecRateController \<Rightarrow>
    ReceiverId \<Rightarrow> ('path, 'addr) SendConfig \<Rightarrow> u32 \<Rightarrow> bytes \<Rightarrow> 'n SendState \<Rightarrow> ('w, 'c, 'f) Encoder \<Rightarrow> nat list \<Rightarrow>
    'n SendState \<times> (('w, 'c, 'f) Encoder, 'io CliError) outcome" where
  "send_symbols U disp C F rid cfg loss_pct padded st e [] = (st, Returned e)"
| "send_symbols U disp C F rid cfg loss_pct padded st e (i # is) =
     s_then (send_symbol U disp C F rid cfg loss_pct padded st e i) (\<lambda>st e.
       send_symbols U disp C F rid cfg loss_pct padded st e is)"

text \<open>The final batch of coded packets.\<close>

fun tail_flush :: "('n, 'addr, 'io) UdpSocket \<Rightarrow> Dispatch \<Rightarrow> 'c CongestionControl \<Rightarrow> 'addr \<Rightarrow> u32 \<Rightarrow> nat \<Rightarrow>
    'n SendState \<Rightarrow> ('w, 'c, 'f) Encoder \<Rightarrow> 'n SendState \<times> (('w, 'c, 'f) Encoder, 'io CliError) outcome" where
  "tail_flush U disp C dest loss_pct 0 st e = (st, Returned e)"
| "tail_flush U disp C dest loss_pct (Suc k) st e =
     s_then (st, from_res (generate_coded disp C e)) (\<lambda>st (e, r).
       case r of
         Some (CodedOut raw) \<Rightarrow>
           s_then (send_packet U dest loss_pct st raw False) (\<lambda>st _. tail_flush U disp C dest loss_pct k st e)
       | _ \<Rightarrow> (st, Returned e))"

text \<open>The set-up of the encoder.\<close>

definition file_encoder :: "('path, 'addr) SendConfig \<Rightarrow> ((unit, unit, ConstantFec) Encoder, 'io CliError) outcome" where
  "file_encoder cfg =
     o_then (from_res (EncoderConfigBuilder_build (with_backpressure (with_matrix_strategy (with_fec_rate
         (with_window_capacity (EncoderConfigBuilder_new (cfg_symbol_size cfg)) (cfg_window cfg))
         (cfg_fec_n cfg) (cfg_fec_d cfg)) (into_delp (cfg_strategy cfg))) EvictOldest))) (\<lambda>enc_cfg.
     o_then (from_res (ConstantFecRate_new (cfg_fec_n cfg) (cfg_fec_d cfg))) (\<lambda>fec.
       Returned (Encoder_new enc_cfg () () fec)))"

definition initial_rng :: "nat option \<Rightarrow> u64" where
  "initial_rng clock =
     (let rng = (case clock of Some nanos \<Rightarrow> of_nat nanos | None \<Rightarrow> 0x853c49e6748fea9b)
      in if rng = 0 then 0x9E3779B97F4A7C15 else rng)"

text \<open>The number of symbols is \<open>div_ceil\<close>; the last symbol is padded with zeros.\<close>

definition symbol_count :: "nat \<Rightarrow> bytes \<Rightarrow> nat" where
  "symbol_count sz raw = (length raw + sz - 1) div sz"

definition padded_file :: "nat \<Rightarrow> bytes \<Rightarrow> bytes" where
  "padded_file sz raw = raw @ replicate (symbol_count sz raw * sz - length raw) 0"

definition send_run :: "('n, 'addr, 'io) UdpSocket \<Rightarrow> (rat \<Rightarrow> rat) \<Rightarrow> Dispatch \<Rightarrow> (bytes \<Rightarrow> bytes) \<Rightarrow> ('addr \<Rightarrow> ReceiverId) \<Rightarrow>
    ('path \<Rightarrow> bytes + 'io) \<Rightarrow> unit + 'io \<Rightarrow> nat option \<Rightarrow> ('path, 'addr) SendConfig \<Rightarrow> 'n \<Rightarrow>
    'n \<times> (unit, 'io CliError) outcome" where
  "send_run U rnd disp sha receiver_id_from_addr read_file bound clock cfg net =
     (case read_file (cfg_file cfg) of
        Inr e \<Rightarrow> (net, Raised (System e))
      | Inl raw \<Rightarrow>
          let file_size = of_nat (length raw) :: u64; sha256 = sha raw; size = cfg_symbol_size cfg in
          if size = 0 then (net, Panicked)
          else
            let n_symbols = symbol_count size raw;
                rid = receiver_id_from_addr (cfg_dest cfg);
                loss_pct = loss_percent rnd (cfg_loss_rate cfg) in
            s_then (net, file_encoder cfg) (\<lambda>net encoder.
            s_then (net, case bound of Inr e \<Rightarrow> Raised (System e) | Inl _ \<Rightarrow> Returned ()) (\<lambda>net _.
            case send_to U net (build_start_frame (of_nat size) (of_nat n_symbols) file_size sha256) (cfg_dest cfg) of
              (net, Inr e) \<Rightarrow> (net, Raised (System e))
            | (net, Inl _) \<Rightarrow>
                let st = \<lparr> snd_net = net, snd_rng = initial_rng clock, sent_src = 0, sent_cod = 0, dropped = 0 \<rparr>;
                    (st, r) = s_then (send_symbols U disp NoCongestionControl ConstantFecRate rid cfg loss_pct (padded_file size raw) st encoder
                        [0..<n_symbols]) (\<lambda>st e.
                      tail_flush U disp NoCongestionControl (cfg_dest cfg) loss_pct (cfg_window cfg * 2) st e)
                in s_then (snd_net st, r) (\<lambda>net _.
                     case send_to U net build_end_frame (cfg_dest cfg) of
                       (net, Inr e) \<Rightarrow> (net, Raised (System e))
                     | (net, Inl _) \<Rightarrow> (net, Returned ())))))"

end
