(* ===== verification/Gf_Reference.thy ===== *)
theory Gf_Reference
  imports Gf_Field
begin

text \<open>
  The table arithmetic of both fields against its reference: carry-less multiplication reduced by
  the field polynomial, one bit of a factor at a time.
\<close>

lemma alpha8_small_powers: "map (\<lambda>i. (alpha8 ^^ i) 1) [0..<8] = [1, 2, 4, 8, 16, 32, 64, 128]"
  by (simp add: upt_rec funpow_numeral alpha8_norm)

lemma gf8_pw_small: "i < 8 \<Longrightarrow> gf8.pw i = 2 ^ i"
  using arg_cong [OF alpha8_small_powers, of "\<lambda>xs. xs ! i"]
  by (auto simp: gf8.pw_def dest!: nat_less_8_cases)

lemma gf2_8_mul_clmul: "gf2_8_mul_raw a b = clmul alpha8 8 a b"
  unfolding gf2_8_mul_raw_gmul by (rule gf8.gmul_clmul) (simp_all add: gf8_pw_small flip: u8_bit_expansion)

lemma gf4_pw_small: "i < 4 \<Longrightarrow> gf4.pw i = 2 ^ i"
  using arg_cong [OF gf4_powers, of "\<lambda>xs. xs ! i"] nat_less_8_cases [of i]
  by (auto simp: gf4.pw_def)

lemma u8_bit_expansion_4:
  fixes x :: u8
  assumes "x < 16"
  shows "x = xor_sum (\<lambda>i. if bit x i then 2 ^ i else 0) {..<4}"
proof -
  have "xor_sum (\<lambda>i. if bit x i then 2 ^ i else 0 :: u8) {..<8} = xor_sum (\<lambda>i. if bit x i then 2 ^ i else 0) {..<4}"
    by (rule xsum.mono_neutral_right) (auto dest: u8_less_16_bit [OF assms])
  then show ?thesis using u8_bit_expansion [of x] by simp
qed

lemma gf2_4_mul_clmul: "a < 16 \<Longrightarrow> b < 16 \<Longrightarrow> gf2_4_mul_raw a b = clmul gf2_4_exp_step 4 a b"
  unfolding gf2_4_mul_raw_gmul by (rule gf4.gmul_clmul) (simp_all add: gf4_pw_small flip: u8_bit_expansion_4)

text \<open>C37: multiplication in GF(2^8) by the log and exp tables is multiplication of polynomials modulo
  \<open>x^8 + x^4 + x^3 + x^2 + 1\<close>, for all 65536 pairs of bytes.\<close>

theorem gf2_8_mul_correct: "Gf2_8_mul (Gf2_8 a) (Gf2_8 b) = Gf2_8 (clmul alpha8 8 a b)"
  by (simp add: Gf2_8_mul_def gf2_8_mul_clmul)


text \<open>Inversion in either field panics on zero and otherwise returns the element whose product with
  the argument is one.\<close>

lemma gf_inv_correct:
  "(Gf2_8_inv a = Panic) = (gf8_value a = 0) \<and> Gf2_8_inv a \<noteq> Err e \<and> (Gf2_8_inv a = Ok b) = (Gf2_8_mul a b = Gf2_8 1) \<and>
   (Gf2_4_inv c = Panic) = (gf4_value c = 0) \<and> Gf2_4_inv c \<noteq> Err e \<and> (Gf2_4_inv c = Ok d) = (Gf2_4_mul c d = Gf2_4_new 1)"
proof -
  have u: "(x \<noteq> 0 \<and> inverse x = y) = (x * y = 1)" for x y :: "'a::field"
    by (auto simp: inverse_unique)
  have "(Gf2_8_inv a = Ok b) = (a * b = 1)" using u [of a b] by (auto simp: Gf2_8_inv_inverse)
  moreover have "(Gf2_4_inv c = Ok d) = (c * d = 1)" using u [of c d] by (auto simp: Gf2_4_inv_inverse)
  moreover have "Gf2_4_new 1 = 1" by (simp add: gf4_eq_iff)
  ultimately show ?thesis
    by (simp add: Gf2_8_inv_def Gf2_4_inv_def Let_def times_Gf2_8_def one_Gf2_8_def times_Gf2_4_def)
qed

end
