(* ===== verification/Matrix_Correct.thy ===== *)
theory Matrix_Correct
  imports Dec_Matrix Gf_Reference
begin

text \<open>
  Correctness of the decoding matrix. \<open>rows_ok\<close> is reduced row echelon form with the rows keyed
  by their pivots; \<open>sols\<close> is the set of payload assignments that satisfy all rows. Each stage of
  \<open>add_known_source\<close> and \<open>add_coded\<close> is shown to keep both, and what is recovered holds in every
  solution.
\<close>

definition rows_ok :: "Field \<Rightarrow> nat \<Rightarrow> (SourceSymbolId, MatrixRow) btree \<Rightarrow> bool" where
  "rows_ok f L rows = (bt_ok rows \<and> (\<forall>k row. bt_get rows k = Some row \<longrightarrow>
     row_ok f L row \<and> dense_get (row_coefs row) k = 1 \<and>
     (\<forall>j. bt_get rows j \<noteq> None \<longrightarrow> j \<noteq> k \<longrightarrow> dense_get (row_coefs row) j = 0)))"

definition sols :: "Field \<Rightarrow> (SourceSymbolId, MatrixRow) btree \<Rightarrow> (SourceSymbolId \<Rightarrow> bytes) \<Rightarrow> bool" where
  "sols f rows X = (\<forall>k row. bt_get rows k = Some row \<longrightarrow> row_sat f X row)"

definition agrees :: "(SourceSymbolId \<Rightarrow> bytes) \<Rightarrow> (SourceSymbolId \<times> bytes) list \<Rightarrow> bool" where
  "agrees X l = (\<forall>p \<in> set l. X (fst p) = snd p)"

definition sized :: "nat \<Rightarrow> (SourceSymbolId \<Rightarrow> bytes) \<Rightarrow> bool" where
  "sized L X = (\<forall>i. length (X i) = L)"

definition no_singleton :: "(SourceSymbolId, MatrixRow) btree \<Rightarrow> bool" where
  "no_singleton rows = (\<forall>k row. bt_get rows k = Some row \<longrightarrow> is_solved (row_coefs row) = None)"

lemma agrees_simps [simp]:
  "agrees X []" "agrees X (p # l) = (X (fst p) = snd p \<and> agrees X l)"
  "agrees X (l @ l') = (agrees X l \<and> agrees X l')"
  by (auto simp: agrees_def)

lemma rows_okD:
  assumes "rows_ok f L rows" "bt_get rows k = Some row"
  shows "row_ok f L row" "dense_ok (row_coefs row)" "length (row_payload row) = L" "dense_get (row_coefs row) k = 1"
    "\<And>j. bt_get rows j \<noteq> None \<Longrightarrow> j \<noteq> k \<Longrightarrow> dense_get (row_coefs row) j = 0"
  using assms by (simp_all add: rows_ok_def row_ok_def)

text \<open>The pivot of a singleton row is its key.\<close>

lemma solved_is_key:
  "rows_ok f L rows \<Longrightarrow> bt_get rows k = Some row \<Longrightarrow> is_solved (row_coefs row) = Some s \<Longrightarrow> s = k"
  using rows_okD(2,4) [of f L rows k row] by (fastforce simp: is_solved_iff)

lemma singleton_row:
  assumes "rows_ok f L rows" "bt_get rows k = Some row" "is_solved (row_coefs row) = Some s" "sized L X"
  shows "row_sat f X row = (X k = row_payload row)"
proof (rule row_sat_singleton)
  note d = rows_okD [OF assms(1,2)]
  have "s = k" by (rule solved_is_key) fact+
  with assms(3) d(2) show "\<forall>q. q \<noteq> k \<longrightarrow> dense_get (row_coefs row) q = 0" by (simp add: is_solved_iff)
  show "dense_get (row_coefs row) k = 1" "length (X k) = length (row_payload row)"
    using d assms(4) by (simp_all add: sized_def)
qed

lemma rows_ok_remove: "rows_ok f L rows \<Longrightarrow> rows_ok f L (bt_remove rows k)"
  by (auto simp: rows_ok_def bt_ok_remove bt_get_remove split: if_splits)

lemma sols_remove:
  assumes "bt_ok rows" "bt_get rows k = Some row"
  shows "sols f rows X = (row_sat f X row \<and> sols f (bt_remove rows k) X)"
  using assms by (auto simp: sols_def bt_get_remove split: if_splits) (metis option.inject)

lemma rows_ok_empty [simp]: "rows_ok f L []" "sols f [] X"
  by (simp_all add: rows_ok_def sols_def)

section \<open>Substituting a known symbol\<close>

definition subst_row :: "Field \<Rightarrow> SourceSymbolId \<Rightarrow> bytes \<Rightarrow> MatrixRow \<Rightarrow> MatrixRow" where
  "subst_row f sid data row =
     (let c = dense_get (row_coefs row) sid in
      if c = 0 then row
      else \<lparr> row_coefs = dense_remove (row_coefs row) sid,
             row_payload = map2 (\<lambda>d s. d XOR byte_mul f s c) (row_payload row) data \<rparr>)"

definition fresh_solved :: "Field \<Rightarrow> SourceSymbolId \<Rightarrow> bytes \<Rightarrow> (SourceSymbolId, MatrixRow) btree \<Rightarrow> SourceSymbolId list" where
  "fresh_solved f sid data rows = concat (map (\<lambda>(_, row).
     if dense_get (row_coefs row) sid = 0 then []
     else case is_solved (row_coefs (subst_row f sid data row)) of Some s \<Rightarrow> [s] | None \<Rightarrow> []) rows)"

lemma substitute_rows_eq:
  assumes "\<forall>(k, row) \<in> set rows. length (row_payload row) = length data"
  shows "substitute_rows disp f sid data rows =
    Ok (bt_map_values (\<lambda>_. subst_row f sid data) rows, fresh_solved f sid data rows)"
  using assms
proof (induction rows)
  case (Cons p rows)
  obtain k row where p: "p = (k, row)" by (cases p)
  with Cons show ?case
    by (cases "dense_get (row_coefs row) sid = 0")
       (simp_all add: Let_def bt_map_values_def subst_row_def fresh_solved_def mul_acc_field_eq)
qed (simp add: bt_map_values_def fresh_solved_def)

lemma subst_row_get: "dense_get (row_coefs (subst_row f sid data row)) j =
    (if j = sid then 0 else dense_get (row_coefs row) j)"
  by (simp add: subst_row_def Let_def)

lemma subst_row_ok:
  assumes "row_ok f L row" "length data = L"
  shows "row_ok f L (subst_row f sid data row)"
    "X sid = data \<Longrightarrow> row_sat f X (subst_row f sid data row) = row_sat f X row"
proof -
  obtain p where p: "mul_acc_field f Scalar (row_payload row) data (dense_get (row_coefs row) sid) = Ok p"
    "row_ok f L \<lparr> row_coefs = dense_remove (row_coefs row) sid, row_payload = p \<rparr>"
    "\<And>X. X sid = data \<Longrightarrow>
       row_sat f X \<lparr> row_coefs = dense_remove (row_coefs row) sid, row_payload = p \<rparr> = row_sat f X row"
    using row_known_Ok [OF assms] by blast
  have e: "map2 (\<lambda>d s. d XOR byte_mul f s (dense_get (row_coefs row) sid)) (row_payload row) data = p"
    using p(1) by (simp add: mul_acc_field_eq split: if_splits)
  show "row_ok f L (subst_row f sid data row)"
    "X sid = data \<Longrightarrow> row_sat f X (subst_row f sid data row) = row_sat f X row"
    using assms(1) p(2,3) by (simp_all add: subst_row_def Let_def e)
qed

lemma rows_ok_subst:
  assumes "rows_ok f L rows" "length data = L" "bt_get rows sid = None"
  shows "rows_ok f L (bt_map_values (\<lambda>_. subst_row f sid data) rows)"
  unfolding rows_ok_def
proof (intro conjI allI impI)
  show "bt_ok (bt_map_values (\<lambda>_. subst_row f sid data) rows)"
    using assms(1) by (simp add: rows_ok_def bt_ok_map_values)
next
  fix k row assume "bt_get (bt_map_values (\<lambda>_. subst_row f sid data) rows) k = Some row"
  then obtain r where r: "bt_get rows k = Some r" "row = subst_row f sid data r" by (auto simp: bt_get_map_values)
  note d = rows_okD [OF assms(1) r(1)]
  show "row_ok f L row" using subst_row_ok [OF d(1) assms(2)] r by simp
  have "k \<noteq> sid" using r assms(3) by auto
  then show "dense_get (row_coefs row) k = 1" using d r by (simp add: subst_row_get)
  fix j assume "bt_get (bt_map_values (\<lambda>_. subst_row f sid data) rows) j \<noteq> None" "j \<noteq> k"
  then show "dense_get (row_coefs row) j = 0" using d(5) [of j] r by (auto simp: subst_row_get bt_get_map_values)
qed

lemma sols_subst:
  assumes "rows_ok f L rows" "length data = L" "X sid = data"
  shows "sols f (bt_map_values (\<lambda>_. subst_row f sid data) rows) X = sols f rows X"
proof -
  have "row_sat f X (subst_row f sid data r) = row_sat f X r" if "bt_get rows k = Some r" for k r
    using subst_row_ok(2) [OF rows_okD(1) [OF assms(1) that] assms(2)] assms(3) by blast
  then show ?thesis by (fastforce simp: sols_def bt_get_map_values)
qed

text \<open>The freshly solved identifiers are distinct keys of singleton rows.\<close>

lemma fresh_solved_rows:
  assumes "rows_ok f L rows" "length data = L" "bt_get rows sid = None"
  shows "\<forall>s \<in> set (fresh_solved f sid data rows).
      \<exists>row. bt_get (bt_map_values (\<lambda>_. subst_row f sid data) rows) s = Some row \<and> is_solved (row_coefs row) = Some s"
    and "distinct (fresh_solved f sid data rows)"
proof -
  let ?new = "bt_map_values (\<lambda>_. subst_row f sid data) rows"
  note ok = rows_ok_subst [OF assms]
  have bt: "bt_ok rows" using assms(1) by (simp add: rows_ok_def)
  have key: "s = k" if "(k, row) \<in> set rows" "is_solved (row_coefs (subst_row f sid data row)) = Some s" for k row s
  proof (rule solved_is_key [OF ok])
    show "bt_get ?new k = Some (subst_row f sid data row)"
      using bt_mem_get [OF bt that(1)] by (simp add: bt_get_map_values)
  qed (rule that(2))
  show "\<forall>s \<in> set (fresh_solved f sid data rows).
      \<exists>row. bt_get ?new s = Some row \<and> is_solved (row_coefs row) = Some s"
  proof
    fix s assume "s \<in> set (fresh_solved f sid data rows)"
    then obtain k row where kr: "(k, row) \<in> set rows" "is_solved (row_coefs (subst_row f sid data row)) = Some s"
      by (auto simp: fresh_solved_def split: if_splits option.splits)
    from key [OF kr] kr show "\<exists>row. bt_get ?new s = Some row \<and> is_solved (row_coefs row) = Some s"
      using bt_mem_get [OF bt kr(1)] by (auto simp: bt_get_map_values)
  qed
  have "distinct (fresh_solved f sid data l)" if "set l \<subseteq> set rows" "distinct (map fst l)" for l
    using that
  proof (induction l)
    case (Cons p l)
    obtain k row where p: "p = (k, row)" by (cases p)
    have "s \<noteq> k" if "s \<in> set (fresh_solved f sid data l)" for s
    proof -
      from that obtain k' row' where kr: "(k', row') \<in> set l" "is_solved (row_coefs (subst_row f sid data row')) = Some s"
        by (auto simp: fresh_solved_def split: if_splits option.splits)
      have "s = k'" using key [OF _ kr(2)] kr(1) Cons.prems(1) by auto
      with kr(1) Cons.prems(2) p show ?thesis by force
    qed
    moreover have "distinct (fresh_solved f sid data l)" using Cons by simp
    moreover have "fresh_solved f sid data (p # l) = fresh_solved f sid data [p] @ fresh_solved f sid data l"
      by (simp add: fresh_solved_def)
    moreover have "set (fresh_solved f sid data [p]) \<subseteq> {k}" "distinct (fresh_solved f sid data [p])"
      using key [of k row] Cons.prems(1) p by (auto simp: fresh_solved_def split: option.splits)
    ultimately show ?case by auto
  qed (simp add: fresh_solved_def)
  then show "distinct (fresh_solved f sid data rows)"
    using bt.keys_distinct [OF bt] by (simp add: bt_keys_def)
qed

section \<open>Taking the solved rows out\<close>

text \<open>The pairs that leave the matrix for a list of solved identifiers.\<close>

definition out_pairs :: "(SourceSymbolId, MatrixRow) btree \<Rightarrow> SourceSymbolId list \<Rightarrow> recovered" where
  "out_pairs rows ns = map (\<lambda>s. (s, case bt_get rows s of Some row \<Rightarrow> row_payload row | None \<Rightarrow> [])) ns"

lemma out_pairs_remove: "s \<notin> set ns \<Longrightarrow> bt_ok rows \<Longrightarrow> out_pairs (bt_remove rows s) ns = out_pairs rows ns"
  by (auto simp: out_pairs_def bt_get_remove)

lemma extract_solved_eq:
  assumes "rows_ok f L rows" "distinct ns"
    and "\<forall>s \<in> set ns. \<exists>row. bt_get rows s = Some row \<and> is_solved (row_coefs row) = Some s"
    and "extract_solved ns known rows queue rec = (rows', queue', rec')"
  shows "rec' = rec @ out_pairs rows ns \<and>
    queue' = queue @ filter (\<lambda>p. \<not> bt_contains_key known (fst p)) (out_pairs rows ns) \<and>
    rows_ok f L rows' \<and> (\<forall>k. bt_get rows' k = (if k \<in> set ns then None else bt_get rows k)) \<and>
    (\<forall>X. sized L X \<longrightarrow> sols f rows X = (agrees X (out_pairs rows ns) \<and> sols f rows' X))"
  using assms
proof (induction ns arbitrary: rows queue rec)
  case Nil
  then show ?case by (simp add: out_pairs_def)
next
  case (Cons s ns)
  note ok = Cons.prems(1) and dist = Cons.prems(2) and sol = Cons.prems(3)
  from sol obtain row where row: "bt_get rows s = Some row" "is_solved (row_coefs row) = Some s" by auto
  have bt: "bt_ok rows" using ok by (simp add: rows_ok_def)
  let ?rows = "bt_remove rows s" and ?queue = "if bt_contains_key known s then queue else queue @ [(s, row_payload row)]"
  let ?rec = "rec @ [(s, row_payload row)]"
  have sol': "\<forall>t \<in> set ns. \<exists>row. bt_get ?rows t = Some row \<and> is_solved (row_coefs row) = Some t"
    using sol dist bt by (auto simp: bt_get_remove)
  have ex': "extract_solved ns known ?rows ?queue ?rec = (rows', queue', rec')" using Cons.prems(4) row by simp
  have "distinct ns" using dist by simp
  note IH = Cons.IH [OF rows_ok_remove [OF ok] this sol' ex']
  have pairs: "out_pairs rows (s # ns) = (s, row_payload row) # out_pairs ?rows ns"
    using dist bt row by (simp add: out_pairs_remove) (simp add: out_pairs_def)
  have "sols f rows X = (X s = row_payload row \<and> sols f ?rows X)" if "sized L X" for X
    using sols_remove [OF bt row(1)] singleton_row [OF ok row that] by simp
  with IH show ?case using dist bt by (auto simp: pairs bt_get_remove)
qed

section \<open>The work queue\<close>

lemma no_singleton_step:
  assumes "rows_ok f L rows" "length data = L" "bt_get rows sid = None" "no_singleton rows"
    and get: "\<forall>k. bt_get rows' k = (if k \<in> set (fresh_solved f sid data rows) then None
      else bt_get (bt_map_values (\<lambda>_. subst_row f sid data) rows) k)"
  shows "no_singleton rows'"
  unfolding no_singleton_def
proof (intro allI impI)
  fix k row assume row: "bt_get rows' k = Some row"
  then obtain r where r: "bt_get rows k = Some r" "row = subst_row f sid data r"
      "k \<notin> set (fresh_solved f sid data rows)"
    using get by (auto simp: bt_get_map_values split: if_splits)
  have unsolved: "is_solved (row_coefs r) = None" using assms(4) r by (simp add: no_singleton_def)
  show "is_solved (row_coefs row) = None"
  proof (rule ccontr)
    assume "is_solved (row_coefs row) \<noteq> None"
    then obtain s where s: "is_solved (row_coefs row) = Some s" by auto
    have c: "dense_get (row_coefs r) sid \<noteq> 0" using unsolved s r(2) by (auto simp: subst_row_def)
    have "s = k"
      using solved_is_key [OF rows_ok_subst [OF assms(1-3)]] r s by (simp add: bt_get_map_values)
    moreover have "(k, r) \<in> set rows" using r(1) by (rule bt_get_Some_mem)
    ultimately have "k \<in> set (fresh_solved f sid data rows)"
      using s c r(2) by (force simp: fresh_solved_def)
    with r(3) show False by simp
  qed
qed

lemma singleton_subst:
  assumes "rows_ok f L rows" "bt_get rows sid = None" "bt_get rows k = Some row" "is_solved (row_coefs row) \<noteq> None"
  shows "subst_row f sid data row = row"
proof -
  obtain s where s: "is_solved (row_coefs row) = Some s" using assms(4) by auto
  have "s = k" by (rule solved_is_key [OF assms(1,3) s])
  moreover have "sid \<noteq> k" using assms(2,3) by auto
  ultimately have "dense_get (row_coefs row) sid = 0"
    using s rows_okD(2) [OF assms(1,3)] by (simp add: is_solved_iff)
  then show ?thesis by (simp add: subst_row_def)
qed

lemma out_pairs_props:
  assumes "rows_ok f L rows" "\<forall>s \<in> set ns. bt_get rows s \<noteq> None"
  shows "\<forall>p \<in> set (out_pairs rows ns). bt_get rows (fst p) \<noteq> None \<and> length (snd p) = L"
    "map fst (out_pairs rows ns) = ns"
  using assms rows_okD(3) [OF assms(1)] by (auto simp: out_pairs_def comp_def)

lemma known_loop_ok:
  assumes "rows_ok f L rows" "\<forall>p \<in> set queue. bt_get rows (fst p) = None \<and> length (snd p) = L"
  shows "\<exists>rows' new. known_loop disp f rows queue known rec = Ok (rows', rec @ new) \<and> rows_ok f L rows' \<and>
    (\<forall>k. bt_get rows k = None \<longrightarrow> bt_get rows' k = None) \<and>
    (\<forall>X. sized L X \<longrightarrow> agrees X queue \<longrightarrow> sols f rows X = (agrees X new \<and> sols f rows' X)) \<and>
    (no_singleton rows \<longrightarrow> no_singleton rows') \<and>
    (\<forall>p \<in> set new. bt_get rows (fst p) \<noteq> None \<and> bt_get rows' (fst p) = None \<and> length (snd p) = L) \<and>
    distinct (map fst new) \<and>
    (\<forall>k row. bt_get rows k = Some row \<longrightarrow> is_solved (row_coefs row) \<noteq> None \<longrightarrow>
       bt_get rows' k = None \<or> bt_get rows' k = Some row)"
  using assms
proof (induction disp f rows queue known rec rule: known_loop.induct)
  case (1 disp f rows known rec)
  then show ?case by (intro exI [of _ rows] exI [of _ "[]"]) simp
next
  case (2 disp f rows sid data queue known rec)
  have ok: "rows_ok f L rows" and new: "bt_get rows sid = None" "length data = L" using 2 by simp_all
  let ?rows1 = "bt_map_values (\<lambda>_. subst_row f sid data) rows" and ?ns = "fresh_solved f sid data rows"
  let ?known = "bt_insert known sid data"
  have "\<forall>(k, row) \<in> set rows. length (row_payload row) = length data"
    using rows_okD(3) [OF ok] bt_mem_get ok new(2) by (fastforce simp: rows_ok_def)
  then have sub: "substitute_rows disp f sid data rows = Ok (?rows1, ?ns)" by (rule substitute_rows_eq)
  obtain rows2 queue2 rec2 where ex: "extract_solved ?ns ?known ?rows1 queue rec = (rows2, queue2, rec2)"
    by (metis prod_cases3)
  note ok1 = rows_ok_subst [OF ok new(2,1)]
  note fresh = fresh_solved_rows [OF ok new(2,1)]
  note E = extract_solved_eq [OF ok1 fresh(2,1) ex]
  let ?p = "out_pairs ?rows1 ?ns"
  have in_rows1: "\<forall>s \<in> set ?ns. bt_get ?rows1 s \<noteq> None" using fresh(1) by auto
  note P = out_pairs_props [OF ok1 in_rows1]
  have keys1: "bt_get ?rows1 k = None \<longleftrightarrow> bt_get rows k = None" for k by (simp add: bt_get_map_values)
  have keys2: "bt_get rows2 k = None" if "bt_get rows k = None" for k using that E keys1 by simp
  have q2: "\<forall>p \<in> set queue2. bt_get rows2 (fst p) = None \<and> length (snd p) = L"
  proof
    fix p assume "p \<in> set queue2"
    then consider "p \<in> set queue" | "p \<in> set ?p" using E by auto
    then show "bt_get rows2 (fst p) = None \<and> length (snd p) = L"
    proof cases
      case 1 then show ?thesis using "2.prems"(2) keys2 by simp
    next
      case 2
      then have "fst p \<in> set ?ns" using P(2) by (metis image_eqI list.set_map)
      with 2 P(1) E show ?thesis by simp
    qed
  qed
  have "\<exists>rows' new. known_loop disp f rows2 queue2 ?known rec2 = Ok (rows', rec2 @ new) \<and> rows_ok f L rows' \<and>
    (\<forall>k. bt_get rows2 k = None \<longrightarrow> bt_get rows' k = None) \<and>
    (\<forall>X. sized L X \<longrightarrow> agrees X queue2 \<longrightarrow> sols f rows2 X = (agrees X new \<and> sols f rows' X)) \<and>
    (no_singleton rows2 \<longrightarrow> no_singleton rows') \<and>
    (\<forall>p \<in> set new. bt_get rows2 (fst p) \<noteq> None \<and> bt_get rows' (fst p) = None \<and> length (snd p) = L) \<and>
    distinct (map fst new) \<and>
    (\<forall>k row. bt_get rows2 k = Some row \<longrightarrow> is_solved (row_coefs row) \<noteq> None \<longrightarrow>
       bt_get rows' k = None \<or> bt_get rows' k = Some row)"
    by (rule "2.IH" [OF sub refl refl ex [symmetric] refl refl _ q2]) (use E in simp)
  then obtain rows' new' where N: "known_loop disp f rows2 queue2 ?known rec2 = Ok (rows', rec2 @ new')" "rows_ok f L rows'"
    "\<forall>k. bt_get rows2 k = None \<longrightarrow> bt_get rows' k = None"
    "\<forall>X. sized L X \<longrightarrow> agrees X queue2 \<longrightarrow> sols f rows2 X = (agrees X new' \<and> sols f rows' X)"
    "no_singleton rows2 \<longrightarrow> no_singleton rows'"
    "\<forall>p \<in> set new'. bt_get rows2 (fst p) \<noteq> None \<and> bt_get rows' (fst p) = None \<and> length (snd p) = L"
    "distinct (map fst new')"
    "\<forall>k row. bt_get rows2 k = Some row \<longrightarrow> is_solved (row_coefs row) \<noteq> None \<longrightarrow>
       bt_get rows' k = None \<or> bt_get rows' k = Some row" by blast
  show ?case
  proof (intro exI [of _ rows'] exI [of _ "?p @ new'"] conjI)
    show "known_loop disp f rows ((sid, data) # queue) known rec = Ok (rows', rec @ ?p @ new')"
      using sub ex N(1) E by (simp add: known_loop.simps(2))
    show "rows_ok f L rows'" by (rule N)
    show "\<forall>k. bt_get rows k = None \<longrightarrow> bt_get rows' k = None" using keys2 N(3) by blast
    show "\<forall>X. sized L X \<longrightarrow> agrees X ((sid, data) # queue) \<longrightarrow>
        sols f rows X = (agrees X (?p @ new') \<and> sols f rows' X)"
    proof (intro allI impI)
      fix X assume X: "sized L X" "agrees X ((sid, data) # queue)"
      have "sols f rows X = (agrees X ?p \<and> sols f rows2 X)"
        using sols_subst [OF ok new(2), of X sid] X E by auto
      moreover have "agrees X queue2" if "agrees X ?p"
        using that X E by (auto simp: agrees_def)
      ultimately show "sols f rows X = (agrees X (?p @ new') \<and> sols f rows' X)" using N(4) X(1) by auto
    qed
    show "no_singleton rows \<longrightarrow> no_singleton rows'"
      using no_singleton_step [OF ok new(2,1)] E N(5) by blast
    show "\<forall>p \<in> set (?p @ new'). bt_get rows (fst p) \<noteq> None \<and> bt_get rows' (fst p) = None \<and> length (snd p) = L"
    proof
      fix p assume "p \<in> set (?p @ new')"
      then consider "p \<in> set ?p" | "p \<in> set new'" by auto
      then show "bt_get rows (fst p) \<noteq> None \<and> bt_get rows' (fst p) = None \<and> length (snd p) = L"
      proof cases
        case 1
        then have "fst p \<in> set ?ns" using P(2) by (metis image_eqI list.set_map)
        with 1 P(1) E N(3) keys1 show ?thesis by simp
      next
        case 2 with N(6) keys2 show ?thesis by blast
      qed
    qed
    have "fst p \<notin> set ?ns" if "p \<in> set new'" for p using N(6) that E by auto
    then show "distinct (map fst (?p @ new'))" using P(2) fresh(2) N(7) by auto
    show "\<forall>k row. bt_get rows k = Some row \<longrightarrow> is_solved (row_coefs row) \<noteq> None \<longrightarrow>
        bt_get rows' k = None \<or> bt_get rows' k = Some row"
    proof (intro allI impI)
      fix k row assume k: "bt_get rows k = Some row" "is_solved (row_coefs row) \<noteq> None"
      have "bt_get ?rows1 k = Some row"
        using k singleton_subst [OF ok new(1) k] by (simp add: bt_get_map_values)
      then have "bt_get rows2 k = None \<or> bt_get rows2 k = Some row" using E by simp
      then show "bt_get rows' k = None \<or> bt_get rows' k = Some row" using N(3,8) k(2) by blast
    qed
  qed
qed

section \<open>Elimination\<close>

lemma byte_mul_one_left: "coef_ok f c \<Longrightarrow> byte_mul f 1 c = c"
proof (cases f)
  case Gf2_8_field
  then show ?thesis using gf8.gmul_one [of c] by (simp add: gf2_8_mul_raw_gmul)
next
  case Gf2_4_field
  assume "coef_ok f c"
  then have "c < 16" using Gf2_4_field by (simp add: coef_ok_def)
  moreover from this have "gf2_4_mul_raw 1 c = c" using gf4.gmul_one [of c] by (simp add: gf2_4_mul_raw_gmul)
  ultimately show ?thesis using Gf2_4_field by (simp add: gf2_4_byte_mul_eq)
qed

lemma eliminate_keys:
  assumes "rows_ok f L (dm_rows m)" "dm_field m = f" "row_ok f L row"
    and "set ks \<subseteq> set (bt_keys (dm_rows m))" "distinct ks"
  shows "\<exists>row'. for_each (\<lambda>row pid. let c = dense_get (row_coefs row) pid in
       if c = 0 then Ok row
       else case bt_get (dm_rows m) pid of None \<Rightarrow> Panic
            | Some existing \<Rightarrow> row_subtract_scaled disp row existing c (dm_field m)) row ks = Ok row' \<and>
    row_ok f L row' \<and>
    (\<forall>k. bt_get (dm_rows m) k \<noteq> None \<longrightarrow> dense_get (row_coefs row') k =
       (if k \<in> set ks then 0 else dense_get (row_coefs row) k)) \<and>
    (\<forall>X. sols f (dm_rows m) X \<longrightarrow> row_sat f X row' = row_sat f X row)"
  using assms
proof (induction ks arbitrary: row)
  case (Cons pid ks)
  let ?c = "dense_get (row_coefs row) pid"
  have "pid \<in> set (bt_keys (dm_rows m))" using Cons.prems(4) by simp
  then obtain ex where ex: "bt_get (dm_rows m) pid = Some ex"
    using bt_get_None_iff [of "dm_rows m" pid] by (cases "bt_get (dm_rows m) pid") auto
  note d = rows_okD [OF Cons.prems(1) ex]
  obtain row1 where r1: "(if ?c = 0 then Ok row else row_subtract_scaled disp row ex ?c f) = Ok row1" "row_ok f L row1"
    "\<And>i. dense_get (row_coefs row1) i = dense_get (row_coefs row) i XOR byte_mul f (dense_get (row_coefs ex) i) ?c"
    "\<And>X. row_sat f X ex \<Longrightarrow> row_sat f X row1 = row_sat f X row"
  proof (cases "?c = 0")
    case True with Cons.prems(3) show ?thesis by (intro that [of row]) simp_all
  next
    case False
    obtain r' where "row_subtract_scaled disp row ex ?c f = Ok r'" "row_ok f L r'"
      "\<And>i. dense_get (row_coefs r') i = dense_get (row_coefs row) i XOR byte_mul f (dense_get (row_coefs ex) i) ?c"
      "\<And>X. row_sat f X ex \<Longrightarrow> row_sat f X r' = row_sat f X row"
      using row_subtract_scaled_Ok [OF Cons.prems(3) d(1)] by blast
    with False show ?thesis by (intro that [of r']) simp_all
  qed
  have "coef_ok f ?c" using Cons.prems(3) by (simp add: row_ok_def)
  then have at_pid: "dense_get (row_coefs row1) pid = 0" by (simp add: r1(3) d(4) byte_mul_one_left)
  have other: "dense_get (row_coefs row1) k = dense_get (row_coefs row) k"
    if "bt_get (dm_rows m) k \<noteq> None" "k \<noteq> pid" for k using d(5) [OF that] by (simp add: r1(3))
  let ?body = "\<lambda>row pid. let c = dense_get (row_coefs row) pid in
       if c = 0 then Ok row
       else case bt_get (dm_rows m) pid of None \<Rightarrow> Panic
            | Some existing \<Rightarrow> row_subtract_scaled disp row existing c (dm_field m)"
  obtain row' where N: "for_each ?body row1 ks = Ok row'"
    "row_ok f L row'"
    "\<forall>k. bt_get (dm_rows m) k \<noteq> None \<longrightarrow> dense_get (row_coefs row') k =
       (if k \<in> set ks then 0 else dense_get (row_coefs row1) k)"
    "\<forall>X. sols f (dm_rows m) X \<longrightarrow> row_sat f X row' = row_sat f X row1"
    using Cons.IH [OF Cons.prems(1,2) r1(2)] Cons.prems(4,5) by auto
  show ?case
  proof (intro exI [of _ row'] conjI allI impI)
    show "for_each ?body row (pid # ks) = Ok row'"
      using r1(1) ex Cons.prems(2) N(1) by (cases "?c = 0") simp_all
    show "row_ok f L row'" by (rule N)
    fix k assume "bt_get (dm_rows m) k \<noteq> None"
    then show "dense_get (row_coefs row') k = (if k \<in> set (pid # ks) then 0 else dense_get (row_coefs row) k)"
      using N(3) at_pid other [of k] by (cases "k = pid") simp_all
  next
    fix X assume "sols f (dm_rows m) X"
    then show "row_sat f X row' = row_sat f X row"
      using r1(4) [of X] N(4) ex by (simp add: sols_def)
  qed
qed (auto intro: exI [of _ row])

lemma forward_eliminate_ok:
  assumes "rows_ok f L (dm_rows m)" "dm_field m = f" "row_ok f L row"
  obtains row' where "forward_eliminate disp m row = Ok row'" "row_ok f L row'"
    "\<And>k. bt_get (dm_rows m) k \<noteq> None \<Longrightarrow> dense_get (row_coefs row') k = 0"
    "\<And>X. sols f (dm_rows m) X \<Longrightarrow> row_sat f X row' = row_sat f X row"
proof -
  have "bt_ok (dm_rows m)" using assms(1) by (simp add: rows_ok_def)
  then have "distinct (bt_keys (dm_rows m))" by (rule bt.keys_distinct)
  from eliminate_keys [OF assms order_refl this, of disp] show ?thesis
    using that bt_get_None_iff [of "dm_rows m"] unfolding forward_eliminate_def by auto
qed

definition updated_row :: "Field \<Rightarrow> nat \<Rightarrow> SourceSymbolId \<Rightarrow> MatrixRow \<Rightarrow> MatrixRow \<Rightarrow> MatrixRow \<Rightarrow> bool" where
  "updated_row f L p new row row' = (row_ok f L row' \<and>
     (\<forall>i. dense_get (row_coefs row') i =
        dense_get (row_coefs row) i XOR byte_mul f (dense_get (row_coefs new) i) (dense_get (row_coefs row) p)) \<and>
     (\<forall>X. row_sat f X new \<longrightarrow> row_sat f X row' = row_sat f X row))"

lemma back_keys:
  assumes "bt_ok (dm_rows m)" "\<forall>k row. bt_get (dm_rows m) k = Some row \<longrightarrow> row_ok f L row"
    and "dm_field m = f" "row_ok f L new" "set ks \<subseteq> set (bt_keys (dm_rows m))" "distinct ks"
  shows "\<exists>rows'. for_each (\<lambda>m pid. case bt_get (dm_rows m) pid of None \<Rightarrow> Panic
       | Some row \<Rightarrow> let c = dense_get (row_coefs row) p in
           if c = 0 then Ok m
           else and_then (row_subtract_scaled disp row new c (dm_field m)) (\<lambda>row.
             Ok (m\<lparr> dm_rows := bt_insert (dm_rows m) pid row \<rparr>))) m ks = Ok (m\<lparr> dm_rows := rows' \<rparr>) \<and>
    bt_ok rows' \<and> (\<forall>k \<in> set ks. \<exists>row row'. bt_get (dm_rows m) k = Some row \<and> bt_get rows' k = Some row' \<and>
      updated_row f L p new row row') \<and> (\<forall>k. k \<notin> set ks \<longrightarrow> bt_get rows' k = bt_get (dm_rows m) k)"
  using assms
proof (induction ks arbitrary: m)
  case Nil
  then show ?case by (intro exI [of _ "dm_rows m"]) simp
next
  case (Cons pid ks)
  let ?body = "\<lambda>m pid. case bt_get (dm_rows m) pid of None \<Rightarrow> Panic
       | Some row \<Rightarrow> let c = dense_get (row_coefs row) p in
           if c = 0 then Ok m
           else and_then (row_subtract_scaled disp row new c (dm_field m)) (\<lambda>row.
             Ok (m\<lparr> dm_rows := bt_insert (dm_rows m) pid row \<rparr>))"
  have "pid \<in> set (bt_keys (dm_rows m))" using Cons.prems(5) by simp
  then obtain row where row: "bt_get (dm_rows m) pid = Some row"
    using bt_get_None_iff [of "dm_rows m" pid] by (cases "bt_get (dm_rows m) pid") auto
  have rok: "row_ok f L row" using Cons.prems(2) row by blast
  obtain rows1 row1 where r1: "?body m pid = Ok (m\<lparr> dm_rows := rows1 \<rparr>)" "updated_row f L p new row row1"
    "bt_ok rows1" "\<forall>k. bt_get rows1 k = (if k = pid then Some row1 else bt_get (dm_rows m) k)"
  proof (cases "dense_get (row_coefs row) p = 0")
    case True
    with row rok Cons.prems(1) show ?thesis
      by (intro that [of "dm_rows m" row]) (simp_all add: updated_row_def)
  next
    case False
    obtain r' where "row_subtract_scaled disp row new (dense_get (row_coefs row) p) f = Ok r'" "row_ok f L r'"
      "\<And>i. dense_get (row_coefs r') i =
         dense_get (row_coefs row) i XOR byte_mul f (dense_get (row_coefs new) i) (dense_get (row_coefs row) p)"
      "\<And>X. row_sat f X new \<Longrightarrow> row_sat f X r' = row_sat f X row"
      using row_subtract_scaled_Ok [OF rok Cons.prems(4)] by blast
    with False row Cons.prems(1,3) show ?thesis
      by (intro that [of "bt_insert (dm_rows m) pid r'" r']) (simp_all add: updated_row_def btree_simps)
  qed
  let ?m1 = "m\<lparr> dm_rows := rows1 \<rparr>"
  have keys: "set (bt_keys rows1) = set (bt_keys (dm_rows m))"
  proof -
    have "(bt_get rows1 k = None) = (bt_get (dm_rows m) k = None)" for k using r1(4) row by simp
    then show ?thesis using bt_get_None_iff [of rows1] bt_get_None_iff [of "dm_rows m"] by blast
  qed
  have "\<exists>rows'. for_each ?body ?m1 ks = Ok (?m1\<lparr> dm_rows := rows' \<rparr>) \<and> bt_ok rows' \<and>
    (\<forall>k \<in> set ks. \<exists>row row'. bt_get (dm_rows ?m1) k = Some row \<and> bt_get rows' k = Some row' \<and>
      updated_row f L p new row row') \<and> (\<forall>k. k \<notin> set ks \<longrightarrow> bt_get rows' k = bt_get (dm_rows ?m1) k)"
  proof (rule Cons.IH)
    show "\<forall>k row. bt_get (dm_rows ?m1) k = Some row \<longrightarrow> row_ok f L row"
      using r1(2,4) Cons.prems(2) by (auto simp: updated_row_def)
  qed (use r1(3) Cons.prems keys in simp_all)
  then obtain rows' where N: "for_each ?body ?m1 ks = Ok (m\<lparr> dm_rows := rows' \<rparr>)" "bt_ok rows'"
    "\<forall>k \<in> set ks. \<exists>row row'. bt_get rows1 k = Some row \<and> bt_get rows' k = Some row' \<and> updated_row f L p new row row'"
    "\<forall>k. k \<notin> set ks \<longrightarrow> bt_get rows' k = bt_get rows1 k" by auto
  show ?case
  proof (intro exI [of _ rows'] conjI allI impI ballI)
    show "for_each ?body m (pid # ks) = Ok (m\<lparr> dm_rows := rows' \<rparr>)" using r1(1) N(1) by simp
    fix k assume k: "k \<in> set (pid # ks)"
    show "\<exists>row row'. bt_get (dm_rows m) k = Some row \<and> bt_get rows' k = Some row' \<and> updated_row f L p new row row'"
    proof (cases "k = pid")
      case True
      then have "k \<notin> set ks" using Cons.prems(6) by auto
      with N(4) True r1(2,4) row show ?thesis by simp
    next
      case False
      with N(3) r1(4) k show ?thesis by auto
    qed
  next
    fix k assume "k \<notin> set (pid # ks)"
    with N(4) r1(4) show "bt_get rows' k = bt_get (dm_rows m) k" by simp
  qed (rule N(2))
qed

lemma back_substitute_ok:
  assumes ok: "rows_ok f L (dm_rows m)" "dm_field m = f"
    and new: "row_ok f L new" "dense_get (row_coefs new) p = 1"
      "\<And>k. bt_get (dm_rows m) k \<noteq> None \<Longrightarrow> dense_get (row_coefs new) k = 0"
  obtains rows' where "back_substitute disp m p new = Ok (m\<lparr> dm_rows := rows' \<rparr>)" "rows_ok f L rows'"
    "\<And>k. (bt_get rows' k = None) = (bt_get (dm_rows m) k = None)"
    "\<And>k row. bt_get rows' k = Some row \<Longrightarrow> dense_get (row_coefs row) p = 0"
    "\<And>X. row_sat f X new \<Longrightarrow> sols f rows' X = sols f (dm_rows m) X"
proof -
  have bt: "bt_ok (dm_rows m)" and rok: "\<forall>k row. bt_get (dm_rows m) k = Some row \<longrightarrow> row_ok f L row"
    using ok by (simp_all add: rows_ok_def)
  obtain rows' where B: "back_substitute disp m p new = Ok (m\<lparr> dm_rows := rows' \<rparr>)" "bt_ok rows'"
    "\<forall>k \<in> set (bt_keys (dm_rows m)). \<exists>row row'. bt_get (dm_rows m) k = Some row \<and> bt_get rows' k = Some row' \<and>
       updated_row f L p new row row'"
    "\<forall>k. k \<notin> set (bt_keys (dm_rows m)) \<longrightarrow> bt_get rows' k = bt_get (dm_rows m) k"
    using back_keys [OF bt rok ok(2) new(1) order_refl bt.keys_distinct [OF bt], of p disp]
    unfolding back_substitute_def by blast
  have upd: "\<exists>row row'. bt_get (dm_rows m) k = Some row \<and> bt_get rows' k = Some row' \<and> updated_row f L p new row row'"
    if "bt_get (dm_rows m) k \<noteq> None" for k
    using B(3) that bt_get_None_iff [of "dm_rows m" k] by metis
  have none: "(bt_get rows' k = None) = (bt_get (dm_rows m) k = None)" for k
  proof (cases "bt_get (dm_rows m) k = None")
    case True then show ?thesis using B(4) bt_get_None_iff [of "dm_rows m" k] by metis
  next
    case False then show ?thesis using upd by fastforce
  qed
  have at: "\<exists>row0. bt_get (dm_rows m) k = Some row0 \<and> updated_row f L p new row0 row" if "bt_get rows' k = Some row" for k row
    using upd [of k] none [of k] that by fastforce
  show ?thesis
  proof (rule that [OF B(1) _ none])
    show "rows_ok f L rows'" unfolding rows_ok_def
    proof (intro conjI allI impI)
      fix k row assume k: "bt_get rows' k = Some row"
      obtain row0 where r0: "bt_get (dm_rows m) k = Some row0" "updated_row f L p new row0 row" using at [OF k] by blast
      note d = rows_okD [OF ok(1) r0(1)]
      show "row_ok f L row" using r0(2) by (simp add: updated_row_def)
      show "dense_get (row_coefs row) k = 1"
        using r0 d(4) new(3) [of k] by (simp add: updated_row_def)
      fix j assume "bt_get rows' j \<noteq> None" "j \<noteq> k"
      then show "dense_get (row_coefs row) j = 0"
        using r0(2) d(5) [of j] new(3) [of j] none by (simp add: updated_row_def)
    qed (rule B(2))
    fix k row assume k: "bt_get rows' k = Some row"
    obtain row0 where r0: "bt_get (dm_rows m) k = Some row0" "updated_row f L p new row0 row" using at [OF k] by blast
    have "coef_ok f (dense_get (row_coefs row0) p)" using rows_okD(1) [OF ok(1) r0(1)] by (simp add: row_ok_def)
    then show "dense_get (row_coefs row) p = 0" using r0(2) new(2) by (simp add: updated_row_def byte_mul_one_left)
  next
    fix X assume X: "row_sat f X new"
    show "sols f rows' X = sols f (dm_rows m) X"
    proof
      assume "sols f rows' X"
      then show "sols f (dm_rows m) X" unfolding sols_def using upd X by (fastforce simp: updated_row_def)
    next
      assume "sols f (dm_rows m) X"
      then show "sols f rows' X" unfolding sols_def using at X by (fastforce simp: updated_row_def)
    qed
  qed
qed

section \<open>The loop over singleton rows\<close>

lemma add_known_source_ok:
  assumes "rows_ok f L (dm_rows m)" "dm_field m = f" "bt_get (dm_rows m) sid = None" "length data = L"
  obtains rows' new where "add_known_source disp m sid data known = Ok (m\<lparr> dm_rows := rows' \<rparr>, new)"
    "rows_ok f L rows'" "\<And>k. bt_get (dm_rows m) k = None \<Longrightarrow> bt_get rows' k = None"
    "\<And>X. sized L X \<Longrightarrow> X sid = data \<Longrightarrow> sols f (dm_rows m) X = (agrees X new \<and> sols f rows' X)"
    "no_singleton (dm_rows m) \<Longrightarrow> no_singleton rows'"
    "\<And>p. p \<in> set new \<Longrightarrow> bt_get (dm_rows m) (fst p) \<noteq> None \<and> bt_get rows' (fst p) = None \<and> length (snd p) = L"
    "distinct (map fst new)"
    "\<And>k row. bt_get (dm_rows m) k = Some row \<Longrightarrow> is_solved (row_coefs row) \<noteq> None \<Longrightarrow>
       bt_get rows' k = None \<or> bt_get rows' k = Some row"
proof -
  have q: "\<forall>p \<in> set [(sid, data)]. bt_get (dm_rows m) (fst p) = None \<and> length (snd p) = L" using assms by simp
  from known_loop_ok [OF assms(1) q, of disp known "[]"] obtain rows' new where
    K: "known_loop disp f (dm_rows m) [(sid, data)] known [] = Ok (rows', new)" and R: "rows_ok f L rows'"
      "\<forall>k. bt_get (dm_rows m) k = None \<longrightarrow> bt_get rows' k = None"
      "\<forall>X. sized L X \<longrightarrow> agrees X [(sid, data)] \<longrightarrow> sols f (dm_rows m) X = (agrees X new \<and> sols f rows' X)"
      "no_singleton (dm_rows m) \<longrightarrow> no_singleton rows'"
      "\<forall>p \<in> set new. bt_get (dm_rows m) (fst p) \<noteq> None \<and> bt_get rows' (fst p) = None \<and> length (snd p) = L"
      "distinct (map fst new)"
      "\<forall>k row. bt_get (dm_rows m) k = Some row \<longrightarrow> is_solved (row_coefs row) \<noteq> None \<longrightarrow>
         bt_get rows' k = None \<or> bt_get rows' k = Some row"
    unfolding append_Nil by blast
  have "add_known_source disp m sid data known = Ok (m\<lparr> dm_rows := rows' \<rparr>, new)"
    by (simp add: add_known_source_def assms(2) K)
  then show ?thesis by (rule that) (use R in simp_all)
qed

definition pass_post :: "Field \<Rightarrow> nat \<Rightarrow> (SourceSymbolId, MatrixRow) btree \<Rightarrow> recovered \<Rightarrow>
    (SourceSymbolId, MatrixRow) btree \<Rightarrow> bool" where
  "pass_post f L rows new rows' = (rows_ok f L rows' \<and>
    (\<forall>k. bt_get rows k = None \<longrightarrow> bt_get rows' k = None) \<and>
    (\<forall>X. sized L X \<longrightarrow> sols f rows X = (agrees X new \<and> sols f rows' X)) \<and>
    (\<forall>p \<in> set new. bt_get rows (fst p) \<noteq> None \<and> bt_get rows' (fst p) = None \<and> length (snd p) = L) \<and>
    distinct (map fst new))"

lemma pass_post_refl: "rows_ok f L rows \<Longrightarrow> pass_post f L rows [] rows"
  by (simp add: pass_post_def)

lemma pass_post_trans:
  assumes "pass_post f L rows a rows1" "pass_post f L rows1 b rows2"
  shows "pass_post f L rows (a @ b) rows2"
  unfolding pass_post_def
proof (intro conjI)
  show "rows_ok f L rows2" using assms(2) by (simp add: pass_post_def)
  show "\<forall>k. bt_get rows k = None \<longrightarrow> bt_get rows2 k = None"
    using assms by (simp add: pass_post_def)
  show "\<forall>X. sized L X \<longrightarrow> sols f rows X = (agrees X (a @ b) \<and> sols f rows2 X)"
    using assms by (simp add: pass_post_def)
  show "\<forall>p \<in> set (a @ b). bt_get rows (fst p) \<noteq> None \<and> bt_get rows2 (fst p) = None \<and> length (snd p) = L"
    using assms unfolding pass_post_def by (metis Un_iff set_append)
  have "fst p \<notin> fst ` set b" if "p \<in> set a" for p
    using assms that unfolding pass_post_def by (metis (no_types, lifting) imageE)
  then show "distinct (map fst (a @ b))" using assms by (auto simp: pass_post_def)
qed

text \<open>One singleton row leaves the matrix and its symbol is substituted.\<close>

lemma solve_one:
  assumes ok: "rows_ok f L (dm_rows m)" "dm_field m = f" and row: "bt_get (dm_rows m) pid = Some row"
    and s: "is_solved (row_coefs row) = Some i"
  obtains rows' more where "i = pid"
    "add_known_source disp (m\<lparr> dm_rows := bt_remove (dm_rows m) pid \<rparr>) i (row_payload row) known =
       Ok (m\<lparr> dm_rows := rows' \<rparr>, more)"
    "pass_post f L (dm_rows m) ((i, row_payload row) # more) rows'"
    "\<And>k row. bt_get (dm_rows m) k = Some row \<Longrightarrow> is_solved (row_coefs row) \<noteq> None \<Longrightarrow>
       bt_get rows' k = None \<or> bt_get rows' k = Some row"
proof -
  have i: "i = pid" by (rule solved_is_key [OF ok(1) row s])
  have bt: "bt_ok (dm_rows m)" using ok(1) by (simp add: rows_ok_def)
  let ?m = "m\<lparr> dm_rows := bt_remove (dm_rows m) pid \<rparr>"
  have len: "length (row_payload row) = L" by (rule rows_okD(3) [OF ok(1) row])
  have ok1: "rows_ok f L (dm_rows ?m)" "dm_field ?m = f" "bt_get (dm_rows ?m) pid = None"
    using rows_ok_remove [OF ok(1)] ok(2) bt by (simp_all add: bt_get_remove)
  obtain rows' more where A: "add_known_source disp ?m pid (row_payload row) known = Ok (?m\<lparr> dm_rows := rows' \<rparr>, more)"
    "rows_ok f L rows'" "\<And>k. bt_get (dm_rows ?m) k = None \<Longrightarrow> bt_get rows' k = None"
    "\<And>X. sized L X \<Longrightarrow> X pid = row_payload row \<Longrightarrow> sols f (dm_rows ?m) X = (agrees X more \<and> sols f rows' X)"
    "\<And>p. p \<in> set more \<Longrightarrow> bt_get (dm_rows ?m) (fst p) \<noteq> None \<and> bt_get rows' (fst p) = None \<and> length (snd p) = L"
    "distinct (map fst more)"
    "\<And>k row. bt_get (dm_rows ?m) k = Some row \<Longrightarrow> is_solved (row_coefs row) \<noteq> None \<Longrightarrow>
       bt_get rows' k = None \<or> bt_get rows' k = Some row"
    by (rule add_known_source_ok [OF ok1 len, of disp known]) blast
  have "pass_post f L (dm_rows m) ((i, row_payload row) # more) rows'"
    unfolding pass_post_def
  proof (intro conjI)
    show "\<forall>k. bt_get (dm_rows m) k = None \<longrightarrow> bt_get rows' k = None" using A(3) bt by (auto simp: bt_get_remove)
    show "\<forall>X. sized L X \<longrightarrow> sols f (dm_rows m) X = (agrees X ((i, row_payload row) # more) \<and> sols f rows' X)"
      using A(4) sols_remove [OF bt row, of f] singleton_row [OF ok(1) row s] i by auto
    show "\<forall>p \<in> set ((i, row_payload row) # more).
        bt_get (dm_rows m) (fst p) \<noteq> None \<and> bt_get rows' (fst p) = None \<and> length (snd p) = L"
    proof
      fix p assume "p \<in> set ((i, row_payload row) # more)"
      then consider "p = (i, row_payload row)" | "p \<in> set more" by auto
      then show "bt_get (dm_rows m) (fst p) \<noteq> None \<and> bt_get rows' (fst p) = None \<and> length (snd p) = L"
      proof cases
        case 1 with A(3) [OF ok1(3)] row len i show ?thesis by simp
      next
        case 2 with A(5) [OF 2] bt show ?thesis by (simp add: bt_get_remove split: if_splits)
      qed
    qed
    show "distinct (map fst ((i, row_payload row) # more))"
      using A(5,6) ok1(3) i by fastforce
  qed (rule A(2))
  moreover have "bt_get rows' k = None \<or> bt_get rows' k = Some row'"
    if "bt_get (dm_rows m) k = Some row'" "is_solved (row_coefs row') \<noteq> None" for k row'
    using A(3) [of k] A(7) [of k row'] that bt by (cases "k = pid") (simp_all add: bt_get_remove)
  ultimately show ?thesis using that [OF i _, of rows' more] A(1) i by simp
qed

lemma solve_pass_ok:
  assumes "rows_ok f L (dm_rows m)" "dm_field m = f"
    and "\<forall>pid \<in> set solved. \<forall>row. bt_get (dm_rows m) pid = Some row \<longrightarrow> is_solved (row_coefs row) \<noteq> None"
  shows "\<exists>rows' new known'. solve_pass disp solved m rec known = Ok (m\<lparr> dm_rows := rows' \<rparr>, rec @ new, known') \<and>
    pass_post f L (dm_rows m) new rows'"
  using assms
proof (induction solved arbitrary: m rec known)
  case Nil
  then show ?case by (intro exI [of _ "dm_rows m"] exI [of _ "[]"] exI [of _ known]) (simp add: pass_post_refl)
next
  case (Cons pid solved)
  show ?case
  proof (cases "bt_get (dm_rows m) pid")
    case None
    with Cons show ?thesis by simp
  next
    case (Some row)
    then obtain i where s: "is_solved (row_coefs row) = Some i" using Cons.prems(3) by auto
    let ?known = "bt_insert known i (row_payload row)"
    obtain rows1 more where A: "i = pid"
      "add_known_source disp (m\<lparr> dm_rows := bt_remove (dm_rows m) pid \<rparr>) i (row_payload row) ?known =
         Ok (m\<lparr> dm_rows := rows1 \<rparr>, more)"
      "pass_post f L (dm_rows m) ((i, row_payload row) # more) rows1"
      "\<And>k row. bt_get (dm_rows m) k = Some row \<Longrightarrow> is_solved (row_coefs row) \<noteq> None \<Longrightarrow>
         bt_get rows1 k = None \<or> bt_get rows1 k = Some row"
      by (rule solve_one [OF Cons.prems(1,2) Some s]) blast
    let ?m1 = "m\<lparr> dm_rows := rows1 \<rparr>"
    have sol1: "\<forall>pid \<in> set solved. \<forall>row. bt_get (dm_rows ?m1) pid = Some row \<longrightarrow> is_solved (row_coefs row) \<noteq> None"
    proof (intro ballI allI impI)
      fix p r assume p: "p \<in> set solved" "bt_get (dm_rows ?m1) p = Some r"
      then have "bt_get (dm_rows m) p \<noteq> None" using A(3) by (auto simp: pass_post_def)
      then obtain r0 where r0: "bt_get (dm_rows m) p = Some r0" by auto
      then have "is_solved (row_coefs r0) \<noteq> None" using Cons.prems(3) p(1) by simp
      with A(4) [OF r0] p(2) show "is_solved (row_coefs r) \<noteq> None" by auto
    qed
    have ok1: "rows_ok f L (dm_rows ?m1)" "dm_field ?m1 = f" using A(3) Cons.prems(2) by (simp_all add: pass_post_def)
    from Cons.IH [OF ok1 sol1, of "rec @ (i, row_payload row) # more"
        "foldl (\<lambda>k (rid, rdata). bt_insert k rid rdata) ?known more"] obtain rows' new known' where N: "solve_pass disp solved ?m1 (rec @ (i, row_payload row) # more)
        (foldl (\<lambda>k (rid, rdata). bt_insert k rid rdata) ?known more) =
        Ok (?m1\<lparr> dm_rows := rows' \<rparr>, (rec @ (i, row_payload row) # more) @ new, known')"
      "pass_post f L (dm_rows ?m1) new rows'"
      by blast
    have "solve_pass disp (pid # solved) m rec known =
        Ok (m\<lparr> dm_rows := rows' \<rparr>, rec @ ((i, row_payload row) # more) @ new, known')"
      using N(1) A(2) by (simp add: Some s Let_def)
    moreover have "pass_post f L (dm_rows m) (((i, row_payload row) # more) @ new) rows'"
      using pass_post_trans [OF A(3)] N(2) by simp
    ultimately show ?thesis by blast
  qed
qed

lemma singleton_pivots_solved:
  assumes "bt_ok (dm_rows m)" "pid \<in> set (singleton_pivots m)" "bt_get (dm_rows m) pid = Some row"
  shows "is_solved (row_coefs row) \<noteq> None"
proof -
  from assms(2) obtain r where "(pid, r) \<in> set (dm_rows m)" "is_solved (row_coefs r) \<noteq> None"
    by (auto simp: singleton_pivots_def)
  with bt_mem_get [OF assms(1)] assms(3) show ?thesis by fastforce
qed

lemma no_singleton_pivots: "singleton_pivots m = [] \<Longrightarrow> no_singleton (dm_rows m)"
  by (fastforce simp: singleton_pivots_def no_singleton_def filter_empty_conv dest: bt_get_Some_mem)

lemma solve_loop_ok:
  assumes "rows_ok f L (dm_rows m)" "dm_field m = f"
  shows "\<exists>rows' new. solve_loop disp m rec known = Ok (m\<lparr> dm_rows := rows' \<rparr>, rec @ new) \<and>
    pass_post f L (dm_rows m) new rows' \<and> no_singleton rows'"
  using assms
proof (induction disp m rec known rule: solve_loop.induct)
  case (1 disp m rec known)
  show ?case
  proof (cases "singleton_pivots m = []")
    case True
    then show ?thesis
      using 1 by (intro exI [of _ "dm_rows m"] exI [of _ "[]"])
        (simp add: solve_loop.simps [of disp m] pass_post_refl no_singleton_pivots)
  next
    case False
    have bt: "bt_ok (dm_rows m)" using 1 by (simp add: rows_ok_def)
    have "\<forall>pid \<in> set (singleton_pivots m). \<forall>row. bt_get (dm_rows m) pid = Some row \<longrightarrow> is_solved (row_coefs row) \<noteq> None"
      using singleton_pivots_solved [OF bt] by blast
    from solve_pass_ok [OF "1.prems" this, of disp rec known] obtain rows1 new1 known1 where
      P: "solve_pass disp (singleton_pivots m) m rec known = Ok (m\<lparr> dm_rows := rows1 \<rparr>, rec @ new1, known1)"
        "pass_post f L (dm_rows m) new1 rows1" by blast
    let ?m1 = "m\<lparr> dm_rows := rows1 \<rparr>"
    have "\<exists>rows' new. solve_loop disp ?m1 (rec @ new1) known1 = Ok (?m1\<lparr> dm_rows := rows' \<rparr>, (rec @ new1) @ new) \<and>
        pass_post f L (dm_rows ?m1) new rows' \<and> no_singleton rows'"
      by (rule "1.IH" [OF refl False P(1) refl refl]) (use P(2) 1 in \<open>simp_all add: pass_post_def\<close>)
    then obtain rows' new where "solve_loop disp ?m1 (rec @ new1) known1 = Ok (?m1\<lparr> dm_rows := rows' \<rparr>, (rec @ new1) @ new)"
        "pass_post f L (dm_rows ?m1) new rows'" "no_singleton rows'" by blast
    moreover from this have "pass_post f L (dm_rows m) (new1 @ new) rows'" using pass_post_trans [OF P(2)] by simp
    ultimately show ?thesis
      using False P(1) by (intro exI [of _ rows'] exI [of _ "new1 @ new"]) (simp add: solve_loop.simps [of disp m])
  qed
qed

section \<open>The equation of an encoding vector\<close>

definition map_coef :: "(SourceSymbolId, u8) btree \<Rightarrow> SourceSymbolId \<Rightarrow> u8" where
  "map_coef cm i = (case bt_get cm i of Some c \<Rightarrow> c | None \<Rightarrow> 0)"

definition ev_ok :: "Field \<Rightarrow> EncodingVector \<Rightarrow> bool" where
  "ev_ok f ev = (ev_field ev = f \<and> - 1 \<notin> set (ev_source_ids ev) \<and>
     (has_explicit_coefs ev \<longrightarrow> length (ev_source_ids ev) \<le> length (ev_coefficients ev) \<and>
        (\<forall>c \<in> set (ev_coefficients ev). coef_ok f c)))"

text \<open>What an equation needs to be handled without a panic, whatever it says.\<close>

definition ev_typed :: "Field \<Rightarrow> EncodingVector \<Rightarrow> bool" where
  "ev_typed f ev = ((f = Gf2_8_field \<or> ev_field ev = f) \<and> - 1 \<notin> set (ev_source_ids ev) \<and>
     (has_explicit_coefs ev \<longrightarrow> length (ev_source_ids ev) \<le> length (ev_coefficients ev) \<and>
        (\<forall>c \<in> set (ev_coefficients ev). coef_ok f c)))"

lemma ev_ok_typed: "ev_ok f ev \<Longrightarrow> ev_typed f ev"
  by (simp add: ev_ok_def ev_typed_def)

definition ev_sat :: "Field \<Rightarrow> (SourceSymbolId \<Rightarrow> bytes) \<Rightarrow> EncodingVector \<Rightarrow> bytes \<Rightarrow> bool" where
  "ev_sat f X ev payload = (\<exists>cm. coef_map_loop ev 0 (ev_source_ids ev) [] = Ok cm \<and>
     (\<forall>k < length payload. lin f X (map_coef cm) k = payload ! k))"

lemma coef_map_loop_ok:
  assumes "bt_ok cm" "\<forall>c \<in> snd ` set cm. coef_ok f c" "- 1 \<notin> set (bt_keys cm)" "- 1 \<notin> set ids" "f = Gf2_8_field \<or> ev_field ev = f"
    and "has_explicit_coefs ev \<longrightarrow> i + length ids \<le> length (ev_coefficients ev) \<and> (\<forall>c \<in> set (ev_coefficients ev). coef_ok f c)"
  shows "\<exists>cm'. coef_map_loop ev i ids cm = Ok cm' \<and> bt_ok cm' \<and> (\<forall>c \<in> snd ` set cm'. coef_ok f c) \<and> - 1 \<notin> set (bt_keys cm')"
  using assms
proof (induction ids arbitrary: i cm)
  case (Cons sid ids)
  define c where "c = (if has_explicit_coefs ev then ev_coefficients ev ! i
    else vandermonde_coef (ev_field ev) sid (ev_coded_id ev))"
  have c: "(if has_explicit_coefs ev then index (ev_coefficients ev) i
      else Ok (vandermonde_coef (ev_field ev) sid (ev_coded_id ev))) = Ok c"
    using Cons.prems(6) by (auto simp: index_def c_def)
  have ok: "coef_ok f c"
    using Cons.prems(5,6) vandermonde_coef_range(2) by (auto simp: coef_ok_def c_def)
  let ?cm = "if c \<noteq> 0 then bt_insert cm sid c else cm"
  have "snd ` set (bt_insert cm k v) \<subseteq> insert v (snd ` set cm)" for k v
    by (induction cm k v rule: bt_insert.induct) auto
  then have "snd ` set ?cm \<subseteq> insert c (snd ` set cm)" by (cases "c = 0") auto
  then have cm2: "\<forall>c \<in> snd ` set ?cm. coef_ok f c" using Cons.prems(2) ok by blast
  have cm: "bt_ok ?cm" "- 1 \<notin> set (bt_keys ?cm)"
    using Cons.prems(1,3,4) by (simp_all add: bt_ok_insert set_bt_keys_insert)
  have "\<exists>cm'. coef_map_loop ev (i + 1) ids ?cm = Ok cm' \<and> bt_ok cm' \<and> (\<forall>c \<in> snd ` set cm'. coef_ok f c) \<and>
      - 1 \<notin> set (bt_keys cm')"
    by (rule Cons.IH [OF cm(1) cm2 cm(2)]) (use Cons.prems in auto)
  then show ?case unfolding coef_map_loop.simps c and_then.simps .
qed simp

lemma new_row_ok:
  assumes "ev_typed f ev" "length payload = L"
  obtains cm cs where "coef_map_loop ev 0 (ev_source_ids ev) [] = Ok cm" "from_map cm = Ok cs"
    "row_ok f L \<lparr> row_coefs = cs, row_payload = payload \<rparr>"
    "\<And>X. row_sat f X \<lparr> row_coefs = cs, row_payload = payload \<rparr> = ev_sat f X ev payload"
proof -
  obtain cm where cm: "coef_map_loop ev 0 (ev_source_ids ev) [] = Ok cm" "bt_ok cm"
      "\<forall>c \<in> snd ` set cm. coef_ok f c" "- 1 \<notin> set (bt_keys cm)"
    using coef_map_loop_ok [of "[]" f "ev_source_ids ev" ev 0] assms(1) by (auto simp: ev_typed_def)
  obtain cs where cs: "from_map cm = Ok cs" "dense_ok cs" "\<And>i. dense_get cs i = map_coef cm i"
    using from_map_get [OF cm(2,4)] unfolding map_coef_def by blast
  have "coef_ok f (map_coef cm i)" for i
  proof (cases "bt_get cm i")
    case (Some c)
    then have "c \<in> snd ` set cm" by (force dest: bt_get_Some_mem)
    with Some cm(3) show ?thesis by (auto simp: map_coef_def)
  qed (simp add: map_coef_def)
  then have "row_ok f L \<lparr> row_coefs = cs, row_payload = payload \<rparr>"
    using cs assms(2) by (simp add: row_ok_def)
  moreover have "dense_get cs = map_coef cm" using cs(3) by (rule ext)
  then have "row_sat f X \<lparr> row_coefs = cs, row_payload = payload \<rparr> = ev_sat f X ev payload" for X
    by (simp add: row_sat_def ev_sat_def cm(1))
  ultimately show ?thesis using that cm(1) cs(1) by blast
qed

lemma substitute_known_ok:
  assumes "row_ok f L row" "\<forall>p \<in> set known. length (snd p) = L"
  shows "\<exists>row'. substitute_known disp f row known = Ok row' \<and> row_ok f L row' \<and>
    (\<forall>X. agrees X known \<longrightarrow> row_sat f X row' = row_sat f X row)"
  using assms
proof (induction known arbitrary: row)
  case Nil
  then show ?case by (simp add: substitute_known_def)
next
  case (Cons p known)
  obtain sid data where p: "p = (sid, data)" by (cases p)
  have len: "length data = L" using Cons.prems p by simp
  let ?row = "subst_row f sid data row"
  have one: "(let c = dense_get (row_coefs row) sid in if c = 0 then Ok row
      else let cs = dense_remove (row_coefs row) sid in
        and_then (mul_acc_field f disp (row_payload row) data c) (\<lambda>p. Ok \<lparr> row_coefs = cs, row_payload = p \<rparr>)) = Ok ?row"
    using Cons.prems(1) len by (auto simp: subst_row_def Let_def mul_acc_field_eq row_ok_def)
  note s = subst_row_ok [OF Cons.prems(1) len, where sid = sid]
  from Cons.IH [OF s(1)] Cons.prems(2) obtain row' where N: "substitute_known disp f ?row known = Ok row'" "row_ok f L row'"
      "\<forall>X. agrees X known \<longrightarrow> row_sat f X row' = row_sat f X ?row" by auto
  have "substitute_known disp f row (p # known) = Ok row'"
    using N(1) one by (simp add: substitute_known_def p)
  with N s(2) show ?case by (intro exI [of _ row']) (auto simp: p)
qed

section \<open>add_coded\<close>

lemma rows_ok_insert:
  assumes ok: "rows_ok f L rows" and row: "row_ok f L row" "dense_get (row_coefs row) p = 1"
    and zero: "\<And>k. bt_get rows k \<noteq> None \<Longrightarrow> dense_get (row_coefs row) k = 0"
      "\<And>k r. bt_get rows k = Some r \<Longrightarrow> dense_get (row_coefs r) p = 0"
  shows "rows_ok f L (bt_insert rows p row)" "sols f (bt_insert rows p row) X = (row_sat f X row \<and> sols f rows X)"
proof -
  have bt: "bt_ok rows" using ok by (simp add: rows_ok_def)
  have new: "bt_get rows p = None" using zero(1) [of p] row(2) by (cases "bt_get rows p") auto
  show "rows_ok f L (bt_insert rows p row)"
    unfolding rows_ok_def
  proof (intro conjI allI impI)
    show "bt_ok (bt_insert rows p row)" using bt by (rule bt_ok_insert)
    fix k r assume k: "bt_get (bt_insert rows p row) k = Some r"
    show "row_ok f L r" "dense_get (row_coefs r) k = 1"
      using k row rows_okD(1,4) [OF ok] bt by (auto simp: bt_get_insert split: if_splits)
    fix j assume "bt_get (bt_insert rows p row) j \<noteq> None" "j \<noteq> k"
    then show "dense_get (row_coefs r) j = 0"
      using k zero rows_okD(5) [OF ok] bt by (auto simp: bt_get_insert split: if_splits)
  qed
  show "sols f (bt_insert rows p row) X = (row_sat f X row \<and> sols f rows X)"
    using bt new by (auto simp: sols_def bt_get_insert)
qed

lemma zero_row_sat: "dense_ok (row_coefs r) \<Longrightarrow> is_zero (row_coefs r) \<Longrightarrow> row_sat f X r = row_sat f Y r"
  by (simp add: row_sat_def is_zero_iff lin_def)

definition drop_oldest :: "DecodingMatrix \<Rightarrow> DecodingMatrix" where
  "drop_oldest m = (if length (dm_rows m) \<ge> dm_max_rows m
     then (case dm_rows m of [] \<Rightarrow> m | (oldest, _) # _ \<Rightarrow> m\<lparr> dm_rows := bt_remove (dm_rows m) oldest \<rparr>) else m)"

lemma drop_oldest_ok:
  assumes "rows_ok f L (dm_rows m)"
  obtains rows' where "drop_oldest m = m\<lparr> dm_rows := rows' \<rparr>" "rows_ok f L rows'"
    "\<And>k r. bt_get rows' k = Some r \<Longrightarrow> bt_get (dm_rows m) k = Some r"
    "\<And>X. sols f (dm_rows m) X \<Longrightarrow> sols f rows' X"
    "length (dm_rows m) < dm_max_rows m \<Longrightarrow> rows' = dm_rows m"
proof (cases "length (dm_rows m) \<ge> dm_max_rows m \<and> dm_rows m \<noteq> []")
  case True
  then obtain oldest r rest where e: "dm_rows m = (oldest, r) # rest" by (cases "dm_rows m") auto
  have bt: "bt_ok (dm_rows m)" using assms by (simp add: rows_ok_def)
  show ?thesis
  proof (rule that [of "bt_remove (dm_rows m) oldest"])
    show "drop_oldest m = m\<lparr> dm_rows := bt_remove (dm_rows m) oldest \<rparr>" using True e by (simp add: drop_oldest_def)
    show "rows_ok f L (bt_remove (dm_rows m) oldest)" by (rule rows_ok_remove) fact
    show "bt_get (bt_remove (dm_rows m) oldest) k = Some r \<Longrightarrow> bt_get (dm_rows m) k = Some r" for k r
      using bt by (simp add: bt_get_remove split: if_splits)
    then show "sols f (dm_rows m) X \<Longrightarrow> sols f (bt_remove (dm_rows m) oldest) X" for X
      unfolding sols_def by blast
    show "length (dm_rows m) < dm_max_rows m \<Longrightarrow> bt_remove (dm_rows m) oldest = dm_rows m" using True by simp
  qed
next
  case False
  then have "drop_oldest m = m" by (auto simp: drop_oldest_def split: list.splits)
  with assms show ?thesis by (intro that [of "dm_rows m"]) simp_all
qed

definition coded_post :: "Field \<Rightarrow> nat \<Rightarrow> DecodingMatrix \<Rightarrow> (SourceSymbolId, bytes) btree \<Rightarrow> EncodingVector \<Rightarrow> bytes \<Rightarrow>
    DecodingMatrix \<Rightarrow> recovered \<Rightarrow> bool" where
  "coded_post f L m known ev payload m' rec = (
     rows_ok f L (dm_rows m') \<and> m' = m\<lparr> dm_rows := dm_rows m' \<rparr> \<and>
     (\<forall>X. sized L X \<longrightarrow> agrees X known \<longrightarrow> sols f (dm_rows m) X \<longrightarrow> ev_sat f X ev payload \<longrightarrow>
        agrees X rec \<and> sols f (dm_rows m') X) \<and>
     (row_count m < dm_max_rows m \<longrightarrow>
        (\<forall>X. sized L X \<longrightarrow> agrees X known \<longrightarrow> agrees X rec \<longrightarrow> sols f (dm_rows m') X \<longrightarrow>
           sols f (dm_rows m) X \<and> ev_sat f X ev payload)) \<and>
     (no_singleton (dm_rows m) \<longrightarrow> no_singleton (dm_rows m')))"

lemma length_keys_eq:
  assumes "bt_ok a" "bt_ok b" "\<And>k. (bt_get a k = None) = (bt_get b k = None)"
  shows "length a = length b"
proof -
  have "set (bt_keys a) = set (bt_keys b)" using assms(3) bt_get_None_iff [of a] bt_get_None_iff [of b] by blast
  then have "card (set (bt_keys a)) = card (set (bt_keys b))" by simp
  then show ?thesis using bt.keys_distinct [OF assms(1)] bt.keys_distinct [OF assms(2)] by (simp add: distinct_card)
qed

text \<open>The tail of \<open>add_coded\<close>: a non-zero row, eliminated against the matrix, enters it.\<close>

lemma insert_row_ok:
  assumes ok: "rows_ok f L (dm_rows m)" "dm_field m = f" and row: "row_ok f L row" "\<not> is_zero (row_coefs row)"
    and zero: "\<And>k. bt_get (dm_rows m) k \<noteq> None \<Longrightarrow> dense_get (row_coefs row) k = 0"
  obtains m' rec where "and_then (normalize disp row (dm_field m)) (\<lambda>row.
     case pivot_id (row_coefs row) of
       None \<Rightarrow> Err (MalformedEncodingVector ''no pivot after elimination'')
     | Some pivot \<Rightarrow>
         and_then (back_substitute disp m pivot row) (\<lambda>m.
         let m = (if length (dm_rows m) \<ge> dm_max_rows m
                  then (case dm_rows m of [] \<Rightarrow> m
                        | (oldest, _) # _ \<Rightarrow> m\<lparr> dm_rows := bt_remove (dm_rows m) oldest \<rparr>)
                  else m);
             m = m\<lparr> dm_rows := bt_insert (dm_rows m) pivot row \<rparr>
         in solve_loop disp m [] known)) = Ok (m', rec)"
    "rows_ok f L (dm_rows m')" "m' = m\<lparr> dm_rows := dm_rows m' \<rparr>" "no_singleton (dm_rows m')"
    "\<And>X. sized L X \<Longrightarrow> row_sat f X row \<Longrightarrow> sols f (dm_rows m) X \<Longrightarrow> agrees X rec \<and> sols f (dm_rows m') X"
    "\<And>X. sized L X \<Longrightarrow> row_count m < dm_max_rows m \<Longrightarrow> agrees X rec \<Longrightarrow> sols f (dm_rows m') X \<Longrightarrow>
       sols f (dm_rows m) X \<and> row_sat f X row"
proof -
  obtain nrow p where n: "normalize disp row f = Ok nrow" "row_ok f L nrow" "pivot_id (row_coefs nrow) = Some p"
    "dense_get (row_coefs nrow) p = 1" "\<And>i. (dense_get (row_coefs nrow) i = 0) = (dense_get (row_coefs row) i = 0)"
    "\<And>X. row_sat f X nrow = row_sat f X row" using normalize_Ok [OF row] by blast
  have nz: "dense_get (row_coefs nrow) k = 0" if "bt_get (dm_rows m) k \<noteq> None" for k using zero [OF that] n(5) by simp
  obtain rows1 where b: "back_substitute disp m p nrow = Ok (m\<lparr> dm_rows := rows1 \<rparr>)" "rows_ok f L rows1"
    "\<And>k. (bt_get rows1 k = None) = (bt_get (dm_rows m) k = None)"
    "\<And>k row. bt_get rows1 k = Some row \<Longrightarrow> dense_get (row_coefs row) p = 0"
    "\<And>X. row_sat f X nrow \<Longrightarrow> sols f rows1 X = sols f (dm_rows m) X"
    using back_substitute_ok [OF ok n(2,4) nz, of disp] by blast
  let ?m1 = "m\<lparr> dm_rows := rows1 \<rparr>"
  have len: "length rows1 = length (dm_rows m)"
    using b(2,3) ok(1) by (intro length_keys_eq) (simp_all add: rows_ok_def)
  have ok1: "rows_ok f L (dm_rows ?m1)" using b(2) by simp
  obtain rows2 where d: "drop_oldest ?m1 = m\<lparr> dm_rows := rows2 \<rparr>" "rows_ok f L rows2"
    "\<And>k r. bt_get rows2 k = Some r \<Longrightarrow> bt_get rows1 k = Some r"
    "\<And>X. sols f rows1 X \<Longrightarrow> sols f rows2 X" "length rows1 < dm_max_rows m \<Longrightarrow> rows2 = rows1"
  proof -
    obtain rows2 where "drop_oldest ?m1 = ?m1\<lparr> dm_rows := rows2 \<rparr>" "rows_ok f L rows2"
      "\<And>k r. bt_get rows2 k = Some r \<Longrightarrow> bt_get (dm_rows ?m1) k = Some r"
      "\<And>X. sols f (dm_rows ?m1) X \<Longrightarrow> sols f rows2 X"
      "length (dm_rows ?m1) < dm_max_rows ?m1 \<Longrightarrow> rows2 = dm_rows ?m1"
      using drop_oldest_ok [OF ok1] by blast
    then show ?thesis by (intro that [of rows2]) simp_all
  qed
  have ne2: "bt_get (dm_rows m) k \<noteq> None" if "bt_get rows2 k \<noteq> None" for k
    using that d(3) b(3) by (metis option.exhaust option.distinct(1))
  let ?rows3 = "bt_insert rows2 p nrow"
  have z2: "dense_get (row_coefs nrow) k = 0" if "bt_get rows2 k \<noteq> None" for k using nz ne2 that by blast
  have z3: "dense_get (row_coefs r) p = 0" if "bt_get rows2 k = Some r" for k r using b(4) d(3) that by blast
  have i: "rows_ok f L ?rows3" "\<And>X. sols f ?rows3 X = (row_sat f X nrow \<and> sols f rows2 X)"
    using rows_ok_insert [OF d(2) n(2,4)] z2 z3 by blast+
  let ?m3 = "m\<lparr> dm_rows := ?rows3 \<rparr>"
  have ok3: "rows_ok f L (dm_rows ?m3)" "dm_field ?m3 = f" using i(1) ok(2) by simp_all
  from solve_loop_ok [OF ok3, of disp "[]" known] obtain rows' new where
    s: "solve_loop disp ?m3 [] known = Ok (m\<lparr> dm_rows := rows' \<rparr>, new)" "pass_post f L ?rows3 new rows'" "no_singleton rows'"
    by auto
  show ?thesis
  proof (rule that [of "m\<lparr> dm_rows := rows' \<rparr>" new])
    show "and_then (normalize disp row (dm_field m)) (\<lambda>row.
     case pivot_id (row_coefs row) of
       None \<Rightarrow> Err (MalformedEncodingVector ''no pivot after elimination'')
     | Some pivot \<Rightarrow>
         and_then (back_substitute disp m pivot row) (\<lambda>m.
         let m = (if length (dm_rows m) \<ge> dm_max_rows m
                  then (case dm_rows m of [] \<Rightarrow> m
                        | (oldest, _) # _ \<Rightarrow> m\<lparr> dm_rows := bt_remove (dm_rows m) oldest \<rparr>)
                  else m);
             m = m\<lparr> dm_rows := bt_insert (dm_rows m) pivot row \<rparr>
         in solve_loop disp m [] known)) = Ok (m\<lparr> dm_rows := rows' \<rparr>, new)"
      unfolding drop_oldest_def [symmetric] using n(1,3) b(1) d(1) s(1) ok(2) by (simp add: Let_def)
    show "rows_ok f L (dm_rows (m\<lparr> dm_rows := rows' \<rparr>))" using s(2) by (simp add: pass_post_def)
    show "m\<lparr> dm_rows := rows' \<rparr> = m\<lparr> dm_rows := dm_rows (m\<lparr> dm_rows := rows' \<rparr>) \<rparr>" by simp
    show "no_singleton (dm_rows (m\<lparr> dm_rows := rows' \<rparr>))" using s(3) by simp
    show "agrees X new \<and> sols f (dm_rows (m\<lparr> dm_rows := rows' \<rparr>)) X"
      if "sized L X" "row_sat f X row" "sols f (dm_rows m) X" for X
    proof -
      have "row_sat f X nrow" "sols f rows1 X" using that n(6) b(5) by simp_all
      then have "sols f ?rows3 X" using i(2) d(4) by simp
      then show ?thesis using s(2) that(1) by (simp add: pass_post_def)
    qed
    show "sols f (dm_rows m) X \<and> row_sat f X row"
      if "sized L X" "row_count m < dm_max_rows m" "agrees X new" "sols f (dm_rows (m\<lparr> dm_rows := rows' \<rparr>)) X" for X
    proof -
      have "rows2 = rows1" using d(5) that(2) len by (simp add: row_count_def)
      moreover have "sols f ?rows3 X" using s(2) that by (simp add: pass_post_def)
      ultimately have "row_sat f X nrow" "sols f rows1 X" using i(2) [of X] by simp_all
      then show ?thesis using n(6) b(5) [of X] by simp
    qed
  qed
qed

lemma add_coded_ok:
  assumes ok: "rows_ok f L (dm_rows m)" "dm_field m = f" and ev: "ev_ok f ev" "length payload = L"
    and known: "\<forall>p \<in> set known. length (snd p) = L"
    and S: "sized L S" "agrees S known" "sols f (dm_rows m) S" "ev_sat f S ev payload"
  obtains m' rec where "add_coded disp m ev payload known = Ok (m', rec)" "coded_post f L m known ev payload m' rec"
proof -
  obtain cm cs where cm: "coef_map_loop ev 0 (ev_source_ids ev) [] = Ok cm" "from_map cm = Ok cs"
    "row_ok f L \<lparr> row_coefs = cs, row_payload = payload \<rparr>"
    "\<And>X. row_sat f X \<lparr> row_coefs = cs, row_payload = payload \<rparr> = ev_sat f X ev payload"
    using new_row_ok [OF ev_ok_typed [OF ev(1)] ev(2)] by blast
  obtain row where r: "substitute_known disp f \<lparr> row_coefs = cs, row_payload = payload \<rparr> known = Ok row" "row_ok f L row"
    "\<forall>X. agrees X known \<longrightarrow> row_sat f X row = ev_sat f X ev payload"
    using substitute_known_ok [OF cm(3) known, of disp] cm(4) by auto
  have skip: "coded_post f L m known ev payload m []"
    if "\<And>X. agrees X known \<Longrightarrow> sols f (dm_rows m) X \<Longrightarrow> ev_sat f X ev payload"
    using that ok(1) by (simp add: coded_post_def)
  note start = add_coded_def cm(1,2) and_then.simps Let_def [of "\<lparr> row_coefs = cs, row_payload = payload \<rparr>"] ok(2) r(1)
  show ?thesis
  proof (cases "is_zero (row_coefs row)")
    case True
    have "ev_sat f X ev payload" if "agrees X known" for X
      using zero_row_sat [OF _ True, of f X S] r(2,3) S that by (simp add: row_ok_def)
    with skip show ?thesis by (intro that [of m "[]"]) (simp_all add: start True)
  next
    case nz: False
    obtain row' where e: "forward_eliminate disp m row = Ok row'" "row_ok f L row'"
      "\<And>k. bt_get (dm_rows m) k \<noteq> None \<Longrightarrow> dense_get (row_coefs row') k = 0"
      "\<And>X. sols f (dm_rows m) X \<Longrightarrow> row_sat f X row' = row_sat f X row"
      using forward_eliminate_ok [OF ok r(2)] by blast
    show ?thesis
    proof (cases "is_zero (row_coefs row')")
      case True
      have "ev_sat f X ev payload" if "agrees X known" "sols f (dm_rows m) X" for X
        using zero_row_sat [OF _ True, of f X S] e(2,4) r(3) S that by (simp add: row_ok_def)
      with skip show ?thesis by (intro that [of m "[]"]) (simp_all add: start nz e(1) True)
    next
      case nz': False
      note I = insert_row_ok [OF ok e(2) nz' e(3), of disp known, unfolded ok(2)]
      show ?thesis
      proof (rule I)
        fix m' rec
        assume A: "and_then (normalize disp row' f) (\<lambda>row. case pivot_id (row_coefs row) of
             None \<Rightarrow> Err (MalformedEncodingVector ''no pivot after elimination'')
           | Some pivot \<Rightarrow> and_then (back_substitute disp m pivot row) (\<lambda>m.
               let m = (if length (dm_rows m) \<ge> dm_max_rows m
                  then (case dm_rows m of [] \<Rightarrow> m
                        | (oldest, _) # _ \<Rightarrow> m\<lparr> dm_rows := bt_remove (dm_rows m) oldest \<rparr>)
                  else m);
                 m = m\<lparr> dm_rows := bt_insert (dm_rows m) pivot row \<rparr>
               in solve_loop disp m [] known)) = Ok (m', rec)"
          and P: "rows_ok f L (dm_rows m')" "m' = m\<lparr> dm_rows := dm_rows m' \<rparr>" "no_singleton (dm_rows m')"
            "\<And>X. sized L X \<Longrightarrow> row_sat f X row' \<Longrightarrow> sols f (dm_rows m) X \<Longrightarrow> agrees X rec \<and> sols f (dm_rows m') X"
            "\<And>X. sized L X \<Longrightarrow> row_count m < dm_max_rows m \<Longrightarrow> agrees X rec \<Longrightarrow> sols f (dm_rows m') X \<Longrightarrow>
               sols f (dm_rows m) X \<and> row_sat f X row'"
        have "add_coded disp m ev payload known = Ok (m', rec)"
          unfolding start using nz nz' e(1) A by simp
        moreover have "coded_post f L m known ev payload m' rec"
          unfolding coded_post_def using P(1-4) r(3) e(4) P(5) by (intro conjI allI impI) blast+
        ultimately show ?thesis by (rule that)
      qed
    qed
  qed
qed

section \<open>Nothing more can be recovered\<close>

text \<open>The direction in which an unsolved system can be shifted: one free column and the pivots of
  the rows that contain it.\<close>

definition shift :: "(SourceSymbolId, MatrixRow) btree \<Rightarrow> SourceSymbolId \<Rightarrow> SourceSymbolId \<Rightarrow> u8" where
  "shift rows j i = (if i = j then 1 else case bt_get rows i of Some r \<Rightarrow> dense_get (row_coefs r) j | None \<Rightarrow> 0)"

definition shifted :: "(SourceSymbolId, MatrixRow) btree \<Rightarrow> SourceSymbolId \<Rightarrow> (SourceSymbolId \<Rightarrow> bytes) \<Rightarrow> SourceSymbolId \<Rightarrow> bytes" where
  "shifted rows j S i = (S i)[0 := S i ! 0 XOR shift rows j i]"

lemma lin_shift:
  assumes "X = (\<lambda>i. (S i)[0 := S i ! 0 XOR d i])" "sized L S" "k < L"
  shows "lin f X c k = lin f S c k XOR (if k = 0 then xor_sum (\<lambda>i. byte_mul f (d i) (c i)) UNIV else 0)"
proof (cases "k = 0")
  case True
  then have "X i ! k = S i ! k XOR d i" for i using assms by (simp add: sized_def)
  then show ?thesis using True by (simp add: lin_def fs.mul_xor_left xsum.distrib)
next
  case False
  then have "X i ! k = S i ! k" for i using assms by simp
  then show ?thesis using False by (simp add: lin_def)
qed

lemma shifted_sols:
  assumes ok: "rows_ok f L rows" and S: "sols f rows S" "sized L S" and j: "bt_get rows j = None"
  shows "sols f rows (shifted rows j S)"
  unfolding sols_def row_sat_def
proof (intro allI impI)
  fix k r n assume r: "bt_get rows k = Some r" and n: "n < length (row_payload r)"
  note d = rows_okD [OF ok r]
  let ?c = "dense_get (row_coefs r)"
  have nk: "k \<noteq> j" using j r by auto
  have "xor_sum (\<lambda>i. byte_mul f (shift rows j i) (?c i)) UNIV = xor_sum (\<lambda>i. byte_mul f (shift rows j i) (?c i)) {j, k}"
  proof (rule xsum.mono_neutral_right)
    show "\<forall>i \<in> UNIV - {j, k}. byte_mul f (shift rows j i) (?c i) = 0"
    proof
      fix i assume i: "i \<in> UNIV - {j, k}"
      show "byte_mul f (shift rows j i) (?c i) = 0"
      proof (cases "bt_get rows i")
        case None with i show ?thesis by (simp add: shift_def)
      next
        case (Some r') with i d(5) [of i] show ?thesis by simp
      qed
    qed
  qed simp_all
  also have "\<dots> = byte_mul f 1 (?c j) XOR byte_mul f (?c j) 1"
    using nk r d(4) by (simp add: shift_def)
  also have "\<dots> = 0"
    using d(1) by (simp add: byte_mul_one_left fs.mul_one row_ok_def)
  finally have z: "xor_sum (\<lambda>i. byte_mul f (shift rows j i) (?c i)) UNIV = 0" .
  have "shifted rows j S = (\<lambda>i. (S i)[0 := S i ! 0 XOR shift rows j i])" by (rule ext) (simp add: shifted_def)
  then have "lin f (shifted rows j S) ?c n = lin f S ?c n"
    using lin_shift [OF _ S(2), of _ "shift rows j" n f ?c] n d(3) z by simp
  then show "lin f (shifted rows j S) ?c n = row_payload r ! n" using S(1) r n by (simp add: sols_def row_sat_def)
qed

lemma undetermined:
  assumes ok: "rows_ok f L rows" "no_singleton rows" "0 < L" and S: "sols f rows S" "sized L S"
    and r: "bt_get rows k = Some r"
  obtains X where "sized L X" "sols f rows X" "X k \<noteq> S k"
    "\<And>i. (\<forall>k r. bt_get rows k = Some r \<longrightarrow> dense_get (row_coefs r) i = 0) \<Longrightarrow> X i = S i"
proof -
  note d = rows_okD [OF ok(1) r]
  have "is_solved (row_coefs r) \<noteq> Some k" using ok(2) r by (simp add: no_singleton_def)
  then obtain j where j: "j \<noteq> k" "dense_get (row_coefs r) j \<noteq> 0" using d(2,4) by (auto simp: is_solved_iff)
  then have jn: "bt_get rows j = None" using d(5) [of j] by blast
  show ?thesis
  proof (rule that [of "shifted rows j S"])
    show "sized L (shifted rows j S)" using S(2) by (simp add: sized_def shifted_def)
    show "sols f rows (shifted rows j S)" by (rule shifted_sols [OF ok(1) S jn])
    have "length (S k) = L" using S(2) by (simp add: sized_def)
    then have "shifted rows j S k ! 0 = S k ! 0 XOR dense_get (row_coefs r) j"
      using ok(3) j(1) r by (simp add: shifted_def shift_def)
    moreover have "S k ! 0 XOR dense_get (row_coefs r) j \<noteq> S k ! 0"
      using j(2) by (metis xor_cancel_left xor_self_eq)
    ultimately show "shifted rows j S k \<noteq> S k" by auto
    fix i assume i: "\<forall>k r. bt_get rows k = Some r \<longrightarrow> dense_get (row_coefs r) i = 0"
    then have "i \<noteq> j" using r j(2) by auto
    moreover have "bt_get rows i = None" using i rows_okD(4) [OF ok(1), of i] by (cases "bt_get rows i") auto
    ultimately show "shifted rows j S i = S i" by (simp add: shifted_def shift_def)
  qed
qed

section \<open>Properties of the matrix\<close>

definition matrix_ok :: "Field \<Rightarrow> nat \<Rightarrow> DecodingMatrix \<Rightarrow> bool" where
  "matrix_ok f L m = (rows_ok f L (dm_rows m) \<and> dm_field m = f)"

lemma matrix_ok_new: "matrix_ok f L (DecodingMatrix_new f L n)"
  by (simp add: matrix_ok_def DecodingMatrix_new_def)

lemma lin_support: "\<forall>i. i \<notin> A \<longrightarrow> c i = 0 \<Longrightarrow> lin f X c k = xor_sum (\<lambda>i. byte_mul f (X i ! k) (c i)) A"
  unfolding lin_def by (rule xsum.mono_neutral_right) auto

text \<open>C15: adding a coded equation to a matrix in reduced echelon form never fails and keeps the form;
  whatever the true payloads are, if they satisfy the stored rows, the new equation and the known
  symbols, then every symbol the matrix reports as recovered carries its true payload, and the rows
  that remain are still true.\<close>

theorem add_coded_sound:
  assumes "matrix_ok f L m" "ev_ok f ev" "length payload = L" "\<forall>p \<in> set known. length (snd p) = L"
    and "sized L S" "agrees S known" "sols f (dm_rows m) S" "ev_sat f S ev payload"
  shows "\<exists>m' rec. add_coded disp m ev payload known = Ok (m', rec) \<and> matrix_ok f L m' \<and>
    (\<forall>(i, d) \<in> set rec. d = S i) \<and> sols f (dm_rows m') S"
proof -
  have ok: "rows_ok f L (dm_rows m)" "dm_field m = f" using assms(1) by (simp_all add: matrix_ok_def)
  obtain m' rec where a: "add_coded disp m ev payload known = Ok (m', rec)" "coded_post f L m known ev payload m' rec"
    using add_coded_ok [OF ok assms(2-8)] by blast
  have "rows_ok f L (dm_rows m')" "m' = m\<lparr> dm_rows := dm_rows m' \<rparr>" "agrees S rec" "sols f (dm_rows m') S"
    using a(2) assms(5-8) unfolding coded_post_def by blast+
  moreover from this(2) ok(2) have "dm_field m' = f" by (metis DecodingMatrix.select_convs(2)
        DecodingMatrix.surjective DecodingMatrix.update_convs(1))
  ultimately show ?thesis
    using a(1) by (intro exI [of _ m'] exI [of _ rec]) (auto simp: matrix_ok_def agrees_def)
qed

text \<open>A two-symbol system for the witnesses.\<close>

abbreviation sample_ev :: EncodingVector where
  "sample_ev \<equiv> \<lparr> ev_field = Gf2_8_field, ev_coded_id = 1, ev_generation = 0, ev_id_format = NoneFormat,
     ev_source_ids = [0, 1], ev_coefficients = [1, 1] \<rparr>"

abbreviation sample_payload :: "SourceSymbolId \<Rightarrow> bytes" where
  "sample_payload i \<equiv> if i = 0 then [2] else [4]"

lemma sample_sat: "ev_sat Gf2_8_field sample_payload sample_ev [6]"
proof -
  have cm: "coef_map_loop sample_ev 0 (ev_source_ids sample_ev) [] = Ok [(0, 1), (1, 1)]"
    by (simp add: has_explicit_coefs_def index_def)
  have z: "\<forall>i. i \<notin> {0, 1} \<longrightarrow> map_coef [(0, 1), (1, 1)] i = 0" by (simp add: map_coef_def)
  show ?thesis
    unfolding ev_sat_def
    by (intro exI [of _ "[(0, 1), (1, 1)]"] conjI cm)
       (simp add: lin_support [OF z] map_coef_def fs.mul_one [of Gf2_8_field, simplified])
qed

lemma sample_hyps:
  "matrix_ok Gf2_8_field 1 (DecodingMatrix_new Gf2_8_field 1 8)" "ev_ok Gf2_8_field sample_ev" "length [6 :: u8] = 1"
  "\<forall>p \<in> set [(0 :: u32, [2 :: u8])]. length (snd p) = 1" "sized 1 sample_payload" "agrees sample_payload [(0, [2])]"
  "sols Gf2_8_field (dm_rows (DecodingMatrix_new Gf2_8_field 1 8)) sample_payload"
  by (rule matrix_ok_new) (simp_all add: ev_ok_def sized_def coef_ok_def DecodingMatrix_new_def)

theorem add_coded_sound_witness:
  "\<exists>m' rec. add_coded Scalar (DecodingMatrix_new Gf2_8_field 1 8) sample_ev [6] [(0, [2])] = Ok (m', rec) \<and>
     matrix_ok Gf2_8_field 1 m' \<and> (\<forall>(i, d) \<in> set rec. d = sample_payload i) \<and>
     sols Gf2_8_field (dm_rows m') sample_payload"
  by (rule add_coded_sound [OF sample_hyps sample_sat])

text \<open>C19: as long as the row limit is not reached no information is lost or invented: an assignment that
  agrees with the known symbols satisfies the old rows and the new equation exactly when it satisfies
  the new rows and agrees with the recovered symbols.\<close>

theorem add_coded_exact:
  assumes "matrix_ok f L m" "ev_ok f ev" "length payload = L" "\<forall>p \<in> set known. length (snd p) = L"
    and "sized L S" "agrees S known" "sols f (dm_rows m) S" "ev_sat f S ev payload"
    and "row_count m < dm_max_rows m" "add_coded disp m ev payload known = Ok (m', rec)"
    and "sized L X" "agrees X known"
  shows "(sols f (dm_rows m) X \<and> ev_sat f X ev payload) = (sols f (dm_rows m') X \<and> agrees X rec)"
proof -
  have ok: "rows_ok f L (dm_rows m)" "dm_field m = f" using assms(1) by (simp_all add: matrix_ok_def)
  have "coded_post f L m known ev payload m' rec"
    using add_coded_ok [OF ok assms(2-8), of disp] assms(10) by auto
  then show ?thesis using assms(9,11,12) by (auto simp: coded_post_def)
qed

theorem add_coded_exact_witness:
  "\<exists>m' rec. add_coded Avx2 (DecodingMatrix_new Gf2_8_field 1 8) sample_ev [6] [(0, [2])] = Ok (m', rec) \<and>
     (sols Gf2_8_field (dm_rows m') (\<lambda>i. if i = 0 then [2] else [5]) \<and> agrees (\<lambda>i. if i = 0 then [2] else [5]) rec) =
     (sols Gf2_8_field [] (\<lambda>i. if i = 0 then [2] else [5]) \<and>
      ev_sat Gf2_8_field (\<lambda>i. if i = 0 then [2] else [5]) sample_ev [6])"
proof -
  have ok: "rows_ok Gf2_8_field 1 (dm_rows (DecodingMatrix_new Gf2_8_field 1 8))"
    "dm_field (DecodingMatrix_new Gf2_8_field 1 8) = Gf2_8_field" by (simp_all add: DecodingMatrix_new_def)
  obtain m' rec where a: "add_coded Avx2 (DecodingMatrix_new Gf2_8_field 1 8) sample_ev [6] [(0, [2])] = Ok (m', rec)"
    by (rule add_coded_ok [OF ok sample_hyps(2-7) sample_sat])
  have "row_count (DecodingMatrix_new Gf2_8_field 1 8) < dm_max_rows (DecodingMatrix_new Gf2_8_field 1 8)"
    by (simp add: DecodingMatrix_new_def row_count_def)
  moreover have "sized 1 (\<lambda>i :: u32. if i = 0 then [2] else [5])" "agrees (\<lambda>i. if i = 0 then [2] else [5]) [(0, [2])]"
    by (simp_all add: sized_def)
  ultimately have "(sols Gf2_8_field (dm_rows (DecodingMatrix_new Gf2_8_field 1 8)) (\<lambda>i. if i = 0 then [2] else [5]) \<and>
      ev_sat Gf2_8_field (\<lambda>i. if i = 0 then [2] else [5]) sample_ev [6]) =
    (sols Gf2_8_field (dm_rows m') (\<lambda>i. if i = 0 then [2] else [5]) \<and> agrees (\<lambda>i. if i = 0 then [2] else [5]) rec)"
    by (rule add_coded_exact [OF sample_hyps sample_sat _ a])
  with a show ?thesis by (auto simp: DecodingMatrix_new_def)
qed

text \<open>A source symbol that is not the pivot of a stored row can be told to the matrix at any time:
  the call succeeds and keeps the echelon form, and the assignments that give the symbol its payload
  satisfy the old rows exactly when they satisfy the new rows and agree with the recovered symbols.\<close>

lemma add_known_source_exact:
  assumes "matrix_ok f L m" "bt_get (dm_rows m) sid = None" "length data = L"
  shows "\<exists>m' rec. add_known_source disp m sid data known = Ok (m', rec) \<and> matrix_ok f L m' \<and>
    (\<forall>X. sized L X \<and> X sid = data \<longrightarrow> sols f (dm_rows m) X = (agrees X rec \<and> sols f (dm_rows m') X))"
proof -
  have ok: "rows_ok f L (dm_rows m)" "dm_field m = f" using assms(1) by (simp_all add: matrix_ok_def)
  obtain rows' new where "add_known_source disp m sid data known = Ok (m\<lparr> dm_rows := rows' \<rparr>, new)"
    "rows_ok f L rows'" "\<And>X. sized L X \<Longrightarrow> X sid = data \<Longrightarrow> sols f (dm_rows m) X = (agrees X new \<and> sols f rows' X)"
    by (rule add_known_source_ok [OF ok assms(2,3), of disp known]) blast
  then show ?thesis
    using ok(2) by (intro exI [of _ "m\<lparr> dm_rows := rows' \<rparr>"] exI [of _ new]) (simp add: matrix_ok_def)
qed

text \<open>A one-row system: the row of \<open>sample_ev\<close> before any of its symbols is known.\<close>

abbreviation sample_matrix :: DecodingMatrix where
  "sample_matrix \<equiv> \<lparr> dm_rows = [(0, \<lparr> row_coefs = \<lparr> base_id = 0, coefs = [1, 2] \<rparr>, row_payload = [6] \<rparr>)],
     dm_field = Gf2_8_field, dm_symbol_size = 1, dm_max_rows = 8 \<rparr>"

lemma sample_matrix_ok: "matrix_ok Gf2_8_field 1 sample_matrix"
  by (auto simp: matrix_ok_def rows_ok_def row_ok_def dense_ok_def coef_ok_def bt_ok_def bt_keys_def dense_get_def
      split: if_splits)

text \<open>The hypothesis on the pivot is needed. A row \<open>x0 + 2 x1\<close> is stored under its pivot 0; the source
  symbol 0 arrives late; the row becomes \<open>2 x1\<close> but stays under key 0, so symbol 1 is not recovered
  although it is determined. The next coded packet, here one that carries symbol 5 alone, makes the
  final loop report the unnormalised payload of that row as symbol 1.\<close>

abbreviation stale_matrix :: DecodingMatrix where
  "stale_matrix \<equiv> \<lparr> dm_rows = [(0, \<lparr> row_coefs = \<lparr> base_id = 0, coefs = [0, 2] \<rparr>, row_payload = [4] \<rparr>)],
     dm_field = Gf2_8_field, dm_symbol_size = 1, dm_max_rows = 8 \<rparr>"

abbreviation late_ev :: EncodingVector where
  "late_ev \<equiv> \<lparr> ev_field = Gf2_8_field, ev_coded_id = 2, ev_generation = 0, ev_id_format = NoneFormat,
     ev_source_ids = [5], ev_coefficients = [1] \<rparr>"

abbreviation true_payload :: "SourceSymbolId \<Rightarrow> bytes" where
  "true_payload i \<equiv> if i = 5 then [9] else [2]"

lemma stale_known: "add_known_source Scalar sample_matrix 0 [2] [] = Ok (stale_matrix, [])"
  by (simp add: add_known_source_def known_loop.simps(2) dense_get_def dense_remove_def mul_acc_field_eq
      is_solved_def fs.mul_one [of Gf2_8_field, simplified])

lemma stale_coded: "\<exists>m'. add_coded Scalar stale_matrix late_ev [9] [(0, [2])] = Ok (m', [(1, [4]), (5, [9])])"
  by (simp add: add_coded_def has_explicit_coefs_def index_def from_map_def DenseCoefs_new_def set_index_def
      substitute_known_def forward_eliminate_def back_substitute_def normalize_def pivot_coef_def pivot_id_def
      is_zero_def solve_loop.simps singleton_pivots_def is_solved_def add_known_source_def known_loop.simps(2)
      dense_get_def dense_remove_def mul_acc_field_eq bt_keys_def upt_rec Let_def)

lemma true_payload_sat:
  "sized 1 true_payload" "sols Gf2_8_field (dm_rows sample_matrix) true_payload" "ev_sat Gf2_8_field true_payload late_ev [9]"
proof -
  show "sized 1 true_payload" by (simp add: sized_def)
  have z: "\<forall>i. i \<notin> {0, 1} \<longrightarrow> dense_get \<lparr> base_id = 0, coefs = [1, 2] \<rparr> i = 0"
    by (auto simp: dense_get_def word_unat_eq_iff)
  show "sols Gf2_8_field (dm_rows sample_matrix) true_payload"
    by (simp add: sols_def row_sat_def lin_support [OF z] dense_get_def fs.mul_one [of Gf2_8_field, simplified])
       (simp add: gf2_8_mul_clmul numeral_eq_Suc alpha8_def)
  have cm: "coef_map_loop late_ev 0 (ev_source_ids late_ev) [] = Ok [(5, 1)]"
    by (simp add: has_explicit_coefs_def index_def)
  have z: "\<forall>i. i \<notin> {5} \<longrightarrow> map_coef [(5, 1)] i = 0" by (simp add: map_coef_def)
  show "ev_sat Gf2_8_field true_payload late_ev [9]"
    unfolding ev_sat_def
    by (intro exI [of _ "[(5, 1)]"] conjI cm)
       (simp add: lin_support [OF z] map_coef_def fs.mul_one [of Gf2_8_field, simplified])
qed

text \<open>A source symbol that arrives after a coded packet whose row it heads leaves that row under a
  stale pivot, and the next coded packet makes the decoder report a wrong payload: the symbols 0, 1
  and 5 carry 2, 2 and 9, every packet is consistent with them, and the matrix reports 4 for symbol 1.\<close>

lemma stale_pivot_corrupts:
  "sols Gf2_8_field (dm_rows sample_matrix) true_payload \<and> ev_sat Gf2_8_field true_payload late_ev [9] \<and>
   matrix_ok Gf2_8_field 1 sample_matrix \<and>
   add_known_source Scalar sample_matrix 0 (true_payload 0) [] = Ok (stale_matrix, []) \<and>
   (\<exists>m'. add_coded Scalar stale_matrix late_ev [9] [(0, true_payload 0)] = Ok (m', [(1, [4]), (5, [9])])) \<and>
   true_payload 1 = [2]"
  using true_payload_sat sample_matrix_ok stale_known stale_coded by simp

end
