(* ===== verification/Encoder_Correct.thy ===== *)
theory Encoder_Correct
  imports Encoder Matrix_Correct
begin

text \<open>
  Correctness of the encoder: its invariant, the ranges of the coded identifiers, and that every
  coded packet it emits is a true linear equation of the symbols in its window, in the form in which
  the decoding matrix reads it.
\<close>

section \<open>The payload is a linear combination\<close>

lemma payload_step_mul_acc:
  assumes "window_get w sid = Some data" "length acc = length data"
  shows "payload_step disp f w acc (sid, c) = mul_acc_field f disp acc data c"
  using assms
  by (cases f; cases disp)
     (simp_all add: payload_step_def mul_acc_gf2_8_def mul_acc_gf2_4_def Let_def)

text \<open>Byte \<open>k\<close> of a combination, as a sum over the pairs of identifier and coefficient.\<close>

definition comb :: "Field \<Rightarrow> (SourceSymbolId \<Rightarrow> bytes) \<Rightarrow> (u32 \<times> u8) list \<Rightarrow> nat \<Rightarrow> u8" where
  "comb f S ps k = foldr (\<lambda>(sid, c) x. byte_mul f (S sid ! k) c XOR x) ps 0"

lemma comb_simps [simp]:
  "comb f S [] k = 0" "comb f S ((sid, c) # ps) k = byte_mul f (S sid ! k) c XOR comb f S ps k"
  by (simp_all add: comb_def)

lemma payload_loop:
  assumes "\<forall>(sid, c) \<in> set ps. window_get w sid = Some (S sid) \<and> length (S sid) = length acc"
  shows "\<exists>r. for_each (payload_step disp f w) acc ps = Ok r \<and> length r = length acc \<and>
    (\<forall>k < length acc. r ! k = acc ! k XOR comb f S ps k)"
  using assms
proof (induction ps arbitrary: acc)
  case (Cons p ps)
  obtain sid c where p: "p = (sid, c)" by fastforce
  let ?acc = "map2 (\<lambda>d s. d XOR byte_mul f s c) acc (S sid)"
  have get: "window_get w sid = Some (S sid)" "length (S sid) = length acc" using Cons.prems p by auto
  then have step: "payload_step disp f w acc p = Ok ?acc"
    unfolding p using payload_step_mul_acc [OF get(1), of acc disp f c] by (simp add: mul_acc_field_eq)
  have "\<exists>r. for_each (payload_step disp f w) ?acc ps = Ok r \<and> length r = length ?acc \<and>
      (\<forall>k < length ?acc. r ! k = ?acc ! k XOR comb f S ps k)"
    using Cons.prems get by (intro Cons.IH) auto
  with step get(2) show ?case by (auto simp: p ac_simps)
qed simp

section \<open>The coefficients the decoder reads\<close>

definition pair_coef :: "(u32 \<times> u8) list \<Rightarrow> SourceSymbolId \<Rightarrow> u8" where
  "pair_coef ps i = (case map_of ps i of Some c \<Rightarrow> c | None \<Rightarrow> 0)"

lemma pair_coef_Cons: "pair_coef ((sid, c) # ps) i = (if i = sid then c else pair_coef ps i)"
  by (simp add: pair_coef_def)

lemma lin_pairs: "distinct (map fst ps) \<Longrightarrow> lin f S (pair_coef ps) k = comb f S ps k"
proof (induction ps)
  case Nil
  then show ?case by (simp add: lin_def pair_coef_def)
next
  case (Cons p ps)
  obtain sid c where p: "p = (sid, c)" by fastforce
  have z: "pair_coef ps sid = 0" using Cons.prems by (simp add: p pair_coef_def map_of_eq_None_iff [THEN iffD2])
  let ?g = "\<lambda>c i. byte_mul f (S i ! k) (c i)"
  have "lin f S (pair_coef (p # ps)) k = ?g (pair_coef (p # ps)) sid XOR xor_sum (?g (pair_coef (p # ps))) (UNIV - {sid})"
    unfolding lin_def by (rule xsum.remove) simp_all
  also have "xor_sum (?g (pair_coef (p # ps))) (UNIV - {sid}) = xor_sum (?g (pair_coef ps)) (UNIV - {sid})"
    by (rule xsum.cong) (simp_all add: p pair_coef_Cons)
  also have "\<dots> = xor_sum (?g (pair_coef ps)) UNIV"
    using xsum.remove [of UNIV sid "?g (pair_coef ps)"] z by simp
  finally show ?case using Cons by (simp add: p pair_coef_Cons lin_def)
qed

lemma coef_map_pairs:
  assumes "bt_ok cm" "distinct ids" "length cs = length ids" "\<forall>sid \<in> set ids. bt_get cm sid = None"
    and "\<forall>j < length ids. (if has_explicit_coefs ev then index (ev_coefficients ev) (i + j)
       else Ok (vandermonde_coef (ev_field ev) (ids ! j) (ev_coded_id ev))) = Ok (cs ! j)"
  shows "\<exists>cm'. coef_map_loop ev i ids cm = Ok cm' \<and>
    (\<forall>x. map_coef cm' x = (if x \<in> set ids then pair_coef (zip ids cs) x else map_coef cm x))"
  using assms
proof (induction ids arbitrary: i cm cs)
  case (Cons sid ids)
  obtain c cs' where cs: "cs = c # cs'" using Cons.prems(3) by (cases cs) auto
  let ?cm = "if c \<noteq> 0 then bt_insert cm sid c else cm"
  have first: "(if has_explicit_coefs ev then index (ev_coefficients ev) i
      else Ok (vandermonde_coef (ev_field ev) sid (ev_coded_id ev))) = Ok c"
    using Cons.prems(5) [rule_format, of 0] by (auto simp: cs split: if_splits)
  have rest: "\<forall>j < length ids. (if has_explicit_coefs ev then index (ev_coefficients ev) (i + 1 + j)
      else Ok (vandermonde_coef (ev_field ev) (ids ! j) (ev_coded_id ev))) = Ok (cs' ! j)"
  proof (intro allI impI)
    fix j assume "j < length ids"
    then show "(if has_explicit_coefs ev then index (ev_coefficients ev) (i + 1 + j)
      else Ok (vandermonde_coef (ev_field ev) (ids ! j) (ev_coded_id ev))) = Ok (cs' ! j)"
      using Cons.prems(5) [rule_format, of "Suc j"] by (auto simp: cs split: if_splits)
  qed
  have "\<exists>cm'. coef_map_loop ev (i + 1) ids ?cm = Ok cm' \<and>
      (\<forall>x. map_coef cm' x = (if x \<in> set ids then pair_coef (zip ids cs') x else map_coef ?cm x))"
    using Cons.prems(1-4) by (intro Cons.IH [OF _ _ _ _ rest]) (auto simp: cs bt_ok_insert bt_get_insert)
  then obtain cm' where cm': "coef_map_loop ev (i + 1) ids ?cm = Ok cm'"
    "\<And>x. map_coef cm' x = (if x \<in> set ids then pair_coef (zip ids cs') x else map_coef ?cm x)" by blast
  have q: "map_coef ?cm x = (if x = sid then c else map_coef cm x)" for x
    using Cons.prems(1,4) by (auto simp: map_coef_def bt_get_insert)
  have "map_coef cm' x = (if x \<in> set (sid # ids) then pair_coef (zip (sid # ids) cs) x else map_coef cm x)" for x
    unfolding cm'(2) q using Cons.prems(2) by (simp add: cs pair_coef_Cons)
  with cm'(1) show ?case unfolding coef_map_loop.simps first and_then.simps by blast
qed simp

text \<open>The coefficients of a coded packet and the encoding vector that announces them agree.\<close>

definition announces :: "EncodingVector \<Rightarrow> u32 list \<Rightarrow> bytes \<Rightarrow> bool" where
  "announces ev cover cs = (ev_source_ids ev = cover \<and> length cs = length cover \<and> ev_id_format ev = best_for cover \<and>
     (\<forall>c \<in> set cs. coef_ok (ev_field ev) c) \<and>
     (ev_coefficients ev = cs \<or> ev_coefficients ev = [] \<and> cs = map (\<lambda>s. vandermonde_coef (ev_field ev) s (ev_coded_id ev)) cover))"

lemma vandermonde_batch_eq: "vandermonde_batch f ids c = map (\<lambda>s. vandermonde_coef f s c) ids"
  using vandermonde_coef_range(2) by (cases f) simp_all

lemma coefs_and_ev_ok:
  obtains cs ev where "coefs_and_ev config cover cid g = Ok (cs, ev)" "announces ev cover cs"
    "ev_field ev = ec_field config" "ev_coded_id ev = cid"
proof (cases "ec_matrix_strategy config")
  case Vandermonde
  have "coef_ok (ec_field config) (vandermonde_coef (ec_field config) s cid)" for s
    using vandermonde_coef_range(2) by (simp add: coef_ok_def)
  with Vandermonde show ?thesis
    by (intro that) (auto simp: coefs_and_ev_def EncodingVector_vandermonde_def announces_def vandermonde_batch_eq)
next
  case Cauchy
  obtain cs where cs: "(case ec_field config of Gf2_8_field \<Rightarrow> cauchy_batch_gf2_8 cover cid g
      | Gf2_4_field \<Rightarrow> cauchy_batch_gf2_4 cover cid g) = Ok cs" "length cs = length cover"
      "\<forall>c \<in> set cs. coef_ok (ec_field config) c"
    by (cases "ec_field config") (simp_all add: cauchy_batch_gf2_8_eq cauchy_batch_gf2_4_eq coef_ok_def)
  with Cauchy show ?thesis
    by (intro that) (auto simp: coefs_and_ev_def EncodingVector_explicit_def with_generation_def announces_def)
qed

lemma announced_coefs:
  assumes "announces ev cover cs" "distinct cover"
  shows "\<exists>cm. coef_map_loop ev 0 (ev_source_ids ev) [] = Ok cm \<and> map_coef cm = pair_coef (zip cover cs)"
proof -
  note a = assms(1) [unfolded announces_def]
  have len: "length cs = length cover" and src: "ev_source_ids ev = cover" using a by blast+
  have co: "\<forall>j < length cover. (if has_explicit_coefs ev then index (ev_coefficients ev) (0 + j)
      else Ok (vandermonde_coef (ev_field ev) (cover ! j) (ev_coded_id ev))) = Ok (cs ! j)"
    using a by (auto simp: has_explicit_coefs_def index_def)
  obtain cm where cm: "coef_map_loop ev 0 cover [] = Ok cm"
    "\<And>x. map_coef cm x = (if x \<in> set cover then pair_coef (zip cover cs) x else map_coef [] x)"
    using coef_map_pairs [of "[]" cover cs ev 0] assms(2) len co by auto
  have "map_coef cm x = pair_coef (zip cover cs) x" for x
    unfolding cm(2) using len by (simp add: map_coef_def pair_coef_def map_of_zip_is_None [THEN iffD2])
  then have "map_coef cm = pair_coef (zip cover cs)" by (rule ext)
  with cm(1) src show ?thesis by blast
qed

lemma announced_equation:
  assumes "announces ev cover cs" "distinct cover" "ev_field ev = f"
    and "\<forall>k < length payload. payload ! k = comb f S (zip cover cs) k"
  shows "ev_sat f S ev payload"
proof -
  have "length cs = length cover" using assms(1) by (simp add: announces_def)
  with announced_coefs [OF assms(1,2)] assms(2,4) show ?thesis by (auto simp: ev_sat_def lin_pairs)
qed

section \<open>The invariant of the encoder\<close>

definition coded_id_ok :: "EncoderConfig \<Rightarrow> u32 \<Rightarrow> bool" where
  "coded_id_ok config cid = (case ec_matrix_strategy config of
     Vandermonde \<Rightarrow> 1 \<le> cid \<and> cid \<le> (case ec_field config of Gf2_8_field \<Rightarrow> 254 | Gf2_4_field \<Rightarrow> 14)
   | Cauchy \<Rightarrow> cid < (case ec_field config of Gf2_8_field \<Rightarrow> 128 | Gf2_4_field \<Rightarrow> 7))"

definition encoder_ok :: "('w, 'c, 'f) Encoder \<Rightarrow> bool" where
  "encoder_ok e = (encoder_config_ok (enc_config e) \<and> window_ok (enc_window e) \<and>
     win_capacity (enc_window e) = ec_window_capacity (enc_config e) \<and>
     (\<forall>s \<in> set (win_symbols (enc_window e)). length (ws_data s) = ec_symbol_size (enc_config e)) \<and>
     length (scratch e) = ec_symbol_size (enc_config e) \<and> coded_id_ok (enc_config e) (enc_next_coded_id e))"

lemma encoder_ok_new: "encoder_config_ok config \<Longrightarrow> encoder_ok (Encoder_new config w c f)"
  by (cases "ec_matrix_strategy config"; cases "ec_field config")
     (simp_all add: encoder_ok_def Encoder_new_def Let_def window_ok_new coded_id_ok_def, simp_all add: EncodingWindow_new_def)

lemma u32_succ_cases: "i \<le> n \<Longrightarrow> n \<noteq> - 1 \<Longrightarrow> i + 1 \<le> n + (1 :: u32)"
  using unat_succ [of i] unat_succ [of n] by (cases "i = - 1") (auto simp: word_le_nat_alt)

lemma advance_coded_id_ok:
  assumes "coded_id_ok (enc_config e) (enc_next_coded_id e)"
  shows "coded_id_ok (enc_config e) (enc_next_coded_id (advance_coded_id e))"
proof -
  have s: "enc_next_coded_id e \<noteq> - 1 \<Longrightarrow> unat (enc_next_coded_id e + 1) = Suc (unat (enc_next_coded_id e))"
    by (rule unat_succ)
  have m: "enc_next_coded_id e \<noteq> - 1"
    using assms by (cases "ec_matrix_strategy (enc_config e)"; cases "ec_field (enc_config e)") (auto simp: coded_id_ok_def word_le_nat_alt unsigned_minus_1_eq_mask mask_eq_exp_minus_1)
  show ?thesis
    using assms s [OF m]
    by (cases "ec_matrix_strategy (enc_config e)"; cases "ec_field (enc_config e)")
       (simp_all add: coded_id_ok_def advance_coded_id_def coded_id_cycle_def Let_def word_le_nat_alt word_less_nat_alt)
qed

lemma advance_coded_id_frame [simp]:
  "enc_config (advance_coded_id e) = enc_config e" "enc_window (advance_coded_id e) = enc_window e"
  "scratch (advance_coded_id e) = scratch e" "enc_cc (advance_coded_id e) = enc_cc e"
  "enc_fec (advance_coded_id e) = enc_fec e" "enc_policy (advance_coded_id e) = enc_policy e"
  "ack_state (advance_coded_id e) = ack_state e"
  by (simp_all add: advance_coded_id_def Let_def split: MatrixStrategy.split)

section \<open>Coded packets are true equations\<close>

text \<open>The payloads \<open>S\<close> of all source symbols ever submitted agree with the window.\<close>

definition window_agrees :: "EncodingWindow \<Rightarrow> (SourceSymbolId \<Rightarrow> bytes) \<Rightarrow> bool" where
  "window_agrees w S = (\<forall>i d. window_map w i = Some d \<longrightarrow> S i = d)"

lemma window_symbol_length:
  assumes "encoder_ok e" "window_map (enc_window e) i = Some d"
  shows "length d = ec_symbol_size (enc_config e)"
proof -
  have "\<exists>s \<in> set ss. ws_data s = d" if "symbol_map ss i = Some d" for ss
    using that by (induction ss) (auto split: if_splits)
  with assms show ?thesis by (auto simp: window_map_def encoder_ok_def)
qed

lemma compute_payload_ok:
  assumes ok: "encoder_ok e" and S: "window_agrees (enc_window e) S"
    and cover: "set cover \<subseteq> set (id_slice (enc_window e))" "length cs = length cover"
  obtains r where "compute_coded_payload_targeted disp e cover cs = Ok (e\<lparr> scratch := r \<rparr>, r)"
    "length r = ec_symbol_size (enc_config e)"
    "\<forall>k < length r. r ! k = comb (ec_field (enc_config e)) S (zip cover cs) k"
proof -
  let ?L = "length (scratch e)" and ?w = "enc_window e"
  have L: "?L = ec_symbol_size (enc_config e)" using ok by (simp add: encoder_ok_def)
  have get: "window_get ?w sid = Some (S sid) \<and> length (S sid) = ?L" if sid: "sid \<in> set cover" for sid
  proof -
    obtain d where d: "window_map ?w sid = Some d"
      using sid cover(1) window_map_None [of ?w sid] by (cases "window_map ?w sid") auto
    with S have "S sid = d" by (auto simp: window_agrees_def)
    with d window_symbol_length [OF ok d] ok L show ?thesis by (simp add: window_get_map encoder_ok_def)
  qed
  then have "\<forall>(sid, c) \<in> set (zip cover cs). window_get ?w sid = Some (S sid) \<and> length (S sid) = length (replicate ?L (0 :: u8))"
    by (auto dest: set_zip_leftD)
  from payload_loop [OF this, of disp "ec_field (enc_config e)"] obtain r where
    "for_each (payload_step disp (ec_field (enc_config e)) ?w) (replicate ?L 0) (zip cover cs) = Ok r" "length r = ?L"
    "\<forall>k < ?L. r ! k = comb (ec_field (enc_config e)) S (zip cover cs) k"
    by auto
  with L show ?thesis by (intro that [of r]) (simp_all add: compute_coded_payload_targeted_def Let_def)
qed

text \<open>The encoder while it emits: only the counters, the scratch buffer and the congestion control change.\<close>

definition emits :: "('w, 'c, 'f) Encoder \<Rightarrow> ('w, 'c, 'f) Encoder \<Rightarrow> bool" where
  "emits e e' = (enc_config e' = enc_config e \<and> enc_window e' = enc_window e \<and> ack_state e' = ack_state e \<and>
     enc_policy e' = enc_policy e \<and> enc_fec e' = enc_fec e \<and> encoder_ok e')"

context congestion_control
begin

lemma serialise_total:
  "cinv c \<Longrightarrow> ev_serialise ev = Ok bs \<Longrightarrow> \<exists>pkt. CodedPacket_serialise cid ev payload (generate_cci C c) None = Ok pkt"
  "cinv c \<Longrightarrow> \<exists>pkt. SourcePacket_serialise sid data (generate_cci C c) None = Ok pkt"
  using cci_words by (auto simp: CodedPacket_serialise_def SourcePacket_serialise_def Let_def)

lemma generate_inner:
  assumes ok: "encoder_ok e" "cinv (enc_cc e)" and S: "window_agrees (enc_window e) S"
    and cover: "set cover \<subseteq> set (id_slice (enc_window e))" "distinct cover" "cover \<noteq> []"
  obtains e' ev payload pkt where "generate_coded_inner disp C e cover = Ok (e', Some (CodedOut pkt))" "emits e e'" "cinv (enc_cc e')"
    "CodedPacket_serialise (ev_coded_id ev) ev payload (generate_cci C (enc_cc e)) None = Ok pkt"
    "ev_coded_id ev = enc_next_coded_id e" "ev_field ev = ec_field (enc_config e)"
    "\<exists>cs. announces ev cover cs \<and> coefs_and_ev (enc_config e) cover (enc_next_coded_id e) (enc_generation e) = Ok (cs, ev)"
    "length payload = ec_symbol_size (enc_config e)" "ev_sat (ec_field (enc_config e)) S ev payload"
proof -
  let ?f = "ec_field (enc_config e)" and ?e = "advance_coded_id e"
  obtain cs ev where ce: "coefs_and_ev (enc_config e) cover (enc_next_coded_id e) (enc_generation e) = Ok (cs, ev)"
    "announces ev cover cs" "ev_field ev = ?f" "ev_coded_id ev = enc_next_coded_id e"
    by (rule coefs_and_ev_ok)
  have ok1: "encoder_ok ?e" using ok(1) advance_coded_id_ok [of e] by (simp add: encoder_ok_def)
  obtain r where r: "compute_coded_payload_targeted disp ?e cover cs = Ok (?e\<lparr> scratch := r \<rparr>, r)"
    "length r = ec_symbol_size (enc_config e)" "\<forall>k < length r. r ! k = comb ?f S (zip cover cs) k"
    using compute_payload_ok [OF ok1, of S cover cs disp] S cover(1) ce(2) by (auto simp: announces_def)
  have "best_for cover = NoneFormat \<or> best_for cover = CompressedList" by (simp add: best_for_def)
  then obtain bs where "id_encode cover (best_for cover) = Ok bs"
    using cover(3) by (cases cover) (auto simp: encode_compressed_list_def index_def split_beta)
  then obtain es where "ev_serialise ev = Ok es"
    using ce(2) by (simp add: ev_serialise_def announces_def Let_def)
  then obtain pkt where pkt: "CodedPacket_serialise (ev_coded_id ev) ev r (generate_cci C (enc_cc e)) None = Ok pkt"
    using serialise_total(1) [OF ok(2)] by blast
  let ?e' = "?e\<lparr> scratch := r, enc_cc := on_send C (enc_cc e) (length pkt) \<rparr>"
  have g: "generate_coded_inner disp C e cover = Ok (?e', Some (CodedOut pkt))"
    using pkt by (simp add: generate_coded_inner_def Let_def ce r(1))
  have "emits e ?e'" using ok1 r(2) by (simp add: emits_def encoder_ok_def)
  moreover have "cinv (enc_cc ?e')" using send_keeps [OF ok(2)] by simp
  moreover have "ev_sat ?f S ev r" by (rule announced_equation [OF ce(2) cover(2) ce(3) r(3)])
  ultimately show ?thesis using g pkt ce r(2) by (intro that) auto
qed

end

section \<open>The announcement survives the wire\<close>

lemma deltas_small:
  assumes "sorted_wrt (<) (i # ids)" "\<forall>x \<in> set ids. unat x < unat i + 65536"
  shows "\<forall>d \<in> set (deltas i ids). take_bit 16 d = d"
  using assms
proof (induction ids arbitrary: i)
  case (Cons j ids)
  have ij: "unat i < unat j" using Cons.prems(1) by (simp add: word_less_nat_alt)
  then have "unat (j - i) = unat j - unat i" by (simp add: unat_sub word_le_nat_alt)
  then have "unat (j - i) < 2 ^ 16" using Cons.prems(2) ij by auto
  then have "take_bit 16 (j - i) = j - i"
    by (simp add: word_unat_eq_iff unsigned_take_bit_eq take_bit_nat_eq_self_iff)
  moreover have "\<forall>d \<in> set (deltas j ids). take_bit 16 d = d"
    using Cons.prems ij by (intro Cons.IH) (auto intro: less_trans)
  ultimately show ?case by simp
qed simp

lemma announced_fits:
  assumes "announces ev cover cs" "cover \<noteq> []" "length cover \<le> 255" "sorted_wrt (<) cover"
    and "\<forall>x \<in> set cover. unat x < unat (hd cover) + 65536"
  obtains bs where "id_encode (ev_source_ids ev) (ev_id_format ev) = Ok bs" "ev_fits ev bs"
proof -
  note a = assms(1) [unfolded announces_def]
  obtain i ids where cover: "cover = i # ids" using assms(2) by (cases cover) auto
  have d: "\<forall>d \<in> set (deltas i ids). take_bit 16 d = d"
    using assms(4,5) cover by (intro deltas_small) auto
  have cf: "ev_coefficients ev = [] \<or> length (ev_coefficients ev) = length cover"
    "ev_field ev = Gf2_4_field \<longrightarrow> (\<forall>c \<in> set (ev_coefficients ev). c < 16)"
    using a by (auto simp: coef_ok_def)
  have lb: "length (ev_coef_bits ev) \<le> length cover"
    using cf(1) by (cases "ev_field ev") (auto simp: ev_coef_bits_def has_explicit_coefs_def)
  have "\<exists>bs. id_encode cover (best_for cover) = Ok bs \<and> length bs \<le> 2 * length ids \<and> id_format_fits (best_for cover) i ids"
  proof (cases "is_contiguous cover")
    case True
    then show ?thesis by (simp add: best_for_def id_format_fits_def cover)
  next
    case False
    then obtain bs where e: "encode_compressed_list (i # ids) = Ok bs"
      by (auto simp: encode_compressed_list_def index_def split_beta)
    moreover have "length bs = 2 * length ids"
      unfolding bytes_length_bits [of bs] encode_compressed_list_bits [OF e] by simp
    ultimately show ?thesis using False d by (simp add: best_for_def id_format_fits_def cover)
  qed
  then obtain bs where bs: "id_encode cover (best_for cover) = Ok bs" "length bs \<le> 2 * length ids"
    "id_format_fits (best_for cover) i ids" by blast
  have "12 + pad32 (length bs) + pad32 (length (ev_coef_bits ev)) \<le> 1020"
    using pad32_bounds(2) [of "length bs"] pad32_bounds(2) [of "length (ev_coef_bits ev)"] bs(2) lb assms(3) cover by simp
  then have "ev_fits ev bs" using bs(3) a cf assms(3) cover by (auto simp: ev_fits_def)
  with bs(1) a show ?thesis by (intro that) auto
qed

section \<open>Operations\<close>

lemma encoder_ids:
  assumes "encoder_ok e"
  shows "sorted_wrt (<) (id_slice (enc_window e))" "distinct (id_slice (enc_window e))" "- 1 \<notin> set (id_slice (enc_window e))"
  using assms word_order.extremum_strict [of "next_id (enc_window e)"]
  by (auto simp: encoder_ok_def window_ok_def strict_sorted_iff)

context congestion_control
begin

lemma generate_coded_some:
  assumes "encoder_ok e" "cinv (enc_cc e)" "win_symbols (enc_window e) \<noteq> []"
  shows "\<exists>e' pkt. generate_coded disp C e = Ok (e', Some (CodedOut pkt)) \<and> emits e e' \<and> cinv (enc_cc e')"
proof -
  let ?S = "\<lambda>i. case window_map (enc_window e) i of Some d \<Rightarrow> d | None \<Rightarrow> []"
  have S: "window_agrees (enc_window e) ?S" by (simp add: window_agrees_def)
  have ne: "id_slice (enc_window e) \<noteq> []" using assms(3) by (simp add: id_slice_def)
  show ?thesis
    by (rule generate_inner [OF assms(1,2) S subset_refl encoder_ids(2) [OF assms(1)] ne, of disp])
       (use assms(3) in \<open>auto simp: generate_coded_def window_is_empty_def id_slice_def\<close>)
qed

lemma coded_loop_ok:
  assumes "encoder_ok e" "cinv (enc_cc e)" "win_symbols (enc_window e) \<noteq> []"
  shows "\<exists>e' pkts. coded_loop disp C n e out = Ok (e', out @ map CodedOut pkts) \<and> length pkts = n \<and>
    emits e e' \<and> cinv (enc_cc e')"
  using assms
proof (induction n arbitrary: e out)
  case 0
  then show ?case by (simp add: emits_def)
next
  case (Suc n)
  obtain e1 pkt where g: "generate_coded disp C e = Ok (e1, Some (CodedOut pkt))" "emits e e1" "cinv (enc_cc e1)"
    using generate_coded_some [OF Suc.prems] by blast
  with Suc.prems have "encoder_ok e1" "win_symbols (enc_window e1) \<noteq> []" by (auto simp: emits_def)
  from Suc.IH [OF this(1) g(3) this(2), of "out @ [CodedOut pkt]"] obtain e' pkts where
    "coded_loop disp C n e1 (out @ [CodedOut pkt]) = Ok (e', (out @ [CodedOut pkt]) @ map CodedOut pkts)"
    "length pkts = n" "emits e1 e'" "cinv (enc_cc e')" by blast
  with g(1,2) show ?case by (intro exI [of _ e'] exI [of _ "pkt # pkts"]) (auto simp: emits_def)
qed

end

lemma push_data_length:
  "s \<in> set (win_symbols (fst (window_push w data))) \<Longrightarrow> s \<in> set (win_symbols w) \<or> ws_data s = data"
  by (auto simp: window_push_def Let_def split: option.splits if_splits)

text \<open>The window after room was made for one more symbol.\<close>

definition make_room :: "('w, 'c, 'f) Encoder \<Rightarrow> EncodingWindow" where
  "make_room e = (if is_full (enc_window e) then evict_oldest (enc_window e) else enc_window e)"

lemma make_room_ok:
  assumes "encoder_ok e"
  shows "window_ok (make_room e)" "\<not> is_full (make_room e)" "win_capacity (make_room e) = win_capacity (enc_window e)"
    "next_id (make_room e) = next_id (enc_window e)" "set (win_symbols (make_room e)) \<subseteq> set (win_symbols (enc_window e))"
proof -
  have c: "0 < win_capacity (enc_window e)" "length (win_symbols (enc_window e)) \<le> win_capacity (enc_window e)"
    using assms by (auto simp: encoder_ok_def encoder_config_ok_def window_ok_def)
  show "\<not> is_full (make_room e)"
    using c by (cases "win_symbols (enc_window e)") (auto simp: make_room_def is_full_def evict_oldest_def)
  show "set (win_symbols (make_room e)) \<subseteq> set (win_symbols (enc_window e))"
    by (auto simp: make_room_def evict_oldest_def dest: list.set_sel(2) [rotated] intro: list.set_sel(2))
qed (use assms in \<open>auto simp: make_room_def encoder_ok_def intro: window_ok_evict\<close>)

context congestion_control
begin

lemma submit_ok:
  assumes ok: "encoder_ok e" "cinv (enc_cc e)" and len: "length data = ec_symbol_size (enc_config e)"
    and room: "is_full (enc_window e) \<longrightarrow> ec_backpressure (enc_config e) = EvictOldest"
    and nid: "next_id (enc_window e) \<noteq> - 1"
  obtains e' pkt pkts where "submit_source disp C F e data = Ok (e', SourceOut pkt # map CodedOut pkts)"
    "SourcePacket_serialise (next_id (enc_window e)) data (generate_cci C (enc_cc e)) None = Ok pkt"
    "encoder_ok e'" "cinv (enc_cc e')" "enc_window e' = fst (window_push (make_room e) data)"
    "length pkts = snd (coded_packets_to_generate F (enc_fec e)
       (make_encoder_state (enc_window e') (ec_window_capacity (enc_config e))))"
    "enc_fec e' = fst (coded_packets_to_generate F (enc_fec e)
       (make_encoder_state (enc_window e') (ec_window_capacity (enc_config e))))"
proof -
  note m = make_room_ok [OF ok(1)]
  let ?w = "fst (window_push (make_room e) data)"
  let ?st = "make_encoder_state ?w (ec_window_capacity (enc_config e))"
  obtain pkt where pkt: "SourcePacket_serialise (next_id (enc_window e)) data (generate_cci C (enc_cc e)) None = Ok pkt"
    using serialise_total(2) [OF ok(2)] by blast
  let ?e = "e\<lparr> enc_window := ?w, enc_cc := on_send C (enc_cc e) (length pkt),
    enc_fec := fst (coded_packets_to_generate F (enc_fec e) ?st) \<rparr>"
  let ?n = "snd (coded_packets_to_generate F (enc_fec e) ?st)"
  have "window_ok ?w" by (rule window_ok_push [OF m(1,2)]) (simp add: m(4) nid)
  then have ok': "encoder_ok ?e"
    using ok(1) len m(3,5) by (auto simp: encoder_ok_def dest!: push_data_length)
  have "win_symbols (enc_window ?e) \<noteq> []" by (simp add: window_push_def Let_def)
  from coded_loop_ok [OF ok' _ this, of disp ?n "[SourceOut pkt]"] obtain e' pkts where
    L: "coded_loop disp C ?n ?e [SourceOut pkt] = Ok (e', SourceOut pkt # map CodedOut pkts)" "length pkts = ?n"
      "emits ?e e'" "cinv (enc_cc e')" using send_keeps [OF ok(2)] by auto
  have "(if is_full (enc_window e) then (case ec_backpressure (enc_config e) of
          Reject \<Rightarrow> Err (WindowFull (ec_window_capacity (enc_config e)))
        | EvictOldest \<Rightarrow> Ok (evict_oldest (enc_window e))) else Ok (enc_window e)) = Ok (make_room e)"
    using room by (simp add: make_room_def)
  moreover have "window_push (make_room e) data = (?w, next_id (enc_window e))"
    by (simp add: prod_eq_iff m(4))
  ultimately have "submit_source disp C F e data = Ok (e', SourceOut pkt # map CodedOut pkts)"
    using len pkt L(1) by (simp add: submit_source_def Let_def split_beta m(4))
  then show ?thesis using pkt L(2-4) by (intro that) (auto simp: emits_def)
qed

end

context congestion_control
begin

text \<open>A packet generated for any ascending selection of the window, parsed again, is a true equation.\<close>

lemma generate_inner_true:
  assumes ok: "encoder_ok e" "cinv (enc_cc e)" and S: "window_agrees (enc_window e) S"
    and cover: "set cover \<subseteq> set (id_slice (enc_window e))" "sorted_wrt (<) cover" "cover \<noteq> []" "length cover \<le> 255"
      "\<forall>i \<in> set cover. unat i < unat (hd cover) + 65536"
  obtains e' pkt p where "generate_coded_inner disp C e cover = Ok (e', Some (CodedOut pkt))" "emits e e'" "cinv (enc_cc e')"
    "CodedPacket_parse pkt = Ok p" "coded_symbol_id p = enc_next_coded_id e" "ev_source_ids (cp_ev p) = cover"
    "ev_ok (ec_field (enc_config e)) (cp_ev p)" "length (cp_payload p) = ec_symbol_size (enc_config e)"
    "ev_sat (ec_field (enc_config e)) S (cp_ev p) (cp_payload p)"
    "\<exists>cs. coefs_and_ev (enc_config e) cover (enc_next_coded_id e) (enc_generation e) = Ok (cs, cp_ev p)"
proof -
  let ?f = "ec_field (enc_config e)"
  have dist: "distinct cover" using cover(2) by (simp add: strict_sorted_iff)
  obtain e' ev payload pkt cs where g: "generate_coded_inner disp C e cover = Ok (e', Some (CodedOut pkt))" "emits e e'"
    "cinv (enc_cc e')" "CodedPacket_serialise (ev_coded_id ev) ev payload (generate_cci C (enc_cc e)) None = Ok pkt"
    "ev_coded_id ev = enc_next_coded_id e" "ev_field ev = ?f" "announces ev cover cs"
    "length payload = ec_symbol_size (enc_config e)" "ev_sat ?f S ev payload"
    "coefs_and_ev (enc_config e) cover (enc_next_coded_id e) (enc_generation e) = Ok (cs, ev)"
    using generate_inner [OF ok S cover(1) dist cover(3), of disp] by metis
  obtain bs where "id_encode (ev_source_ids ev) (ev_id_format ev) = Ok bs" "ev_fits ev bs"
    by (rule announced_fits [OF g(7) cover(3,4,2,5)])
  from coded_parse_serialise [OF this g(4)] obtain p where
    p: "CodedPacket_parse pkt = Ok p" "coded_symbol_id p = ev_coded_id ev" "cp_ev p = ev" "cp_payload p = payload" by force
  have "- 1 \<notin> set cover" using encoder_ids(3) [OF ok(1)] cover(1) by blast
  then have "ev_ok ?f ev" using g(6,7) by (auto simp: ev_ok_def announces_def has_explicit_coefs_def)
  then show ?thesis using g(1-3,5,7-10) p by (intro that) (auto simp: announces_def)
qed

lemma generate_coded_true:
  assumes ok: "encoder_ok e" "cinv (enc_cc e)" and S: "window_agrees (enc_window e) S"
    and win: "win_symbols (enc_window e) \<noteq> []" "length (win_symbols (enc_window e)) \<le> 255"
      "\<forall>i \<in> set (id_slice (enc_window e)). unat i < unat (hd (id_slice (enc_window e))) + 65536"
  obtains e' pkt p where "generate_coded disp C e = Ok (e', Some (CodedOut pkt))" "emits e e'" "cinv (enc_cc e')"
    "CodedPacket_parse pkt = Ok p" "coded_symbol_id p = enc_next_coded_id e" "ev_source_ids (cp_ev p) = id_slice (enc_window e)"
    "ev_ok (ec_field (enc_config e)) (cp_ev p)" "length (cp_payload p) = ec_symbol_size (enc_config e)"
    "ev_sat (ec_field (enc_config e)) S (cp_ev p) (cp_payload p)"
proof -
  have ne: "id_slice (enc_window e) \<noteq> []" "length (id_slice (enc_window e)) \<le> 255"
    using win(1,2) by (simp_all add: id_slice_def)
  have "generate_coded disp C e = generate_coded_inner disp C e (id_slice (enc_window e))"
    using win(1) by (simp add: generate_coded_def window_is_empty_def id_slice_def)
  then show ?thesis
    using generate_inner_true [OF ok S subset_refl encoder_ids(1) [OF ok(1)] ne win(3), of disp] that by metis
qed

end

lemma handle_feedback_window:
  "enc_window (handle_feedback W C F e rid pkt) = remove_ids (enc_window e)
     (snd (symbols_to_remove W (enc_policy e) (ack_update (ack_state e) rid pkt) (id_slice (enc_window e))))"
  by (auto simp: handle_feedback_def Let_def split_beta remove_ids_def)

lemma handle_feedback_ok:
  assumes "encoder_ok e"
  shows "encoder_ok (handle_feedback W C F e rid pkt)"
proof -
  let ?e = "handle_feedback W C F e rid pkt"
  have frame: "enc_config ?e = enc_config e" "scratch ?e = scratch e" "enc_next_coded_id ?e = enc_next_coded_id e"
    by (simp_all add: handle_feedback_def Let_def split_beta)
  have sub: "set (win_symbols (remove_ids w ids)) \<subseteq> set (win_symbols w)" for w ids
    by (auto simp: remove_ids_def Let_def)
  show ?thesis
    using assms sub [THEN subsetD] unfolding encoder_ok_def frame handle_feedback_window
    by (auto simp: window_ok_remove)
qed

section \<open>Properties\<close>

text \<open>A small encoder for the witnesses: symbols of one byte, a window of two of four.\<close>

abbreviation small_config :: EncoderConfig where
  "small_config \<equiv> \<lparr> ec_symbol_size = 1, ec_window_capacity = 4, ec_field = Gf2_8_field, ec_fec_numer = 1,
     ec_fec_denom = 4, ec_backpressure = Reject, ec_matrix_strategy = Vandermonde \<rparr>"

abbreviation small_encoder :: "(unit, unit, ConstantFec) Encoder" where
  "small_encoder \<equiv> (Encoder_new small_config () () \<lparr> fec_numer = 1, fec_denom = 4, fec_acc = 0 \<rparr>)
     \<lparr> enc_window := \<lparr> win_symbols = [\<lparr> ws_id = 0, ws_data = [7] \<rparr>, \<lparr> ws_id = 1, ws_data = [9] \<rparr>],
        win_capacity = 4, next_id = 2, win_is_contiguous = True \<rparr> \<rparr>"

lemma small_encoder_ok: "encoder_ok small_encoder"
  by (simp add: encoder_ok_def Encoder_new_def encoder_config_ok_def window_ok_def id_slice_def check_contiguous_def
      coded_id_ok_def)

text \<open>C17: every coded packet the encoder emits is a true equation. In any state that satisfies the encoder
  invariant, with a window of at most 255 symbols whose identifiers span less than \<open>2 ^ 16\<close>, generating
  a coded packet succeeds and keeps the invariant; the packet parses; its encoding vector covers exactly the
  window, is well-formed for the field of the encoder, and its payload is the linear combination of the
  window's symbols that the encoding vector announces.\<close>

theorem coded_packets_are_true:
  assumes "congestion_control C cinv" "encoder_ok e" "cinv (enc_cc e)" "window_agrees (enc_window e) S"
    and "win_symbols (enc_window e) \<noteq> []" "length (win_symbols (enc_window e)) \<le> 255"
    and "\<forall>i \<in> set (id_slice (enc_window e)). unat i < unat (hd (id_slice (enc_window e))) + 65536"
  shows "\<exists>e' pkt p. generate_coded disp C e = Ok (e', Some (CodedOut pkt)) \<and> encoder_ok e' \<and> CodedPacket_parse pkt = Ok p \<and>
    coded_symbol_id p = enc_next_coded_id e \<and> ev_source_ids (cp_ev p) = id_slice (enc_window e) \<and>
    ev_ok (ec_field (enc_config e)) (cp_ev p) \<and> length (cp_payload p) = ec_symbol_size (enc_config e) \<and>
    ev_sat (ec_field (enc_config e)) S (cp_ev p) (cp_payload p)"
proof -
  obtain e' pkt p where "generate_coded disp C e = Ok (e', Some (CodedOut pkt))" "emits e e'" "cinv (enc_cc e')"
    "CodedPacket_parse pkt = Ok p" "coded_symbol_id p = enc_next_coded_id e" "ev_source_ids (cp_ev p) = id_slice (enc_window e)"
    "ev_ok (ec_field (enc_config e)) (cp_ev p)" "length (cp_payload p) = ec_symbol_size (enc_config e)"
    "ev_sat (ec_field (enc_config e)) S (cp_ev p) (cp_payload p)"
    by (rule congestion_control.generate_coded_true [OF assms])
  then show ?thesis by (auto simp: emits_def)
qed

theorem coded_packets_are_true_witness:
  "\<exists>e' pkt p. generate_coded Ssse3 NoCongestionControl small_encoder = Ok (e', Some (CodedOut pkt)) \<and>
     CodedPacket_parse pkt = Ok p \<and> ev_source_ids (cp_ev p) = [0, 1] \<and>
     ev_sat Gf2_8_field (\<lambda>i. if i = 0 then [7] else [9]) (cp_ev p) (cp_payload p)"
proof -
  have S: "window_agrees (enc_window small_encoder) (\<lambda>i. if i = 0 then [7] else [9])"
    by (auto simp: window_agrees_def window_map_def split: if_splits)
  have n: "\<forall>i \<in> set (id_slice (enc_window small_encoder)). unat i < unat (hd (id_slice (enc_window small_encoder))) + 65536"
    by (simp add: id_slice_def)
  show ?thesis
    using coded_packets_are_true [OF no_cc.congestion_control_axioms small_encoder_ok TrueI S _ _ n, of Ssse3]
    by (fastforce simp: id_slice_def Encoder_new_def)
qed

text \<open>C22: submitting a source symbol. A symbol of the wrong size and, under the rejecting policy, a full window
  are errors; otherwise (as long as identifiers are left) the encoder accepts the symbol: the first output is
  a source packet that parses to the next identifier and the data, followed by as many coded packets as the
  rate controller asked for; the symbol is bound in the window, the oldest one having made room if needed;
  and the invariant is kept.\<close>

theorem submit_source_correct:
  assumes "congestion_control C cinv" "encoder_ok e" "cinv (enc_cc e)" "next_id (enc_window e) \<noteq> - 1"
  shows "if length data \<noteq> ec_symbol_size (enc_config e)
    then submit_source disp C F e data = Err (SymbolSizeMismatch (ec_symbol_size (enc_config e)) (length data))
    else if is_full (enc_window e) \<and> ec_backpressure (enc_config e) = Reject
    then submit_source disp C F e data = Err (WindowFull (ec_window_capacity (enc_config e)))
    else \<exists>e' pkt pkts p. submit_source disp C F e data = Ok (e', SourceOut pkt # map CodedOut pkts) \<and>
      SourcePacket_parse pkt = Ok p \<and> source_symbol_id p = next_id (enc_window e) \<and> sp_payload p = data \<and>
      encoder_ok e' \<and> window_map (enc_window e') = (window_map (make_room e))(next_id (enc_window e) \<mapsto> data) \<and>
      length pkts = snd (coded_packets_to_generate F (enc_fec e)
        (make_encoder_state (enc_window e') (ec_window_capacity (enc_config e))))"
proof (cases "length data \<noteq> ec_symbol_size (enc_config e) \<or> is_full (enc_window e) \<and> ec_backpressure (enc_config e) = Reject")
  case True
  then show ?thesis by (auto simp: submit_source_def)
next
  case False
  then have room: "length data = ec_symbol_size (enc_config e)"
      "is_full (enc_window e) \<longrightarrow> ec_backpressure (enc_config e) = EvictOldest"
    by (auto intro: BackpressureMode.exhaust)
  obtain e' pkt pkts where s: "submit_source disp C F e data = Ok (e', SourceOut pkt # map CodedOut pkts)"
    "SourcePacket_serialise (next_id (enc_window e)) data (generate_cci C (enc_cc e)) None = Ok pkt"
    "encoder_ok e'" "enc_window e' = fst (window_push (make_room e) data)"
    "length pkts = snd (coded_packets_to_generate F (enc_fec e)
       (make_encoder_state (enc_window e') (ec_window_capacity (enc_config e))))"
    using congestion_control.submit_ok [OF assms(1-3) room assms(4), of disp F] by metis
  from source_parse_serialise [OF s(2)] obtain p where
    "SourcePacket_parse pkt = Ok p" "source_symbol_id p = next_id (enc_window e)" "sp_payload p = data" by force
  moreover have "window_map (enc_window e') = (window_map (make_room e))(next_id (enc_window e) \<mapsto> data)"
    using window_map_push [OF make_room_ok(1) [OF assms(2)], of data] s(4) by (simp add: make_room_ok(4) [OF assms(2)])
  ultimately show ?thesis using s False by auto
qed

theorem submit_source_correct_witness:
  "\<exists>e' pkt pkts p. submit_source Scalar NoCongestionControl ConstantFecRate small_encoder [5] =
       Ok (e', SourceOut pkt # map CodedOut pkts) \<and>
     SourcePacket_parse pkt = Ok p \<and> source_symbol_id p = 2 \<and> sp_payload p = [5]"
proof -
  have "next_id (enc_window small_encoder) \<noteq> - 1" by simp
  from submit_source_correct [OF no_cc.congestion_control_axioms small_encoder_ok TrueI this, of "[5]" Scalar ConstantFecRate]
  show ?thesis by (auto simp: Encoder_new_def is_full_def)
qed

text \<open>C23: feedback never makes the encoder forget a symbol that no receiver has: under a window policy that
  keeps its contract, a symbol that no receiver has acknowledged once the packet is counted stays in the
  window, nothing is added, and the invariant is kept.\<close>

theorem feedback_keeps_unacked:
  assumes "window_policy W winv" "winv (enc_policy e)" "encoder_ok e"
    and "\<forall>r. \<not> ack_is_acked (ack_update (ack_state e) rid pkt) r i"
  shows "window_map (enc_window (handle_feedback W C F e rid pkt)) i = window_map (enc_window e) i \<and>
    window_map (enc_window (handle_feedback W C F e rid pkt)) \<subseteq>\<^sub>m window_map (enc_window e) \<and>
    encoder_ok (handle_feedback W C F e rid pkt)"
  using window_policy.unacked_stay [OF assms(1,2)] assms(4) handle_feedback_ok [OF assms(3)]
  by (auto simp: handle_feedback_window window_map_remove restrict_map_def map_le_def)

theorem feedback_keeps_unacked_witness:
  "window_map (enc_window (handle_feedback AllAckPolicy NoCongestionControl ConstantFecRate small_encoder 1
     \<lparr> fb_tsi = None, nb_missing_src = 0, nb_not_used_coded = 0, first_src_id = 1, plr_raw = 0, sack = [] \<rparr>)) 1 = Some [9]"
proof -
  let ?p = "\<lparr> fb_tsi = None, nb_missing_src = 0, nb_not_used_coded = 0, first_src_id = 1, plr_raw = 0, sack = [] \<rparr>"
  have "\<forall>r. \<not> ack_is_acked (ack_update (ack_state small_encoder) 1 ?p) r 1"
    by (simp add: ack_is_acked_def ack_update_def entry_update_def acked_ids_def advance.simps Encoder_new_def
        ReceiverAckState_default_def ReceiverEntry_default_def Let_def)
  from feedback_keeps_unacked [OF all_ack.window_policy_axioms TrueI small_encoder_ok this]
  show ?thesis by (simp add: window_map_def)
qed

end
