(* ===== verification/Matrix_Columns.thy ===== *)
theory Matrix_Columns
  imports Matrix_Correct
begin

text \<open>
  Which columns occur in the decoding matrix: a symbol that is known or was recovered occurs in no
  stored row, and a symbol that no encoding vector has mentioned does not either. With the echelon
  form this gives the exact set of symbols the decoder can recover.
\<close>

definition row_clear :: "SourceSymbolId \<Rightarrow> MatrixRow \<Rightarrow> bool" where
  "row_clear j row = (dense_get (row_coefs row) j = 0)"

definition dense_rows :: "(SourceSymbolId, MatrixRow) btree \<Rightarrow> bool" where
  "dense_rows rows = (\<forall>p \<in> set rows. dense_ok (row_coefs (snd p)))"

definition col_clear :: "SourceSymbolId \<Rightarrow> (SourceSymbolId, MatrixRow) btree \<Rightarrow> bool" where
  "col_clear j rows = (\<forall>p \<in> set rows. row_clear j (snd p))"

lemma clear_simps [simp]:
  "dense_rows []" "dense_rows (p # rows) = (dense_ok (row_coefs (snd p)) \<and> dense_rows rows)"
  "col_clear j []" "col_clear j (p # rows) = (row_clear j (snd p) \<and> col_clear j rows)"
  by (auto simp: dense_rows_def col_clear_def)

lemma clear_subset: "set rows' \<subseteq> set rows \<Longrightarrow> col_clear j rows \<Longrightarrow> col_clear j rows'"
  "set rows' \<subseteq> set rows \<Longrightarrow> dense_rows rows \<Longrightarrow> dense_rows rows'"
  by (auto simp: col_clear_def dense_rows_def)

lemma set_bt_remove: "set (bt_remove m k) \<subseteq> set m"
  by (induction m) (auto split: if_splits)

lemma set_bt_insert: "set (bt_insert m k v) \<subseteq> insert (k, v) (set m)"
  by (induction m k v rule: bt_insert.induct) auto

lemma clear_insert:
  "row_clear j row \<Longrightarrow> col_clear j rows \<Longrightarrow> col_clear j (bt_insert rows k row)"
  "dense_ok (row_coefs row) \<Longrightarrow> dense_rows rows \<Longrightarrow> dense_rows (bt_insert rows k row)"
  using set_bt_insert [of rows k row] by (auto simp: col_clear_def dense_rows_def)

lemmas clear_remove = clear_subset [OF set_bt_remove]

section \<open>Substitution\<close>

lemma substitute_rows_clear:
  "substitute_rows disp f sid data rows = Ok (rows', ns) \<Longrightarrow> dense_rows rows \<Longrightarrow>
     dense_rows rows' \<and> col_clear sid rows' \<and> (\<forall>j. col_clear j rows \<longrightarrow> col_clear j rows')"
proof (induction rows arbitrary: rows' ns)
  case (Cons p rows)
  obtain k row where p: "p = (k, row)" by fastforce
  from Cons.prems(1) obtain rows1 ns1 row1 where s: "substitute_rows disp f sid data rows = Ok (rows1, ns1)"
    "rows' = (k, row1) # rows1" "row_coefs row1 = (if dense_get (row_coefs row) sid = 0 then row_coefs row else dense_remove (row_coefs row) sid)"
    by (auto simp: p Let_def split: if_splits)
  from Cons.IH [OF s(1)] Cons.prems(2) s(2,3) show ?case by (auto simp: p row_clear_def)
qed simp

lemma extract_solved_subset:
  "extract_solved ns kn rows queue rec = (rows', queue', rec') \<Longrightarrow> set rows' \<subseteq> set rows"
proof (induction ns kn rows queue rec rule: extract_solved.induct)
  case (2 s ns kn rows queue rec)
  then show ?case using set_bt_remove [of rows s] by (cases "bt_get rows s") auto
qed simp

lemma extract_solved_fresh:
  "extract_solved ns kn rows queue rec = (rows', queue', rec') \<Longrightarrow>
   fst ` set queue \<subseteq> fst ` set queue' \<and> fst ` set rec' \<subseteq> fst ` set rec \<union> fst ` set queue' \<union> set (bt_keys kn)"
proof (induction ns kn rows queue rec arbitrary: rows' queue' rec' rule: extract_solved.induct)
  case (2 s ns kn rows queue rec)
  show ?case
  proof (cases "bt_get rows s")
    case None
    with 2 show ?thesis by simp
  next
    case (Some row)
    let ?q = "if bt_contains_key kn s then queue else queue @ [(s, row_payload row)]"
    have "extract_solved ns kn (bt_remove rows s) ?q (rec @ [(s, row_payload row)]) = (rows', queue', rec')"
      using 2(3) Some by simp
    from "2.IH"(2) [OF Some this] show ?thesis
      by (auto simp: bt_contains_key_def bt_get_None_iff [symmetric] split: if_splits option.splits)
  qed
qed auto

text \<open>The work queue: whatever is known, queued or already absent is absent in the end, and so is
  whatever was recovered.\<close>

lemma known_loop_clear:
  assumes "known_loop disp f rows queue kn rec = Ok (rows', rec')" "dense_rows rows"
    and "\<forall>i \<in> set (bt_keys kn). i \<in> fst ` set queue \<or> col_clear i rows"
    and "\<forall>i \<in> fst ` set rec. i \<in> fst ` set queue \<or> col_clear i rows"
  shows "dense_rows rows' \<and> (\<forall>i. i \<in> fst ` set queue \<or> col_clear i rows \<longrightarrow> col_clear i rows') \<and>
    (\<forall>i \<in> fst ` set rec'. col_clear i rows')"
  using assms
proof (induction disp f rows queue kn rec rule: known_loop.induct)
  case (2 disp f rows sid data queue kn rec)
  from "2.prems"(1) obtain rows1 ns where s: "substitute_rows disp f sid data rows = Ok (rows1, ns)"
    by (auto simp: known_loop.simps(2) split: res.splits)
  obtain rows2 q2 rec2 where x: "extract_solved ns (bt_insert kn sid data) rows1 queue rec = (rows2, q2, rec2)" by (metis prod_cases3)
  have loop: "known_loop disp f rows2 q2 (bt_insert kn sid data) rec2 = Ok (rows', rec')"
    using "2.prems"(1) s x by (simp add: known_loop.simps(2))
  note c1 = substitute_rows_clear [OF s "2.prems"(2)]
  note sub = clear_subset [OF extract_solved_subset [OF x]]
  note fresh = extract_solved_fresh [OF x]
  have clear2: "i \<in> fst ` set q2 \<or> col_clear i rows2" if "i = sid \<or> i \<in> fst ` set queue \<or> col_clear i rows" for i
    using that c1 sub(1) fresh by blast
  have kn: "set (bt_keys (bt_insert kn sid data)) = insert sid (set (bt_keys kn))" by (simp add: set_bt_keys_insert)
  have head: "i = sid \<or> i \<in> fst ` set queue" if "i \<in> fst ` set ((sid, data) # queue)" for i using that by auto
  have known2: "\<forall>i \<in> set (bt_keys (bt_insert kn sid data)). i \<in> fst ` set q2 \<or> col_clear i rows2"
  proof
    fix i assume "i \<in> set (bt_keys (bt_insert kn sid data))"
    then have "i = sid \<or> i \<in> set (bt_keys kn)" by (simp add: kn)
    then have "i = sid \<or> i \<in> fst ` set queue \<or> col_clear i rows" using "2.prems"(3) head by metis
    then show "i \<in> fst ` set q2 \<or> col_clear i rows2" by (rule clear2)
  qed
  moreover have "\<forall>i \<in> fst ` set rec2. i \<in> fst ` set q2 \<or> col_clear i rows2"
  proof
    fix i assume i: "i \<in> fst ` set rec2"
    show "i \<in> fst ` set q2 \<or> col_clear i rows2"
    proof (cases "i \<in> fst ` set rec")
      case True
      then have "i = sid \<or> i \<in> fst ` set queue \<or> col_clear i rows" using "2.prems"(4) head by metis
      then show ?thesis by (rule clear2)
    next
      case False
      with i fresh have "i \<in> fst ` set q2 \<or> i \<in> set (bt_keys (bt_insert kn sid data))" by blast
      with known2 show ?thesis by blast
    qed
  qed
  moreover have "dense_rows rows2" using c1 sub(2) by blast
  ultimately have "dense_rows rows' \<and> (\<forall>i. i \<in> fst ` set q2 \<or> col_clear i rows2 \<longrightarrow> col_clear i rows') \<and>
      (\<forall>i \<in> fst ` set rec'. col_clear i rows')"
    by (intro "2.IH" [OF s refl refl x [symmetric] refl refl loop])
  then show ?case using clear2 head by metis
qed auto

lemma add_known_source_clear:
  assumes "add_known_source disp m sid data kn = Ok (m', rec)" "dense_rows (dm_rows m)"
    and "\<forall>i \<in> set (bt_keys kn). i = sid \<or> col_clear i (dm_rows m)"
  shows "dense_rows (dm_rows m')" "\<And>i. i = sid \<or> col_clear i (dm_rows m) \<Longrightarrow> col_clear i (dm_rows m')"
    "\<And>i. i \<in> fst ` set rec \<Longrightarrow> col_clear i (dm_rows m')"
proof -
  from assms(1) obtain rows where k: "known_loop disp (dm_field m) (dm_rows m) [(sid, data)] kn [] = Ok (rows, rec)"
    "m' = m\<lparr> dm_rows := rows \<rparr>" by (auto simp: add_known_source_def)
  from known_loop_clear [OF k(1) assms(2)] assms(3) k(2)
  show "dense_rows (dm_rows m')" "\<And>i. i = sid \<or> col_clear i (dm_rows m) \<Longrightarrow> col_clear i (dm_rows m')"
    "\<And>i. i \<in> fst ` set rec \<Longrightarrow> col_clear i (dm_rows m')" by auto
qed

section \<open>Elimination\<close>

lemma for_each_inv:
  "for_each f s xs = Ok s' \<Longrightarrow> I s \<Longrightarrow> (\<And>s x s'. x \<in> set xs \<Longrightarrow> I s \<Longrightarrow> f s x = Ok s' \<Longrightarrow> I s') \<Longrightarrow> I s'"
proof (induction xs arbitrary: s)
  case (Cons x xs)
  from Cons.prems(1) obtain s1 where s1: "f s x = Ok s1" "for_each f s1 xs = Ok s'" by auto
  have "I s1" using Cons.prems(2,3) s1(1) by (metis list.set_intros(1))
  with s1(2) show ?case by (rule Cons.IH) (use Cons.prems(3) in auto)
qed simp

lemma row_subtract_clear:
  assumes "row_subtract_scaled disp r q c f = Ok r'" "dense_ok (row_coefs r)" "dense_ok (row_coefs q)"
  shows "dense_ok (row_coefs r')" "row_clear j r \<Longrightarrow> row_clear j q \<Longrightarrow> row_clear j r'"
proof -
  obtain d where d: "dense_subtract_scaled disp (row_coefs r) (row_coefs q) c f = Ok d" "dense_ok d"
      "\<And>i. dense_get d i = dense_get (row_coefs r) i XOR byte_mul f (dense_get (row_coefs q) i) c"
    by (rule dense_subtract_scaled_get [OF assms(2,3)]) blast
  from assms(1) d(1) have "row_coefs r' = d" by (auto simp: row_subtract_scaled_def)
  with d(2,3) show "dense_ok (row_coefs r')" "row_clear j r \<Longrightarrow> row_clear j q \<Longrightarrow> row_clear j r'"
    by (simp_all add: row_clear_def)
qed

lemma clear_get:
  assumes "bt_get rows k = Some row"
  shows "dense_rows rows \<Longrightarrow> dense_ok (row_coefs row)" "col_clear j rows \<Longrightarrow> row_clear j row"
  using bt_get_Some_mem [OF assms] by (auto simp: dense_rows_def col_clear_def)

lemma forward_eliminate_clear:
  assumes "forward_eliminate disp m row = Ok row'" "dense_ok (row_coefs row)" "dense_rows (dm_rows m)"
  shows "dense_ok (row_coefs row') \<and> (col_clear j (dm_rows m) \<longrightarrow> row_clear j row \<longrightarrow> row_clear j row')"
  using assms(1) unfolding forward_eliminate_def
proof (rule for_each_inv)
  show "dense_ok (row_coefs row) \<and> (col_clear j (dm_rows m) \<longrightarrow> row_clear j row \<longrightarrow> row_clear j row)" using assms(2) by simp
next
  fix s pid s'
  assume "dense_ok (row_coefs s) \<and> (col_clear j (dm_rows m) \<longrightarrow> row_clear j row \<longrightarrow> row_clear j s)"
    and "(let c = dense_get (row_coefs s) pid in if c = 0 then Ok s
        else case bt_get (dm_rows m) pid of None \<Rightarrow> Panic
          | Some existing \<Rightarrow> row_subtract_scaled disp s existing c (dm_field m)) = Ok s'"
  then show "dense_ok (row_coefs s') \<and> (col_clear j (dm_rows m) \<longrightarrow> row_clear j row \<longrightarrow> row_clear j s')"
    using row_subtract_clear clear_get assms(3) by (auto simp: Let_def split: if_splits option.splits)
qed

lemma back_substitute_clear:
  assumes "back_substitute disp m p new = Ok m'" "dense_ok (row_coefs new)" "dense_rows (dm_rows m)"
  shows "dense_rows (dm_rows m') \<and> (row_clear j new \<longrightarrow> col_clear j (dm_rows m) \<longrightarrow> col_clear j (dm_rows m'))"
  using assms(1) unfolding back_substitute_def
proof (rule for_each_inv)
  show "dense_rows (dm_rows m) \<and> (row_clear j new \<longrightarrow> col_clear j (dm_rows m) \<longrightarrow> col_clear j (dm_rows m))" using assms(3) by simp
next
  fix s pid s'
  assume I: "dense_rows (dm_rows s) \<and> (row_clear j new \<longrightarrow> col_clear j (dm_rows m) \<longrightarrow> col_clear j (dm_rows s))"
    and e: "(case bt_get (dm_rows s) pid of None \<Rightarrow> Panic
      | Some row \<Rightarrow> let c = dense_get (row_coefs row) p in if c = 0 then Ok s
          else and_then (row_subtract_scaled disp row new c (dm_field s)) (\<lambda>row.
            Ok (s\<lparr> dm_rows := bt_insert (dm_rows s) pid row \<rparr>))) = Ok s'"
  from e obtain row where row: "bt_get (dm_rows s) pid = Some row" by (auto split: option.splits)
  note g = clear_get [OF row]
  show "dense_rows (dm_rows s') \<and> (row_clear j new \<longrightarrow> col_clear j (dm_rows m) \<longrightarrow> col_clear j (dm_rows s'))"
  proof (cases "s' = s")
    case False
    with e row obtain row' where row': "row_subtract_scaled disp row new (dense_get (row_coefs row) p) (dm_field s) = Ok row'"
      "s' = s\<lparr> dm_rows := bt_insert (dm_rows s) pid row' \<rparr>" by (auto simp: Let_def split: if_splits)
    from row_subtract_clear [OF row'(1) _ assms(2)] I g row'(2) show ?thesis by (auto simp: clear_insert)
  next
    case True
    with I show ?thesis by simp
  qed
qed

lemma normalize_clear:
  "normalize disp r f = Ok r' \<Longrightarrow> dense_ok (row_coefs r) \<Longrightarrow> dense_ok (row_coefs r') \<and> (row_clear j r \<longrightarrow> row_clear j r')"
  by (auto simp: normalize_def row_clear_def split: option.splits if_splits)

lemma substitute_known_clear:
  "substitute_known disp f row kn = Ok row' \<Longrightarrow> dense_ok (row_coefs row) \<Longrightarrow>
     dense_ok (row_coefs row') \<and> (row_clear j row \<or> j \<in> set (bt_keys kn) \<longrightarrow> row_clear j row')"
proof (induction kn arbitrary: row)
  case (Cons p kn)
  obtain sid data where p: "p = (sid, data)" by fastforce
  from Cons.prems(1) obtain row1 where s: "substitute_known disp f row1 kn = Ok row'"
    "row_coefs row1 = (if dense_get (row_coefs row) sid = 0 then row_coefs row else dense_remove (row_coefs row) sid)"
    by (auto simp: p substitute_known_def Let_def split: if_splits)
  from Cons.IH [OF s(1)] Cons.prems(2) s(2) show ?case by (auto simp: p row_clear_def)
qed (simp add: substitute_known_def)

lemma coef_map_keys: "coef_map_loop ev i ids cm = Ok cm' \<Longrightarrow> set (bt_keys cm') \<subseteq> set (bt_keys cm) \<union> set ids"
  by (induction ids arbitrary: i cm) (fastforce simp: set_bt_keys_insert split: if_splits)+

text \<open>The row of an encoding vector has coefficients at its identifiers only.\<close>

lemma new_row_clear:
  assumes "ev_ok f ev" "coef_map_loop ev 0 (ev_source_ids ev) [] = Ok cm" "from_map cm = Ok cs"
  shows "dense_ok cs" "j \<notin> set (ev_source_ids ev) \<Longrightarrow> dense_get cs j = 0"
proof -
  have c: "bt_ok cm" "- 1 \<notin> set (bt_keys cm)"
    using coef_map_loop_ok [of "[]" f "ev_source_ids ev" ev 0] assms(1,2) by (auto simp: ev_ok_def)
  obtain d where d: "from_map cm = Ok d" "dense_ok d" "\<And>i. dense_get d i = (case bt_get cm i of Some v \<Rightarrow> v | None \<Rightarrow> 0)"
    using from_map_get [OF c] by blast
  then show "dense_ok cs" using assms(3) by simp
  assume "j \<notin> set (ev_source_ids ev)"
  then have "bt_get cm j = None" using coef_map_keys [OF assms(2)] by (auto simp: bt_get_None_iff)
  with d assms(3) show "dense_get cs j = 0" by simp
qed

section \<open>Solving\<close>

text \<open>What a stage of the solving loop promises of the columns: the known and the recovered symbols
  occur in no row.\<close>

definition clear_state :: "(SourceSymbolId, MatrixRow) btree \<Rightarrow> recovered \<Rightarrow> (SourceSymbolId, bytes) btree \<Rightarrow> bool" where
  "clear_state rows rec kn = (dense_rows rows \<and> (\<forall>i \<in> set (bt_keys kn) \<union> fst ` set rec. col_clear i rows))"

lemma foldl_insert_keys:
  "set (bt_keys (foldl (\<lambda>k (rid, rdata). bt_insert k rid rdata) kn mr)) = set (bt_keys kn) \<union> fst ` set mr"
  by (induction mr arbitrary: kn) (auto simp: set_bt_keys_insert)

lemma solve_step_clear:
  assumes "add_known_source disp m i pl (bt_insert kn i pl) = Ok (m', mr)" "clear_state (dm_rows m) rec kn"
  shows "clear_state (dm_rows m') ((rec @ [(i, pl)]) @ mr)
      (foldl (\<lambda>k (rid, rdata). bt_insert k rid rdata) (bt_insert kn i pl) mr)"
    "col_clear j (dm_rows m) \<Longrightarrow> col_clear j (dm_rows m')"
proof -
  have pre: "dense_rows (dm_rows m)" "\<forall>j \<in> set (bt_keys (bt_insert kn i pl)). j = i \<or> col_clear j (dm_rows m)"
    using assms(2) by (auto simp: clear_state_def set_bt_keys_insert)
  note a = add_known_source_clear [OF assms(1) pre]
  show "col_clear j (dm_rows m) \<Longrightarrow> col_clear j (dm_rows m')" using a(2) by blast
  have "col_clear k (dm_rows m')" if "k = i \<or> k \<in> set (bt_keys kn) \<or> k \<in> fst ` set rec \<or> k \<in> fst ` set mr" for k
    using that a(2,3) assms(2) unfolding clear_state_def by blast
  with a(1) show "clear_state (dm_rows m') ((rec @ [(i, pl)]) @ mr)
      (foldl (\<lambda>k (rid, rdata). bt_insert k rid rdata) (bt_insert kn i pl) mr)"
    by (auto simp: clear_state_def foldl_insert_keys set_bt_keys_insert)
qed

lemma clear_state_remove: "clear_state rows rec kn \<Longrightarrow> clear_state (bt_remove rows k) rec kn"
  using clear_remove by (auto simp: clear_state_def)

lemma solve_pass_clear:
  "solve_pass disp ps m rec kn = Ok (m', rec', kn') \<Longrightarrow> clear_state (dm_rows m) rec kn \<Longrightarrow>
   clear_state (dm_rows m') rec' kn' \<and> (\<forall>j. col_clear j (dm_rows m) \<longrightarrow> col_clear j (dm_rows m'))"
proof (induction disp ps m rec kn rule: solve_pass.induct)
  case (2 disp pid solved m rec kn)
  let ?m = "m\<lparr> dm_rows := bt_remove (dm_rows m) pid \<rparr>"
  have rem: "clear_state (dm_rows ?m) rec kn" "\<And>j. col_clear j (dm_rows m) \<Longrightarrow> col_clear j (dm_rows ?m)"
    using clear_state_remove [OF "2.prems"(2)] clear_remove(1) by simp_all
  show ?case
  proof (cases "bt_get (dm_rows m) pid")
    case None
    with 2 show ?thesis by simp
  next
    case row: (Some row)
    show ?thesis
    proof (cases "is_solved (row_coefs row)")
      case None
      with row "2.prems"(1) have "solve_pass disp solved ?m rec kn = Ok (m', rec', kn')" by (simp add: Let_def)
      from "2.IH"(2) [OF row refl None this rem(1)] rem(2) show ?thesis by blast
    next
      case (Some i)
      with row "2.prems"(1) obtain m1 mr where
        a: "add_known_source disp ?m i (row_payload row) (bt_insert kn i (row_payload row)) = Ok (m1, mr)"
          "solve_pass disp solved m1 ((rec @ [(i, row_payload row)]) @ mr)
            (foldl (\<lambda>k (rid, rdata). bt_insert k rid rdata) (bt_insert kn i (row_payload row)) mr) = Ok (m', rec', kn')"
        by (auto simp: Let_def)
      note st = solve_step_clear [OF a(1) rem(1)]
      from "2.IH"(3) [OF row refl Some refl refl refl refl a(2) st(1)] st(2) rem(2) show ?thesis by blast
    qed
  qed
qed simp

lemma solve_loop_clear:
  "solve_loop disp m rec kn = Ok (m', rec') \<Longrightarrow> clear_state (dm_rows m) rec kn \<Longrightarrow>
   dense_rows (dm_rows m') \<and> (\<forall>i \<in> fst ` set rec'. col_clear i (dm_rows m')) \<and>
   (\<forall>j. col_clear j (dm_rows m) \<longrightarrow> col_clear j (dm_rows m'))"
proof (induction disp m rec kn rule: solve_loop.induct)
  case (1 disp m rec kn)
  show ?case
  proof (cases "singleton_pivots m = []")
    case True
    with 1 show ?thesis by (auto simp: solve_loop.simps clear_state_def)
  next
    case False
    with "1.prems"(1) obtain m1 rec1 kn1 where p: "solve_pass disp (singleton_pivots m) m rec kn = Ok (m1, rec1, kn1)"
      "solve_loop disp m1 rec1 kn1 = Ok (m', rec')"
      by (subst (asm) solve_loop.simps) (auto simp: Let_def split: res.splits)
    note c = solve_pass_clear [OF p(1) "1.prems"(2)]
    from "1.IH" [OF refl False p(1) refl refl p(2)] c show ?thesis by blast
  qed
qed

text \<open>A coded packet brings columns of its own identifiers only, never one of a known symbol, and
  clears the columns of what it recovers.\<close>

lemma add_coded_clear:
  assumes "add_coded disp m ev payload kn = Ok (m', rec)" "ev_ok f ev" "dense_rows (dm_rows m)"
    and known: "\<forall>i \<in> set (bt_keys kn). col_clear i (dm_rows m)"
  shows "dense_rows (dm_rows m') \<and> (\<forall>i \<in> fst ` set rec. col_clear i (dm_rows m')) \<and>
    (\<forall>j. col_clear j (dm_rows m) \<longrightarrow> j \<notin> set (ev_source_ids ev) \<or> j \<in> set (bt_keys kn) \<longrightarrow> col_clear j (dm_rows m'))"
proof -
  from assms(1) obtain cm cs row where r: "coef_map_loop ev 0 (ev_source_ids ev) [] = Ok cm" "from_map cm = Ok cs"
      "substitute_known disp (dm_field m) \<lparr> row_coefs = cs, row_payload = payload \<rparr> kn = Ok row"
    by (auto simp: add_coded_def)
  note new = new_row_clear [OF assms(2) r(1,2)]
  have row: "dense_ok (row_coefs row)" "\<And>j. j \<notin> set (ev_source_ids ev) \<or> j \<in> set (bt_keys kn) \<Longrightarrow> row_clear j row"
    using substitute_known_clear [OF r(3)] new by (auto simp: row_clear_def)
  show ?thesis
  proof (cases "m' = m \<and> rec = []")
    case True
    with assms(3) show ?thesis by simp
  next
    case False
    with assms(1) r obtain row1 row2 p m1 where e: "forward_eliminate disp m row = Ok row1"
      "normalize disp row1 (dm_field m) = Ok row2" "back_substitute disp m p row2 = Ok m1"
      "solve_loop disp ((drop_oldest m1)\<lparr> dm_rows := bt_insert (dm_rows (drop_oldest m1)) p row2 \<rparr>) [] kn = Ok (m', rec)"
      by (auto simp: add_coded_def Let_def drop_oldest_def split: if_splits option.splits)
    let ?m = "(drop_oldest m1)\<lparr> dm_rows := bt_insert (dm_rows (drop_oldest m1)) p row2 \<rparr>"
    note f = forward_eliminate_clear [OF e(1) row(1) assms(3)]
    note n = normalize_clear [OF e(2)]
    have n1: "dense_ok (row_coefs row2)" using n f by blast
    note b = back_substitute_clear [OF e(3) n1 assms(3)]
    have "set (dm_rows (drop_oldest m1)) \<subseteq> set (dm_rows m1)"
      using set_bt_remove by (auto simp: drop_oldest_def split: list.splits)
    note d = clear_subset [OF this]
    have "dense_rows (dm_rows ?m)" using clear_insert(2) [OF n1] b d(2) by simp
    moreover have c: "col_clear j (dm_rows ?m)"
      if "col_clear j (dm_rows m)" "j \<notin> set (ev_source_ids ev) \<or> j \<in> set (bt_keys kn)" for j
    proof -
      have "row_clear j row2" using row(2) f n that by blast
      moreover from this have "col_clear j (dm_rows m1)" using b that(1) by blast
      ultimately show ?thesis using clear_insert(1) d(1) by simp
    qed
    ultimately have "clear_state (dm_rows ?m) [] kn" using known by (auto simp: clear_state_def)
    from solve_loop_clear [OF e(4) this] c show ?thesis by blast
  qed
qed

section \<open>Nothing more can be recovered\<close>

lemma btree_Ball: "bt_ok rows \<Longrightarrow> (\<forall>p \<in> set rows. P (snd p)) = (\<forall>k r. bt_get rows k = Some r \<longrightarrow> P r)"
  using bt_mem_get [of rows] bt_get_Some_mem [of rows] by (metis prod.collapse snd_conv)

lemma col_clear_get: "bt_ok rows \<Longrightarrow> col_clear i rows = (\<forall>k r. bt_get rows k = Some r \<longrightarrow> dense_get (row_coefs r) i = 0)"
  unfolding col_clear_def row_clear_def by (rule btree_Ball)

lemma clear_not_pivot: "rows_ok f L rows \<Longrightarrow> col_clear i rows \<Longrightarrow> bt_get rows i = None"
  using clear_get(2) [of rows i _ i] rows_okD(4) [of f L rows i] by (cases "bt_get rows i") (auto simp: row_clear_def)

lemma rows_ok_dense: "rows_ok f L rows \<Longrightarrow> dense_rows rows"
  unfolding dense_rows_def by (subst btree_Ball) (auto simp: rows_ok_def row_ok_def)

text \<open>Every symbol whose column is not clear, and every symbol that no row mentions, can be changed
  without touching the symbols of clear columns.\<close>

lemma undetermined_any:
  assumes ok: "rows_ok f L rows" "no_singleton rows" "0 < L" and S: "sols f rows S" "sized L S"
  obtains X where "sized L X" "sols f rows X" "X i \<noteq> S i" "\<And>k. col_clear k rows \<Longrightarrow> k \<noteq> i \<Longrightarrow> X k = S k"
proof (cases "bt_get rows i")
  case (Some r)
  have "bt_ok rows" using ok(1) by (simp add: rows_ok_def)
  note clr = col_clear_get [OF \<open>bt_ok rows\<close>]
  show ?thesis by (rule undetermined [OF ok S Some]) (rule that, assumption+, simp add: clr)
next
  case None
  show ?thesis
  proof (rule that [of "shifted rows i S"])
    show "sized L (shifted rows i S)" using S(2) by (simp add: sized_def shifted_def)
    show "sols f rows (shifted rows i S)" by (rule shifted_sols [OF ok(1) S None])
    have "length (S i) = L" using S(2) by (simp add: sized_def)
    then have "shifted rows i S i ! 0 = S i ! 0 XOR 1" using ok(3) by (simp add: shifted_def shift_def)
    moreover have "S i ! 0 XOR 1 \<noteq> S i ! 0" by (metis xor_cancel_left xor_self_eq zero_neq_one)
    ultimately show "shifted rows i S i \<noteq> S i" by metis
    show "shifted rows i S k = S k" if "col_clear k rows" "k \<noteq> i" for k
      using clear_not_pivot [OF ok(1) that(1)] that(2) by (simp add: shifted_def shift_def)
  qed
qed

text \<open>C18: the matrix recovers everything that is determined. After a coded equation was added below
  the row limit, every symbol that is neither known nor reported as recovered has another possible
  payload, consistent with all known symbols, with all rows stored before and with the new equation;
  what is left is again free of singleton rows and mentions neither known nor recovered symbols.\<close>

theorem add_coded_complete:
  assumes "matrix_ok f L m" "ev_ok f ev" "length payload = L" "\<forall>p \<in> set kn. length (snd p) = L"
    and "sized L S" "agrees S kn" "sols f (dm_rows m) S" "ev_sat f S ev payload"
    and "no_singleton (dm_rows m)" "\<forall>i \<in> set (bt_keys kn). col_clear i (dm_rows m)"
    and "row_count m < dm_max_rows m" "0 < L" "add_coded disp m ev payload kn = Ok (m', rec)"
    and "i \<notin> set (bt_keys kn)" "i \<notin> fst ` set rec"
  shows "\<exists>X. sized L X \<and> agrees X kn \<and> sols f (dm_rows m) X \<and> ev_sat f X ev payload \<and> X i \<noteq> S i"
proof -
  have ok: "rows_ok f L (dm_rows m)" "dm_field m = f" using assms(1) by (simp_all add: matrix_ok_def)
  have post: "coded_post f L m kn ev payload m' rec"
    using add_coded_ok [OF ok assms(2-8), of disp] assms(13) by auto
  then have p: "rows_ok f L (dm_rows m')" "no_singleton (dm_rows m')" "sols f (dm_rows m') S" "agrees S rec"
    using assms(5-9) unfolding coded_post_def by blast+
  obtain X where X: "sized L X" "sols f (dm_rows m') X" "X i \<noteq> S i"
      "\<And>k. col_clear k (dm_rows m') \<Longrightarrow> k \<noteq> i \<Longrightarrow> X k = S k"
    using undetermined_any [OF p(1,2) assms(12) p(3) assms(5)] by blast
  note c = add_coded_clear [OF assms(13,2) rows_ok_dense [OF ok(1)] assms(10)]
  have "X k = S k" if "k \<in> set (bt_keys kn) \<or> k \<in> fst ` set rec" for k
    using that assms(10,14,15) c by (intro X(4)) blast+
  then have "agrees X kn" "agrees X rec"
    using assms(6) p(4) by (force simp: agrees_def bt_keys_def)+
  with post X assms(11) show ?thesis unfolding coded_post_def by blast
qed

theorem add_coded_complete_witness:
  "\<exists>m' rec X. add_coded Neon (DecodingMatrix_new Gf2_8_field 1 8) sample_ev [6] [] = Ok (m', rec) \<and> rec = [] \<and>
     sized 1 X \<and> ev_sat Gf2_8_field X sample_ev [6] \<and> X 0 \<noteq> sample_payload 0"
proof -
  let ?m = "DecodingMatrix_new Gf2_8_field 1 8"
  have a: "\<exists>m'. add_coded Neon ?m sample_ev [6] [] = Ok (m', [])"
    by (simp add: add_coded_def has_explicit_coefs_def index_def from_map_def DenseCoefs_new_def set_index_def
      substitute_known_def forward_eliminate_def back_substitute_def normalize_def pivot_coef_def pivot_id_def
      is_zero_def solve_loop.simps singleton_pivots_def is_solved_def dense_get_def bt_keys_def upt_rec Let_def
      DecodingMatrix_new_def)
  then obtain m' where m': "add_coded Neon ?m sample_ev [6] [] = Ok (m', [])" by blast
  have "no_singleton (dm_rows ?m)" "row_count ?m < dm_max_rows ?m"
    by (simp_all add: no_singleton_def DecodingMatrix_new_def row_count_def)
  then obtain X where "sized 1 X" "ev_sat Gf2_8_field X sample_ev [6]" "X 0 \<noteq> sample_payload 0"
    using add_coded_complete [OF sample_hyps(1-3) _ sample_hyps(5) _ sample_hyps(7) sample_sat _ _ _ zero_less_one m', of 0]
    by auto
  with m' show ?thesis by blast
qed

end
