(* ===== verification/Decoder_Correct.thy ===== *)
theory Decoder_Correct
  imports Decoder Matrix_Columns
begin

text \<open>
  Correctness of the decoder. \<open>S\<close> stands for the true payloads of all source symbols.
  \<open>store_ok\<close> ties the delivery buffer to the map of known symbols; \<open>decoder_ok\<close> adds the
  decoding matrix. Both packet handlers are shown to keep it, to deliver true payloads only, and to
  deliver all that can be delivered.
\<close>

fun deliveries :: "DecoderEvent list \<Rightarrow> (SourceSymbolId \<times> bytes) list" where
  "deliveries [] = []"
| "deliveries (ev # evs) = (case ev of SourceReady i x \<Rightarrow> (i, x) # deliveries evs | _ \<Rightarrow> deliveries evs)"

lemma deliveries_append [simp]: "deliveries (a @ b) = deliveries a @ deliveries b"
  by (induction a) (auto split: DecoderEvent.split)

lemma deliveries_ready [simp]: "deliveries (map (\<lambda>(i, x). SourceReady i x) l) = l"
  by (induction l) auto

section \<open>The buffer and the known symbols\<close>

definition store_ok :: "(SourceSymbolId \<Rightarrow> bytes) \<Rightarrow> SymbolBuffer \<Rightarrow> (SourceSymbolId, bytes) btree \<Rightarrow> bool" where
  "store_ok S b kn = (bt_ok kn \<and> agrees S kn \<and> - 1 \<notin> set (bt_keys kn) \<and> buffer_ok b \<and>
     (\<forall>i. buffer_get b i = (if next_delivery_id b \<le> i then bt_get kn i else None)))"

lemma store_ok_new: "store_ok S (SymbolBuffer_new n) []"
  by (simp add: store_ok_def buffer_ok_new) (simp add: SymbolBuffer_new_def buffer_get_def)

lemma agrees_insert: "agrees S (bt_or_insert kn i (S i)) = agrees S kn"
proof -
  have "agrees S (bt_insert m i (S i)) = agrees S m" if "bt_get m i = None" for m
    using that by (induction m i "S i" rule: bt_insert.induct) (auto split: if_splits)
  then show ?thesis by (simp add: bt_or_insert_def bt_contains_key_def)
qed

lemma bt_keys_or_insert: "set (bt_keys (bt_or_insert kn i x)) = insert i (set (bt_keys kn))"
proof (cases "bt_contains_key kn i")
  case True
  then have "i \<in> set (bt_keys kn)" using bt_get_None_iff [of kn i] by (simp add: bt_contains_key_def)
  with True show ?thesis by (auto simp: bt_or_insert_def)
qed (simp add: bt_or_insert_def set_bt_keys_insert)

lemma store_ok_insert:
  assumes "store_ok S b kn" "i \<noteq> - 1"
  shows "store_ok S (buffer_insert b i (S i)) (bt_or_insert kn i (S i))"
  unfolding store_ok_def
proof (intro conjI allI)
  have b: "bt_ok kn" "buffer_ok b" "\<And>j. buffer_get b j = (if next_delivery_id b \<le> j then bt_get kn j else None)"
    using assms(1) by (simp_all add: store_ok_def)
  show "bt_ok (bt_or_insert kn i (S i))" "agrees S (bt_or_insert kn i (S i))" "- 1 \<notin> set (bt_keys (bt_or_insert kn i (S i)))"
    "buffer_ok (buffer_insert b i (S i))"
    using assms by (simp_all add: store_ok_def bt_ok_or_insert agrees_insert bt_keys_or_insert buffer_ok_insert)
  show "buffer_get (buffer_insert b i (S i)) j =
      (if next_delivery_id (buffer_insert b i (S i)) \<le> j then bt_get (bt_or_insert kn i (S i)) j else None)" for j
    by (auto simp: buffer_get_insert b bt_get_or_insert next_delivery_id_insert split: option.splits)
qed

lemma agrees_get: "agrees S kn \<Longrightarrow> bt_get kn i = Some x \<Longrightarrow> x = S i"
  using bt_get_Some_mem by (fastforce simp: agrees_def)

lemma get_known: "agrees S kn \<Longrightarrow> i \<in> set (bt_keys kn) \<Longrightarrow> bt_get kn i = Some (S i)"
  using agrees_get bt_get_None_iff [of kn i] by (cases "bt_get kn i") auto

text \<open>A run of stored identifiers does not wrap, because the last identifier is never stored.\<close>

lemma run_no_wrap:
  fixes n :: u32
  assumes "\<forall>k < len. n + of_nat k \<noteq> - 1" "k \<le> len"
  shows "unat (n + of_nat k) = unat n + k"
  using assms(2)
proof (induction k)
  case (Suc k)
  then have "n + of_nat k \<noteq> - 1" using assms(1) by simp
  then have "unat (n + of_nat k + 1) = unat (n + of_nat k) + 1" by (simp add: unat_succ)
  with Suc show ?case by (simp add: ac_simps)
qed simp

lemma run_ids:
  fixes n :: u32
  assumes "\<forall>k < len. n + of_nat k \<noteq> - 1"
  shows "i \<in> (\<lambda>k. n + of_nat k) ` {0..<len} \<longleftrightarrow> n \<le> i \<and> i < n + of_nat len"
proof
  assume "i \<in> (\<lambda>k. n + of_nat k) ` {0..<len}"
  then obtain k where "k < len" "i = n + of_nat k" by auto
  then show "n \<le> i \<and> i < n + of_nat len"
    using run_no_wrap [OF assms, of k] run_no_wrap [OF assms, of len] by (simp add: word_le_nat_alt word_less_nat_alt)
next
  assume i: "n \<le> i \<and> i < n + of_nat len"
  let ?k = "unat i - unat n"
  have "unat n \<le> unat i" "unat i < unat n + len"
    using i run_no_wrap [OF assms, of len] by (simp_all add: word_le_nat_alt word_less_nat_alt)
  then have "?k < len" by linarith
  moreover from this have "unat (n + of_nat ?k) = unat i"
    using run_no_wrap [OF assms, of ?k] i by (simp add: word_le_nat_alt)
  ultimately show "i \<in> (\<lambda>k. n + of_nat k) ` {0..<len}" by (force simp: word_unat_eq_iff)
qed

text \<open>\<open>run_from n out\<close>: the identifiers of \<open>out\<close> are \<open>n\<close>, \<open>n + 1\<close> and so on.\<close>

definition run_from :: "SourceSymbolId \<Rightarrow> (SourceSymbolId \<times> bytes) list \<Rightarrow> bool" where
  "run_from n out = (map fst out = map (\<lambda>k. n + of_nat k) [0..<length out])"

lemma run_from_ids: "run_from n out \<Longrightarrow> fst ` set out = (\<lambda>k. n + of_nat k) ` {0..<length out}"
  unfolding run_from_def by (metis atLeastLessThan_upt list.set_map)

lemma drain_store_ok:
  assumes ok: "store_ok S b kn" and d: "drain_deliverable b = (b', out)"
  shows "store_ok S b' kn" "run_from (next_delivery_id b) out" "\<forall>(i, x) \<in> set out. bt_get kn i = Some x"
    "next_delivery_id b' = next_delivery_id b + of_nat (length out)" "bt_get kn (next_delivery_id b') = None"
    "next_delivery_id b \<le> next_delivery_id b'"
proof -
  have "buffer_ok b" using ok by (simp add: store_ok_def)
  note run = drain_deliverable_run [OF d this]
  let ?n = "next_delivery_id b"
  have get: "buffer_get b i = (if ?n \<le> i then bt_get kn i else None)" for i using ok by (simp add: store_ok_def)
  show "run_from ?n out" using run(1) by (simp add: run_from_def)
  note ids = run_from_ids [OF this]
  show known: "\<forall>(i, x) \<in> set out. bt_get kn i = Some x" using run(3) get by (auto split: if_splits)
  have nw: "\<forall>k < length out. ?n + of_nat k \<noteq> - 1"
  proof (intro allI impI notI)
    fix k assume "k < length out" "?n + of_nat k = - 1"
    then have "- 1 \<in> fst ` set out" unfolding ids by force
    then have "- 1 \<in> set (bt_keys kn)" using known bt_get_None_iff [of kn "- 1"] by fastforce
    then show False using ok by (simp add: store_ok_def)
  qed
  show n': "next_delivery_id b' = ?n + of_nat (length out)" by (rule run(2))
  show le: "?n \<le> next_delivery_id b'" using run_no_wrap [OF nw, of "length out"] by (simp add: n' word_le_nat_alt)
  have get': "buffer_get b' i = (if next_delivery_id b' \<le> i then bt_get kn i else None)" for i
    using run(6) get [of i] run_ids [OF nw, of i] ids le by (auto simp: n')
  with ok run(5) show "store_ok S b' kn" by (simp add: store_ok_def)
  show "bt_get kn (next_delivery_id b') = None" using run(4) get' [of "next_delivery_id b'"] by simp
qed

lemma prune_store_ok: "store_ok S b kn \<Longrightarrow> store_ok S (prune_below b fl) kn"
  by (auto simp: store_ok_def buffer_ok_prune buffer_get_prune next_delivery_id_prune max_def)

section \<open>The end of a handler\<close>

text \<open>The identifiers a feedback packet acknowledges are known to the decoder.\<close>

definition feedback_true :: "SourceSymbolId \<Rightarrow> (SourceSymbolId, bytes) btree \<Rightarrow> bytes \<Rightarrow> bool" where
  "feedback_true next kn bs = (\<exists>p. bs = FeedbackPacket_serialise p \<and> first_src_id p = next \<and>
     (\<forall>i. is_acked p i \<longrightarrow> next \<le> i \<and> i \<in> set (bt_keys kn)))"

lemma store_ids_from:
  assumes "store_ok S b kn" "i \<in> set (ids_from b n)"
  shows "i \<in> set (bt_keys kn)"
proof -
  have "buffer_get b i \<noteq> None" using assms(2) bt_get_None_iff [of "symbols b" i] by (auto simp: ids_from_def buffer_get_def)
  then have "bt_get kn i \<noteq> None" using assms(1) by (auto simp: store_ok_def split: if_splits)
  then show ?thesis using bt_get_None_iff [of kn i] by simp
qed

lemma send_feedback_ok:
  assumes "store_ok S (dec_buffer d) (known d)"
  obtains p fb where "maybe_send_feedback rnd P d evs = Ok (d\<lparr> dec_policy := p \<rparr>, evs @ fb)"
    "fb = [] \<or> (\<exists>bs. fb = [SendFeedback bs] \<and> feedback_true (next_delivery_id (dec_buffer d)) (known d) bs)"
proof -
  obtain p send where s: "should_send_feedback P (dec_policy d) (make_state rnd d) = (p, send)" by fastforce
  let ?n = "next_delivery_id (dec_buffer d)"
  show ?thesis
  proof (cases send)
    case False
    with s show ?thesis by (intro that [of p "[]"]) (simp_all add: maybe_send_feedback_def)
  next
    case True
    let ?ids = "take 256 (ids_from (dec_buffer d) ?n)" and ?d = "d\<lparr> dec_policy := p \<rparr>"
    obtain sk where "build_sack ?n ?ids = Ok sk" by (rule build_sack_bits)
    then obtain pkt where pkt: "FeedbackPacket_build ?n (count_missing ?d) (of_nat (row_count (dec_matrix d)))
        (tracker_loss_rate rnd (loss d)) ?ids = Ok pkt" "first_src_id pkt = ?n"
      unfolding FeedbackPacket_build_def and_then.simps by simp
    have "\<forall>i. is_acked pkt i \<longrightarrow> ?n \<le> i \<and> i \<in> set (bt_keys (known d))"
      using sack_acks [OF pkt(1)] store_ids_from [OF assms] by (metis in_set_takeD)
    with pkt(2) have "feedback_true ?n (known d) (FeedbackPacket_serialise pkt)" unfolding feedback_true_def by blast
    with s True pkt(1) show ?thesis
      by (intro that [of p "[SendFeedback (FeedbackPacket_serialise pkt)]"]) (simp_all add: maybe_send_feedback_def Let_def)
  qed
qed

text \<open>What every handler promises of the events it returns, from a state \<open>d\<close> to a state \<open>d'\<close>.\<close>

definition gap_events :: "SourceSymbolId \<Rightarrow> SourceSymbolId \<Rightarrow> DecoderEvent list" where
  "gap_events next win_min = (if win_min > next then [UnrecoverableGap next (win_min - next)] else [])"

definition events_ok :: "(SourceSymbolId \<Rightarrow> bytes) \<Rightarrow> 'p Decoder \<Rightarrow> 'p Decoder \<Rightarrow> DecoderEvent list \<Rightarrow> bool" where
  "events_ok S d d' evs = (\<exists>out fb.
     let next = next_delivery_id (dec_buffer d) + of_nat (length out) in
     evs = map (\<lambda>(i, x). SourceReady i x) out @ fb @ gap_events next (encoder_win_min d') \<and>
     run_from (next_delivery_id (dec_buffer d)) out \<and> next_delivery_id (dec_buffer d) \<le> next \<and>
     (\<forall>(i, x) \<in> set out. x = S i \<and> i \<in> set (bt_keys (known d'))) \<and> next \<notin> set (bt_keys (known d')) \<and>
     next_delivery_id (dec_buffer d') = max next (encoder_win_min d') \<and>
     (fb = [] \<or> (\<exists>bs. fb = [SendFeedback bs] \<and> feedback_true next (known d') bs)))"

lemma finish_packet_ok:
  assumes ok: "store_ok S (dec_buffer d) (known d)" and d0: "next_delivery_id (dec_buffer d0) = next_delivery_id (dec_buffer d)"
  obtains d' evs where "finish_packet rnd P d = Ok (d', evs)" "store_ok S (dec_buffer d') (known d')"
    "known d' = known d" "dec_matrix d' = dec_matrix d" "dec_config d' = dec_config d" "events_ok S d0 d' evs"
proof -
  obtain b out where dr: "drain_deliverable (dec_buffer d) = (b, out)" by fastforce
  note run = drain_store_ok [OF ok dr]
  let ?evs = "map (\<lambda>(i, x). SourceReady i x) out" and ?d = "d\<lparr> dec_buffer := b \<rparr>"
  have pre: "store_ok S (dec_buffer ?d) (known ?d)" using run(1) by simp
  obtain p fb where fb: "maybe_send_feedback rnd P ?d ?evs = Ok (?d\<lparr> dec_policy := p \<rparr>, ?evs @ fb)"
    "fb = [] \<or> (\<exists>bs. fb = [SendFeedback bs] \<and> feedback_true (next_delivery_id (dec_buffer ?d)) (known ?d) bs)"
    by (rule send_feedback_ok [OF pre])
  have st: "store_ok S b (known d)" "agrees S (known d)" using run(1) ok by (simp_all add: store_ok_def)
  have true_out: "\<forall>(i, x) \<in> set out. x = S i \<and> i \<in> set (bt_keys (known d))"
  proof clarify
    fix i x assume "(i, x) \<in> set out"
    then have "bt_get (known d) i = Some x" using run(3) by blast
    with agrees_get [OF st(2)] bt_get_None_iff [of "known d" i] show "x = S i \<and> i \<in> set (bt_keys (known d))" by auto
  qed
  have fresh: "next_delivery_id b \<notin> set (bt_keys (known d))" using run(5) by (simp add: bt_get_None_iff)
  let ?b = "if encoder_win_min d > next_delivery_id b then prune_below b (encoder_win_min d) else b"
  let ?d' = "d\<lparr> dec_buffer := ?b, dec_policy := p \<rparr>"
  show ?thesis
  proof (rule that)
    show "finish_packet rnd P d = Ok (?d', (?evs @ fb) @ gap_events (next_delivery_id b) (encoder_win_min d))"
      using fb(1) dr by (simp add: finish_packet_def drain_to_events_def check_gap_def gap_events_def Let_def)
    show "store_ok S (dec_buffer ?d') (known ?d')" using st(1) by (simp add: prune_store_ok)
    have n: "next_delivery_id b = next_delivery_id (dec_buffer d0) + of_nat (length out)" using run(4) d0 by simp
    show "events_ok S d0 ?d' ((?evs @ fb) @ gap_events (next_delivery_id b) (encoder_win_min d))"
      unfolding events_ok_def Let_def
    proof (intro exI [of _ out] exI [of _ fb] conjI)
      show "run_from (next_delivery_id (dec_buffer d0)) out" using run(2) d0 by simp
      show "next_delivery_id (dec_buffer d0) \<le> next_delivery_id (dec_buffer d0) + of_nat (length out)"
        using run(6) n d0 by simp
      show "next_delivery_id (dec_buffer ?d') = max (next_delivery_id (dec_buffer d0) + of_nat (length out)) (encoder_win_min ?d')"
        by (auto simp: next_delivery_id_prune max_def n [symmetric])
    qed (use true_out fresh fb(2) n in simp_all)
  qed simp_all
qed

section \<open>The matrix and the known symbols\<close>

lemma agrees_keys: "agrees S kn \<Longrightarrow> agrees X kn = (\<forall>i \<in> fst ` set kn. X i = S i)"
  by (force simp: agrees_def)

definition system_ok :: "Field \<Rightarrow> nat \<Rightarrow> (SourceSymbolId \<Rightarrow> bytes) \<Rightarrow> DecodingMatrix \<Rightarrow> SourceSymbolId set \<Rightarrow> bool" where
  "system_ok f L S m K = (matrix_ok f L m \<and> no_singleton (dm_rows m) \<and> sols f (dm_rows m) S \<and>
     (\<forall>i \<in> insert (- 1) K. col_clear i (dm_rows m)))"

text \<open>An equation does not depend on symbols of clear columns, so these are never recovered.\<close>

lemma lin_cong: "(\<And>i. c i = 0 \<or> X i = Y i) \<Longrightarrow> lin f X c k = lin f Y c k"
  unfolding lin_def by (rule xsum.cong) (simp, metis fs.mul_zero_right)

lemma sols_cong:
  assumes "rows_ok f L rows" "col_clear i rows" "\<And>j. j \<noteq> i \<Longrightarrow> X j = Y j"
  shows "sols f rows X = sols f rows Y"
proof -
  have "row_sat f X r = row_sat f Y r" if "bt_get rows k = Some r" for k r
  proof -
    have "dense_get (row_coefs r) i = 0" using clear_get(2) [OF that assms(2)] by (simp add: row_clear_def)
    then have "lin f X (dense_get (row_coefs r)) n = lin f Y (dense_get (row_coefs r)) n" for n
      using assms(3) by (intro lin_cong) metis
    then show ?thesis by (simp add: row_sat_def)
  qed
  then show ?thesis by (simp add: sols_def)
qed

lemma ev_sat_cong:
  assumes "i \<notin> set (ev_source_ids ev)" "\<And>j. j \<noteq> i \<Longrightarrow> X j = Y j"
  shows "ev_sat f X ev payload = ev_sat f Y ev payload"
proof -
  have "lin f X (map_coef cm) k = lin f Y (map_coef cm) k" if "coef_map_loop ev 0 (ev_source_ids ev) [] = Ok cm" for cm k
  proof -
    have "map_coef cm i = 0"
      using coef_map_keys [OF that] assms(1) bt_get_None_iff [of cm i] by (auto simp: map_coef_def)
    then show ?thesis using assms(2) by (intro lin_cong) metis
  qed
  then show ?thesis unfolding ev_sat_def by metis
qed

lemma not_recovered:
  assumes "\<And>X. sized L X \<Longrightarrow> (\<And>j. j \<noteq> i \<Longrightarrow> X j = S j) \<Longrightarrow> agrees X rec" "sized L S" "0 < L"
  shows "i \<notin> fst ` set rec"
proof
  assume "i \<in> fst ` set rec"
  then obtain x where x: "(i, x) \<in> set rec" by force
  have "\<exists>c :: u8. c \<noteq> b" for b by (metis zero_neq_one)
  then obtain c where c: "c \<noteq> S i ! 0" by blast
  let ?X = "S(i := (S i)[0 := c])"
  have "sized L ?X" using assms(2) by (simp add: sized_def)
  then have "agrees ?X rec" "agrees S rec" using assms(1) [of ?X] assms(1) [of S] assms(2) by simp_all
  then have "?X i = x" "S i = x" using x unfolding agrees_def by fastforce+
  then have "(S i)[0 := c] = S i" by simp
  moreover have "length (S i) = L" using assms(2) by (simp add: sized_def)
  ultimately show False using c assms(3) by (metis nth_list_update_eq)
qed

lemma known_rows_exact:
  assumes "rows_ok f L (dm_rows m)" "dm_field m = f" "bt_get (dm_rows m) sid = None" "length data = L"
  obtains rows' rec where "add_known_source disp m sid data kn = Ok (m\<lparr> dm_rows := rows' \<rparr>, rec)" "rows_ok f L rows'"
    "\<And>X. sized L X \<Longrightarrow> X sid = data \<Longrightarrow> sols f (dm_rows m) X = (agrees X rec \<and> sols f rows' X)"
    "no_singleton (dm_rows m) \<Longrightarrow> no_singleton rows'"
  by (rule add_known_source_ok [OF assms, of disp kn]) (rule that)

lemma source_step:
  assumes ok: "system_ok f L S m (set (bt_keys kn))" and S: "sized L S" "0 < L"
    and sid: "sid \<noteq> - 1" "bt_get (dm_rows m) sid = None" "set (bt_keys kn') = insert sid (set (bt_keys kn))"
  obtains rows' rec where "add_known_source disp m sid (S sid) kn' = Ok (m\<lparr> dm_rows := rows' \<rparr>, rec)"
    "agrees S rec" "- 1 \<notin> fst ` set rec"
    "system_ok f L S (m\<lparr> dm_rows := rows' \<rparr>) (insert sid (set (bt_keys kn)) \<union> fst ` set rec)"
    "\<And>X. sized L X \<Longrightarrow> X sid = S sid \<Longrightarrow> sols f (dm_rows m) X = (agrees X rec \<and> sols f rows' X)"
    "\<And>i. col_clear i (dm_rows m) \<Longrightarrow> col_clear i rows'" "length rows' \<le> length (dm_rows m)"
proof -
  have m: "rows_ok f L (dm_rows m)" "dm_field m = f" "no_singleton (dm_rows m)" "sols f (dm_rows m) S"
    "col_clear (- 1) (dm_rows m)" "\<forall>i \<in> set (bt_keys kn). col_clear i (dm_rows m)"
    using ok by (simp_all add: system_ok_def matrix_ok_def)
  have len: "length (S sid) = L" using S(1) by (simp add: sized_def)
  obtain rows' rec where a: "add_known_source disp m sid (S sid) kn' = Ok (m\<lparr> dm_rows := rows' \<rparr>, rec)" "rows_ok f L rows'"
    "\<And>X. sized L X \<Longrightarrow> X sid = S sid \<Longrightarrow> sols f (dm_rows m) X = (agrees X rec \<and> sols f rows' X)" "no_singleton rows'"
    using known_rows_exact [OF m(1,2) sid(2) len, of disp kn'] m(3) by metis
  have "\<forall>i \<in> set (bt_keys kn'). i = sid \<or> col_clear i (dm_rows m)" using m(6) sid(3) by blast
  note c = add_known_source_clear [OF a(1) rows_ok_dense [OF m(1)] this]
  have rec: "agrees S rec" "sols f rows' S" using a(3) [OF S(1) refl] m(4) by simp_all
  have "- 1 \<notin> fst ` set rec"
  proof (rule not_recovered [OF _ S])
    fix X assume X: "sized L X" "\<And>j. j \<noteq> - 1 \<Longrightarrow> X j = S j"
    then show "agrees X rec" using a(3) [of X] sols_cong [OF m(1,5) X(2)] m(4) sid(1) by simp
  qed
  moreover have "system_ok f L S (m\<lparr> dm_rows := rows' \<rparr>) (insert sid (set (bt_keys kn)) \<union> fst ` set rec)"
    using a(2,4) rec(2) m(2,5,6) c by (auto simp: system_ok_def matrix_ok_def)
  moreover have "length rows' \<le> length (dm_rows m)" using add_known_source_length [OF a(1)] by simp
  ultimately show ?thesis using a(1,3) rec(1) c(2) by (intro that) auto
qed

lemma back_substitute_length:
  assumes "back_substitute disp m p new = Ok m'" "bt_ok (dm_rows m)"
  shows "length (dm_rows m') = length (dm_rows m) \<and> bt_ok (dm_rows m')"
  using assms(1) unfolding back_substitute_def
proof (rule for_each_inv)
  fix s pid s'
  assume I: "length (dm_rows s) = length (dm_rows m) \<and> bt_ok (dm_rows s)"
    and e: "(case bt_get (dm_rows s) pid of None \<Rightarrow> Panic
      | Some row \<Rightarrow> let c = dense_get (row_coefs row) p in if c = 0 then Ok s
          else and_then (row_subtract_scaled disp row new c (dm_field s)) (\<lambda>row.
            Ok (s\<lparr> dm_rows := bt_insert (dm_rows s) pid row \<rparr>))) = Ok s'"
  from e obtain row where row: "bt_get (dm_rows s) pid = Some row" by (auto split: option.splits)
  have "length (bt_insert (dm_rows s) pid r) = length (dm_rows s)" for r
    using I row by (intro length_keys_eq) (auto simp: bt_ok_insert bt_get_insert)
  with e row I show "length (dm_rows s') = length (dm_rows m) \<and> bt_ok (dm_rows s')"
    by (auto simp: Let_def bt_ok_insert split: if_splits)
qed (use assms(2) in simp)

lemma bt_insert_length: "length (bt_insert m k v) \<le> Suc (length m)"
  by (induction m k v rule: bt_insert.induct) auto

lemma solve_loop_length: "solve_loop disp m rec kn = Ok (m', rec') \<Longrightarrow> length (dm_rows m') \<le> length (dm_rows m)"
proof (induction disp m rec kn rule: solve_loop.induct)
  case (1 disp m rec kn)
  show ?case
  proof (cases "singleton_pivots m = []")
    case True
    with 1 show ?thesis by (simp add: solve_loop.simps)
  next
    case False
    with "1.prems" obtain m1 rec1 kn1 where p: "solve_pass disp (singleton_pivots m) m rec kn = Ok (m1, rec1, kn1)"
      "solve_loop disp m1 rec1 kn1 = Ok (m', rec')"
      by (subst (asm) solve_loop.simps) (auto simp: Let_def split: res.splits)
    from "1.IH" [OF refl False p(1) refl refl p(2)] solve_pass_length [OF p(1)] show ?thesis by simp
  qed
qed

lemma add_coded_length:
  assumes "add_coded disp m ev payload kn = Ok (m', rec)" "bt_ok (dm_rows m)"
  shows "length (dm_rows m') \<le> Suc (length (dm_rows m))"
proof (cases "m' = m")
  case False
  with assms(1) obtain m1 p row where e: "back_substitute disp m p row = Ok m1"
    "solve_loop disp ((drop_oldest m1)\<lparr> dm_rows := bt_insert (dm_rows (drop_oldest m1)) p row \<rparr>) [] kn = Ok (m', rec)"
    by (auto simp: add_coded_def Let_def drop_oldest_def split: if_splits option.splits)
  have "length (bt_remove rows k) \<le> length rows" for rows :: "(SourceSymbolId, MatrixRow) btree" and k
    by (induction rows) auto
  then have "length (dm_rows (drop_oldest m1)) \<le> length (dm_rows m1)"
    by (auto simp: drop_oldest_def le_Suc_eq split: list.splits)
  then show ?thesis
    using solve_loop_length [OF e(2)] back_substitute_length [OF e(1) assms(2)]
      bt_insert_length [of "dm_rows (drop_oldest m1)" p row] by simp
qed simp

lemma coded_step:
  assumes ok: "system_ok f L S m (set (bt_keys kn))" and S: "sized L S" "0 < L" and kn: "agrees S kn" "- 1 \<notin> set (bt_keys kn)"
    and ev: "ev_ok f ev" "length payload = L" "ev_sat f S ev payload"
  obtains m' rec where "add_coded disp m ev payload kn = Ok (m', rec)" "agrees S rec" "- 1 \<notin> fst ` set rec"
    "system_ok f L S m' (set (bt_keys kn) \<union> fst ` set rec)" "dm_max_rows m' = dm_max_rows m"
    "\<And>X. sized L X \<Longrightarrow> agrees X kn \<Longrightarrow> row_count m < dm_max_rows m \<Longrightarrow>
       (sols f (dm_rows m) X \<and> ev_sat f X ev payload) = (agrees X rec \<and> sols f (dm_rows m') X)"
    "\<And>i. col_clear i (dm_rows m) \<Longrightarrow> i \<notin> set (ev_source_ids ev) \<or> i \<in> set (bt_keys kn) \<Longrightarrow> col_clear i (dm_rows m')"
    "row_count m' \<le> Suc (row_count m)"
proof -
  have m: "rows_ok f L (dm_rows m)" "dm_field m = f" "no_singleton (dm_rows m)" "sols f (dm_rows m) S"
    "col_clear (- 1) (dm_rows m)" "\<forall>i \<in> set (bt_keys kn). col_clear i (dm_rows m)"
    using ok by (simp_all add: system_ok_def matrix_ok_def)
  have "\<forall>p \<in> set kn. length (snd p) = L" using kn(1) S(1) unfolding agrees_def sized_def by metis
  note add_coded_ok [OF m(1,2) ev(1,2) this S(1) kn(1) m(4) ev(3), of disp]
  then obtain m' rec where a: "add_coded disp m ev payload kn = Ok (m', rec)" "coded_post f L m kn ev payload m' rec"
    by blast
  then have post: "rows_ok f L (dm_rows m')" "m' = m\<lparr> dm_rows := dm_rows m' \<rparr>" "no_singleton (dm_rows m')"
    "\<And>X. sized L X \<Longrightarrow> agrees X kn \<Longrightarrow> sols f (dm_rows m) X \<Longrightarrow> ev_sat f X ev payload \<Longrightarrow>
       agrees X rec \<and> sols f (dm_rows m') X"
    "\<And>X. row_count m < dm_max_rows m \<Longrightarrow> sized L X \<Longrightarrow> agrees X kn \<Longrightarrow> agrees X rec \<Longrightarrow> sols f (dm_rows m') X \<Longrightarrow>
       sols f (dm_rows m) X \<and> ev_sat f X ev payload"
    using m(3) unfolding coded_post_def by blast+
  note c = add_coded_clear [OF a(1) ev(1) rows_ok_dense [OF m(1)] m(6)]
  have rec: "agrees S rec" "sols f (dm_rows m') S" using post(4) [OF S(1) kn(1) m(4) ev(3)] by simp_all
  have eos: "- 1 \<notin> set (ev_source_ids ev)" using ev(1) by (simp add: ev_ok_def)
  have field: "dm_field m' = f" "dm_max_rows m' = dm_max_rows m"
    using m(2) by (subst post(2), simp)+
  have eor: "- 1 \<notin> fst ` set rec"
  proof (rule not_recovered [OF _ S])
    fix X assume X: "sized L X" "\<And>j. j \<noteq> - 1 \<Longrightarrow> X j = S j"
    have "agrees X kn" using X(2) kn(2) by (subst agrees_keys [OF kn(1)]) (metis bt_keys_def list.set_map)
    then show "agrees X rec"
      using post(4) [OF X(1)] sols_cong [OF m(1,5) X(2)] ev_sat_cong [OF eos X(2)] m(4) ev(3) by simp
  qed
  have clear: "\<forall>i \<in> insert (- 1) (set (bt_keys kn) \<union> fst ` set rec). col_clear i (dm_rows m')"
    using c m(5,6) eos by blast
  show ?thesis
  proof (rule that [OF a(1) rec(1) eor _ field(2)])
    show "system_ok f L S m' (set (bt_keys kn) \<union> fst ` set rec)"
      using post(1,3) field(1) rec(2) clear by (simp add: system_ok_def matrix_ok_def)
    show "(sols f (dm_rows m) X \<and> ev_sat f X ev payload) = (agrees X rec \<and> sols f (dm_rows m') X)"
      if "sized L X" "agrees X kn" "row_count m < dm_max_rows m" for X
      using post(4,5) that by blast
    show "col_clear i (dm_rows m')" if "col_clear i (dm_rows m)" "i \<notin> set (ev_source_ids ev) \<or> i \<in> set (bt_keys kn)" for i
      using c that by blast
    show "row_count m' \<le> Suc (row_count m)"
      using add_coded_length [OF a(1)] m(1) by (simp add: row_count_def rows_ok_def)
  qed
qed

section \<open>The handlers\<close>

definition decoder_ok :: "Field \<Rightarrow> nat \<Rightarrow> (SourceSymbolId \<Rightarrow> bytes) \<Rightarrow> 'p Decoder \<Rightarrow> bool" where
  "decoder_ok f L S d = (store_ok S (dec_buffer d) (known d) \<and>
     system_ok f L S (dec_matrix d) (set (bt_keys (known d))) \<and> dc_symbol_size (dec_config d) = L)"

lemma decoder_ok_new:
  "dc_field config = f \<Longrightarrow> dc_symbol_size config = L \<Longrightarrow> decoder_ok f L S (Decoder_new config policy)"
  by (simp add: decoder_ok_def Decoder_new_def store_ok_new system_ok_def matrix_ok_new)
     (simp add: DecodingMatrix_new_def no_singleton_def)

lemma absorb_all:
  assumes "store_ok S (dec_buffer d) (known d)" "agrees S rec" "- 1 \<notin> fst ` set rec"
  shows "\<exists>b kn. foldl absorb_recovered d rec = d\<lparr> dec_buffer := b, known := kn \<rparr> \<and> store_ok S b kn \<and>
    set (bt_keys kn) = set (bt_keys (known d)) \<union> fst ` set rec \<and> next_delivery_id b = next_delivery_id (dec_buffer d)"
  using assms
proof (induction rec arbitrary: d)
  case Nil
  then show ?case by (intro exI [of _ "dec_buffer d"] exI [of _ "known d"]) simp
next
  case (Cons p rec)
  obtain i x where p: "p = (i, x)" by fastforce
  let ?b = "buffer_insert (dec_buffer d) i (S i)" and ?k = "bt_or_insert (known d) i (S i)"
  have i: "i \<noteq> - 1" "x = S i" using Cons.prems(2,3) p by auto
  have "store_ok S ?b ?k" by (rule store_ok_insert [OF Cons.prems(1) i(1)])
  moreover have "absorb_recovered d p = d\<lparr> dec_buffer := ?b, known := ?k \<rparr>" by (simp add: p i absorb_recovered_def)
  ultimately show ?case
    using Cons.IH [of "d\<lparr> dec_buffer := ?b, known := ?k \<rparr>"] Cons.prems(2,3)
    by (auto simp: p bt_keys_or_insert next_delivery_id_insert)
qed

text \<open>The common tail: symbols recovered by the matrix are absorbed and the packet is finished.\<close>

lemma absorb_finish:
  assumes st: "store_ok S (dec_buffer d) (known d)" and rec: "agrees S rec" "- 1 \<notin> fst ` set rec"
    and sys: "system_ok f L S (dec_matrix d) (set (bt_keys (known d)) \<union> fst ` set rec)" "dc_symbol_size (dec_config d) = L"
    and d0: "next_delivery_id (dec_buffer d0) = next_delivery_id (dec_buffer d)"
  obtains d' evs where "finish_packet rnd P (foldl absorb_recovered d rec) = Ok (d', evs)" "decoder_ok f L S d'"
    "events_ok S d0 d' evs" "set (bt_keys (known d')) = set (bt_keys (known d)) \<union> fst ` set rec"
    "dec_matrix d' = dec_matrix d" "dec_config d' = dec_config d"
proof -
  obtain b kn where k: "foldl absorb_recovered d rec = d\<lparr> dec_buffer := b, known := kn \<rparr>" "store_ok S b kn"
    "set (bt_keys kn) = set (bt_keys (known d)) \<union> fst ` set rec" "next_delivery_id b = next_delivery_id (dec_buffer d)"
    using absorb_all [OF st rec] by metis
  let ?d = "d\<lparr> dec_buffer := b, known := kn \<rparr>"
  have pre: "store_ok S (dec_buffer ?d) (known ?d)" "next_delivery_id (dec_buffer d0) = next_delivery_id (dec_buffer ?d)"
    using k(2,4) d0 by simp_all
  obtain d' evs where f: "finish_packet rnd P ?d = Ok (d', evs)" "store_ok S (dec_buffer d') (known d')"
    "known d' = known ?d" "dec_matrix d' = dec_matrix ?d" "dec_config d' = dec_config ?d" "events_ok S d0 d' evs"
    by (rule finish_packet_ok [OF pre])
  show ?thesis
  proof (rule that)
    show "finish_packet rnd P (foldl absorb_recovered d rec) = Ok (d', evs)" using f(1) by (simp only: k(1))
    show "decoder_ok f L S d'" using f(2-5) sys k(3) by (simp add: decoder_ok_def)
  qed (use f k(3) in simp_all)
qed

text \<open>What a handler does to the knowledge of the decoder: \<open>eq\<close> is what the packet says of the payloads.\<close>

definition learns :: "Field \<Rightarrow> nat \<Rightarrow> 'p Decoder \<Rightarrow> 'p Decoder \<Rightarrow> ((SourceSymbolId \<Rightarrow> bytes) \<Rightarrow> bool) \<Rightarrow> bool" where
  "learns f L d d' eq = (\<forall>X. sized L X \<longrightarrow>
     (agrees X (known d) \<and> sols f (dm_rows (dec_matrix d)) X \<and> eq X) =
     (agrees X (known d') \<and> sols f (dm_rows (dec_matrix d')) X))"

lemma agrees_all: "agrees S kn \<Longrightarrow> agrees X kn = (\<forall>i \<in> set (bt_keys kn). X i = S i)"
  by (simp only: agrees_keys [of S kn X] bt_keys_def list.set_map)

lemma agrees_known: "decoder_ok f L S d \<Longrightarrow> agrees S (known d)"
  by (simp add: decoder_ok_def store_ok_def)

lemma handle_source_ok:
  assumes ok: "decoder_ok f L S d" and S: "sized L S" "0 < L"
    and pkt: "sp_payload pkt = S (source_symbol_id pkt)" "source_symbol_id pkt \<noteq> - 1"
    and piv: "bt_get (dm_rows (dec_matrix d)) (source_symbol_id pkt) = None"
  obtains d' evs where "handle_source rnd disp P d pkt = Ok (d', evs)" "decoder_ok f L S d'" "events_ok S d d' evs"
    "insert (source_symbol_id pkt) (set (bt_keys (known d))) \<subseteq> set (bt_keys (known d'))"
    "learns f L d d' (\<lambda>X. X (source_symbol_id pkt) = sp_payload pkt)"
    "\<And>i. col_clear i (dm_rows (dec_matrix d)) \<Longrightarrow> col_clear i (dm_rows (dec_matrix d'))"
    "row_count (dec_matrix d') \<le> row_count (dec_matrix d)" "dm_max_rows (dec_matrix d') = dm_max_rows (dec_matrix d)"
    "dec_config d' = dec_config d"
proof -
  let ?i = "source_symbol_id pkt"
  let ?k = "bt_or_insert (known d) ?i (S ?i)" and ?b = "buffer_insert (dec_buffer d) ?i (S ?i)"
  let ?d = "d\<lparr> loss := on_source (loss d) ?i, packets_received := packets_received d + 1, known := ?k, dec_buffer := ?b \<rparr>"
  have st: "store_ok S (dec_buffer d) (known d)" "agrees S (known d)" using ok by (simp_all add: decoder_ok_def store_ok_def)
  have len: "length (sp_payload pkt) = dc_symbol_size (dec_config d)" using ok S(1) pkt(1) by (simp add: decoder_ok_def sized_def)
  have sys: "system_ok f L S (dec_matrix d) (set (bt_keys (known d)))" using ok by (simp add: decoder_ok_def)
  obtain rows' rec where a: "add_known_source disp (dec_matrix d) ?i (S ?i) ?k = Ok ((dec_matrix d)\<lparr> dm_rows := rows' \<rparr>, rec)"
    "agrees S rec" "- 1 \<notin> fst ` set rec"
    "system_ok f L S ((dec_matrix d)\<lparr> dm_rows := rows' \<rparr>) (insert ?i (set (bt_keys (known d))) \<union> fst ` set rec)"
    "\<And>X. sized L X \<Longrightarrow> X ?i = S ?i \<Longrightarrow> sols f (dm_rows (dec_matrix d)) X = (agrees X rec \<and> sols f rows' X)"
    "\<And>i. col_clear i (dm_rows (dec_matrix d)) \<Longrightarrow> col_clear i rows'" "length rows' \<le> length (dm_rows (dec_matrix d))"
    using source_step [OF sys S pkt(2) piv bt_keys_or_insert, of disp] by blast
  let ?d1 = "?d\<lparr> dec_matrix := (dec_matrix d)\<lparr> dm_rows := rows' \<rparr> \<rparr>"
  have pre: "store_ok S (dec_buffer ?d1) (known ?d1)"
    "system_ok f L S (dec_matrix ?d1) (set (bt_keys (known ?d1)) \<union> fst ` set rec)"
    "dc_symbol_size (dec_config ?d1) = L" "next_delivery_id (dec_buffer d) = next_delivery_id (dec_buffer ?d1)"
    using store_ok_insert [OF st(1) pkt(2)] a(4) ok by (simp_all add: bt_keys_or_insert next_delivery_id_insert decoder_ok_def)
  obtain d' evs where f: "finish_packet rnd P (foldl absorb_recovered ?d1 rec) = Ok (d', evs)" "decoder_ok f L S d'"
    "events_ok S d d' evs" "set (bt_keys (known d')) = set (bt_keys (known ?d1)) \<union> fst ` set rec"
    "dec_matrix d' = dec_matrix ?d1" "dec_config d' = dec_config ?d1"
    by (rule absorb_finish [OF pre(1) a(2,3) pre(2-4)])
  have m: "dec_matrix d' = (dec_matrix d)\<lparr> dm_rows := rows' \<rparr>" "dec_config d' = dec_config d"
    "set (bt_keys (known d')) = insert ?i (set (bt_keys (known d))) \<union> fst ` set rec"
    using f(4-6) by (simp_all add: bt_keys_or_insert)
  show ?thesis
  proof (rule that)
    show "handle_source rnd disp P d pkt = Ok (d', evs)"
      using len a(1) f(1) pkt(1) by (simp add: handle_source_def Let_def)
    show "learns f L d d' (\<lambda>X. X ?i = sp_payload pkt)" unfolding learns_def
    proof (intro allI impI)
      fix X assume "sized L X"
      from a(5) [OF this] show "(agrees X (known d) \<and> sols f (dm_rows (dec_matrix d)) X \<and> X ?i = sp_payload pkt) =
          (agrees X (known d') \<and> sols f (dm_rows (dec_matrix d')) X)"
        unfolding agrees_all [OF agrees_known [OF f(2)], of X] agrees_all [OF st(2), of X] m(3) agrees_keys [OF a(2), of X] pkt(1)
        by (auto simp: m(1))
    qed
  qed (use f(2,3) m a(6,7) in \<open>auto simp: row_count_def\<close>)
qed

lemma handle_coded_ok:
  assumes ok: "decoder_ok f L S d" and S: "sized L S" "0 < L"
    and pkt: "ev_ok f (cp_ev pkt)" "length (cp_payload pkt) = L" "ev_sat f S (cp_ev pkt) (cp_payload pkt)"
  obtains d' evs where "handle_coded rnd disp P d pkt = Ok (d', evs)" "decoder_ok f L S d'" "events_ok S d d' evs"
    "set (bt_keys (known d)) \<subseteq> set (bt_keys (known d'))"
    "row_count (dec_matrix d) < dm_max_rows (dec_matrix d) \<Longrightarrow> learns f L d d' (\<lambda>X. ev_sat f X (cp_ev pkt) (cp_payload pkt))"
    "\<And>i. col_clear i (dm_rows (dec_matrix d)) \<Longrightarrow> i \<notin> set (ev_source_ids (cp_ev pkt)) \<or> i \<in> set (bt_keys (known d)) \<Longrightarrow>
       col_clear i (dm_rows (dec_matrix d'))"
    "row_count (dec_matrix d') \<le> Suc (row_count (dec_matrix d))" "dm_max_rows (dec_matrix d') = dm_max_rows (dec_matrix d)"
    "dec_config d' = dec_config d"
proof -
  let ?w = "case ev_source_ids (cp_ev pkt) of first_src # _ \<Rightarrow> max first_src (encoder_win_min d) | [] \<Rightarrow> encoder_win_min d"
  let ?d = "d\<lparr> loss := on_coded (loss d), packets_received := packets_received d + 1, encoder_win_min := ?w \<rparr>"
  have st: "store_ok S (dec_buffer d) (known d)" "agrees S (known d)" "- 1 \<notin> set (bt_keys (known d))"
    using ok by (simp_all add: decoder_ok_def store_ok_def)
  have len: "length (cp_payload pkt) = dc_symbol_size (dec_config d)" using ok pkt(2) by (simp add: decoder_ok_def)
  have sys: "system_ok f L S (dec_matrix d) (set (bt_keys (known d)))" using ok by (simp add: decoder_ok_def)
  obtain m' rec where a: "add_coded disp (dec_matrix d) (cp_ev pkt) (cp_payload pkt) (known d) = Ok (m', rec)"
    "agrees S rec" "- 1 \<notin> fst ` set rec"
    "system_ok f L S m' (set (bt_keys (known d)) \<union> fst ` set rec)" "dm_max_rows m' = dm_max_rows (dec_matrix d)"
    "\<And>X. sized L X \<Longrightarrow> agrees X (known d) \<Longrightarrow> row_count (dec_matrix d) < dm_max_rows (dec_matrix d) \<Longrightarrow>
       (sols f (dm_rows (dec_matrix d)) X \<and> ev_sat f X (cp_ev pkt) (cp_payload pkt)) = (agrees X rec \<and> sols f (dm_rows m') X)"
    "\<And>i. col_clear i (dm_rows (dec_matrix d)) \<Longrightarrow> i \<notin> set (ev_source_ids (cp_ev pkt)) \<or> i \<in> set (bt_keys (known d)) \<Longrightarrow>
       col_clear i (dm_rows m')"
    "row_count m' \<le> Suc (row_count (dec_matrix d))"
    by (rule coded_step [OF sys S st(2,3) pkt]) blast
  let ?d1 = "?d\<lparr> dec_matrix := m' \<rparr>"
  have pre: "store_ok S (dec_buffer ?d1) (known ?d1)"
    "system_ok f L S (dec_matrix ?d1) (set (bt_keys (known ?d1)) \<union> fst ` set rec)"
    "dc_symbol_size (dec_config ?d1) = L" "next_delivery_id (dec_buffer d) = next_delivery_id (dec_buffer ?d1)"
    using st(1) a(4) ok by (simp_all add: decoder_ok_def)
  obtain d' evs where f: "finish_packet rnd P (foldl absorb_recovered ?d1 rec) = Ok (d', evs)" "decoder_ok f L S d'"
    "events_ok S d d' evs" "set (bt_keys (known d')) = set (bt_keys (known ?d1)) \<union> fst ` set rec"
    "dec_matrix d' = dec_matrix ?d1" "dec_config d' = dec_config ?d1"
    by (rule absorb_finish [OF pre(1) a(2,3) pre(2-4)])
  have m: "dec_matrix d' = m'" "dec_config d' = dec_config d"
    "set (bt_keys (known d')) = set (bt_keys (known d)) \<union> fst ` set rec"
    using f(4-6) by simp_all
  have w: "(case ev_source_ids (cp_ev pkt) of first_src # _ \<Rightarrow> if first_src > encoder_win_min e
         then e\<lparr> encoder_win_min := first_src \<rparr> else e | [] \<Rightarrow> e) = ?d"
    if "e = d\<lparr> loss := on_coded (loss d), packets_received := packets_received d + 1 \<rparr>" for e
    using that by (cases "ev_source_ids (cp_ev pkt)") (auto simp: max_def)
  show ?thesis
  proof (rule that)
    show "handle_coded rnd disp P d pkt = Ok (d', evs)"
      using len a(1) f(1) unfolding handle_coded_def Let_def w [OF refl] by simp
    show "learns f L d d' (\<lambda>X. ev_sat f X (cp_ev pkt) (cp_payload pkt))"
      if "row_count (dec_matrix d) < dm_max_rows (dec_matrix d)" unfolding learns_def
    proof (intro allI impI)
      fix X assume "sized L X"
      from a(6) [OF this _ that]
      show "(agrees X (known d) \<and> sols f (dm_rows (dec_matrix d)) X \<and> ev_sat f X (cp_ev pkt) (cp_payload pkt)) =
          (agrees X (known d') \<and> sols f (dm_rows (dec_matrix d')) X)"
        unfolding agrees_all [OF agrees_known [OF f(2)], of X] agrees_all [OF st(2), of X] m(1,3) agrees_keys [OF a(2), of X]
        by auto
    qed
  qed (use f(2,3) m a(5,7,8) in auto)
qed

end
