(* ===== verification/Decoder_Run.thy ===== *)
theory Decoder_Run
  imports Decoder_Correct
begin

text \<open>
  Properties of the decoder: of each handler, and of any sequence of packets in which no source
  packet comes after a coded packet that covers it, unless the symbol had arrived before. For such
  sequences nothing false is delivered and, within the row limit, every symbol that the received
  packets determine is known.
\<close>

section \<open>One packet\<close>

text \<open>C21: a source packet. A payload of the wrong size is an error; otherwise, when the symbol is not the
  pivot of a stored row, the handler succeeds and keeps the invariant; every symbol it delivers carries
  its true payload, the identifiers delivered follow the delivery pointer without a gap up to the first
  unknown symbol, and an acknowledgement names only symbols the decoder has; the solutions of the new
  state are those of the old one that give the symbol the payload received.\<close>

theorem handle_source_correct:
  assumes "decoder_ok f L S d" "sized L S" "0 < L" "source_symbol_id pkt \<noteq> - 1"
    and "length (sp_payload pkt) = L \<longrightarrow> sp_payload pkt = S (source_symbol_id pkt)"
    and "bt_get (dm_rows (dec_matrix d)) (source_symbol_id pkt) = None"
  shows "if length (sp_payload pkt) \<noteq> L
    then handle_source rnd disp P d pkt = Err (SymbolSizeMismatch L (length (sp_payload pkt)))
    else \<exists>d' evs. handle_source rnd disp P d pkt = Ok (d', evs) \<and> decoder_ok f L S d' \<and> events_ok S d d' evs \<and>
      insert (source_symbol_id pkt) (set (bt_keys (known d))) \<subseteq> set (bt_keys (known d')) \<and>
      learns f L d d' (\<lambda>X. X (source_symbol_id pkt) = sp_payload pkt)"
proof (cases "length (sp_payload pkt) = L")
  case True
  then have "sp_payload pkt = S (source_symbol_id pkt)" using assms(5) by blast
  obtain d' evs where "handle_source rnd disp P d pkt = Ok (d', evs)" "decoder_ok f L S d'" "events_ok S d d' evs"
    "insert (source_symbol_id pkt) (set (bt_keys (known d))) \<subseteq> set (bt_keys (known d'))"
    "learns f L d d' (\<lambda>X. X (source_symbol_id pkt) = sp_payload pkt)"
    by (rule handle_source_ok [OF assms(1-3) \<open>sp_payload pkt = S (source_symbol_id pkt)\<close> assms(4,6)]) blast
  with True show ?thesis by auto
next
  case False
  have "dc_symbol_size (dec_config d) = L" using assms(1) by (simp add: decoder_ok_def)
  with False show ?thesis by (simp add: handle_source_def)
qed

text \<open>A small decoder for the witnesses.\<close>

abbreviation small_decoder_config :: DecoderConfig where
  "small_decoder_config \<equiv> \<lparr> dc_symbol_size = 1, dc_field = Gf2_8_field, dc_max_matrix_rows = 8, dc_feedback_every = 8 \<rparr>"

abbreviation small_decoder :: "unit Decoder" where
  "small_decoder \<equiv> Decoder_new small_decoder_config ()"

abbreviation sample_header :: CommonHeader where
  "sample_header \<equiv> CommonHeader_new Source Zero False 2"

lemma small_decoder_ok: "decoder_ok Gf2_8_field 1 S small_decoder"
  by (rule decoder_ok_new) simp_all

theorem handle_source_correct_witness:
  "\<exists>d' evs. handle_source (\<lambda>x. x) Avx2 ImmediateFeedbackPolicy small_decoder
      \<lparr> sp_header = sample_header, sp_cci = [], sp_tsi = None, source_symbol_id = 0, sp_payload = [2] \<rparr> = Ok (d', evs) \<and>
    decoder_ok Gf2_8_field 1 sample_payload d' \<and> events_ok sample_payload small_decoder d' evs"
proof -
  let ?p = "\<lparr> sp_header = sample_header, sp_cci = [], sp_tsi = None, source_symbol_id = 0, sp_payload = [2] \<rparr>"
  have n: "bt_get (dm_rows (dec_matrix small_decoder)) (source_symbol_id ?p) = None"
    by (simp add: Decoder_new_def DecodingMatrix_new_def)
  have z: "source_symbol_id ?p \<noteq> - 1" "length (sp_payload ?p) = 1 \<longrightarrow> sp_payload ?p = sample_payload (source_symbol_id ?p)"
    by simp_all
  from handle_source_correct [OF small_decoder_ok sample_hyps(5) zero_less_one z n, where rnd = "\<lambda>x. x" and disp = Avx2
      and P = ImmediateFeedbackPolicy]
  show ?thesis by (auto split: if_splits)
qed

text \<open>C20: a coded packet. A payload of the wrong size is an error; otherwise the handler succeeds and
  keeps the invariant, and delivers and acknowledges as for source packets; below the row limit the
  solutions of the new state are those of the old one that satisfy the packet's equation.\<close>

theorem handle_coded_correct:
  assumes "decoder_ok f L S d" "sized L S" "0 < L" "ev_ok f (cp_ev pkt)"
    and "length (cp_payload pkt) = L \<longrightarrow> ev_sat f S (cp_ev pkt) (cp_payload pkt)"
  shows "if length (cp_payload pkt) \<noteq> L
    then handle_coded rnd disp P d pkt = Err (SymbolSizeMismatch L (length (cp_payload pkt)))
    else \<exists>d' evs. handle_coded rnd disp P d pkt = Ok (d', evs) \<and> decoder_ok f L S d' \<and> events_ok S d d' evs \<and>
      set (bt_keys (known d)) \<subseteq> set (bt_keys (known d')) \<and>
      (row_count (dec_matrix d) < dm_max_rows (dec_matrix d) \<longrightarrow>
        learns f L d d' (\<lambda>X. ev_sat f X (cp_ev pkt) (cp_payload pkt)))"
proof (cases "length (cp_payload pkt) = L")
  case True
  then have "ev_sat f S (cp_ev pkt) (cp_payload pkt)" using assms(5) by blast
  obtain d' evs where "handle_coded rnd disp P d pkt = Ok (d', evs)" "decoder_ok f L S d'" "events_ok S d d' evs"
    "set (bt_keys (known d)) \<subseteq> set (bt_keys (known d'))"
    "row_count (dec_matrix d) < dm_max_rows (dec_matrix d) \<Longrightarrow> learns f L d d' (\<lambda>X. ev_sat f X (cp_ev pkt) (cp_payload pkt))"
    by (rule handle_coded_ok [OF assms(1-4) True \<open>ev_sat f S (cp_ev pkt) (cp_payload pkt)\<close>]) blast
  with True show ?thesis by auto
next
  case False
  have "dc_symbol_size (dec_config d) = L" using assms(1) by (simp add: decoder_ok_def)
  with False show ?thesis by (simp add: handle_coded_def)
qed

theorem handle_coded_correct_witness:
  "\<exists>d' evs. handle_coded (\<lambda>x. x) Neon ImmediateFeedbackPolicy small_decoder
      \<lparr> cp_header = sample_header, cp_cci = [], cp_tsi = None, coded_symbol_id = 1, cp_ev = sample_ev, cp_payload = [6] \<rparr> = Ok (d', evs) \<and>
    decoder_ok Gf2_8_field 1 sample_payload d' \<and> events_ok sample_payload small_decoder d' evs"
proof -
  let ?p = "\<lparr> cp_header = sample_header, cp_cci = [], cp_tsi = None, coded_symbol_id = 1, cp_ev = sample_ev, cp_payload = [6] \<rparr>"
  have z: "ev_ok Gf2_8_field (cp_ev ?p)" "length (cp_payload ?p) = 1 \<longrightarrow> ev_sat Gf2_8_field sample_payload (cp_ev ?p) (cp_payload ?p)"
    using sample_hyps(2) sample_sat by simp_all
  from handle_coded_correct [OF small_decoder_ok sample_hyps(5) zero_less_one z, where rnd = "\<lambda>x. x" and disp = Neon
      and P = ImmediateFeedbackPolicy]
  show ?thesis by (auto split: if_splits)
qed

section \<open>Sequences of packets\<close>

fun handle_packet :: "(rat \<Rightarrow> rat) \<Rightarrow> Dispatch \<Rightarrow> 'p FeedbackPolicy \<Rightarrow> 'p Decoder \<Rightarrow> DelpPacket \<Rightarrow>
    ('p Decoder \<times> DecoderEvent list) res" where
  "handle_packet rnd disp P d (SourceP pkt) = handle_source rnd disp P d pkt"
| "handle_packet rnd disp P d (CodedP pkt) = handle_coded rnd disp P d pkt"
| "handle_packet rnd disp P d (FeedbackP pkt) = Ok (d, [])"

fun decoder_run :: "(rat \<Rightarrow> rat) \<Rightarrow> Dispatch \<Rightarrow> 'p FeedbackPolicy \<Rightarrow> 'p Decoder \<Rightarrow> DelpPacket list \<Rightarrow>
    ('p Decoder \<times> DecoderEvent list) res" where
  "decoder_run rnd disp P d [] = Ok (d, [])"
| "decoder_run rnd disp P d (p # ps) =
     and_then (handle_packet rnd disp P d p) (\<lambda>(d, evs).
     and_then (decoder_run rnd disp P d ps) (\<lambda>(d, evs'). Ok (d, evs @ evs')))"

text \<open>What a packet says of the payloads, and the form of the packets a decoder can use.\<close>

fun says :: "Field \<Rightarrow> (SourceSymbolId \<Rightarrow> bytes) \<Rightarrow> DelpPacket \<Rightarrow> bool" where
  "says f X (SourceP pkt) = (X (source_symbol_id pkt) = sp_payload pkt)"
| "says f X (CodedP pkt) = ev_sat f X (cp_ev pkt) (cp_payload pkt)"
| "says f X (FeedbackP pkt) = True"

fun usable :: "Field \<Rightarrow> nat \<Rightarrow> DelpPacket \<Rightarrow> bool" where
  "usable f L (SourceP pkt) = (source_symbol_id pkt \<noteq> - 1 \<and> length (sp_payload pkt) = L)"
| "usable f L (CodedP pkt) = (ev_ok f (cp_ev pkt) \<and> length (cp_payload pkt) = L)"
| "usable f L (FeedbackP pkt) = True"

fun carried :: "DelpPacket \<Rightarrow> SourceSymbolId set" where
  "carried (SourceP pkt) = {source_symbol_id pkt}"
| "carried _ = {}"

fun covered :: "DelpPacket \<Rightarrow> SourceSymbolId set" where
  "covered (CodedP pkt) = set (ev_source_ids (cp_ev pkt))"
| "covered _ = {}"

text \<open>\<open>in_order C R ps\<close>: after coded packets that cover \<open>C\<close> and source packets of \<open>R\<close>, no source
  packet comes later than a coded packet that covers it, unless it had come before.\<close>

fun in_order :: "SourceSymbolId set \<Rightarrow> SourceSymbolId set \<Rightarrow> DelpPacket list \<Rightarrow> bool" where
  "in_order C R [] = True"
| "in_order C R (p # ps) = (carried p \<inter> C \<subseteq> R \<and> in_order (C \<union> covered p) (R \<union> carried p) ps)"

fun coded_count :: "DelpPacket list \<Rightarrow> nat" where
  "coded_count [] = 0"
| "coded_count (p # ps) = (case p of CodedP _ \<Rightarrow> 1 | _ \<Rightarrow> 0) + coded_count ps"

definition run_inv :: "Field \<Rightarrow> nat \<Rightarrow> (SourceSymbolId \<Rightarrow> bytes) \<Rightarrow> SourceSymbolId set \<Rightarrow> SourceSymbolId set \<Rightarrow> 'p Decoder \<Rightarrow> bool" where
  "run_inv f L S C R d = (decoder_ok f L S d \<and> R \<subseteq> set (bt_keys (known d)) \<and>
     (\<forall>i. i \<notin> C \<longrightarrow> col_clear i (dm_rows (dec_matrix d))))"

lemma handle_packet_ok:
  assumes inv: "run_inv f L S C R d" and S: "sized L S" "0 < L"
    and p: "usable f L p" "says f S p" "carried p \<inter> C \<subseteq> R"
  obtains d' evs where "handle_packet rnd disp P d p = Ok (d', evs)" "run_inv f L S (C \<union> covered p) (R \<union> carried p) d'"
    "events_ok S d d' evs \<or> d' = d \<and> evs = []"
    "row_count (dec_matrix d) + coded_count [p] \<le> dm_max_rows (dec_matrix d) \<Longrightarrow> learns f L d d' (\<lambda>X. says f X p)"
    "row_count (dec_matrix d') \<le> row_count (dec_matrix d) + coded_count [p]"
    "dm_max_rows (dec_matrix d') = dm_max_rows (dec_matrix d)"
proof (cases p)
  case (FeedbackP pkt)
  with inv show ?thesis by (intro that [of d "[]"]) (simp_all add: learns_def)
next
  case (SourceP pkt)
  have ok: "decoder_ok f L S d" "\<And>i. i \<notin> C \<Longrightarrow> col_clear i (dm_rows (dec_matrix d))" "R \<subseteq> set (bt_keys (known d))"
    using inv by (simp_all add: run_inv_def)
  then have sys: "rows_ok f L (dm_rows (dec_matrix d))" "\<And>i. i \<in> R \<Longrightarrow> col_clear i (dm_rows (dec_matrix d))"
    by (auto simp: decoder_ok_def system_ok_def matrix_ok_def)
  have "source_symbol_id pkt \<notin> C \<or> source_symbol_id pkt \<in> R" using p(3) SourceP by auto
  then have "col_clear (source_symbol_id pkt) (dm_rows (dec_matrix d))" using ok(2) sys(2) by blast
  then have piv: "bt_get (dm_rows (dec_matrix d)) (source_symbol_id pkt) = None" by (rule clear_not_pivot [OF sys(1)])
  have pl: "sp_payload pkt = S (source_symbol_id pkt)" "source_symbol_id pkt \<noteq> - 1" using p(1,2) SourceP by simp_all
  obtain d' evs where h: "handle_source rnd disp P d pkt = Ok (d', evs)" "decoder_ok f L S d'" "events_ok S d d' evs"
    "insert (source_symbol_id pkt) (set (bt_keys (known d))) \<subseteq> set (bt_keys (known d'))"
    "learns f L d d' (\<lambda>X. X (source_symbol_id pkt) = sp_payload pkt)"
    "\<And>i. col_clear i (dm_rows (dec_matrix d)) \<Longrightarrow> col_clear i (dm_rows (dec_matrix d'))"
    "row_count (dec_matrix d') \<le> row_count (dec_matrix d)" "dm_max_rows (dec_matrix d') = dm_max_rows (dec_matrix d)"
    by (rule handle_source_ok [OF ok(1) S pl piv]) blast
  show ?thesis
    by (rule that [of d' evs]) (use h SourceP ok(2,3) in \<open>auto simp: run_inv_def\<close>)
next
  case (CodedP pkt)
  have ok: "decoder_ok f L S d" "\<And>i. i \<notin> C \<Longrightarrow> col_clear i (dm_rows (dec_matrix d))" "R \<subseteq> set (bt_keys (known d))"
    using inv by (simp_all add: run_inv_def)
  have pk: "ev_ok f (cp_ev pkt)" "length (cp_payload pkt) = L" "ev_sat f S (cp_ev pkt) (cp_payload pkt)"
    using p(1,2) CodedP by simp_all
  obtain d' evs where h: "handle_coded rnd disp P d pkt = Ok (d', evs)" "decoder_ok f L S d'" "events_ok S d d' evs"
    "set (bt_keys (known d)) \<subseteq> set (bt_keys (known d'))"
    "row_count (dec_matrix d) < dm_max_rows (dec_matrix d) \<Longrightarrow> learns f L d d' (\<lambda>X. ev_sat f X (cp_ev pkt) (cp_payload pkt))"
    "\<And>i. col_clear i (dm_rows (dec_matrix d)) \<Longrightarrow> i \<notin> set (ev_source_ids (cp_ev pkt)) \<or> i \<in> set (bt_keys (known d)) \<Longrightarrow>
       col_clear i (dm_rows (dec_matrix d'))"
    "row_count (dec_matrix d') \<le> Suc (row_count (dec_matrix d))" "dm_max_rows (dec_matrix d') = dm_max_rows (dec_matrix d)"
    by (rule handle_coded_ok [OF ok(1) S pk]) blast
  show ?thesis
    by (rule that [of d' evs]) (use h CodedP ok(2,3) in \<open>auto simp: run_inv_def\<close>)
qed

text \<open>Deliveries of one packet.\<close>

definition next_of :: "'p Decoder \<Rightarrow> SourceSymbolId" where
  "next_of d = next_delivery_id (dec_buffer d)"

definition no_gap :: "DecoderEvent list \<Rightarrow> bool" where
  "no_gap evs = (\<forall>g c. UnrecoverableGap g c \<notin> set evs)"

definition caught_up :: "'p Decoder \<Rightarrow> bool" where
  "caught_up d = (next_of d \<notin> set (bt_keys (known d)))"

definition run_events :: "(SourceSymbolId \<Rightarrow> bytes) \<Rightarrow> 'p Decoder \<Rightarrow> 'p Decoder \<Rightarrow> DecoderEvent list \<Rightarrow> bool" where
  "run_events S d d' evs = (next_of d \<le> next_of d' \<and> sorted_wrt (<) (map fst (deliveries evs)) \<and>
     (\<forall>(i, x) \<in> set (deliveries evs). x = S i \<and> next_of d \<le> i \<and> i < next_of d') \<and>
     (no_gap evs \<longrightarrow> run_from (next_of d) (deliveries evs) \<and>
        next_of d' = next_of d + of_nat (length (deliveries evs)) \<and> (caught_up d \<longrightarrow> caught_up d')))"

lemma events_ok_run_events:
  assumes ok: "decoder_ok f L S d'" and ev: "events_ok S d d' evs"
  shows "run_events S d d' evs"
proof -
  let ?n = "next_of d"
  obtain out fb where e: "evs = map (\<lambda>(i, x). SourceReady i x) out @ fb @ gap_events (?n + of_nat (length out)) (encoder_win_min d')"
    "run_from ?n out" "?n \<le> ?n + of_nat (length out)" "\<forall>(i, x) \<in> set out. x = S i \<and> i \<in> set (bt_keys (known d'))"
    "?n + of_nat (length out) \<notin> set (bt_keys (known d'))"
    "next_of d' = max (?n + of_nat (length out)) (encoder_win_min d')" "fb = [] \<or> (\<exists>bs. fb = [SendFeedback bs])"
    using ev unfolding events_ok_def Let_def next_of_def by blast
  have "deliveries (gap_events n w) = []" for n w by (simp add: gap_events_def)
  then have del: "deliveries evs = out" using e(1,7) by auto
  note ids = run_from_ids [OF e(2)]
  have nw: "\<forall>k < length out. ?n + of_nat k \<noteq> - 1"
  proof (intro allI impI notI)
    fix k assume k: "k < length out" "?n + of_nat k = - 1"
    then have "- 1 \<in> (\<lambda>k. ?n + of_nat k) ` {0..<length out}" by force
    then have "- 1 \<in> fst ` set out" by (simp only: ids)
    then have "- 1 \<in> set (bt_keys (known d'))" using e(4) by auto
    then show False using ok by (simp add: decoder_ok_def store_ok_def)
  qed
  have range: "?n \<le> i \<and> i < next_of d'" if "(i, x) \<in> set out" for i x
  proof -
    have "i \<in> fst ` set out" using that by force
    then show ?thesis using run_ids [OF nw, of i] e(6) unfolding ids by (auto simp: less_max_iff_disj)
  qed
  have "sorted_wrt (<) (map (\<lambda>k. ?n + of_nat k) [0..<length out])"
    unfolding sorted_wrt_map sorted_wrt_iff_nth_less
    using run_no_wrap [OF nw] by (auto simp: word_less_nat_alt)
  then have sorted: "sorted_wrt (<) (map fst out)" using e(2) by (simp add: run_from_def)
  have "next_of d' = ?n + of_nat (length out)" if "no_gap evs"
    using that e(1,6) by (auto simp: no_gap_def gap_events_def max_def not_less split: if_splits)
  then have gapless: "no_gap evs \<longrightarrow> next_of d' = ?n + of_nat (length out) \<and> caught_up d'"
    using e(5) by (simp add: caught_up_def)
  have "?n \<le> next_of d'" using e(3,6) by (simp add: le_max_iff_disj)
  moreover have "\<forall>(i, x) \<in> set out. x = S i \<and> ?n \<le> i \<and> i < next_of d'" using e(4) range by blast
  ultimately show ?thesis using sorted gapless e(2) unfolding run_events_def del by blast
qed

lemma run_events_refl: "run_events S d d []"
  by (simp add: run_events_def run_from_def)

lemma no_gap_append: "no_gap (a @ b) = (no_gap a \<and> no_gap b)"
  by (auto simp: no_gap_def)

lemma run_from_append: "run_from n a \<Longrightarrow> run_from (n + of_nat (length a)) b \<Longrightarrow> run_from n (a @ b)"
proof -
  assume a: "run_from n a" "run_from (n + of_nat (length a)) b"
  have "map (\<lambda>k. n + of_nat (length a) + of_nat k) [0..<length b] = map (\<lambda>k. n + of_nat k) [length a..<length a + length b]"
    by (rule nth_equalityI) (simp_all add: add.assoc)
  then have b: "map fst b = map (\<lambda>k. n + of_nat k) [length a..<length a + length b]"
    using a(2) by (simp only: run_from_def)
  have "[0..<length a + length b] = [0..<length a] @ [length a..<length a + length b]" by (rule upt_add_eq_append) simp
  with a(1) b show ?thesis unfolding run_from_def length_append map_append by (simp only: map_append)
qed

lemma run_events_trans:
  assumes "run_events S d d1 a" "run_events S d1 d2 b"
  shows "run_events S d d2 (a @ b)"
proof -
  have le: "next_of d \<le> next_of d1" "next_of d1 \<le> next_of d2" using assms by (simp_all add: run_events_def)
  have a: "\<forall>(i, x) \<in> set (deliveries a). x = S i \<and> next_of d \<le> i \<and> i < next_of d1"
    and b: "\<forall>(i, x) \<in> set (deliveries b). x = S i \<and> next_of d1 \<le> i \<and> i < next_of d2"
    using assms by (simp_all add: run_events_def)
  have "\<forall>i \<in> fst ` set (deliveries a). \<forall>j \<in> fst ` set (deliveries b). i < j" using a b by fastforce
  then have "sorted_wrt (<) (map fst (deliveries (a @ b)))"
    using assms by (auto simp: run_events_def sorted_wrt_append)
  moreover have "\<forall>(i, x) \<in> set (deliveries (a @ b)). x = S i \<and> next_of d \<le> i \<and> i < next_of d2" using a b le by fastforce
  moreover have "no_gap (a @ b) \<longrightarrow> run_from (next_of d) (deliveries (a @ b)) \<and>
      next_of d2 = next_of d + of_nat (length (deliveries (a @ b))) \<and> (caught_up d \<longrightarrow> caught_up d2)"
  proof
    assume "no_gap (a @ b)"
    then have a': "run_from (next_of d) (deliveries a)" "next_of d1 = next_of d + of_nat (length (deliveries a))"
        "caught_up d \<longrightarrow> caught_up d1"
      and b': "run_from (next_of d1) (deliveries b)" "next_of d2 = next_of d1 + of_nat (length (deliveries b))"
        "caught_up d1 \<longrightarrow> caught_up d2"
      using assms by (simp_all add: run_events_def no_gap_append)
    have "run_from (next_of d) (deliveries (a @ b))"
      using run_from_append [OF a'(1)] b'(1) by (simp add: a'(2))
    then show "run_from (next_of d) (deliveries (a @ b)) \<and>
        next_of d2 = next_of d + of_nat (length (deliveries (a @ b))) \<and> (caught_up d \<longrightarrow> caught_up d2)"
      using a' b' by (simp add: add.assoc)
  qed
  ultimately show ?thesis using le unfolding run_events_def by (meson order_trans)
qed

section \<open>The decoder on a sequence\<close>

lemma decoder_run_ok:
  assumes "run_inv f L S C R d" "sized L S" "0 < L" "\<forall>p \<in> set ps. usable f L p \<and> says f S p" "in_order C R ps"
  shows "\<exists>d' evs. decoder_run rnd disp P d ps = Ok (d', evs) \<and> decoder_ok f L S d' \<and> run_events S d d' evs \<and>
    (row_count (dec_matrix d) + coded_count ps \<le> dm_max_rows (dec_matrix d) \<longrightarrow>
       learns f L d d' (\<lambda>X. \<forall>p \<in> set ps. says f X p))"
  using assms
proof (induction ps arbitrary: C R d)
  case Nil
  then show ?case by (intro exI [of _ d] exI [of _ "[]"]) (simp add: run_inv_def run_events_refl learns_def)
next
  case (Cons p ps)
  have p: "usable f L p" "says f S p" "carried p \<inter> C \<subseteq> R" and ps: "in_order (C \<union> covered p) (R \<union> carried p) ps"
    using Cons.prems(4,5) by simp_all
  obtain d1 a where h: "handle_packet rnd disp P d p = Ok (d1, a)" "run_inv f L S (C \<union> covered p) (R \<union> carried p) d1"
    "events_ok S d d1 a \<or> d1 = d \<and> a = []"
    "row_count (dec_matrix d) + coded_count [p] \<le> dm_max_rows (dec_matrix d) \<Longrightarrow> learns f L d d1 (\<lambda>X. says f X p)"
    "row_count (dec_matrix d1) \<le> row_count (dec_matrix d) + coded_count [p]"
    "dm_max_rows (dec_matrix d1) = dm_max_rows (dec_matrix d)"
    by (rule handle_packet_ok [OF Cons.prems(1-3) p]) blast
  obtain d2 b where r: "decoder_run rnd disp P d1 ps = Ok (d2, b)" "decoder_ok f L S d2" "run_events S d1 d2 b"
    "row_count (dec_matrix d1) + coded_count ps \<le> dm_max_rows (dec_matrix d1) \<longrightarrow>
       learns f L d1 d2 (\<lambda>X. \<forall>p \<in> set ps. says f X p)"
    using Cons.IH [OF h(2) Cons.prems(2,3) _ ps] Cons.prems(4) by auto
  have "run_events S d d1 a"
    using h(2,3) events_ok_run_events run_events_refl by (auto simp: run_inv_def)
  then have "run_events S d d2 (a @ b)" using r(3) by (rule run_events_trans)
  moreover have "learns f L d d2 (\<lambda>X. \<forall>q \<in> set (p # ps). says f X q)"
    if "row_count (dec_matrix d) + coded_count (p # ps) \<le> dm_max_rows (dec_matrix d)"
  proof -
    have c: "coded_count (p # ps) = coded_count [p] + coded_count ps" by simp
    have "learns f L d d1 (\<lambda>X. says f X p)" by (rule h(4)) (use that c in linarith)
    moreover have "learns f L d1 d2 (\<lambda>X. \<forall>p \<in> set ps. says f X p)" using r(4) h(5,6) that c by linarith
    ultimately show ?thesis unfolding learns_def by auto
  qed
  ultimately show ?case using h(1) r(1,2) by auto
qed

lemma decoder_run_append:
  "decoder_run rnd disp P d (ps @ qs) =
     and_then (decoder_run rnd disp P d ps) (\<lambda>(d, a). and_then (decoder_run rnd disp P d qs) (\<lambda>(d, b). Ok (d, a @ b)))"
proof (induction ps arbitrary: d)
  case Nil
  show ?case by (cases "decoder_run rnd disp P d qs") auto
next
  case (Cons p ps)
  show ?case
  proof (cases "handle_packet rnd disp P d p")
    case (Ok r)
    obtain d1 a where r: "r = (d1, a)" by fastforce
    show ?thesis
    proof (cases "decoder_run rnd disp P d1 ps")
      case (Ok r2)
      obtain d2 b where "r2 = (d2, b)" by fastforce
      with Ok show ?thesis using Cons.IH [of d1] \<open>handle_packet rnd disp P d p = Ok r\<close> r
        by (cases "decoder_run rnd disp P d2 qs") auto
    qed (use Cons.IH [of d1] Ok r in simp_all)
  qed simp_all
qed

lemma true_pairs: "\<forall>(i, x) \<in> set l. x = S i \<Longrightarrow> l = map (\<lambda>i. (i, S i)) (map fst l)"
  by (induction l) auto

lemma run_inv_new:
  "dc_field config = f \<Longrightarrow> dc_symbol_size config = L \<Longrightarrow> run_inv f L S {} {} (Decoder_new config policy)"
  using decoder_ok_new [of config f L S policy] by (simp add: run_inv_def) (simp add: Decoder_new_def DecodingMatrix_new_def)

text \<open>C9: whatever happens to the packets on the way: as long as every packet is true of the payloads \<open>S\<close>
  and no source packet comes later than a coded packet that covers it (unless it had come before), a new
  decoder handles the whole sequence without error; what it delivers are true payloads in strictly
  increasing order of identifiers; and if no gap is reported, exactly the longest prefix of the symbols
  that it knows.\<close>

theorem decoder_run_sound:
  assumes "dc_field config = f" "dc_symbol_size config = L" "sized L S" "0 < L"
    and "\<forall>p \<in> set ps. usable f L p \<and> says f S p" "in_order {} {} ps"
  shows "\<exists>d evs. decoder_run rnd disp P (Decoder_new config policy) ps = Ok (d, evs) \<and> decoder_ok f L S d \<and>
    sorted_wrt (<) (map fst (deliveries evs)) \<and> (\<forall>(i, x) \<in> set (deliveries evs). x = S i) \<and>
    (no_gap evs \<longrightarrow> (let n = length (deliveries evs) in
       deliveries evs = map (\<lambda>k. (of_nat k, S (of_nat k))) [0..<n] \<and> of_nat n \<notin> set (bt_keys (known d))))"
proof -
  let ?d0 = "Decoder_new config policy"
  obtain d evs where r: "decoder_run rnd disp P ?d0 ps = Ok (d, evs)" "decoder_ok f L S d" "run_events S ?d0 d evs"
    using decoder_run_ok [OF run_inv_new [OF assms(1,2)] assms(3-6), of rnd disp P policy] by blast
  have n0: "next_of ?d0 = 0" "caught_up ?d0"
    by (simp_all add: next_of_def caught_up_def Decoder_new_def SymbolBuffer_new_def)
  have t: "\<forall>(i, x) \<in> set (deliveries evs). x = S i" using r(3) by (auto simp: run_events_def)
  have pre: "deliveries evs = map (\<lambda>k. (of_nat k, S (of_nat k))) [0..<length (deliveries evs)]"
    if "run_from 0 (deliveries evs)"
  proof -
    have "deliveries evs = map (\<lambda>i. (i, S i)) (map fst (deliveries evs))" by (rule true_pairs [OF t])
    also have "map fst (deliveries evs) = map (\<lambda>k. of_nat k) [0..<length (deliveries evs)]"
      using that by (simp add: run_from_def)
    finally show ?thesis by (simp add: comp_def)
  qed
  have "no_gap evs \<longrightarrow> run_from 0 (deliveries evs) \<and> of_nat (length (deliveries evs)) \<notin> set (bt_keys (known d))"
  proof
    assume "no_gap evs"
    then have "run_from 0 (deliveries evs)" "next_of d = of_nat (length (deliveries evs))" "caught_up d"
      using r(3) n0(2) by (simp_all add: run_events_def n0(1))
    then show "run_from 0 (deliveries evs) \<and> of_nat (length (deliveries evs)) \<notin> set (bt_keys (known d))"
      by (simp add: caught_up_def)
  qed
  moreover have "sorted_wrt (<) (map fst (deliveries evs))" using r(3) by (simp add: run_events_def)
  ultimately show ?thesis using r(1,2) t pre unfolding Let_def by blast
qed

text \<open>The witness: the symbol 0 arrives, the symbol 1 is lost, and a coded packet covers both.\<close>

abbreviation sample_run :: "DelpPacket list" where
  "sample_run \<equiv>
     [SourceP \<lparr> sp_header = sample_header, sp_cci = [], sp_tsi = None, source_symbol_id = 0, sp_payload = [2] \<rparr>,
      CodedP \<lparr> cp_header = sample_header, cp_cci = [], cp_tsi = None, coded_symbol_id = 1, cp_ev = sample_ev, cp_payload = [6] \<rparr>]"

lemma sample_run_ok:
  "\<forall>p \<in> set sample_run. usable Gf2_8_field 1 p \<and> says Gf2_8_field sample_payload p" "in_order {} {} sample_run"
  "coded_count sample_run \<le> dc_max_matrix_rows small_decoder_config"
  using sample_hyps(2) sample_sat by simp_all

theorem decoder_run_sound_witness:
  "\<exists>d evs. decoder_run (\<lambda>x. x) Scalar ImmediateFeedbackPolicy small_decoder sample_run = Ok (d, evs) \<and>
     sorted_wrt (<) (map fst (deliveries evs)) \<and> (\<forall>(i, x) \<in> set (deliveries evs). x = sample_payload i)"
proof -
  have c: "dc_field small_decoder_config = Gf2_8_field" "dc_symbol_size small_decoder_config = 1" by simp_all
  show ?thesis
    using decoder_run_sound [OF c sample_hyps(5) zero_less_one sample_run_ok(1,2), where rnd = "\<lambda>x. x"
      and disp = Scalar and P = ImmediateFeedbackPolicy and policy = "()"] by blast
qed

text \<open>What a decoder knows after it learned something is what follows from it.\<close>

lemma known_iff_learned:
  assumes "decoder_ok f L S d'" "sized L S" "0 < L" "learns f L d d' eq"
  shows "i \<in> set (bt_keys (known d')) \<longleftrightarrow>
    (\<forall>X. sized L X \<longrightarrow> agrees X (known d) \<longrightarrow> sols f (dm_rows (dec_matrix d)) X \<longrightarrow> eq X \<longrightarrow> X i = S i)"
proof -
  have eqv: "(agrees X (known d) \<and> sols f (dm_rows (dec_matrix d)) X \<and> eq X) =
      (agrees X (known d') \<and> sols f (dm_rows (dec_matrix d')) X)" if "sized L X" for X
    using that assms(4) by (simp add: learns_def)
  have m: "rows_ok f L (dm_rows (dec_matrix d'))" "no_singleton (dm_rows (dec_matrix d'))" "sols f (dm_rows (dec_matrix d')) S"
    "\<forall>i \<in> set (bt_keys (known d')). col_clear i (dm_rows (dec_matrix d'))"
    using assms(1) by (simp_all add: decoder_ok_def system_ok_def matrix_ok_def)
  note kn = agrees_all [OF agrees_known [OF assms(1)]]
  show ?thesis
  proof
    assume "i \<in> set (bt_keys (known d'))"
    then show "\<forall>X. sized L X \<longrightarrow> agrees X (known d) \<longrightarrow> sols f (dm_rows (dec_matrix d)) X \<longrightarrow> eq X \<longrightarrow> X i = S i"
      using eqv kn by blast
  next
    assume det: "\<forall>X. sized L X \<longrightarrow> agrees X (known d) \<longrightarrow> sols f (dm_rows (dec_matrix d)) X \<longrightarrow> eq X \<longrightarrow> X i = S i"
    show "i \<in> set (bt_keys (known d'))"
    proof (rule ccontr)
      assume i: "i \<notin> set (bt_keys (known d'))"
      obtain X where X: "sized L X" "sols f (dm_rows (dec_matrix d')) X" "X i \<noteq> S i"
          "\<And>k. col_clear k (dm_rows (dec_matrix d')) \<Longrightarrow> k \<noteq> i \<Longrightarrow> X k = S k"
        using undetermined_any [OF m(1,2) assms(3) m(3) assms(2)] by blast
      have "agrees X (known d')" unfolding kn using X(4) m(4) i by metis
      with X det eqv [OF X(1)] show False by blast
    qed
  qed
qed

lemma known_iff_determined:
  assumes "dc_field config = f" "dc_symbol_size config = L" "sized L S" "0 < L"
    and "\<forall>p \<in> set ps. usable f L p \<and> says f S p" "in_order {} {} ps" "coded_count ps \<le> dc_max_matrix_rows config"
    and "decoder_run rnd disp P (Decoder_new config policy) ps = Ok (d, evs)"
  shows "i \<in> set (bt_keys (known d)) \<longleftrightarrow> (\<forall>X. sized L X \<longrightarrow> (\<forall>p \<in> set ps. says f X p) \<longrightarrow> X i = S i)"
proof -
  let ?d0 = "Decoder_new config policy"
  have rows: "row_count (dec_matrix ?d0) + coded_count ps \<le> dm_max_rows (dec_matrix ?d0)"
    using assms(7) by (simp add: Decoder_new_def DecodingMatrix_new_def row_count_def)
  have "decoder_ok f L S d" and "learns f L ?d0 d (\<lambda>X. \<forall>p \<in> set ps. says f X p)"
    using decoder_run_ok [OF run_inv_new [OF assms(1,2)] assms(3-6), of rnd disp P policy] assms(8) rows by auto
  from known_iff_learned [OF this(1) assms(3,4) this(2), of i] show ?thesis by (simp add: Decoder_new_def DecodingMatrix_new_def)
qed

text \<open>C8: the decoder gets out of the packets everything that is in them: with no more coded packets than
  the matrix has rows, and no source packet that arrives after a coded packet covering it while the symbol is
  unknown (\<open>in_order\<close>), it knows a symbol after the sequence exactly when all assignments of payloads that are
  consistent with the packets received give the symbol the same payload.\<close>

theorem decoder_run_optimal:
  assumes "dc_field config = f" "dc_symbol_size config = L" "sized L S" "0 < L"
    and "\<forall>p \<in> set ps. usable f L p \<and> says f S p" "in_order {} {} ps" "coded_count ps \<le> dc_max_matrix_rows config"
    and "decoder_run rnd disp P (Decoder_new config policy) ps = Ok (d, evs)"
  shows "i \<in> set (bt_keys (known d)) \<longleftrightarrow> (\<forall>X. sized L X \<longrightarrow> (\<forall>p \<in> set ps. says f X p) \<longrightarrow> X i = S i)"
  by (rule known_iff_determined [OF assms])

theorem decoder_run_optimal_witness:
  "\<exists>d evs. decoder_run (\<lambda>x. x) Scalar ImmediateFeedbackPolicy small_decoder sample_run = Ok (d, evs) \<and>
     5 \<notin> set (bt_keys (known d))"
proof -
  have c: "dc_field small_decoder_config = Gf2_8_field" "dc_symbol_size small_decoder_config = 1" by simp_all
  obtain d evs where r: "decoder_run (\<lambda>x. x) Scalar ImmediateFeedbackPolicy small_decoder sample_run = Ok (d, evs)"
    using decoder_run_ok [OF run_inv_new [OF c, of _ "()"] sample_hyps(5) zero_less_one sample_run_ok(1,2), where rnd = "\<lambda>x. x"
      and disp = Scalar and P = ImmediateFeedbackPolicy] by blast
  let ?X = "sample_payload(5 := [0])"
  have "ev_sat Gf2_8_field ?X sample_ev [6] = ev_sat Gf2_8_field sample_payload sample_ev [6]"
    by (rule ev_sat_cong [of 5]) simp_all
  then have X: "sized 1 ?X" "\<forall>p \<in> set sample_run. says Gf2_8_field ?X p" "?X 5 \<noteq> sample_payload 5"
    using sample_sat by (simp_all add: sized_def)
  from decoder_run_optimal [OF c sample_hyps(5) zero_less_one sample_run_ok r, of 5] X
  have "5 \<notin> set (bt_keys (known d))" by blast
  with r show ?thesis by blast
qed

section \<open>Partial covers\<close>

text \<open>The handler takes the first identifier of any coded packet for the lower end of the encoder's
  window. A packet made by \<open>generate_coded_recent\<close> or \<open>generate_coded_targeted\<close> covers less: here a
  packet that covers symbol 2 only makes a new decoder give up the symbols 0 and 1, which may still be on
  their way; and symbol 2, although recovered and next in line, is not delivered with this packet.\<close>

lemma no_feedback_yet: "\<not> (16 :: u32) \<le> 1"
  by (simp add: word_le_nat_alt)

lemma partial_cover_reports_gap:
  "\<exists>d. handle_coded (\<lambda>x. x) Scalar ConstantFeedbackPolicy
      (Decoder_new small_decoder_config \<lparr> fp_period = 16, fp_counter = 0 \<rparr>)
      \<lparr> cp_header = sample_header, cp_cci = [], cp_tsi = None, coded_symbol_id = 1,
        cp_ev = \<lparr> ev_field = Gf2_8_field, ev_coded_id = 1, ev_generation = 0, ev_id_format = NoneFormat,
          ev_source_ids = [2], ev_coefficients = [1] \<rparr>, cp_payload = [9] \<rparr> = Ok (d, [UnrecoverableGap 0 2]) \<and>
    next_of d = 2 \<and> buffer_get (dec_buffer d) 2 = Some [9]"
  by (simp add: handle_coded_def Decoder_new_def DecodingMatrix_new_def add_coded_def has_explicit_coefs_def index_def
      from_map_def DenseCoefs_new_def set_index_def substitute_known_def forward_eliminate_def back_substitute_def
      normalize_def pivot_coef_def pivot_id_def is_zero_def solve_loop.simps singleton_pivots_def is_solved_def
      add_known_source_def known_loop.simps(2) dense_get_def bt_keys_def upt_rec Let_def absorb_recovered_def
      bt_or_insert_def bt_contains_key_def buffer_insert_def SymbolBuffer_new_def finish_packet_def drain_to_events_def
      drain_deliverable_def drain_loop.simps maybe_send_feedback_def ConstantFeedbackPolicy_def check_gap_def
      prune_below_def next_of_def buffer_get_def no_feedback_yet)

end
