(* ===== verification/End_To_End.thy ===== *)
theory End_To_End
  imports Encoder_Correct Decoder_Run Transport "HOL-Library.Sublist"
begin

text \<open>
  The encoder, a network that loses datagrams, and the receiver. \<open>encoder_trace\<close> is the step
  relation of an application that submits symbols, hands feedback to the encoder and asks for extra
  coded packets, over the whole window or part of it, in any order; its invariant says that every datagram is true of the symbols
  submitted and that no source packet follows a coded packet that covers it. Whatever subsequence of
  the datagrams reaches the receiver, only submitted payloads come out, in order.
\<close>

inductive encoder_trace :: "'w WindowPolicy \<Rightarrow> 'c CongestionControl \<Rightarrow> 'f FecRateController \<Rightarrow> Dispatch \<Rightarrow>
    ('w, 'c, 'f) Encoder \<Rightarrow> EncoderOutput list \<Rightarrow> bytes list \<Rightarrow> ('w, 'c, 'f) Encoder \<Rightarrow> bool"
  for W C F disp e0 where
  start: "encoder_trace W C F disp e0 [] [] e0"
| submit: "encoder_trace W C F disp e0 outs ds e \<Longrightarrow> submit_source disp C F e data = Ok (e', new) \<Longrightarrow>
     encoder_trace W C F disp e0 (outs @ new) (ds @ [data]) e'"
| feedback: "encoder_trace W C F disp e0 outs ds e \<Longrightarrow>
     encoder_trace W C F disp e0 outs ds (handle_feedback W C F e rid pkt)"
| coded: "encoder_trace W C F disp e0 outs ds e \<Longrightarrow> generate_coded disp C e = Ok (e', Some new) \<Longrightarrow>
     encoder_trace W C F disp e0 (outs @ [new]) ds e'"
| recent: "encoder_trace W C F disp e0 outs ds e \<Longrightarrow> generate_coded_recent disp C e k = Ok (e', Some new) \<Longrightarrow>
     encoder_trace W C F disp e0 (outs @ [new]) ds e'"
| for_receiver: "encoder_trace W C F disp e0 outs ds e \<Longrightarrow> generate_coded_for_receiver disp C e rid = Ok (e', Some new) \<Longrightarrow>
     encoder_trace W C F disp e0 (outs @ [new]) ds e'"
| targeted: "encoder_trace W C F disp e0 outs ds e \<Longrightarrow> sorted_wrt (<) cover_ids \<Longrightarrow>
     generate_coded_targeted disp C e cover_ids = Ok (e', Some new) \<Longrightarrow>
     encoder_trace W C F disp e0 (outs @ [new]) ds e'"

lemma generate_coded_none: "generate_coded disp C e = Ok (e', None) \<Longrightarrow> e' = e"
  by (auto simp: generate_coded_def generate_coded_inner_def Let_def split: if_splits)

lemma coded_loop_trace:
  assumes "coded_loop disp C k e out = Ok (e', out')" "encoder_trace W C F disp e0 o0 d0 e"
  shows "\<exists>new. out' = out @ new \<and> encoder_trace W C F disp e0 (o0 @ new) d0 e'"
  using assms
proof (induction k arbitrary: e out o0)
  case (Suc k)
  from Suc.prems(1) obtain e1 r where g: "generate_coded disp C e = Ok (e1, r)"
    "(case r of Some coded \<Rightarrow> coded_loop disp C k e1 (out @ [coded]) | None \<Rightarrow> Ok (e1, out)) = Ok (e', out')" by auto
  show ?case
  proof (cases r)
    case None
    with g(1) have "e1 = e" by (simp add: generate_coded_none)
    with None g(2) Suc.prems(2) show ?thesis by (intro exI [of _ "[]"]) simp
  next
    case (Some t)
    with g have g1: "generate_coded disp C e = Ok (e1, Some t)" "coded_loop disp C k e1 (out @ [t]) = Ok (e', out')" by simp_all
    from Suc.IH [OF g1(2) encoder_trace.coded [OF Suc.prems(2) g1(1)]] show ?thesis by auto
  qed
qed simp

section \<open>Datagrams and packets\<close>

fun carries :: "bytes \<Rightarrow> DelpPacket \<Rightarrow> bool" where
  "carries raw (SourceP p) = (SourcePacket_parse raw = Ok p)"
| "carries raw (CodedP p) = (CodedPacket_parse raw = Ok p)"
| "carries raw (FeedbackP p) = False"

lemma source_parse_type:
  assumes "SourcePacket_parse raw = Ok p"
  shows "and_then (CommonHeader_parse raw) packet_type = Ok Source"
proof -
  from assms obtain h pt where "CommonHeader_parse raw = Ok h" "packet_type h = Ok pt"
    unfolding SourcePacket_parse_def and_then_Ok_iff by blast
  with assms show ?thesis by (cases "pt = Source") (auto simp: SourcePacket_parse_def and_then_Ok_iff)
qed

lemma coded_parse_type:
  assumes "CodedPacket_parse raw = Ok p"
  shows "and_then (CommonHeader_parse raw) packet_type = Ok Coded"
proof -
  from assms obtain h pt where "CommonHeader_parse raw = Ok h" "packet_type h = Ok pt"
    unfolding CodedPacket_parse_def and_then_Ok_iff by blast
  with assms show ?thesis by (cases "pt = Coded") (auto simp: CodedPacket_parse_def and_then_Ok_iff)
qed

lemma carries_unique:
  assumes "carries raw p" "carries raw q"
  shows "p = q"
proof -
  have no: "CodedPacket_parse raw \<noteq> Ok b" if "SourcePacket_parse raw = Ok a" for a b
    using that source_parse_type [of raw a] coded_parse_type [of raw b] by (metis PacketType.distinct(1) res.inject(1))
  show ?thesis using assms by (cases p; cases q) (auto dest: no)
qed

lemma carries_list_unique: "list_all2 carries raws ps \<Longrightarrow> list_all2 carries raws qs \<Longrightarrow> ps = qs"
proof (induction arbitrary: qs rule: list_all2_induct)
  case (Cons raw raws p ps)
  from Cons.prems obtain q qs' where "qs = q # qs'" "carries raw q" "list_all2 carries raws qs'" by (auto simp: list_all2_Cons1)
  with carries_unique [OF Cons.hyps(1)] Cons.IH show ?case by blast
qed simp

lemma decode_carried:
  "carries raw p \<Longrightarrow> decode_datagram rnd disp P d raw = and_then (handle_packet rnd disp P d p) (\<lambda>r. Ok (Some r))"
  by (cases p) (simp_all add: decode_datagram_def source_parse_type coded_parse_type)

text \<open>The order of packets on the wire: no source packet after a coded packet that covers it.\<close>

fun sources_first :: "SourceSymbolId set \<Rightarrow> DelpPacket list \<Rightarrow> bool" where
  "sources_first C [] = True"
| "sources_first C (p # ps) = (carried p \<inter> C = {} \<and> sources_first (C \<union> covered p) ps)"

lemma sources_first_mono: "sources_first C ps \<Longrightarrow> C' \<subseteq> C \<Longrightarrow> sources_first C' ps"
proof (induction ps arbitrary: C C')
  case (Cons p ps)
  have "sources_first (C \<union> covered p) ps" "C' \<union> covered p \<subseteq> C \<union> covered p" "carried p \<inter> C' = {}"
    using Cons.prems by auto
  then show ?case using Cons.IH by simp
qed simp

lemma sources_first_subseq: "subseq rs ps \<Longrightarrow> sources_first C ps \<Longrightarrow> sources_first C rs"
proof (induction arbitrary: C rule: list_emb.induct)
  case (list_emb_Cons xs ys y)
  then have "sources_first (C \<union> covered y) xs" by simp
  then show ?case by (rule sources_first_mono) simp
next
  case (list_emb_Cons2 x y xs ys)
  then show ?case by simp
qed simp

lemma sources_first_in_order: "sources_first C ps \<Longrightarrow> in_order C R ps"
  by (induction ps arbitrary: C R) auto

text \<open>The order in which the encoder emits: source packets count up from \<open>n\<close>, and a coded packet
  covers only symbols of earlier source packets.\<close>

fun is_coded :: "DelpPacket \<Rightarrow> bool" where
  "is_coded (CodedP pkt) = (ev_source_ids (cp_ev pkt) \<noteq> [])"
| "is_coded _ = False"

text \<open>A coded packet over exactly the symbols \<open>ids\<close>, with a vector that an encoder made.\<close>

definition encoder_vector :: "EncodingVector \<Rightarrow> bool" where
  "encoder_vector ev = (\<exists>config c g cs. coefs_and_ev config (ev_source_ids ev) c g = Ok (cs, ev))"

fun covers :: "SourceSymbolId list \<Rightarrow> DelpPacket \<Rightarrow> bool" where
  "covers ids (CodedP pkt) = (ev_source_ids (cp_ev pkt) = ids \<and> ids \<noteq> [] \<and> encoder_vector (cp_ev pkt))"
| "covers ids _ = False"

lemma covers_is_coded: "covers ids p \<Longrightarrow> is_coded p"
  by (cases p) auto

definition ids_below :: "nat \<Rightarrow> SourceSymbolId set" where
  "ids_below n = {i. unat i < n}"

fun in_sequence :: "nat \<Rightarrow> DelpPacket list \<Rightarrow> bool" where
  "in_sequence n [] = True"
| "in_sequence n (SourceP pkt # ps) = (source_symbol_id pkt = of_nat n \<and> in_sequence (Suc n) ps)"
| "in_sequence n (p # ps) = (is_coded p \<and> covered p \<subseteq> ids_below n \<and> in_sequence n ps)"

fun source_count :: "DelpPacket list \<Rightarrow> nat" where
  "source_count [] = 0"
| "source_count (SourceP pkt # ps) = Suc (source_count ps)"
| "source_count (p # ps) = source_count ps"

lemma in_sequence_append [simp]:
  "in_sequence n (ps @ qs) = (in_sequence n ps \<and> in_sequence (n + source_count ps) qs)"
  by (induction n ps rule: in_sequence.induct) auto

lemma source_count_append [simp]: "source_count (ps @ qs) = source_count ps + source_count qs"
  by (induction ps rule: source_count.induct) auto

lemma in_sequence_coded:
  "\<forall>p \<in> set ps. is_coded p \<and> covered p \<subseteq> ids_below n \<Longrightarrow> in_sequence n ps \<and> source_count ps = 0"
proof (induction ps)
  case (Cons p ps)
  then show ?case by (cases p) auto
qed simp

lemma ids_below_mono: "m \<le> n \<Longrightarrow> ids_below m \<subseteq> ids_below n"
  by (auto simp: ids_below_def)

lemma in_sequence_sources_first:
  "in_sequence n ps \<Longrightarrow> n + source_count ps \<le> 65535 \<Longrightarrow> C \<subseteq> ids_below n \<Longrightarrow> sources_first C ps"
proof (induction n ps arbitrary: C rule: in_sequence.induct)
  case (2 n pkt ps)
  have "n < 2 ^ 32" using "2.prems"(2) by simp
  then have "of_nat n \<notin> C" using "2.prems"(3) by (auto simp: ids_below_def unat_of_nat dest: subsetD)
  moreover have "C \<subseteq> ids_below (Suc n)" using "2.prems"(3) ids_below_mono [of n "Suc n"] by auto
  ultimately show ?case using 2 by simp
qed auto

section \<open>The receiver on a list of datagrams\<close>

fun receive_all :: "('n, 'addr, 'io) UdpSocket \<Rightarrow> (rat \<Rightarrow> rat) \<Rightarrow> Dispatch \<Rightarrow> 'p FeedbackPolicy \<Rightarrow>
    ('p, 'addr) FecReceiver \<Rightarrow> 'n \<Rightarrow> bytes list \<Rightarrow> ('p, 'addr) FecReceiver \<times> 'n \<times> (bool, 'io) tres list" where
  "receive_all U rnd disp P r net [] = (r, net, [])"
| "receive_all U rnd disp P r net (raw # raws) =
     (let (r, net, x) = process_datagram U rnd disp P r net raw;
          (r, net, xs) = receive_all U rnd disp P r net raws
      in (r, net, x # xs))"

lemma event_loop_ready:
  "\<exists>net' b. event_loop tx r net b0 evs = (r\<lparr> ready := ready r @ deliveries evs \<rparr>, net', b)"
proof (induction evs arbitrary: r net b0)
  case (Cons ev evs)
  show ?case
  proof (cases ev)
    case (SourceReady i x)
    show ?thesis using Cons.IH [of "r\<lparr> ready := ready r @ [(i, x)] \<rparr>" net True] by (simp add: SourceReady)
  next
    case (SendFeedback fb)
    show ?thesis using Cons.IH [of r "fst (tx net fb (encoder_addr r))" b0] by (simp add: SendFeedback)
  next
    case (UnrecoverableGap g c)
    show ?thesis using Cons.IH [of r net b0] by (simp add: UnrecoverableGap)
  qed
qed simp

lemma process_carried:
  assumes "carries raw p" "handle_packet rnd disp P (rx_decoder r) p = Ok (d, evs)"
  shows "\<exists>net' b. process_datagram U rnd disp P r net raw =
    (r\<lparr> rx_decoder := d, ready := ready r @ deliveries evs \<rparr>, net', TOk b)"
proof -
  obtain net' b where "event_loop (send_to U) (r\<lparr> rx_decoder := d \<rparr>) net False evs =
      ((r\<lparr> rx_decoder := d \<rparr>)\<lparr> ready := ready (r\<lparr> rx_decoder := d \<rparr>) @ deliveries evs \<rparr>, net', b)"
    using event_loop_ready [of "send_to U" "r\<lparr> rx_decoder := d \<rparr>" net False evs] by (elim exE) (rule that)
  then show ?thesis by (simp add: process_datagram_def decode_carried [OF assms(1)] assms(2))
qed

lemma receive_all_run:
  assumes "list_all2 carries raws ps" "decoder_run rnd disp P (rx_decoder r) ps = Ok (d, evs)"
  shows "\<exists>net' xs. receive_all U rnd disp P r net raws =
      (r\<lparr> rx_decoder := d, ready := ready r @ deliveries evs \<rparr>, net', xs) \<and> (\<forall>x \<in> set xs. \<exists>b. x = TOk b)"
  using assms
proof (induction raws ps arbitrary: r net evs rule: list_all2_induct)
  case (Cons raw raws p ps)
  from Cons.prems obtain d1 a b where h: "handle_packet rnd disp P (rx_decoder r) p = Ok (d1, a)"
    "decoder_run rnd disp P d1 ps = Ok (d, b)" "evs = a @ b" by auto
  let ?r = "r\<lparr> rx_decoder := d1, ready := ready r @ deliveries a \<rparr>"
  obtain net1 c where p: "process_datagram U rnd disp P r net raw = (?r, net1, TOk c)"
    using process_carried [OF Cons.hyps(1) h(1), of U net] by (elim exE) (rule that)
  have "decoder_run rnd disp P (rx_decoder ?r) ps = Ok (d, b)" using h(2) by simp
  from Cons.IH [OF this, of net1] p h(3) show ?case by auto
qed simp

section \<open>What the encoder puts on the wire\<close>

text \<open>A list of outputs is true of \<open>S\<close>: every datagram parses to a usable packet that is true and
  concerns symbols below \<open>n\<close> only.\<close>

definition outputs_true :: "Field \<Rightarrow> nat \<Rightarrow> (SourceSymbolId \<Rightarrow> bytes) \<Rightarrow> nat \<Rightarrow> EncoderOutput list \<Rightarrow> DelpPacket list \<Rightarrow> bool" where
  "outputs_true f L S n outs ps = (list_all2 (\<lambda>t p. carries (raw_of t) p) outs ps \<and>
     (\<forall>p \<in> set ps. usable f L p \<and> says f S p \<and> carried p \<subseteq> ids_below n \<and> covered p \<subseteq> ids_below n))"

lemma outputs_true_append:
  assumes "outputs_true f L S m outs ps" "outputs_true f L S n outs' ps'" "m \<le> n"
  shows "outputs_true f L S n (outs @ outs') (ps @ ps')"
  using assms(1,2) ids_below_mono [OF assms(3)] unfolding outputs_true_def
  by (auto intro: list_all2_appendI)

text \<open>The state of the encoder in a trace: configuration and invariant, and \<open>n\<close> symbols submitted.\<close>

definition sending :: "('c \<Rightarrow> bool) \<Rightarrow> EncoderConfig \<Rightarrow> (SourceSymbolId \<Rightarrow> bytes) \<Rightarrow> nat \<Rightarrow> ('w, 'c, 'f) Encoder \<Rightarrow> bool" where
  "sending cinv config S n e = (enc_config e = config \<and> encoder_ok e \<and> cinv (enc_cc e) \<and>
     next_id (enc_window e) = of_nat n \<and> window_agrees (enc_window e) S)"

lemma window_ids_below:
  assumes "sending cinv config S n e" "n \<le> 65535"
  shows "set (id_slice (enc_window e)) \<subseteq> ids_below n"
    "\<forall>i \<in> set (id_slice (enc_window e)). unat i < unat (hd (id_slice (enc_window e))) + 65536"
    "length (win_symbols (enc_window e)) \<le> ec_window_capacity config"
proof -
  have n: "unat (of_nat n :: u32) = n" using assms(2) by (simp add: unat_of_nat)
  show *: "set (id_slice (enc_window e)) \<subseteq> ids_below n"
  proof
    fix i assume "i \<in> set (id_slice (enc_window e))"
    then have "i < of_nat n" using assms(1) by (auto simp: sending_def encoder_ok_def window_ok_def)
    then show "i \<in> ids_below n" using n by (simp add: ids_below_def word_less_nat_alt)
  qed
  then have "unat i < 65536" if "i \<in> set (id_slice (enc_window e))" for i
    using that assms(2) unfolding ids_below_def by fastforce
  then show "\<forall>i \<in> set (id_slice (enc_window e)). unat i < unat (hd (id_slice (enc_window e))) + 65536"
    by (metis trans_less_add2)
  show "length (win_symbols (enc_window e)) \<le> ec_window_capacity config"
    using assms(1) by (auto simp: sending_def encoder_ok_def window_ok_def)
qed

lemma window_agrees_sub: "window_map w' \<subseteq>\<^sub>m window_map w \<Longrightarrow> window_agrees w S \<Longrightarrow> window_agrees w' S"
  by (force simp: window_agrees_def map_le_def dom_def)

text \<open>Every kind of coded packet is made of an ascending selection of the window.\<close>

definition selection :: "('w, 'c, 'f) Encoder \<Rightarrow> SourceSymbolId list \<Rightarrow> bool" where
  "selection e cover = (set cover \<subseteq> set (id_slice (enc_window e)) \<and> sorted_wrt (<) cover \<and> cover \<noteq> [])"

lemma coded_selection:
  assumes "encoder_ok e"
  shows "generate_coded disp C e = Ok (e, None) \<or>
      (\<exists>cover. selection e cover \<and> generate_coded disp C e = generate_coded_inner disp C e cover)"
    and "generate_coded_recent disp C e k = Ok (e, None) \<or>
      (\<exists>cover. selection e cover \<and> generate_coded_recent disp C e k = generate_coded_inner disp C e cover)"
    and "generate_coded_for_receiver disp C e rid = Ok (e, None) \<or>
      (\<exists>cover. selection e cover \<and> generate_coded_for_receiver disp C e rid = generate_coded_inner disp C e cover)"
    and "sorted_wrt (<) ids \<Longrightarrow> generate_coded_targeted disp C e ids = Ok (e, None) \<or>
      (\<exists>cover. selection e cover \<and> generate_coded_targeted disp C e ids = generate_coded_inner disp C e cover)"
proof -
  let ?ids = "id_slice (enc_window e)"
  note s = encoder_ids(1) [OF assms]
  have empty: "window_is_empty (enc_window e) = (?ids = [])" by (simp add: window_is_empty_def id_slice_def)
  show "generate_coded disp C e = Ok (e, None) \<or>
      (\<exists>cover. selection e cover \<and> generate_coded disp C e = generate_coded_inner disp C e cover)"
    using s unfolding generate_coded_def selection_def empty id_slice_def [symmetric] by auto
  show "generate_coded_for_receiver disp C e rid = Ok (e, None) \<or>
      (\<exists>cover. selection e cover \<and> generate_coded_for_receiver disp C e rid = generate_coded_inner disp C e cover)"
  proof -
    let ?c = "filter (\<lambda>sid. \<not> ack_is_acked (ack_state e) rid sid) ?ids"
    have "?c \<noteq> [] \<Longrightarrow> selection e ?c" using s by (auto simp: selection_def sorted_wrt_filter)
    then show ?thesis unfolding generate_coded_for_receiver_def Let_def id_slice_def [symmetric] by metis
  qed
  show "generate_coded_targeted disp C e ids = Ok (e, None) \<or>
      (\<exists>cover. selection e cover \<and> generate_coded_targeted disp C e ids = generate_coded_inner disp C e cover)"
    if "sorted_wrt (<) ids"
  proof -
    let ?c = "filter (\<lambda>sid. sid \<in> set ?ids) ids"
    have "?c \<noteq> [] \<Longrightarrow> selection e ?c" using that by (auto simp: selection_def sorted_wrt_filter)
    then show ?thesis unfolding generate_coded_targeted_def Let_def id_slice_def [symmetric] by metis
  qed
  show "generate_coded_recent disp C e k = Ok (e, None) \<or>
      (\<exists>cover. selection e cover \<and> generate_coded_recent disp C e k = generate_coded_inner disp C e cover)"
  proof (cases "window_is_empty (enc_window e) \<or> k = 0")
    case False
    let ?l = "length (win_symbols (enc_window e)) - min k (length (win_symbols (enc_window e)))"
    let ?c = "map ws_id (drop ?l (win_symbols (enc_window e)))"
    have "?c \<noteq> []" using False by (auto simp: min_def window_is_empty_def)
    moreover have "sorted_wrt (<) ?c" using s unfolding id_slice_def by (metis drop_map sorted_wrt_drop)
    ultimately have "selection e ?c" by (auto simp: selection_def id_slice_def dest: in_set_dropD)
    with False show ?thesis by (auto simp: generate_coded_recent_def Let_def)
  qed (simp add: generate_coded_recent_def)
qed

context congestion_control
begin

lemma inner_true:
  assumes e: "sending cinv config S n e" "n \<le> 65535" "ec_window_capacity config \<le> 255"
    and cover: "selection e cover" and g: "generate_coded_inner disp C e cover = Ok (e', Some new)"
  shows "sending cinv config S n e' \<and> enc_window e' = enc_window e \<and>
    (\<exists>p. outputs_true (ec_field config) (ec_symbol_size config) S n [new] [p] \<and> covers cover p)"
proof -
  have s: "encoder_ok e" "cinv (enc_cc e)" "window_agrees (enc_window e) S" "enc_config e = config"
    using e(1) by (simp_all add: sending_def)
  have c: "set cover \<subseteq> set (id_slice (enc_window e))" "sorted_wrt (<) cover" "cover \<noteq> []"
    using cover by (simp_all add: selection_def)
  note w = window_ids_below [OF e(1,2)]
  have "length cover = card (set cover)" using c(2) by (simp add: strict_sorted_iff distinct_card)
  also have "\<dots> \<le> card (set (id_slice (enc_window e)))" by (rule card_mono) (use c(1) in auto)
  also have "\<dots> \<le> 255" using card_length [of "id_slice (enc_window e)"] w(3) e(3) by (simp add: id_slice_def)
  finally have len: "length cover \<le> 255" .
  have "unat i < 65536" if "i \<in> set cover" for i using that c(1) w(1) e(2) unfolding ids_below_def by fastforce
  then have span: "\<forall>i \<in> set cover. unat i < unat (hd cover) + 65536" by (metis trans_less_add2)
  obtain e1 pkt p cs where t: "generate_coded_inner disp C e cover = Ok (e1, Some (CodedOut pkt))" "emits e e1" "cinv (enc_cc e1)"
    "CodedPacket_parse pkt = Ok p" "ev_source_ids (cp_ev p) = cover"
    "ev_ok (ec_field config) (cp_ev p)" "length (cp_payload p) = ec_symbol_size config"
    "ev_sat (ec_field config) S (cp_ev p) (cp_payload p)"
    "coefs_and_ev config cover (enc_next_coded_id e) (enc_generation e) = Ok (cs, cp_ev p)"
    by (rule generate_inner_true [OF s(1-3) c len span, of disp]) (use s(4) in blast)
  with g have new: "e' = e1" "new = CodedOut pkt" by simp_all
  have "sending cinv config S n e'" "enc_window e' = enc_window e" using t(2,3) e(1) by (auto simp: new sending_def emits_def)
  moreover have "set cover \<subseteq> ids_below n" using c(1) w(1) by blast
  then have "outputs_true (ec_field config) (ec_symbol_size config) S n [new] [CodedP p]"
    using t(4-8) by (simp add: outputs_true_def new)
  moreover have "encoder_vector (cp_ev p)" using t(5,9) unfolding encoder_vector_def by blast
  ultimately show ?thesis using c(3) t(5) by (intro conjI exI [of _ "CodedP p"]) auto
qed

lemma generated_true:
  assumes "sending cinv config S n e" "n \<le> 65535" "ec_window_capacity config \<le> 255"
    and "generate_coded disp C e = Ok (e', Some new)"
  shows "sending cinv config S n e' \<and> enc_window e' = enc_window e \<and>
    (\<exists>p. outputs_true (ec_field config) (ec_symbol_size config) S n [new] [p] \<and> covers (id_slice (enc_window e)) p)"
proof -
  have "encoder_ok e" using assms(1) by (simp add: sending_def)
  with assms(4) have "selection e (id_slice (enc_window e))"
    "generate_coded_inner disp C e (id_slice (enc_window e)) = Ok (e', Some new)"
    using encoder_ids(1) [of e]
    by (auto simp: generate_coded_def selection_def window_is_empty_def id_slice_def split: if_splits)
  then show ?thesis by (rule inner_true [OF assms(1-3)])
qed

lemma coded_loop_true:
  assumes "sending cinv config S n e" "n \<le> 65535" "ec_window_capacity config \<le> 255"
    and "coded_loop disp C k e out = Ok (e', out')"
  shows "sending cinv config S n e' \<and> enc_window e' = enc_window e \<and>
    (\<exists>new ps. out' = out @ new \<and> (\<forall>p \<in> set ps. covers (id_slice (enc_window e)) p) \<and>
    outputs_true (ec_field config) (ec_symbol_size config) S n new ps)"
  using assms
proof (induction k arbitrary: e out)
  case 0
  then show ?case by (intro conjI exI [of _ "[]"]) (simp_all add: outputs_true_def)
next
  case (Suc k)
  from Suc.prems(4) obtain e1 r where g: "generate_coded disp C e = Ok (e1, r)"
    "(case r of Some coded \<Rightarrow> coded_loop disp C k e1 (out @ [coded]) | None \<Rightarrow> Ok (e1, out)) = Ok (e', out')" by auto
  show ?case
  proof (cases r)
    case None
    with g have "e1 = e" by (simp add: generate_coded_none)
    with None g Suc.prems(1) show ?thesis
      by (intro conjI exI [of _ "[]"]) (simp_all add: outputs_true_def)
  next
    case (Some t)
    with g have g1: "generate_coded disp C e = Ok (e1, Some t)" "coded_loop disp C k e1 (out @ [t]) = Ok (e', out')" by simp_all
    obtain p where p: "sending cinv config S n e1" "outputs_true (ec_field config) (ec_symbol_size config) S n [t] [p]"
      "covers (id_slice (enc_window e)) p" "enc_window e1 = enc_window e"
      using generated_true [OF Suc.prems(1-3) g1(1)] by blast
    obtain new ps where r: "sending cinv config S n e'" "out' = (out @ [t]) @ new"
      "\<forall>p \<in> set ps. covers (id_slice (enc_window e)) p"
      "outputs_true (ec_field config) (ec_symbol_size config) S n new ps" "enc_window e' = enc_window e"
      using Suc.IH [OF p(1) Suc.prems(2,3) g1(2)] p(4) by auto
    have "outputs_true (ec_field config) (ec_symbol_size config) S n ([t] @ new) ([p] @ ps)"
      by (rule outputs_true_append [OF p(2) r(4) order_refl])
    with r p(3) show ?thesis by (intro conjI exI [of _ "t # new"] exI [of _ "p # ps"]) auto
  qed
qed

lemma encoder_ok_push:
  assumes "encoder_ok e" "length data = ec_symbol_size (enc_config e)" "next_id (enc_window e) \<noteq> - 1"
  shows "encoder_ok (e\<lparr> enc_window := fst (window_push (make_room e) data), enc_cc := c, enc_fec := x \<rparr>)"
proof -
  note m = make_room_ok [OF assms(1)]
  have "window_ok (fst (window_push (make_room e) data))"
    by (rule window_ok_push [OF m(1,2)]) (simp add: m(4) assms(3))
  then show ?thesis using assms(1,2) m(3,5) by (auto simp: encoder_ok_def dest!: push_data_length)
qed

lemma make_room_map: "encoder_ok e \<Longrightarrow> window_map (make_room e) \<subseteq>\<^sub>m window_map (enc_window e)"
  by (auto simp: make_room_def window_map_evict encoder_ok_def map_le_def split: option.splits)

lemma submitted_true:
  assumes e: "sending cinv config S n e" "n < 65535" "ec_window_capacity config \<le> 255"
    and sub: "submit_source disp C F e data = Ok (e', new)" and S: "S (of_nat n) = data"
  shows "sending cinv config S (Suc n) e' \<and> enc_window e' = fst (window_push (make_room e) data) \<and>
    (\<exists>p ps. source_symbol_id p = of_nat n \<and> (\<forall>p \<in> set ps. covers (id_slice (enc_window e')) p) \<and>
    outputs_true (ec_field config) (ec_symbol_size config) S (Suc n) new (SourceP p # ps))"
proof -
  have s: "encoder_ok e" "cinv (enc_cc e)" "window_agrees (enc_window e) S" "enc_config e = config"
    "next_id (enc_window e) = of_nat n" using e(1) by (simp_all add: sending_def)
  have n: "unat (of_nat n :: u32) = n" using e(2) by (simp add: unat_of_nat)
  have nid: "next_id (enc_window e) \<noteq> - 1"
  proof
    assume "next_id (enc_window e) = - 1"
    then have "unat (of_nat n :: u32) = unat (- 1 :: u32)" using s(5) by simp
    then show False using e(2) n by (simp add: unsigned_minus_1_eq_mask mask_eq_exp_minus_1)
  qed
  note m = make_room_ok [OF s(1)]
  let ?w = "fst (window_push (make_room e) data)" and ?st = "make_encoder_state (fst (window_push (make_room e) data)) (ec_window_capacity config)"
  from sub have len: "length data = ec_symbol_size config" using s(4) by (auto simp: submit_source_def split: if_splits)
  have "is_full (enc_window e) \<longrightarrow> ec_backpressure config = EvictOldest"
    using sub s(4) by (auto simp: submit_source_def split: if_splits BackpressureMode.splits)
  then have room: "(if is_full (enc_window e) then (case ec_backpressure config of
          Reject \<Rightarrow> Err (WindowFull (ec_window_capacity config))
        | EvictOldest \<Rightarrow> Ok (evict_oldest (enc_window e))) else Ok (enc_window e)) = Ok (make_room e)"
    by (simp add: make_room_def)
  obtain pkt where pkt: "SourcePacket_serialise (of_nat n) data (generate_cci C (enc_cc e)) None = Ok pkt"
    using serialise_total(2) [OF s(2)] by blast
  let ?e = "e\<lparr> enc_window := ?w, enc_cc := on_send C (enc_cc e) (length pkt),
    enc_fec := fst (coded_packets_to_generate F (enc_fec e) ?st) \<rparr>"
  have loop: "coded_loop disp C (snd (coded_packets_to_generate F (enc_fec e) ?st)) ?e [SourceOut pkt] = Ok (e', new)"
    using sub len pkt unfolding submit_source_def s(4) room and_then.simps
    by (simp add: Let_def split_beta s(4,5) m(4))
  have "window_agrees ?w S"
    using window_agrees_sub [OF make_room_map [OF s(1)] s(3)] S
    by (auto simp: window_agrees_def window_map_push [OF m(1)] m(4) s(5))
  then have st: "sending cinv config S (Suc n) ?e"
    using encoder_ok_push [OF s(1) _ nid] len s(2,4,5) send_keeps [OF s(2)] m(4) by (simp add: sending_def)
  obtain p where p: "SourcePacket_parse pkt = Ok p" "source_symbol_id p = of_nat n" "sp_payload p = data"
    using source_parse_serialise [OF pkt] by force
  have src: "outputs_true (ec_field config) (ec_symbol_size config) S (Suc n) [SourceOut pkt] [SourceP p]"
    using p len S nid s(5) n by (simp add: outputs_true_def ids_below_def)
  have le: "Suc n \<le> 65535" using e(2) by simp
  obtain new' ps where r: "sending cinv config S (Suc n) e'" "new = [SourceOut pkt] @ new'" "enc_window e' = ?w"
    "\<forall>p \<in> set ps. covers (id_slice (enc_window e')) p"
    "outputs_true (ec_field config) (ec_symbol_size config) S (Suc n) new' ps"
    using coded_loop_true [OF st le e(3) loop] by auto
  have "outputs_true (ec_field config) (ec_symbol_size config) S (Suc n) ([SourceOut pkt] @ new') ([SourceP p] @ ps)"
    by (rule outputs_true_append [OF src r(5) order_refl])
  with r p(2) show ?thesis by (intro conjI exI [of _ p] exI [of _ ps]) simp_all
qed

lemma feedback_sending:
  "sending cinv config S n e \<Longrightarrow> sending cinv config S n (handle_feedback W C F e rid pkt)"
proof -
  assume e: "sending cinv config S n e"
  let ?e = "handle_feedback W C F e rid pkt"
  have "enc_config ?e = enc_config e" "\<exists>s l a b. enc_cc ?e = cc_on_feedback C (enc_cc e) s l a b"
    by (auto simp: handle_feedback_def Let_def split_beta)
  moreover have "window_map (enc_window ?e) \<subseteq>\<^sub>m window_map (enc_window e)"
    by (auto simp: handle_feedback_window window_map_remove restrict_map_def map_le_def)
  ultimately show ?thesis
    using e handle_feedback_ok [of e] feedback_keeps window_agrees_sub [of "enc_window ?e" "enc_window e" S]
    by (auto simp: sending_def) (simp add: handle_feedback_window)
qed

text \<open>The invariant of a trace.\<close>

lemma trace_step_coded:
  assumes "sending cinv config S n e0 \<Longrightarrow> ec_window_capacity config \<le> 255 \<Longrightarrow> n + length ds \<le> 65535 \<Longrightarrow>
      \<forall>k < length ds. S (of_nat (n + k)) = ds ! k \<Longrightarrow> sending cinv config S (n + length ds) e \<and>
      (\<exists>ps. outputs_true (ec_field config) (ec_symbol_size config) S (n + length ds) outs ps \<and> in_sequence n ps \<and>
         source_count ps = length ds)"
    and "sending cinv config S n e0" "ec_window_capacity config \<le> 255" "n + length ds \<le> 65535"
      "\<forall>k < length ds. S (of_nat (n + k)) = ds ! k"
    and new: "encoder_ok e \<Longrightarrow> r = Ok (e, None) \<or> (\<exists>cover. selection e cover \<and> r = generate_coded_inner disp C e cover)"
      "r = Ok (e', Some new)"
  shows "sending cinv config S (n + length ds) e' \<and>
    (\<exists>ps. outputs_true (ec_field config) (ec_symbol_size config) S (n + length ds) (outs @ [new]) ps \<and> in_sequence n ps \<and>
       source_count ps = length ds)"
proof -
  obtain ps where ps: "sending cinv config S (n + length ds) e" "in_sequence n ps" "source_count ps = length ds"
    "outputs_true (ec_field config) (ec_symbol_size config) S (n + length ds) outs ps" using assms(1-5) by blast
  then have "encoder_ok e" by (simp add: sending_def)
  then obtain cover where "selection e cover" "generate_coded_inner disp C e cover = Ok (e', Some new)" using new by auto
  from inner_true [OF ps(1) assms(4,3) this] obtain p where p: "sending cinv config S (n + length ds) e'" "is_coded p"
    "outputs_true (ec_field config) (ec_symbol_size config) S (n + length ds) [new] [p]" using covers_is_coded by blast
  have "in_sequence (n + length ds) [p] \<and> source_count [p] = 0"
    by (rule in_sequence_coded) (use p(2,3) in \<open>auto simp: outputs_true_def\<close>)
  then have "in_sequence n (ps @ [p])" "source_count (ps @ [p]) = length ds" using ps(2,3) by simp_all
  with p(1) outputs_true_append [OF ps(4) p(3) order_refl] show ?thesis by blast
qed

text \<open>A trace that starts after \<open>n\<close> symbols.\<close>

lemma trace_continues:
  assumes "encoder_trace W C F disp e0 outs ds e" "sending cinv config S n e0" "ec_window_capacity config \<le> 255"
    and "n + length ds \<le> 65535" "\<forall>k < length ds. S (of_nat (n + k)) = ds ! k"
  shows "sending cinv config S (n + length ds) e \<and>
    (\<exists>ps. outputs_true (ec_field config) (ec_symbol_size config) S (n + length ds) outs ps \<and> in_sequence n ps \<and>
       source_count ps = length ds)"
  using assms
proof (induction rule: encoder_trace.induct)
  case start
  then show ?case by (intro conjI exI [of _ "[]"]) (simp_all add: outputs_true_def)
next
  case (submit outs ds e data e' new)
  let ?m = "n + length ds"
  have S: "\<forall>k < length ds. S (of_nat (n + k)) = ds ! k" "S (of_nat ?m) = data"
    using submit.prems(4) by (auto simp: nth_append dest: spec [of _ "length ds"])
  obtain ps where ps: "sending cinv config S ?m e" "in_sequence n ps" "source_count ps = length ds"
    "outputs_true (ec_field config) (ec_symbol_size config) S ?m outs ps"
    using submit.IH submit.prems(1-3) S(1) by auto
  have m: "?m < 65535" using submit.prems(3) by simp
  obtain p qs where q: "sending cinv config S (Suc ?m) e'" "source_symbol_id p = of_nat ?m"
    "\<forall>p \<in> set qs. is_coded p" "outputs_true (ec_field config) (ec_symbol_size config) S (Suc ?m) new (SourceP p # qs)"
    using submitted_true [where data = data, OF ps(1) m submit.prems(2) submit.hyps(2) S(2)] covers_is_coded by metis
  have "in_sequence (Suc ?m) qs \<and> source_count qs = 0"
    by (rule in_sequence_coded) (use q(3,4) in \<open>auto simp: outputs_true_def\<close>)
  then have "in_sequence n (ps @ SourceP p # qs)" "source_count (ps @ SourceP p # qs) = length (ds @ [data])"
    using ps(2,3) q(2) by simp_all
  with q(1) outputs_true_append [OF ps(4) q(4)] show ?case by auto
next
  case (feedback outs ds e rid pkt)
  then show ?case using feedback_sending by blast
next
  case (coded outs ds e e' new)
  then show ?case by (intro trace_step_coded [OF coded.IH coded.prems coded_selection(1) coded.hyps(2)])
next
  case (recent outs ds e k e' new)
  then show ?case by (intro trace_step_coded [OF recent.IH recent.prems coded_selection(2) recent.hyps(2)])
next
  case (for_receiver outs ds e rid e' new)
  then show ?case by (intro trace_step_coded [OF for_receiver.IH for_receiver.prems coded_selection(3) for_receiver.hyps(2)])
next
  case (targeted outs ds e cover_ids e' new)
  then show ?case by (intro trace_step_coded [OF targeted.IH targeted.prems coded_selection(4) targeted.hyps(3)])
qed

lemma trace_invariant:
  assumes "encoder_trace W C F disp e0 outs ds e" "sending cinv config S 0 e0" "ec_window_capacity config \<le> 255"
    and "length ds \<le> 65535" "\<forall>k < length ds. S (of_nat k) = ds ! k"
  shows "sending cinv config S (length ds) e \<and>
    (\<exists>ps. outputs_true (ec_field config) (ec_symbol_size config) S (length ds) outs ps \<and> in_sequence 0 ps \<and>
       source_count ps = length ds)"
  using trace_continues [OF assms(1-3)] assms(4,5) by simp

end

section \<open>End to end\<close>

lemma subseq_list_all2:
  assumes "subseq rs raws" "list_all2 R raws ps"
  shows "\<exists>qs. subseq qs ps \<and> list_all2 R rs qs"
  using assms
proof (induction arbitrary: ps rule: list_emb.induct)
  case (list_emb_Nil ys)
  then show ?case by (intro exI [of _ "[]"]) simp
next
  case (list_emb_Cons xs ys y)
  then show ?case by (auto simp: list_all2_Cons1)
next
  case (list_emb_Cons2 x y xs ys)
  from list_emb_Cons2.prems obtain p ps' where p: "ps = p # ps'" "R y p" "list_all2 R ys ps'" by (auto simp: list_all2_Cons1)
  obtain qs where "subseq qs ps'" "list_all2 R xs qs" using list_emb_Cons2.IH [OF p(3)] by blast
  with p list_emb_Cons2.hyps show ?case by (intro exI [of _ "p # qs"]) simp
qed

lemma list_all2_mem: "list_all2 R xs ys \<Longrightarrow> x \<in> set xs \<Longrightarrow> \<exists>y \<in> set ys. R x y"
  by (induction rule: list_all2_induct) auto

lemma sending_new:
  assumes "encoder_config_ok config" "cinv c"
  shows "sending cinv config S 0 (Encoder_new config w c fec)"
  using encoder_ok_new [OF assms(1), of w c fec] assms(2)
  by (simp add: sending_def) (simp add: Encoder_new_def EncodingWindow_new_def window_agrees_def window_map_def)

text \<open>The decoder and the receiver on any subsequence of the datagrams, for payloads \<open>S\<close> that extend the ones
  submitted.\<close>

lemma decoded_true:
  assumes C: "congestion_control C cinv" "cinv c" and cfg: "encoder_config_ok config" "ec_window_capacity config \<le> 255"
    and tr: "encoder_trace W C F disp (Encoder_new config w c fec) outs ds e" "length ds \<le> 65535"
    and S: "\<forall>k < length ds. S (of_nat k) = ds ! k" "sized (ec_symbol_size config) S"
    and rx: "subseq raws (map raw_of outs)"
    and dc: "dc_field dconfig = ec_field config" "dc_symbol_size dconfig = ec_symbol_size config"
  shows "\<exists>qs d evs. list_all2 carries raws qs \<and> decoder_run rnd disp' P (Decoder_new dconfig policy) qs = Ok (d, evs) \<and>
    run_events S (Decoder_new dconfig policy) d evs"
proof -
  obtain ps where ps: "outputs_true (ec_field config) (ec_symbol_size config) S (length ds) outs ps" "in_sequence 0 ps"
    "source_count ps = length ds"
    using congestion_control.trace_invariant [OF C(1) tr(1) sending_new [OF cfg(1), where cinv = cinv, OF C(2)] cfg(2) tr(2) S(1)]
    by blast
  have first: "sources_first {} ps" by (rule in_sequence_sources_first [OF ps(2)]) (use ps(3) tr(2) in simp_all)
  have "list_all2 carries (map raw_of outs) ps" using ps(1) by (simp add: outputs_true_def list_all2_map1)
  from subseq_list_all2 [OF rx this] obtain qs where qs: "subseq qs ps" "list_all2 carries raws qs" by blast
  have true: "\<forall>p \<in> set qs. usable (ec_field config) (ec_symbol_size config) p \<and> says (ec_field config) S p"
    using ps(1) list_emb_set [OF qs(1)] by (fastforce simp: outputs_true_def)
  have ord: "in_order {} {} qs" by (rule sources_first_in_order [OF sources_first_subseq [OF qs(1) first]])
  have pos: "0 < ec_symbol_size config" using cfg(1) by (simp add: encoder_config_ok_def)
  obtain d evs where r: "decoder_run rnd disp' P (Decoder_new dconfig policy) qs = Ok (d, evs)"
    "run_events S (Decoder_new dconfig policy) d evs"
    using decoder_run_ok [OF run_inv_new [OF dc] S(2) pos true ord, of rnd disp' P policy] by blast
  with qs(2) show ?thesis by blast
qed

lemma received_true:
  assumes "congestion_control C cinv" "cinv c" "encoder_config_ok config" "ec_window_capacity config \<le> 255"
    and "encoder_trace W C F disp (Encoder_new config w c fec) outs ds e" "length ds \<le> 65535"
    and "\<forall>k < length ds. S (of_nat k) = ds ! k" "sized (ec_symbol_size config) S" "subseq raws (map raw_of outs)"
    and "dc_field dconfig = ec_field config" "dc_symbol_size dconfig = ec_symbol_size config"
  shows "\<exists>net' xs d evs. receive_all U rnd disp' P (FecReceiver_new (Decoder_new dconfig policy) addr) net raws =
      (\<lparr> rx_decoder = d, encoder_addr = addr, ready = deliveries evs \<rparr>, net', xs) \<and>
    (\<forall>x \<in> set xs. \<exists>b. x = TOk b) \<and> run_events S (Decoder_new dconfig policy) d evs"
proof -
  obtain qs d evs where r: "list_all2 carries raws qs" "decoder_run rnd disp' P (Decoder_new dconfig policy) qs = Ok (d, evs)"
    "run_events S (Decoder_new dconfig policy) d evs"
    using decoded_true [OF assms, of rnd disp' P policy] by blast
  let ?r = "FecReceiver_new (Decoder_new dconfig policy) addr"
  have "decoder_run rnd disp' P (rx_decoder ?r) qs = Ok (d, evs)" using r(2) by (simp add: FecReceiver_new_def)
  from receive_all_run [OF r(1) this, of U net] r(3) show ?thesis by (fastforce simp: FecReceiver_new_def)
qed

definition payloads :: "nat \<Rightarrow> u8 \<Rightarrow> bytes list \<Rightarrow> SourceSymbolId \<Rightarrow> bytes" where
  "payloads L z ds i = (if unat i < length ds then ds ! unat i else replicate L z)"

text \<open>Every state an application can bring the encoder to.\<close>

lemma trace_sending:
  assumes "congestion_control C cinv" "cinv c" "encoder_config_ok config" "ec_window_capacity config \<le> 255"
    and "encoder_trace W C F disp (Encoder_new config w c fec) outs ds e" "length ds \<le> 65535"
  shows "sending cinv config (payloads L z ds) (length ds) e"
proof -
  have "\<forall>k < length ds. payloads L z ds (of_nat k) = ds ! k" using assms(6) by (simp add: payloads_def unat_of_nat)
  from congestion_control.trace_invariant [OF assms(1,5) sending_new [OF assms(3), where cinv = cinv, OF assms(2)] assms(4,6) this]
  show ?thesis by simp
qed

lemma inner_config: "generate_coded_inner disp C e cover = Ok (e', r) \<Longrightarrow> enc_config e' = enc_config e"
  by (auto simp: generate_coded_inner_def compute_coded_payload_targeted_def Let_def advance_coded_id_def
      split: MatrixStrategy.splits if_splits)

lemma inner_counters:
  assumes "generate_coded_inner disp C e cover = Ok (e', r)"
  shows "enc_next_coded_id e' = enc_next_coded_id (advance_coded_id e)" "enc_generation e' = enc_generation (advance_coded_id e)"
    "coded_ids_used e' = coded_ids_used (advance_coded_id e)"
  using assms by (auto simp: generate_coded_inner_def compute_coded_payload_targeted_def Let_def)

lemma coded_config:
  "generate_coded disp C e = Ok (e', r) \<Longrightarrow> enc_config e' = enc_config e"
  "generate_coded_recent disp C e k = Ok (e', r) \<Longrightarrow> enc_config e' = enc_config e"
  "generate_coded_for_receiver disp C e rid = Ok (e', r) \<Longrightarrow> enc_config e' = enc_config e"
  "generate_coded_targeted disp C e ids = Ok (e', r) \<Longrightarrow> enc_config e' = enc_config e"
  by (auto simp: generate_coded_def generate_coded_recent_def generate_coded_for_receiver_def generate_coded_targeted_def
      Let_def inner_config split: if_splits)

text \<open>Every symbol that was accepted has the configured size.\<close>

lemma trace_sizes:
  assumes "encoder_trace W C F disp e0 outs ds e" "enc_config e0 = config"
  shows "enc_config e = config \<and> (\<forall>d \<in> set ds. length d = ec_symbol_size config)"
proof -
  have loop: "enc_config e' = enc_config e" if "coded_loop disp C k e out = Ok (e', r)" for k and e e' :: "('a, 'b, 'c) Encoder" and out r
    using that
  proof (induction k arbitrary: e out)
    case (Suc k)
    then obtain e1 x where "generate_coded disp C e = Ok (e1, x)"
      "(case x of Some coded \<Rightarrow> coded_loop disp C k e1 (out @ [coded]) | None \<Rightarrow> Ok (e1, out)) = Ok (e', r)" by auto
    with coded_config(1) Suc.IH show ?case by (cases x) auto
  qed simp
  show ?thesis
    using assms
  proof (induction rule: encoder_trace.induct)
    case (submit outs ds e data e' new)
    from submit.hyps(2) have "length data = ec_symbol_size (enc_config e)" by (auto simp: submit_source_def split: if_splits)
    moreover have "enc_config e' = enc_config e"
      using submit.hyps(2) loop by (fastforce simp: submit_source_def Let_def split_beta split: if_splits)
    ultimately show ?case using submit by auto
  next
    case (feedback outs ds e rid pkt)
    then show ?case by (auto simp: handle_feedback_def Let_def split_beta)
  qed (simp_all add: coded_config)
qed

text \<open>A packet is not much longer than its payload.\<close>

lemma byte_words: "unat (w :: u8) * 4 \<le> 1020"
proof -
  have "unat w < 2 ^ LENGTH(8)" by (rule unsigned_less)
  then have "unat w < 256" by (simp del: unsigned_less)
  then show ?thesis by linarith
qed

lemma slice_from_length: "slice_from buf a = Ok r \<Longrightarrow> length buf = a + length r"
  by (auto simp: slice_from_def split: if_splits)

lemma tsi_parse_end: "tsi_parse buf h a = Ok (t, b) \<Longrightarrow> b \<le> a + 4"
  by (auto simp: tsi_parse_def split: if_splits)

lemma source_parse_length:
  assumes "SourcePacket_parse raw = Ok p"
  shows "length raw \<le> 2080 + length (sp_payload p)"
proof -
  obtain h t off where h: "tsi_parse raw h (header_SIZE + unat (cci_words h) * 4) = Ok (t, off)"
    "slice_from raw (off + 4) = Ok (sp_payload p)"
    using assms by (auto simp: SourcePacket_parse_def and_then_Ok_iff Let_def split: if_splits)
  show ?thesis
    using slice_from_length [OF h(2)] tsi_parse_end [OF h(1)] byte_words [of "cci_words h"] by linarith
qed

lemma ev_parse_consumed: "ev_parse buf cid = Ok (ev, k) \<Longrightarrow> k \<le> 1020"
  using byte_words [of "buf ! 0"] by (auto simp: ev_parse_def and_then_Ok_iff Let_def split: if_splits prod.splits)

lemma coded_parse_length:
  assumes "CodedPacket_parse raw = Ok p"
  shows "length raw \<le> 2080 + length (cp_payload p)"
proof -
  obtain h t off rest ev k where h: "tsi_parse raw h (header_SIZE + unat (cci_words h) * 4) = Ok (t, off)"
    "ev_parse rest (coded_symbol_id p) = Ok (ev, k)" "slice_from raw (off + 4 + k) = Ok (cp_payload p)"
    using assms by (auto simp: CodedPacket_parse_def and_then_Ok_iff Let_def split: if_splits)
  show ?thesis
    using slice_from_length [OF h(3)] tsi_parse_end [OF h(1)] ev_parse_consumed [OF h(2)] byte_words [of "cci_words h"]
    by linarith
qed

lemma carried_length: "carries raw p \<Longrightarrow> usable f L p \<Longrightarrow> length raw \<le> 2080 + L"
  by (cases p) (auto dest: source_parse_length coded_parse_length)

lemma trace_lengths:
  assumes "congestion_control C cinv" "cinv c" "encoder_config_ok config" "ec_window_capacity config \<le> 255"
    and "encoder_trace W C F disp (Encoder_new config w c fec) outs ds e" "length ds \<le> 65535" "t \<in> set outs"
  shows "length (raw_of t) \<le> 2080 + ec_symbol_size config"
proof -
  let ?S = "payloads (ec_symbol_size config) 0 ds"
  have "\<forall>k < length ds. ?S (of_nat k) = ds ! k" using assms(6) by (simp add: payloads_def unat_of_nat)
  from congestion_control.trace_invariant [OF assms(1,5) sending_new [OF assms(3), where cinv = cinv, OF assms(2)] assms(4,6) this]
  obtain ps where "outputs_true (ec_field config) (ec_symbol_size config) ?S (length ds) outs ps" by blast
  with assms(7) show ?thesis unfolding outputs_true_def by (meson list_all2_mem carried_length)
qed

lemma received_sound:
  assumes "congestion_control C cinv" "cinv c" "encoder_config_ok config" "ec_window_capacity config \<le> 255"
    and "encoder_trace W C F disp (Encoder_new config w c fec) outs ds e" "length ds \<le> 65535"
    and "subseq raws (map raw_of outs)"
    and "dc_field dconfig = ec_field config" "dc_symbol_size dconfig = ec_symbol_size config"
  shows "\<exists>r net' xs. receive_all U rnd disp' P (FecReceiver_new (Decoder_new dconfig policy) addr) net raws = (r, net', xs) \<and>
    (\<forall>x \<in> set xs. \<exists>b. x = TOk b) \<and> sorted_wrt (<) (map fst (ready r)) \<and>
    (\<forall>(i, x) \<in> set (ready r). unat i < length ds \<and> x = ds ! unat i)"
proof -
  let ?L = "ec_symbol_size config"
  have n: "unat (of_nat k :: u32) = k" if "k < length ds" for k using that assms(6) by (simp add: unat_of_nat)
  have pre: "\<forall>k < length ds. payloads ?L z ds (of_nat k) = ds ! k" for z by (simp add: payloads_def n)
  have "\<forall>d \<in> set ds. length d = ?L" using trace_sizes [OF assms(5)] by (simp add: Encoder_new_def Let_def)
  then have siz: "sized ?L (payloads ?L z ds)" for z by (auto simp: sized_def payloads_def)
  have pos: "0 < ?L" using assms(3) by (simp add: encoder_config_ok_def)
  obtain net' xs d evs where r: "receive_all U rnd disp' P (FecReceiver_new (Decoder_new dconfig policy) addr) net raws =
      (\<lparr> rx_decoder = d, encoder_addr = addr, ready = deliveries evs \<rparr>, net', xs)" "\<forall>x \<in> set xs. \<exists>b. x = TOk b"
      "run_events (payloads ?L 0 ds) (Decoder_new dconfig policy) d evs"
    using received_true [OF assms(1-6) pre siz assms(7-9)] by metis
  have z: "run_events (payloads ?L 1 ds) (Decoder_new dconfig policy) d evs"
  proof -
    obtain net1 xs1 d1 evs1 where r1: "receive_all U rnd disp' P (FecReceiver_new (Decoder_new dconfig policy) addr) net raws =
        (\<lparr> rx_decoder = d1, encoder_addr = addr, ready = deliveries evs1 \<rparr>, net1, xs1)"
        "run_events (payloads ?L 1 ds) (Decoder_new dconfig policy) d1 evs1"
      using received_true [OF assms(1-6) pre siz assms(7-9)] by metis
    then have "d1 = d" "deliveries evs1 = deliveries evs" using r(1) by simp_all
    with r1(2) show ?thesis using r(3) by (simp add: run_events_def)
  qed
  have "unat i < length ds \<and> x = ds ! unat i" if "(i, x) \<in> set (deliveries evs)" for i x
  proof -
    have x: "x = payloads ?L 0 ds i" "x = payloads ?L 1 ds i" using that r(3) z by (auto simp: run_events_def)
    have "unat i < length ds"
    proof (rule ccontr)
      assume "\<not> unat i < length ds"
      then have "replicate ?L (0 :: u8) = replicate ?L 1" using x by (simp add: payloads_def)
      then show False using pos by (simp add: replicate_eq_replicate)
    qed
    with x show ?thesis by (simp add: payloads_def)
  qed
  moreover have "sorted_wrt (<) (map fst (deliveries evs))" using r(3) by (simp add: run_events_def)
  ultimately show ?thesis using r(1,2) by fastforce
qed

text \<open>C16: the encoder stays well-formed. Whatever submissions, feedback packets and requests for coded packets a valid
  encoder has seen, in any order, its invariant holds: identifiers ascend below the next one, the contiguity flag
  is right, every symbol has the configured size, the next coded identifier is in the range of the strategy; its
  configuration is the one it was built with, the next source identifier is the number of symbols submitted, and
  the window is within its capacity.\<close>

theorem encoder_wellformed:
  assumes "congestion_control C cinv" "cinv c" "encoder_config_ok config" "ec_window_capacity config \<le> 255"
    and "encoder_trace W C F disp (Encoder_new config w c fec) outs ds e" "length ds \<le> 65535"
  shows "encoder_ok e \<and> enc_config e = config \<and> cinv (enc_cc e) \<and> next_source_id e = of_nat (length ds) \<and>
    window_size e \<le> ec_window_capacity config"
proof -
  note s = trace_sending [OF assms, of 0 0]
  from window_ids_below(3) [OF s assms(6)] s show ?thesis
    by (simp add: sending_def next_source_id_def window_size_def window_len_def)
qed

text \<open>C1: end to end. An encoder with a window of at most 255 symbols sends at most 65535 symbols; in
  between, in any order, it gets feedback and is asked for extra coded packets over the window, over its
  most recent part, over what a receiver misses or over any ascending selection of identifiers, under any
  policies that keep the contracts. The network loses any of the datagrams. The receiver never fails on what
  arrives, and the symbols ready for the application are payloads that were submitted, each at its own
  position, in strictly increasing order.\<close>

theorem end_to_end:
  assumes "congestion_control C cinv" "cinv c" "encoder_config_ok config" "ec_window_capacity config \<le> 255"
    and "encoder_trace W C F disp (Encoder_new config w c fec) outs ds e" "length ds \<le> 65535"
    and "subseq raws (map raw_of outs)"
    and "dc_field dconfig = ec_field config" "dc_symbol_size dconfig = ec_symbol_size config"
  shows "\<exists>r net' xs. receive_all U rnd disp' P (FecReceiver_new (Decoder_new dconfig policy) addr) net raws = (r, net', xs) \<and>
    (\<forall>x \<in> set xs. \<exists>b. x = TOk b) \<and> sorted_wrt (<) (map fst (ready r)) \<and>
    (\<forall>(i, x) \<in> set (ready r). unat i < length ds \<and> x = ds ! unat i)"
  by (rule received_sound [OF assms])

text \<open>A socket that loses everything, for the witness.\<close>

abbreviation silent_socket :: "(unit, nat, unit) UdpSocket" where
  "silent_socket \<equiv> \<lparr> send_to = (\<lambda>n b a. (n, Inl ())), try_send_to = (\<lambda>n b a. (n, Done ())), recv_from = (\<lambda>n. None),
     try_recv_from = (\<lambda>n. (n, WouldBlock)) \<rparr>"

text \<open>What the decoder delivers from any part of the datagrams of a run.\<close>

lemma decoded_total:
  assumes "congestion_control C cinv" "cinv c" "encoder_config_ok config" "ec_window_capacity config \<le> 255"
    and "encoder_trace W C F disp (Encoder_new config w c fec) outs ds e" "length ds \<le> 65535"
    and "subseq raws (map raw_of outs)" "dc_field dconfig = ec_field config" "dc_symbol_size dconfig = ec_symbol_size config"
  shows "\<exists>qs d evs. list_all2 carries raws qs \<and> decoder_run rnd disp' P (Decoder_new dconfig policy) qs = Ok (d, evs)"
proof -
  let ?S = "payloads (ec_symbol_size config) 0 ds"
  have S: "\<forall>k < length ds. ?S (of_nat k) = ds ! k" using assms(6) by (simp add: payloads_def unat_of_nat)
  have "\<forall>d \<in> set ds. length d = ec_symbol_size config" using trace_sizes [OF assms(5)] by (simp add: Encoder_new_def Let_def)
  then have "sized (ec_symbol_size config) ?S" by (auto simp: sized_def payloads_def)
  from decoded_true [OF assms(1-6) S this assms(7-9), of rnd disp' P policy] show ?thesis by blast
qed

lemma decoded_sound:
  assumes "congestion_control C cinv" "cinv c" "encoder_config_ok config" "ec_window_capacity config \<le> 255"
    and "encoder_trace W C F disp (Encoder_new config w c fec) outs ds e" "length ds \<le> 65535"
    and "subseq raws (map raw_of outs)" "dc_field dconfig = ec_field config" "dc_symbol_size dconfig = ec_symbol_size config"
    and run: "list_all2 carries raws qs" "decoder_run rnd disp' P (Decoder_new dconfig policy) qs = Ok (d, evs)"
  shows "sorted_wrt (<) (map fst (deliveries evs)) \<and> (\<forall>(i, x) \<in> set (deliveries evs). unat i < length ds \<and> x = ds ! unat i)"
proof -
  have "decoder_run rnd disp' P (rx_decoder (FecReceiver_new (Decoder_new dconfig policy) 7)) qs = Ok (d, evs)"
    using run(2) by (simp add: FecReceiver_new_def)
  from receive_all_run [OF run(1) this, of silent_socket "()"]
    received_sound [OF assms(1-9), of silent_socket rnd disp' P policy 7 "()"]
  show ?thesis by (auto simp: FecReceiver_new_def)
qed

lemma small_trace:
  obtains outs e where "encoder_trace W NoCongestionControl ConstantFecRate Ssse3
      (Encoder_new small_config w () \<lparr> fec_numer = 1, fec_denom = 4, fec_acc = 0 \<rparr>) outs [[5]] e"
proof -
  let ?e = "Encoder_new small_config w () \<lparr> fec_numer = 1, fec_denom = 4, fec_acc = 0 \<rparr>"
  have cfg: "encoder_config_ok small_config" "ec_window_capacity small_config \<le> 255" by (simp_all add: encoder_config_ok_def)
  have ok: "encoder_ok ?e" by (rule encoder_ok_new [OF cfg(1)])
  have pre: "length [5 :: u8] = ec_symbol_size (enc_config ?e)" "next_id (enc_window ?e) \<noteq> - 1"
    "is_full (enc_window ?e) \<longrightarrow> ec_backpressure (enc_config ?e) = EvictOldest"
    by (simp_all add: Encoder_new_def EncodingWindow_new_def is_full_def)
  obtain e' outs where "submit_source Ssse3 NoCongestionControl ConstantFecRate ?e [5] = Ok (e', outs)"
    using congestion_control.submit_ok [OF no_cc.congestion_control_axioms ok TrueI pre(1,3,2)] by metis
  from encoder_trace.submit [OF encoder_trace.start this] have
    tr: "encoder_trace W NoCongestionControl ConstantFecRate Ssse3 ?e outs [[5]] e'" by simp
  then show ?thesis by (rule that)
qed

theorem encoder_wellformed_witness:
  "\<exists>outs e. encoder_trace AnyAckPolicy NoCongestionControl ConstantFecRate Ssse3
      (Encoder_new small_config () () \<lparr> fec_numer = 1, fec_denom = 4, fec_acc = 0 \<rparr>) outs [[5]] e \<and>
    encoder_ok e \<and> next_source_id e = 1"
proof -
  have cfg: "encoder_config_ok small_config" "ec_window_capacity small_config \<le> 255" by (simp_all add: encoder_config_ok_def)
  obtain outs e where tr: "encoder_trace AnyAckPolicy NoCongestionControl ConstantFecRate Ssse3
      (Encoder_new small_config () () \<lparr> fec_numer = 1, fec_denom = 4, fec_acc = 0 \<rparr>) outs [[5]] e"
    by (rule small_trace)
  have l: "length [[5 :: u8]] \<le> 65535" by simp
  from encoder_wellformed [OF no_cc.congestion_control_axioms TrueI cfg tr l] tr show ?thesis by auto
qed

theorem end_to_end_witness:
  "\<exists>outs e r net' xs. encoder_trace AnyAckPolicy NoCongestionControl ConstantFecRate Ssse3
      (Encoder_new small_config () () \<lparr> fec_numer = 1, fec_denom = 4, fec_acc = 0 \<rparr>) outs [[5]] e \<and>
    receive_all silent_socket (\<lambda>x. x) Scalar ImmediateFeedbackPolicy
      (FecReceiver_new (Decoder_new small_decoder_config ()) 7) () (map raw_of outs) = (r, net', xs) \<and>
    (\<forall>(i, x) \<in> set (ready r). unat i = 0 \<and> x = [5])"
proof -
  let ?e = "Encoder_new small_config () () \<lparr> fec_numer = 1, fec_denom = 4, fec_acc = 0 \<rparr>"
  have cfg: "encoder_config_ok small_config" "ec_window_capacity small_config \<le> 255" by (simp_all add: encoder_config_ok_def)
  obtain outs e' where tr: "encoder_trace AnyAckPolicy NoCongestionControl ConstantFecRate Ssse3 ?e outs [[5]] e'"
    by (rule small_trace)
  have l: "length [[5 :: u8]] \<le> 65535" by simp
  have d: "dc_field small_decoder_config = ec_field small_config" "dc_symbol_size small_decoder_config = ec_symbol_size small_config"
    by simp_all
  note e2e = end_to_end [OF no_cc.congestion_control_axioms TrueI cfg tr l subseq_order.order_refl d, where U = silent_socket
      and rnd = "\<lambda>x. x" and disp' = Scalar and P = ImmediateFeedbackPolicy and policy = "()" and addr = 7 and net = "()"]
  from e2e obtain r net' xs where r: "receive_all silent_socket (\<lambda>x. x) Scalar ImmediateFeedbackPolicy
      (FecReceiver_new (Decoder_new small_decoder_config ()) 7) () (map raw_of outs) = (r, net', xs)"
    "\<forall>(i, x) \<in> set (ready r). unat i < length [[5 :: u8]] \<and> x = [[5 :: u8]] ! unat i" by blast
  from r(2) have "\<forall>(i, x) \<in> set (ready r). unat i = 0 \<and> x = [5]" by fastforce
  with tr r(1) show ?thesis by blast
qed

end
