(* ===== verification/Lossless.thy ===== *)
theory Lossless
  imports End_To_End
begin

text \<open>
  When every datagram arrives, the receiver hands over every symbol as soon as its source packet is
  there: no gap is ever reported, whatever coded packets come in between, because a coded packet only
  covers symbols that were sent before it.
\<close>

section \<open>The lower end of the encoder's window, as the decoder sees it\<close>

lemma finish_packet_win_min: "finish_packet rnd P d = Ok (d', evs) \<Longrightarrow> encoder_win_min d' = encoder_win_min d"
  by (auto simp: finish_packet_def drain_to_events_def maybe_send_feedback_def check_gap_def Let_def and_then_Ok_iff
      split: prod.splits if_splits)

lemma absorb_win_min: "encoder_win_min (foldl absorb_recovered d rec) = encoder_win_min d"
  by (induction rec arbitrary: d) (auto simp: absorb_recovered_def Let_def split: prod.splits)

lemma handle_source_win_min: "handle_source rnd disp P d pkt = Ok (d', evs) \<Longrightarrow> encoder_win_min d' = encoder_win_min d"
  by (auto simp: handle_source_def Let_def and_then_Ok_iff absorb_win_min dest!: finish_packet_win_min split: if_splits)

lemma handle_coded_win_min:
  "handle_coded rnd disp P d pkt = Ok (d', evs) \<Longrightarrow>
     encoder_win_min d' = encoder_win_min d \<or> encoder_win_min d' \<in> set (ev_source_ids (cp_ev pkt))"
  by (cases "ev_source_ids (cp_ev pkt)")
    (auto simp: handle_coded_def Let_def and_then_Ok_iff absorb_win_min dest!: finish_packet_win_min split: if_splits)

lemma handle_packet_win_min:
  "handle_packet rnd disp P d p = Ok (d', evs) \<Longrightarrow> encoder_win_min d' = encoder_win_min d \<or> encoder_win_min d' \<in> covered p"
  by (cases p) (auto dest: handle_source_win_min handle_coded_win_min)

section \<open>Keeping up\<close>

text \<open>The decoder after the first \<open>n\<close> symbols.\<close>

definition keeps_up :: "Field \<Rightarrow> nat \<Rightarrow> (SourceSymbolId \<Rightarrow> bytes) \<Rightarrow> nat \<Rightarrow> 'p Decoder \<Rightarrow> bool" where
  "keeps_up f L S n d = (run_inv f L S (ids_below n) (ids_below n) d \<and> caught_up d \<and> unat (encoder_win_min d) \<le> n)"

lemma ids_below_Suc: "n < 2 ^ 32 \<Longrightarrow> ids_below (Suc n) = insert (of_nat n) (ids_below n)"
  by (auto simp: ids_below_def unat_of_nat less_Suc_eq word_unat_eq_iff)

text \<open>The first \<open>n\<close> identifiers.\<close>

definition first_ids :: "nat \<Rightarrow> SourceSymbolId list" where
  "first_ids n = map of_nat [0..<n]"

lemma first_ids:
  assumes "n \<le> 65535"
  shows "set (first_ids n) = ids_below n" "distinct (first_ids n)"
proof -
  have u: "unat (of_nat k :: u32) = k" if "k < n" for k using that assms by (simp add: unat_of_nat)
  show "set (first_ids n) = ids_below n"
  proof
    show "set (first_ids n) \<subseteq> ids_below n" using u by (auto simp: first_ids_def ids_below_def)
    show "ids_below n \<subseteq> set (first_ids n)"
    proof
      fix i assume "i \<in> ids_below n"
      then have "unat i \<in> set [0..<n]" by (simp add: ids_below_def)
      then have "of_nat (unat i) \<in> set (first_ids n)" unfolding first_ids_def set_map by (rule imageI)
      then show "i \<in> set (first_ids n)" by simp
    qed
  qed
  have "inj_on (of_nat :: nat \<Rightarrow> u32) {0..<n}"
    by (rule inj_on_inverseI [where g = unat]) (use u in simp)
  then show "distinct (first_ids n)" by (simp add: first_ids_def distinct_map)
qed

lemma card_ids_below: "n \<le> 65535 \<Longrightarrow> card (ids_below n) = n"
  using distinct_card [OF first_ids(2)] first_ids(1) by (simp add: first_ids_def)

lemma not_below: "i \<notin> K \<Longrightarrow> ids_below n \<subseteq> K \<Longrightarrow> n \<le> unat i"
  by (auto simp: ids_below_def not_less [symmetric])

text \<open>After a packet that leaves the decoder with the first \<open>m\<close> symbols known.\<close>

lemma keeps_up_after:
  assumes inv: "keeps_up f L S n d" and h: "run_inv f L S (ids_below m) (ids_below m) d'"
    "events_ok S d d' evs \<or> d' = d \<and> evs = []" and win: "unat (encoder_win_min d') \<le> m"
  shows "keeps_up f L S m d'" "run_events S d d' evs" "no_gap evs"
proof -
  have known: "ids_below m \<subseteq> set (bt_keys (known d'))" using h(1) by (simp add: run_inv_def)
  show gap: "no_gap evs"
  proof (cases "d' = d \<and> evs = []")
    case True
    then show ?thesis by (simp add: no_gap_def)
  next
    case False
    then have "events_ok S d d' evs" using h(2) by blast
    then obtain out fb nxt where e: "evs = map (\<lambda>(i, x). SourceReady i x) out @ fb @ gap_events nxt (encoder_win_min d')"
      "nxt \<notin> set (bt_keys (known d'))" "fb = [] \<or> (\<exists>bs. fb = [SendFeedback bs])"
      unfolding events_ok_def Let_def by blast
    have "unat (encoder_win_min d') \<le> unat nxt" using not_below [OF e(2) known] win by simp
    then have "gap_events nxt (encoder_win_min d') = []" by (simp add: gap_events_def word_less_nat_alt)
    with e(1,3) show ?thesis by (auto simp: no_gap_def)
  qed
  show run: "run_events S d d' evs"
    using h events_ok_run_events run_events_refl by (auto simp: run_inv_def)
  then have "caught_up d'" using gap inv by (simp add: run_events_def keeps_up_def)
  with h(1) win show "keeps_up f L S m d'" by (simp add: keeps_up_def)
qed

lemma keeps_up_step:
  assumes inv: "keeps_up f L S n d" and S: "sized L S" "0 < L" and p: "usable f L p" "says f S p"
    and seq: "in_sequence n [p]" "n + source_count [p] \<le> 65535"
  obtains d' evs where "handle_packet rnd disp P d p = Ok (d', evs)" "keeps_up f L S (n + source_count [p]) d'"
    "run_events S d d' evs" "no_gap evs" "dm_max_rows (dec_matrix d') = dm_max_rows (dec_matrix d)"
proof -
  let ?m = "n + source_count [p]"
  have i: "run_inv f L S (ids_below n) (ids_below n) d" "unat (encoder_win_min d) \<le> n"
    using inv by (simp_all add: keeps_up_def)
  have n32: "n < 2 ^ 32" using seq(2) by simp
  have sets: "carried p \<inter> ids_below n \<subseteq> ids_below n" "ids_below n \<union> covered p \<subseteq> ids_below ?m"
    "ids_below n \<union> carried p = ids_below ?m" "covered p \<subseteq> ids_below n"
    using seq(1) ids_below_Suc [OF n32] by (cases p; auto)+
  obtain d' evs where h: "handle_packet rnd disp P d p = Ok (d', evs)"
    "run_inv f L S (ids_below n \<union> covered p) (ids_below n \<union> carried p) d'" "events_ok S d d' evs \<or> d' = d \<and> evs = []"
    "dm_max_rows (dec_matrix d') = dm_max_rows (dec_matrix d)"
    by (rule handle_packet_ok [OF i(1) S p sets(1)]) blast
  have inv': "run_inv f L S (ids_below ?m) (ids_below ?m) d'" using h(2) sets(2) by (auto simp: run_inv_def sets(3))
  have "unat (encoder_win_min d') \<le> ?m"
    using handle_packet_win_min [OF h(1)] i(2) sets(4) by (auto simp: ids_below_def)
  from that [OF h(1) keeps_up_after [OF inv inv' h(3) this] h(4)] show ?thesis .
qed

lemma keeps_up_run:
  assumes "keeps_up f L S n d" "sized L S" "0 < L" "\<forall>p \<in> set ps. usable f L p \<and> says f S p"
    and "in_sequence n ps" "n + source_count ps \<le> 65535"
  shows "\<exists>d' evs. decoder_run rnd disp P d ps = Ok (d', evs) \<and> keeps_up f L S (n + source_count ps) d' \<and>
    run_events S d d' evs \<and> no_gap evs \<and> dm_max_rows (dec_matrix d') = dm_max_rows (dec_matrix d)"
  using assms
proof (induction ps arbitrary: n d)
  case Nil
  then show ?case by (auto simp: run_events_refl no_gap_def)
next
  case (Cons p ps)
  have seq: "in_sequence n [p]" "in_sequence (n + source_count [p]) ps"
    "n + source_count (p # ps) = n + source_count [p] + source_count ps"
    using in_sequence_append [of n "[p]" ps] source_count_append [of "[p]" ps] Cons.prems(5) by simp_all
  have p: "usable f L p" "says f S p" "n + source_count [p] \<le> 65535" using Cons.prems(4,6) seq(3) by simp_all
  obtain d1 a where h: "handle_packet rnd disp P d p = Ok (d1, a)" "keeps_up f L S (n + source_count [p]) d1"
    "run_events S d d1 a" "no_gap a" "dm_max_rows (dec_matrix d1) = dm_max_rows (dec_matrix d)"
    by (rule keeps_up_step [OF Cons.prems(1-3) p(1,2) seq(1) p(3)])
  obtain d2 b where r: "decoder_run rnd disp P d1 ps = Ok (d2, b)"
    "keeps_up f L S (n + source_count [p] + source_count ps) d2" "run_events S d1 d2 b" "no_gap b"
    "dm_max_rows (dec_matrix d2) = dm_max_rows (dec_matrix d1)"
    using Cons.IH [OF h(2) Cons.prems(2,3) _ seq(2)] Cons.prems(4,6) seq(3) by auto
  show ?case
    using h r run_events_trans [OF h(3) r(3)] by (auto simp: no_gap_append seq(3))
qed

lemma keeps_up_new:
  "dc_field config = f \<Longrightarrow> dc_symbol_size config = L \<Longrightarrow> keeps_up f L S 0 (Decoder_new config policy)"
  using run_inv_new [of config f L S policy]
  by (auto simp: keeps_up_def ids_below_def) (auto simp: caught_up_def next_of_def Decoder_new_def SymbolBuffer_new_def)

section \<open>Delivery of everything\<close>

lemma sorted_below_length:
  assumes "sorted_wrt (<) xs" "set xs \<subseteq> ids_below n"
  shows "length xs \<le> n"
proof -
  have "length xs = card (set xs)" using assms(1) by (simp add: strict_sorted_iff distinct_card)
  also have "\<dots> = card (unat ` set xs)" by (rule card_image [symmetric]) (simp add: inj_on_def word_unat_eq_iff)
  also have "\<dots> \<le> card {..<n}" by (rule card_mono) (use assms(2) in \<open>auto simp: ids_below_def\<close>)
  finally show ?thesis by simp
qed

lemma lossless_run:
  assumes C: "congestion_control C cinv" "cinv c" and cfg: "encoder_config_ok config" "ec_window_capacity config \<le> 255"
    and tr: "encoder_trace W C F disp (Encoder_new config w c fec) outs ds e" "length ds \<le> 65535"
    and dc: "dc_field dconfig = ec_field config" "dc_symbol_size dconfig = ec_symbol_size config"
  obtains ps d evs where "list_all2 carries (map raw_of outs) ps"
    "decoder_run rnd disp' P (Decoder_new dconfig policy) ps = Ok (d, evs)"
    "no_gap evs" "caught_up d" "run_from 0 (deliveries evs)" "next_of d = of_nat (length (deliveries evs))"
    "ids_below (length ds) \<subseteq> set (bt_keys (known d))"
proof -
  let ?L = "ec_symbol_size config" and ?S = "payloads (ec_symbol_size config) 0 ds"
  have n: "unat (of_nat k :: u32) = k" if "k < length ds" for k using that tr(2) by (simp add: unat_of_nat)
  have pre: "\<forall>k < length ds. ?S (of_nat k) = ds ! k" by (simp add: payloads_def n)
  have "\<forall>d \<in> set ds. length d = ?L" using trace_sizes [OF tr(1)] by (simp add: Encoder_new_def Let_def)
  then have siz: "sized ?L ?S" by (auto simp: sized_def payloads_def)
  have pos: "0 < ?L" using cfg(1) by (simp add: encoder_config_ok_def)
  obtain ps where ps: "outputs_true (ec_field config) ?L ?S (length ds) outs ps" "in_sequence 0 ps" "source_count ps = length ds"
    using congestion_control.trace_invariant [OF C(1) tr(1) sending_new [OF cfg(1), where cinv = cinv, OF C(2)] cfg(2) tr(2) pre]
    by blast
  have carry: "list_all2 carries (map raw_of outs) ps" using ps(1) by (simp add: outputs_true_def list_all2_map1)
  have true: "\<forall>p \<in> set ps. usable (ec_field config) ?L p \<and> says (ec_field config) ?S p" using ps(1) by (simp add: outputs_true_def)
  have cnt: "0 + source_count ps \<le> 65535" using ps(3) tr(2) by simp
  let ?d0 = "Decoder_new dconfig policy"
  obtain d evs where r: "decoder_run rnd disp' P ?d0 ps = Ok (d, evs)"
    "keeps_up (ec_field config) ?L ?S (0 + source_count ps) d" "run_events ?S ?d0 d evs" "no_gap evs"
    using keeps_up_run [OF keeps_up_new [OF dc] siz pos true ps(2) cnt, of rnd disp' P policy] by blast
  have n0: "next_of ?d0 = 0" by (simp add: next_of_def Decoder_new_def SymbolBuffer_new_def)
  have "run_from 0 (deliveries evs)" "next_of d = of_nat (length (deliveries evs))"
    using r(3,4) by (simp_all add: run_events_def n0)
  moreover have "caught_up d" "ids_below (length ds) \<subseteq> set (bt_keys (known d))"
    using r(2) ps(3) by (simp_all add: keeps_up_def run_inv_def)
  ultimately show ?thesis using that carry r(1,4) by blast
qed

text \<open>Payloads delivered in order without a gap, up to an unknown symbol.\<close>

lemma all_ready:
  fixes out :: "(SourceSymbolId \<times> bytes) list"
  assumes snd: "sorted_wrt (<) (map fst out)" "\<forall>(i, x) \<in> set out. unat i < length ds \<and> x = ds ! unat i"
    and run: "run_from 0 out" "of_nat (length out) \<notin> K" "ids_below (length ds) \<subseteq> K" and n: "length ds \<le> 65535"
  shows "out = map (\<lambda>k. (of_nat k, ds ! k)) [0..<length ds]"
proof -
  have "length (map fst out) \<le> length ds"
    by (rule sorted_below_length [OF snd(1)]) (use snd(2) in \<open>auto simp: ids_below_def\<close>)
  then have "length out \<le> length ds" by simp
  moreover have "length ds \<le> unat (of_nat (length out) :: u32)" by (rule not_below [OF run(2,3)])
  ultimately have len: "length out = length ds" using n by (simp add: unat_of_nat)
  have "out ! k = (of_nat k, ds ! k)" if k: "k < length ds" for k
  proof -
    have "map fst out ! k = of_nat k" using run(1) k len by (simp add: run_from_def)
    then obtain x where x: "out ! k = (of_nat k, x)" using k len by (cases "out ! k") simp
    then have "(of_nat k, x) \<in> set out" using k len by (metis nth_mem)
    with snd(2) have "x = ds ! unat (of_nat k :: u32)" by blast
    with x k n show ?thesis by (simp add: unat_of_nat)
  qed
  then show ?thesis using len by (intro nth_equalityI) simp_all
qed

text \<open>The whole list, as the decoder delivers it.\<close>

lemma lossless_decoder:
  assumes "congestion_control C cinv" "cinv c" "encoder_config_ok config" "ec_window_capacity config \<le> 255"
    and "encoder_trace W C F disp (Encoder_new config w c fec) outs ds e" "length ds \<le> 65535"
    and "dc_field dconfig = ec_field config" "dc_symbol_size dconfig = ec_symbol_size config"
  obtains ps d evs where "list_all2 carries (map raw_of outs) ps"
    "decoder_run rnd disp' P (Decoder_new dconfig policy) ps = Ok (d, evs)"
    "deliveries evs = map (\<lambda>k. (of_nat k, ds ! k)) [0..<length ds]" "next_of d = of_nat (length ds)"
proof -
  obtain ps d evs where r: "list_all2 carries (map raw_of outs) ps"
    "decoder_run rnd disp' P (Decoder_new dconfig policy) ps = Ok (d, evs)"
    and run: "no_gap evs" "caught_up d" "run_from 0 (deliveries evs)" "next_of d = of_nat (length (deliveries evs))"
      "ids_below (length ds) \<subseteq> set (bt_keys (known d))"
    by (rule lossless_run [OF assms])
  have snd: "sorted_wrt (<) (map fst (deliveries evs))" "\<forall>(i, x) \<in> set (deliveries evs). unat i < length ds \<and> x = ds ! unat i"
    using decoded_sound [OF assms(1-6) subseq_order.order_refl assms(7,8) r] by auto
  have "of_nat (length (deliveries evs)) \<notin> set (bt_keys (known d))" using run(2,4) by (simp add: caught_up_def)
  then have all: "deliveries evs = map (\<lambda>k. (of_nat k, ds ! k)) [0..<length ds]" by (rule all_ready [OF snd run(3) _ run(5) assms(6)])
  have "length (deliveries evs) = length ds" unfolding all by simp
  then show ?thesis using that [OF r all] run(4) by simp
qed

text \<open>C11: nothing lost, nothing missing. When all datagrams of an encoder run arrive in order, with feedback
  and extra coded packets of every kind in between, the receiver has ready exactly the payloads submitted,
  all of them, in order, and it never reports a gap on the way.\<close>

theorem lossless_delivery:
  assumes "congestion_control C cinv" "cinv c" "encoder_config_ok config" "ec_window_capacity config \<le> 255"
    and "encoder_trace W C F disp (Encoder_new config w c fec) outs ds e" "length ds \<le> 65535"
    and "dc_field dconfig = ec_field config" "dc_symbol_size dconfig = ec_symbol_size config"
  shows "\<exists>r net' xs. receive_all U rnd disp' P (FecReceiver_new (Decoder_new dconfig policy) addr) net (map raw_of outs) =
      (r, net', xs) \<and> (\<forall>x \<in> set xs. \<exists>b. x = TOk b) \<and> ready r = map (\<lambda>k. (of_nat k, ds ! k)) [0..<length ds]"
proof -
  obtain ps d evs where r: "list_all2 carries (map raw_of outs) ps"
    "decoder_run rnd disp' P (Decoder_new dconfig policy) ps = Ok (d, evs)"
    "deliveries evs = map (\<lambda>k. (of_nat k, ds ! k)) [0..<length ds]"
    by (rule lossless_decoder [OF assms])
  have "decoder_run rnd disp' P (rx_decoder (FecReceiver_new (Decoder_new dconfig policy) addr)) ps = Ok (d, evs)"
    using r(2) by (simp add: FecReceiver_new_def)
  from receive_all_run [OF r(1) this, of U net] r(3) show ?thesis by (auto simp: FecReceiver_new_def)
qed

text \<open>The witness: one symbol through a small encoder.\<close>

theorem lossless_delivery_witness:
  "\<exists>outs e r net' xs. encoder_trace AnyAckPolicy NoCongestionControl ConstantFecRate Ssse3
      (Encoder_new small_config () () \<lparr> fec_numer = 1, fec_denom = 4, fec_acc = 0 \<rparr>) outs [[5]] e \<and>
    receive_all silent_socket (\<lambda>x. x) Scalar ImmediateFeedbackPolicy
      (FecReceiver_new (Decoder_new small_decoder_config ()) 7) () (map raw_of outs) = (r, net', xs) \<and>
    ready r = [(0, [5])]"
proof -
  obtain outs e where tr: "encoder_trace AnyAckPolicy NoCongestionControl ConstantFecRate Ssse3
      (Encoder_new small_config () () \<lparr> fec_numer = 1, fec_denom = 4, fec_acc = 0 \<rparr>) outs [[5]] e"
    by (rule small_trace)
  have cfg: "encoder_config_ok small_config" "ec_window_capacity small_config \<le> 255" by (simp_all add: encoder_config_ok_def)
  have l: "length [[5 :: u8]] \<le> 65535" by simp
  have d: "dc_field small_decoder_config = ec_field small_config" "dc_symbol_size small_decoder_config = ec_symbol_size small_config"
    by simp_all
  from lossless_delivery [OF no_cc.congestion_control_axioms TrueI cfg tr l d, where U = silent_socket
      and rnd = "\<lambda>x. x" and disp' = Scalar and P = ImmediateFeedbackPolicy and policy = "()" and addr = 7 and net = "()"]
  obtain r net' xs where "receive_all silent_socket (\<lambda>x. x) Scalar ImmediateFeedbackPolicy
      (FecReceiver_new (Decoder_new small_decoder_config ()) 7) () (map raw_of outs) = (r, net', xs)"
    "ready r = map (\<lambda>k. (of_nat k, [[5 :: u8]] ! k)) [0..<length [[5 :: u8]]]" by blast
  with tr show ?thesis by (intro exI conjI) (assumption+, simp)
qed

end
