(* ===== verification/File_Send_Correct.thy ===== *)
theory File_Send_Correct
  imports File_Send Lossless
begin

text \<open>
  The sender of the command line tool: on a socket that takes every datagram, its calls are the START
  frame, the outputs of an encoder run over the symbols of the file less the ones dropped on purpose,
  and the END frame.
\<close>

section \<open>What the sender puts on the wire\<close>

text \<open>A socket that never fails, with the datagrams it was given as the state of the network.\<close>

definition records :: "(bytes list, 'addr, 'io) UdpSocket \<Rightarrow> bool" where
  "records U = (\<forall>n b a. send_to U n b a = (n @ [b], Inl ()))"

text \<open>From \<open>st\<close> to \<open>st'\<close> some of the packets \<open>bs\<close> were sent: all, if none is to be dropped.\<close>

definition sends :: "u32 \<Rightarrow> bytes list SendState \<Rightarrow> bytes list SendState \<Rightarrow> bytes list \<Rightarrow> bool" where
  "sends loss_pct st st' bs = (\<exists>sub. snd_net st' = snd_net st @ sub \<and> subseq sub bs \<and> (loss_pct = 0 \<longrightarrow> sub = bs))"

lemma sends_refl: "sends p st st []"
  by (simp add: sends_def)

lemma sends_trans:
  assumes "sends p a b xs" "sends p b c ys"
  shows "sends p a c (xs @ ys)"
proof -
  obtain u v where "snd_net b = snd_net a @ u" "subseq u xs" "p = 0 \<longrightarrow> u = xs"
    "snd_net c = snd_net b @ v" "subseq v ys" "p = 0 \<longrightarrow> v = ys" using assms unfolding sends_def by blast
  then show ?thesis unfolding sends_def by (intro exI [of _ "u @ v"]) (auto intro: list_emb_append_mono)
qed

lemma send_packet_records:
  assumes "records U"
  shows "\<exists>st'. send_packet U dest p st raw b = (st', Returned ()) \<and> sends p st st' [raw]"
  using assms
  by (cases "should_drop p (snd_rng st)") (auto simp: send_packet_def Let_def sends_def should_drop_def records_def)

lemma send_outputs_records:
  assumes "records U"
  shows "\<exists>st'. send_outputs U dest p st outs = (st', Returned ()) \<and> sends p st st' (map raw_of outs)"
proof (induction outs arbitrary: st)
  case (Cons t outs)
  obtain b where t: "send_outputs U dest p st (t # outs) =
      s_then (send_packet U dest p st (raw_of t) b) (\<lambda>st _. send_outputs U dest p st outs)"
    by (cases t) auto
  obtain st1 where 1: "send_packet U dest p st (raw_of t) b = (st1, Returned ())" "sends p st st1 [raw_of t]"
    using send_packet_records [OF assms] by blast
  obtain st2 where 2: "send_outputs U dest p st1 outs = (st2, Returned ())" "sends p st1 st2 (map raw_of outs)"
    using Cons.IH by blast
  show ?case using sends_trans [OF 1(2) 2(2)] unfolding t 1(1) by (simp add: 2(1))
qed (simp add: sends_refl)

text \<open>The encoder of a run, and coded packets of any selection.\<close>

abbreviation file_trace :: "Dispatch \<Rightarrow> (unit, unit, ConstantFec) Encoder \<Rightarrow> EncoderOutput list \<Rightarrow> bytes list \<Rightarrow>
    (unit, unit, ConstantFec) Encoder \<Rightarrow> bool" where
  "file_trace disp e0 outs ds e \<equiv> encoder_trace AnyAckPolicy NoCongestionControl ConstantFecRate disp e0 outs ds e"

lemma trace_state:
  assumes "encoder_config_ok config" "ec_window_capacity config \<le> 255" "length ds \<le> 65535"
    and "file_trace disp (Encoder_new config () () fec) outs ds e"
  shows "encoder_ok e" "enc_config e = config" "next_id (enc_window e) = of_nat (length ds)"
  using trace_sending [OF no_cc.congestion_control_axioms TrueI assms(1,2,4,3), of 0 0] by (simp_all add: sending_def)

lemma inner_total:
  assumes "encoder_ok e" "selection e cover"
  shows "\<exists>e' b. generate_coded_inner disp NoCongestionControl e cover = Ok (e', Some (CodedOut b))"
proof -
  let ?S = "\<lambda>i. case window_map (enc_window e) i of Some d \<Rightarrow> d | None \<Rightarrow> []"
  have S: "window_agrees (enc_window e) ?S" by (simp add: window_agrees_def)
  have c: "set cover \<subseteq> set (id_slice (enc_window e))" "distinct cover" "cover \<noteq> []"
    using assms(2) by (simp_all add: selection_def strict_sorted_iff)
  show ?thesis by (rule no_cc.generate_inner [OF assms(1) TrueI S c, of disp]) blast
qed

text \<open>A call that asks for a coded packet succeeds: with a packet, or without one and without a change.\<close>

definition coded_result :: "('w, 'c, 'f) Encoder \<Rightarrow> (('w, 'c, 'f) Encoder \<times> EncoderOutput option) res \<Rightarrow> bool" where
  "coded_result e r = (r = Ok (e, None) \<or> (\<exists>e' b. r = Ok (e', Some (CodedOut b))))"

lemma selected_result:
  assumes "encoder_ok e" "r = Ok (e, None) \<or> (\<exists>cover. selection e cover \<and> r = generate_coded_inner disp NoCongestionControl e cover)"
  shows "coded_result e r"
  using assms(2) inner_total [OF assms(1)] by (auto simp: coded_result_def)

lemma altc_result: "encoder_ok e \<Longrightarrow> coded_result e (altc_packet disp NoCongestionControl rid m n e)"
  by (cases m) (simp_all add: selected_result [OF _ coded_selection(2)] selected_result [OF _ coded_selection(3)], simp add: coded_result_def)

text \<open>The loops of the sender extend the run.\<close>

definition chunk :: "nat \<Rightarrow> bytes \<Rightarrow> nat \<Rightarrow> bytes" where
  "chunk sz padded i = take sz (drop (i * sz) padded)"

lemma submit_extends:
  assumes tr: "file_trace disp (Encoder_new config () () fec) outs ds e" "length ds < 65535"
    and cfg: "encoder_config_ok config" "ec_window_capacity config \<le> 255"
    and room: "is_full (enc_window e) \<longrightarrow> ec_backpressure config = EvictOldest" and len: "length data = ec_symbol_size config"
  obtains e' pkt pkts where
    "submit_source disp NoCongestionControl ConstantFecRate e data = Ok (e', SourceOut pkt # map CodedOut pkts)"
    "file_trace disp (Encoder_new config () () fec) (outs @ SourceOut pkt # map CodedOut pkts) (ds @ [data]) e'"
    "enc_window e' = fst (window_push (make_room e) data)"
    "length pkts = (fec_acc (enc_fec e) + fec_numer (enc_fec e)) div fec_denom (enc_fec e)"
    "enc_fec e' = enc_fec e\<lparr> fec_acc := (fec_acc (enc_fec e) + fec_numer (enc_fec e)) mod fec_denom (enc_fec e) \<rparr>"
proof -
  have le: "length ds \<le> 65535" using tr(2) by simp
  note st = trace_state [OF cfg le tr(1)]
  have "unat (of_nat (length ds) :: u32) = length ds" using tr(2) by (simp add: unat_of_nat)
  then have nid: "next_id (enc_window e) \<noteq> - 1"
    using tr(2) st(3) by (auto simp: unsigned_minus_1_eq_mask mask_eq_exp_minus_1)
  have pre: "length data = ec_symbol_size (enc_config e)"
    "is_full (enc_window e) \<longrightarrow> ec_backpressure (enc_config e) = EvictOldest" using len room st(2) by simp_all
  obtain e' pkt pkts where s: "submit_source disp NoCongestionControl ConstantFecRate e data = Ok (e', SourceOut pkt # map CodedOut pkts)"
    "enc_window e' = fst (window_push (make_room e) data)"
    "length pkts = snd (coded_packets_to_generate ConstantFecRate (enc_fec e)
       (make_encoder_state (enc_window e') (ec_window_capacity (enc_config e))))"
    "enc_fec e' = fst (coded_packets_to_generate ConstantFecRate (enc_fec e)
       (make_encoder_state (enc_window e') (ec_window_capacity (enc_config e))))"
    using no_cc.submit_ok [OF st(1) TrueI pre nid, of disp ConstantFecRate] by metis
  show ?thesis
    by (rule that [OF s(1) encoder_trace.submit [OF tr(1) s(1)] s(2)]) (use s(3,4) in \<open>simp_all add: ConstantFecRate_def Let_def\<close>)
qed

lemma file_submit:
  assumes tr: "file_trace disp (Encoder_new config () () fec) outs ds e" "length ds < 65535"
    and cfg: "encoder_config_ok config" "ec_window_capacity config \<le> 255" "ec_backpressure config = EvictOldest"
    and len: "length data = ec_symbol_size config"
  shows "\<exists>e' new. submit_source disp NoCongestionControl ConstantFecRate e data = Ok (e', new) \<and>
    file_trace disp (Encoder_new config () () fec) (outs @ new) (ds @ [data]) e'"
  by (rule submit_extends [OF tr cfg(1,2) _ len]) (use cfg(3) in blast)+

lemma coded_extends:
  assumes tr: "file_trace disp e0 outs ds e" and r: "coded_result e r"
    and step: "\<And>e' new. r = Ok (e', Some new) \<Longrightarrow> file_trace disp e0 (outs @ [new]) ds e'"
  obtains e' x where "r = Ok (e', x)" "x = None \<or> (\<exists>b. x = Some (CodedOut b))"
    "file_trace disp e0 (outs @ (case x of None \<Rightarrow> [] | Some t \<Rightarrow> [t])) ds e'"
  using r unfolding coded_result_def
proof (elim disjE exE)
  assume "r = Ok (e, None)"
  with tr show ?thesis by (intro that [of e None]) simp_all
next
  fix e' b assume "r = Ok (e', Some (CodedOut b))"
  with step show ?thesis by (intro that [of e' "Some (CodedOut b)"]) simp_all
qed

lemma send_extra_records:
  assumes "records U" "x = None \<or> (\<exists>b. x = Some (CodedOut b))"
  shows "\<exists>st'. send_extra U dest p st x = (st', Returned ()) \<and>
    sends p st st' (map raw_of (case x of None \<Rightarrow> [] | Some t \<Rightarrow> [t]))"
  using assms(2) send_packet_records [OF assms(1)] by (auto simp: send_extra_def sends_refl)

lemma send_symbol_records:
  assumes U: "records U" and tr: "file_trace disp (Encoder_new config () () fec) outs ds e" "length ds < 65535"
    and cfg: "encoder_config_ok config" "ec_window_capacity config \<le> 255" "ec_backpressure config = EvictOldest"
    and size: "ec_symbol_size config = cfg_symbol_size cfg" and i: "Suc i * cfg_symbol_size cfg \<le> length padded"
  shows "\<exists>st' e' new. send_symbol U disp NoCongestionControl ConstantFecRate rid cfg p padded st e i = (st', Returned e') \<and>
    file_trace disp (Encoder_new config () () fec) (outs @ new) (ds @ [chunk (cfg_symbol_size cfg) padded i]) e' \<and>
    sends p st st' (map raw_of new)"
proof -
  let ?size = "cfg_symbol_size cfg" and ?data = "chunk (cfg_symbol_size cfg) padded i"
    and ?e0 = "Encoder_new config () () fec"
  have off: "i * ?size + ?size \<le> length padded" using i by (simp add: add.commute)
  then have "length ?data = ec_symbol_size config" by (simp add: chunk_def size)
  then obtain e1 new where s: "submit_source disp NoCongestionControl ConstantFecRate e ?data = Ok (e1, new)"
    "file_trace disp ?e0 (outs @ new) (ds @ [?data]) e1" using file_submit [OF tr cfg] by blast
  have "length (ds @ [?data]) \<le> 65535" using tr(2) by simp
  from trace_state(1) [OF cfg(1,2) this s(2)] have ok: "encoder_ok e1" .
  let ?r = "altc_packet disp NoCongestionControl rid (cfg_altc cfg) (cfg_altc_recent cfg) e1"
  have step: "file_trace disp ?e0 ((outs @ new) @ [t]) (ds @ [?data]) e'" if "?r = Ok (e', Some t)" for e' t
    using that encoder_trace.recent [OF s(2)] encoder_trace.for_receiver [OF s(2)] by (cases "cfg_altc cfg") auto
  obtain e2 x where x: "?r = Ok (e2, x)" "x = None \<or> (\<exists>b. x = Some (CodedOut b))"
    "file_trace disp ?e0 ((outs @ new) @ (case x of None \<Rightarrow> [] | Some t \<Rightarrow> [t])) (ds @ [?data]) e2"
    by (rule coded_extends [OF s(2) altc_result [OF ok] step])
  obtain st1 where 1: "send_outputs U (cfg_dest cfg) p st new = (st1, Returned ())" "sends p st st1 (map raw_of new)"
    using send_outputs_records [OF U] by blast
  obtain st2 where 2: "send_extra U (cfg_dest cfg) p st1 x = (st2, Returned ())"
    "sends p st1 st2 (map raw_of (case x of None \<Rightarrow> [] | Some t \<Rightarrow> [t]))" using send_extra_records [OF U x(2)] by blast
  have "slice padded (i * ?size) (i * ?size + ?size) = Ok ?data" using off by (simp add: slice_def chunk_def)
  then have "send_symbol U disp NoCongestionControl ConstantFecRate rid cfg p padded st e i = (st2, Returned e2)"
    by (simp add: send_symbol_def Let_def s(1) 1(1) x(1) 2(1))
  with x(3) sends_trans [OF 1(2) 2(2)] show ?thesis by (metis append.assoc map_append)
qed

lemma send_symbols_records:
  assumes U: "records U"
    and cfg: "encoder_config_ok config" "ec_window_capacity config \<le> 255" "ec_backpressure config = EvictOldest"
    and sz: "ec_symbol_size config = cfg_symbol_size cfg"
    and tr: "file_trace disp (Encoder_new config () () fec) outs ds e" "length ds + k \<le> 65535"
    and len: "(j + k) * cfg_symbol_size cfg \<le> length padded"
  shows "\<exists>st' e' new.
    send_symbols U disp NoCongestionControl ConstantFecRate rid cfg p padded st e [j..<j + k] = (st', Returned e') \<and>
    file_trace disp (Encoder_new config () () fec) (outs @ new) (ds @ map (chunk (cfg_symbol_size cfg) padded) [j..<j + k]) e' \<and>
    sends p st st' (map raw_of new)"
  using tr len
proof (induction k arbitrary: j outs ds e st)
  case 0
  then show ?case by (intro exI [of _ st] exI [of _ e] exI [of _ "[]"]) (simp add: sends_refl)
next
  case (Suc k)
  have "Suc j * cfg_symbol_size cfg \<le> (j + Suc k) * cfg_symbol_size cfg" by (rule mult_le_mono1) simp
  then have j: "Suc j * cfg_symbol_size cfg \<le> length padded" using Suc.prems(3) by (rule order_trans)
  have l: "length ds < 65535" using Suc.prems(2) by simp
  obtain st1 e1 new where 1: "send_symbol U disp NoCongestionControl ConstantFecRate rid cfg p padded st e j = (st1, Returned e1)"
    "file_trace disp (Encoder_new config () () fec) (outs @ new) (ds @ [chunk (cfg_symbol_size cfg) padded j]) e1"
    "sends p st st1 (map raw_of new)" using send_symbol_records [OF U Suc.prems(1) l cfg sz j] by blast
  have "length (ds @ [chunk (cfg_symbol_size cfg) padded j]) + k \<le> 65535" "(Suc j + k) * cfg_symbol_size cfg \<le> length padded"
    using Suc.prems(2,3) by simp_all
  from Suc.IH [OF 1(2) this] obtain st2 e2 new' where
    2: "send_symbols U disp NoCongestionControl ConstantFecRate rid cfg p padded st1 e1 [Suc j..<Suc j + k] = (st2, Returned e2)"
    "file_trace disp (Encoder_new config () () fec) ((outs @ new) @ new')
       ((ds @ [chunk (cfg_symbol_size cfg) padded j]) @ map (chunk (cfg_symbol_size cfg) padded) [Suc j..<Suc j + k]) e2"
    "sends p st1 st2 (map raw_of new')" by blast
  have "[j..<j + Suc k] = j # [Suc j..<Suc j + k]" by (simp add: upt_conv_Cons)
  with 1(1) 2(1,2) sends_trans [OF 1(3) 2(3)] show ?case
    by (intro exI [of _ st2] exI [of _ e2] exI [of _ "new @ new'"]) simp
qed

lemma tail_flush_records:
  assumes U: "records U" and cfg: "encoder_config_ok config" "ec_window_capacity config \<le> 255"
    and tr: "file_trace disp (Encoder_new config () () fec) outs ds e" "length ds \<le> 65535"
  shows "\<exists>st' e' new. tail_flush U disp NoCongestionControl dest p k st e = (st', Returned e') \<and>
    file_trace disp (Encoder_new config () () fec) (outs @ new) ds e' \<and> sends p st st' (map raw_of new)"
  using tr(1)
proof (induction k arbitrary: outs e st)
  case 0
  then show ?case by (intro exI [of _ st] exI [of _ e] exI [of _ "[]"]) (simp add: sends_refl)
next
  case (Suc k)
  have "encoder_ok e" by (rule trace_state(1) [OF cfg tr(2) Suc.prems])
  from selected_result [OF this coded_selection(1) [OF this]] have "coded_result e (generate_coded disp NoCongestionControl e)" .
  from coded_extends [OF Suc.prems this encoder_trace.coded [OF Suc.prems]] obtain e1 x where
    x: "generate_coded disp NoCongestionControl e = Ok (e1, x)" "x = None \<or> (\<exists>b. x = Some (CodedOut b))"
    "file_trace disp (Encoder_new config () () fec) (outs @ (case x of None \<Rightarrow> [] | Some t \<Rightarrow> [t])) ds e1" by blast
  show ?case
  proof (cases x)
    case None
    with x show ?thesis by (intro exI [of _ st] exI [of _ e1] exI [of _ "[]"]) (simp add: sends_refl)
  next
    case (Some t)
    with x obtain b where t: "x = Some (CodedOut b)" by auto
    obtain st1 where 1: "send_packet U dest p st b False = (st1, Returned ())" "sends p st st1 [b]"
      using send_packet_records [OF U] by blast
    have "file_trace disp (Encoder_new config () () fec) (outs @ [CodedOut b]) ds e1" using x(3) t by simp
    from Suc.IH [OF this] obtain st2 e2 new where 2: "tail_flush U disp NoCongestionControl dest p k st1 e1 = (st2, Returned e2)"
      "file_trace disp (Encoder_new config () () fec) ((outs @ [CodedOut b]) @ new) ds e2" "sends p st1 st2 (map raw_of new)" by blast
    from sends_trans [OF 1(2) 2(3)] 1(1) 2(1,2) x(1) t show ?thesis
      by (intro exI [of _ st2] exI [of _ e2] exI [of _ "CodedOut b # new"]) simp
  qed
qed

section \<open>The file in symbols\<close>

definition file_symbols :: "nat \<Rightarrow> bytes \<Rightarrow> bytes list" where
  "file_symbols sz raw = map (chunk sz (padded_file sz raw)) [0..<symbol_count sz raw]"

lemma length_padded: "0 < sz \<Longrightarrow> length (padded_file sz raw) = symbol_count sz raw * sz"
proof -
  assume sz: "0 < sz"
  have "length raw + sz - 1 = symbol_count sz raw * sz + (length raw + sz - 1) mod sz"
    unfolding symbol_count_def by (simp only: div_mult_mod_eq)
  moreover have "(length raw + sz - 1) mod sz < sz" using sz by simp
  ultimately have "length raw \<le> symbol_count sz raw * sz" using sz by linarith
  then show ?thesis by (simp add: padded_file_def)
qed

lemma concat_chunks: "length bs = n * sz \<Longrightarrow> concat (map (chunk sz bs) [0..<n]) = bs"
proof (induction n arbitrary: bs)
  case (Suc n)
  have "concat (map (chunk sz (take (n * sz) bs)) [0..<n]) = take (n * sz) bs" by (rule Suc.IH) (simp add: Suc.prems)
  moreover have "chunk sz (take (n * sz) bs) k = chunk sz bs k" if "k < n" for k
  proof -
    have "k * sz + sz \<le> n * sz" using that mult_le_mono1 [of "Suc k" n sz] by simp
    then show ?thesis by (simp add: chunk_def drop_take min_def)
  qed
  ultimately have "concat (map (chunk sz bs) [0..<n]) = take (n * sz) bs" by (metis (mono_tags, lifting) atLeastLessThan_iff map_eq_conv set_upt)
  moreover have "chunk sz bs n = drop (n * sz) bs" using Suc.prems by (simp add: chunk_def)
  ultimately show ?case by simp
qed simp

lemma concat_file: "0 < sz \<Longrightarrow> take (length raw) (concat (file_symbols sz raw)) = raw"
  by (simp add: file_symbols_def concat_chunks length_padded) (simp add: padded_file_def)

lemma file_symbol_length: "0 < sz \<Longrightarrow> \<forall>d \<in> set (file_symbols sz raw). length d = sz"
proof -
  assume sz: "0 < sz"
  have "length (chunk sz (padded_file sz raw) k) = sz" if "k < symbol_count sz raw" for k
    using that mult_le_mono1 [of "Suc k" "symbol_count sz raw" sz] by (simp add: chunk_def length_padded [OF sz])
  then show ?thesis by (auto simp: file_symbols_def)
qed

lemma length_file_symbols [simp]: "length (file_symbols sz raw) = symbol_count sz raw"
  by (simp add: file_symbols_def)

section \<open>The sender's calls\<close>

definition send_config_ok :: "('path, 'addr) SendConfig \<Rightarrow> bool" where
  "send_config_ok cfg = (0 < cfg_symbol_size cfg \<and> cfg_symbol_size cfg \<le> 65535 \<and> 0 < cfg_window cfg \<and> cfg_window cfg \<le> 255 \<and>
     0 < cfg_fec_d cfg \<and> (cfg_strategy cfg = Strategy_Cauchy \<longrightarrow> cfg_window cfg \<le> 128))"

abbreviation file_config :: "('path, 'addr) SendConfig \<Rightarrow> EncoderConfig" where
  "file_config cfg \<equiv> \<lparr> ec_symbol_size = cfg_symbol_size cfg, ec_window_capacity = cfg_window cfg, ec_field = Gf2_8_field,
     ec_fec_numer = cfg_fec_n cfg, ec_fec_denom = cfg_fec_d cfg, ec_backpressure = EvictOldest,
     ec_matrix_strategy = into_delp (cfg_strategy cfg) \<rparr>"

abbreviation file_fec :: "('path, 'addr) SendConfig \<Rightarrow> ConstantFec" where
  "file_fec cfg \<equiv> \<lparr> fec_numer = cfg_fec_n cfg, fec_denom = cfg_fec_d cfg, fec_acc = 0 \<rparr>"

lemma file_encoder_ok:
  assumes "send_config_ok cfg"
  shows "file_encoder cfg = Returned (Encoder_new (file_config cfg) () () (file_fec cfg))" "encoder_config_ok (file_config cfg)"
    "ec_window_capacity (file_config cfg) \<le> 255"
proof -
  show ok: "encoder_config_ok (file_config cfg)" "ec_window_capacity (file_config cfg) \<le> 255"
    using assms unfolding encoder_config_ok_def send_config_ok_def by (cases "cfg_strategy cfg"; simp)+
  have "EncoderConfigBuilder_build (with_backpressure (with_matrix_strategy (with_fec_rate (with_window_capacity
      (EncoderConfigBuilder_new (cfg_symbol_size cfg)) (cfg_window cfg)) (cfg_fec_n cfg) (cfg_fec_d cfg))
      (into_delp (cfg_strategy cfg))) EvictOldest) = Ok (file_config cfg)"
    using ok(1) unfolding EncoderConfigBuilder_build_Ok by (simp add: EncoderConfigBuilder_new_def)
  moreover have "0 < cfg_fec_d cfg" using assms by (simp add: send_config_ok_def)
  ultimately show "file_encoder cfg = Returned (Encoder_new (file_config cfg) () () (file_fec cfg))"
    unfolding file_encoder_def by (simp add: ConstantFecRate_new_def)
qed

definition start_frame :: "(bytes \<Rightarrow> bytes) \<Rightarrow> nat \<Rightarrow> bytes \<Rightarrow> bytes" where
  "start_frame sha sz raw = build_start_frame (of_nat sz) (of_nat (symbol_count sz raw)) (of_nat (length raw)) (sha raw)"

lemma send_run_records:
  fixes U :: "(bytes list, 'addr, 'io) UdpSocket"
  assumes U: "records U" and cfg: "send_config_ok cfg" and rd: "read_file (cfg_file cfg) = Inl raw"
    and len: "symbol_count (cfg_symbol_size cfg) raw \<le> 65535"
  obtains config fec mid outs e where
    "send_run U rnd disp sha rid read_file (Inl ()) clock cfg [] =
      (start_frame sha (cfg_symbol_size cfg) raw # mid @ [build_end_frame], Returned ())"
    "file_trace disp (Encoder_new config () () fec) outs (file_symbols (cfg_symbol_size cfg) raw) e"
    "subseq mid (map raw_of outs)" "loss_percent rnd (cfg_loss_rate cfg) = 0 \<Longrightarrow> mid = map raw_of outs"
    "encoder_config_ok config" "ec_window_capacity config \<le> 255" "ec_symbol_size config = cfg_symbol_size cfg"
    "ec_field config = Gf2_8_field"
proof -
  let ?sz = "cfg_symbol_size cfg" and ?p = "loss_percent rnd (cfg_loss_rate cfg)" and ?n = "symbol_count (cfg_symbol_size cfg) raw"
  obtain config fec where c: "file_encoder cfg = (Returned (Encoder_new config () () fec) :: (_, 'io CliError) outcome)" "encoder_config_ok config"
    "ec_window_capacity config \<le> 255" "ec_backpressure config = EvictOldest" "ec_symbol_size config = ?sz"
    "ec_field config = Gf2_8_field"
    by (rule that [OF file_encoder_ok [OF cfg]]) simp_all
  let ?st0 = "\<lparr> snd_net = [start_frame sha ?sz raw], snd_rng = initial_rng clock, sent_src = 0, sent_cod = 0, dropped = 0 \<rparr>"
  let ?e0 = "Encoder_new config () () fec"
  have pos: "0 < ?sz" using cfg by (simp add: send_config_ok_def)
  have pre: "length ([] :: bytes list) + ?n \<le> 65535" "(0 + ?n) * ?sz \<le> length (padded_file ?sz raw)"
    using len length_padded [OF pos] by simp_all
  from send_symbols_records [OF U c(2-5) encoder_trace.start pre] obtain st1 e1 new where
    1: "send_symbols U disp NoCongestionControl ConstantFecRate (rid (cfg_dest cfg)) cfg ?p (padded_file ?sz raw) ?st0 ?e0 [0..<?n] = (st1, Returned e1)"
    "file_trace disp ?e0 new (file_symbols ?sz raw) e1" "sends ?p ?st0 st1 (map raw_of new)"
    unfolding file_symbols_def append_Nil add_0 by blast
  have "length (file_symbols ?sz raw) \<le> 65535" using len by simp
  from tail_flush_records [OF U c(2,3) 1(2) this] obtain st2 e2 new' where
    2: "tail_flush U disp NoCongestionControl (cfg_dest cfg) ?p (cfg_window cfg * 2) st1 e1 = (st2, Returned e2)"
    "file_trace disp ?e0 (new @ new') (file_symbols ?sz raw) e2" "sends ?p st1 st2 (map raw_of new')" by blast
  obtain mid where mid: "snd_net st2 = start_frame sha ?sz raw # mid" "subseq mid (map raw_of (new @ new'))"
    "?p = 0 \<longrightarrow> mid = map raw_of (new @ new')"
    using sends_trans [OF 1(3) 2(3)] unfolding sends_def by auto
  have "send_run U rnd disp sha rid read_file (Inl ()) clock cfg [] = (snd_net st2 @ [build_end_frame], Returned ())"
    using pos U 1(1) 2(1)
    by (simp add: send_run_def rd c(1) Let_def records_def start_frame_def)
  then show ?thesis using mid 2(2) c by (intro that [of mid config fec "new @ new'" e2]) simp_all
qed

end
