(* ===== verification/File_Recv.thy ===== *)
theory File_Recv
  imports File_Send
begin

text \<open>
  \<^verbatim>\<open>delp-cli/src/recv.rs\<close>: receiving a file. The network is the sequence of results of the
  successive calls \<open>timeout(inactivity, socket.recv_from(..))\<close>; when it ends, the program is still
  waiting (\<open>None\<close>). A datagram comes with the one observation of time the loop makes: whether more than
  150 ms have passed when the packet has been handled.
\<close>

datatype 'io rx_event = Elapsed | RxFailed 'io | Datagram bytes bool

record FileSession =
  fs_symbol_size :: nat
  fs_n_symbols :: u32
  fs_file_size :: u64
  fs_sha256 :: bytes

section \<open>The START frame\<close>

definition u16_from_be_bytes :: "u8 \<Rightarrow> u8 \<Rightarrow> u16" where
  "u16_from_be_bytes a b = push_bit 8 (ucast a) OR ucast b"

definition read_be64 :: "bytes \<Rightarrow> nat \<Rightarrow> u64 res" where
  "read_be64 buf a =
     and_then (read_be32 buf a) (\<lambda>hi. and_then (read_be32 buf (a + 4)) (\<lambda>lo. Ok (push_bit 32 (ucast hi) OR ucast lo)))"

definition parse_start :: "bytes \<Rightarrow> (FileSession, 'io CliError) outcome" where
  "parse_start buf =
     (if length buf < 4 + 4 + 4 + 8 + 32 then Raised (StartTooShort (length buf))
      else if take 2 buf \<noteq> take 2 MAGIC then Raised MissingMagic
      else if buf ! 0 \<noteq> 0x44 \<or> buf ! 1 \<noteq> 0x45 \<or> buf ! 2 \<noteq> 0x4C \<or> buf ! 3 \<noteq> CTRL_START then Raised MalformedStart
      else if buf ! 4 \<noteq> 1 then Raised (UnsupportedStart (buf ! 4))
      else
        from_res (and_then (read_be32 buf 8) (\<lambda>n_symbols.
          and_then (read_be64 buf 12) (\<lambda>file_size.
          and_then (slice buf 20 52) (\<lambda>sha256.
            Ok \<lparr> fs_symbol_size = unat (u16_from_be_bytes (buf ! 6) (buf ! 7)), fs_n_symbols = n_symbols,
                 fs_file_size = file_size, fs_sha256 = sha256 \<rparr>)))))"

abbreviation RX_BUF :: nat where "RX_BUF \<equiv> 65536"

fun wait_start :: "'io rx_event list \<Rightarrow> (FileSession \<times> 'io rx_event list, 'io CliError) outcome option" where
  "wait_start [] = None"
| "wait_start (Elapsed # rx) = Some (Raised StartTimeout)"
| "wait_start (RxFailed e # rx) = Some (Raised (System e))"
| "wait_start (Datagram raw late # rx) =
     (let buf = take RX_BUF raw in
      if length buf \<ge> 4 \<and> buf ! 3 = CTRL_START
      then Some (o_then (parse_start buf) (\<lambda>s. Returned (s, rx)))
      else wait_start rx)"

section \<open>The receive loop\<close>

fun insert_ready :: "(u32, bytes) btree \<Rightarrow> DecoderEvent list \<Rightarrow> (u32, bytes) btree" where
  "insert_ready syms [] = syms"
| "insert_ready syms (ev # events) =
     insert_ready (case ev of SourceReady i data \<Rightarrow> bt_insert syms i data | _ \<Rightarrow> syms) events"

text \<open>The branch of the loop for a data packet, \<open>if let Ok(..) = parse\<close> and \<open>if let Ok(events) = handle\<close>: an error of
  either is ignored; the only error of a handler is the size check at its start, before any change.\<close>

definition take_packet :: "('d \<Rightarrow> 'pkt \<Rightarrow> ('d \<times> DecoderEvent list) res) \<Rightarrow> 'pkt res \<Rightarrow> 'd \<Rightarrow> (u32, bytes) btree \<Rightarrow>
    ('d \<times> (u32, bytes) btree) res" where
  "take_packet handle parsed d syms =
     (case parsed of
        Panic \<Rightarrow> Panic
      | Err _ \<Rightarrow> Ok (d, syms)
      | Ok pkt \<Rightarrow>
          (case handle d pkt of
             Panic \<Rightarrow> Panic
           | Err _ \<Rightarrow> Ok (d, syms)
           | Ok (d, events) \<Rightarrow> Ok (d, insert_ready syms events)))"

definition take_datagram :: "(rat \<Rightarrow> rat) \<Rightarrow> Dispatch \<Rightarrow> ConstantFeedback Decoder \<Rightarrow> (u32, bytes) btree \<Rightarrow> bytes \<Rightarrow>
    (ConstantFeedback Decoder \<times> (u32, bytes) btree) res" where
  "take_datagram rnd disp d syms buf =
     (if buf ! 3 = 0 then take_packet (handle_source rnd disp ConstantFeedbackPolicy) (SourcePacket_parse buf) d syms
      else if buf ! 3 = 1 then take_packet (handle_coded rnd disp ConstantFeedbackPolicy) (CodedPacket_parse buf) d syms
      else Ok (d, syms))"

definition complete :: "u32 \<Rightarrow> (u32, bytes) btree \<Rightarrow> bool" where
  "complete n_symbols syms = (of_nat (length syms) \<ge> n_symbols)"

fun receive_loop :: "(rat \<Rightarrow> rat) \<Rightarrow> Dispatch \<Rightarrow> u32 \<Rightarrow> ConstantFeedback Decoder \<Rightarrow> (u32, bytes) btree \<Rightarrow> 'io rx_event list \<Rightarrow>
    ((u32, bytes) btree, 'io CliError) outcome option" where
  "receive_loop rnd disp n_symbols d syms [] = None"
| "receive_loop rnd disp n_symbols d syms (Elapsed # rx) =
     Some (if complete n_symbols syms then Returned syms else Raised InactivityTimeout)"
| "receive_loop rnd disp n_symbols d syms (RxFailed e # rx) = Some (Raised (System e))"
| "receive_loop rnd disp n_symbols d syms (Datagram raw late # rx) =
     (let buf = take RX_BUF raw in
      if length buf < 4 then receive_loop rnd disp n_symbols d syms rx
      else
        let got_end = (buf ! 3 = CTRL_END) in
        case take_datagram rnd disp d syms buf of
          Panic \<Rightarrow> Some Panicked
        | Err e \<Rightarrow> Some (Raised (Delp e))
        | Ok (d, syms) \<Rightarrow>
            if complete n_symbols syms \<and> late then Some (Returned syms)
            else if got_end then Some (Returned syms)
            else receive_loop rnd disp n_symbols d syms rx)"

section \<open>The file\<close>

fun stitch :: "(u32, bytes) btree \<Rightarrow> bytes \<Rightarrow> u32 list \<Rightarrow> (bytes, 'io CliError) outcome" where
  "stitch syms out_buf [] = Returned out_buf"
| "stitch syms out_buf (i # ids) =
     (case bt_get syms i of
        Some data \<Rightarrow> stitch syms (out_buf @ data) ids
      | None \<Rightarrow> Raised (MissingSymbol i))"

text \<open>\<open>Vec::with_capacity\<close> panics beyond \<open>isize::MAX\<close> bytes; memory is not bounded otherwise.\<close>

definition assemble :: "FileSession \<Rightarrow> (u32, bytes) btree \<Rightarrow> (bytes, 'io CliError) outcome" where
  "assemble s syms =
     (if unat (fs_file_size s) \<ge> 2 ^ 63 then Panicked
      else o_then (stitch syms [] (map of_nat [0..<unat (fs_n_symbols s)])) (\<lambda>out_buf.
        Returned (take (unat (fs_file_size s)) out_buf)))"

text \<open>The whole command: what was written to the output file, if anything, and the outcome. \<open>bound\<close> is the result of
  setting up the socket, \<open>save\<close> that of writing the file: when writing fails, the error and what it has left in the
  output file, if anything.\<close>

definition recv_run :: "(rat \<Rightarrow> rat) \<Rightarrow> Dispatch \<Rightarrow> (bytes \<Rightarrow> bytes) \<Rightarrow> unit + 'io \<Rightarrow> (bytes \<Rightarrow> unit + bytes option \<times> 'io) \<Rightarrow> 'io rx_event list \<Rightarrow>
    (bytes option \<times> (unit, 'io CliError) outcome) option" where
  "recv_run rnd disp sha bound save rx =
     (case bound of
        Inr e \<Rightarrow> Some (None, Raised (System e))
      | Inl _ \<Rightarrow>
          (case wait_start rx of
             None \<Rightarrow> None
           | Some Panicked \<Rightarrow> Some (None, Panicked)
           | Some (Raised e) \<Rightarrow> Some (None, Raised e)
           | Some (Returned (session, rx)) \<Rightarrow>
               (case from_res (and_then (DecoderConfigBuilder_build (DecoderConfigBuilder_new (fs_symbol_size session))) (\<lambda>dec_cfg.
                    and_then (ConstantFeedbackPolicy_new 8) (\<lambda>policy. Ok (Decoder_new dec_cfg policy)))) of
                  Panicked \<Rightarrow> Some (None, Panicked)
                | Raised e \<Rightarrow> Some (None, Raised e)
                | Returned decoder \<Rightarrow>
                    (case receive_loop rnd disp (fs_n_symbols session) decoder [] rx of
                       None \<Rightarrow> None
                     | Some r \<Rightarrow>
                         (case o_then r (assemble session) of
                            Panicked \<Rightarrow> Some (None, Panicked)
                          | Raised e \<Rightarrow> Some (None, Raised e)
                          | Returned out_buf \<Rightarrow>
                              (case save out_buf of
                                 Inr (left, e) \<Rightarrow> Some (left, Raised (System e))
                               | Inl _ \<Rightarrow>
                                   Some (Some out_buf, if sha out_buf = fs_sha256 session then Returned () else Raised DigestMismatch)))))))"

section \<open>The START frame survives\<close>

lemma u16_from_to_be: "u16_from_be_bytes (ucast (drop_bit 8 x)) (ucast (x :: u16)) = x"
proof (rule bit_word_eqI)
  fix i assume "i < LENGTH(16)"
  then have "i < 8 \<or> 8 \<le> i \<and> i < 16" by auto
  then show "bit (u16_from_be_bytes (ucast (drop_bit 8 x)) (ucast x)) i = bit x i"
    by (auto simp: u16_from_be_bytes_def bit_or_iff bit_push_bit_iff bit_ucast_iff bit_drop_bit_eq)
qed

lemma u64_halves: "push_bit 32 (ucast (ucast (drop_bit 32 x) :: u32)) OR ucast (ucast (x :: u64) :: u32) = x" (is "?l = x")
proof (rule bit_word_eqI)
  fix i assume "i < LENGTH(64)"
  then have "i < 32 \<or> 32 \<le> i \<and> i < 64" by auto
  then show "bit ?l i = bit x i"
    by (auto simp: bit_or_iff bit_push_bit_iff bit_ucast_iff bit_drop_bit_eq)
qed

lemma read_be64_append:
  "a = length xs \<Longrightarrow> read_be64 (xs @ u64_to_be_bytes v @ ys) a = Ok v"
  using read_be32_append [of a xs "ucast (drop_bit 32 v)" "u32_to_be_bytes (ucast v) @ ys"]
    read_be32_append [of "a + 4" "xs @ u32_to_be_bytes (ucast (drop_bit 32 v))" "ucast v" ys]
  by (simp add: read_be64_def u64_to_be_bytes_def u64_halves)

lemma start_frame_bytes:
  "build_start_frame ss n fs sha =
     [0x44, 0x45, 0x4C, 0xFF, 1, 0, ucast (drop_bit 8 ss), ucast ss] @ u32_to_be_bytes n @ u64_to_be_bytes fs @ sha"
  by (simp add: build_start_frame_def u16_to_be_bytes_def Let_def)

lemma length_u64_to_be_bytes [simp]: "length (u64_to_be_bytes x) = 8"
  by (simp add: u64_to_be_bytes_def)

lemma parse_start_frame:
  assumes "length sha = 32"
  shows "parse_start (build_start_frame ss n fs sha) =
    Returned \<lparr> fs_symbol_size = unat ss, fs_n_symbols = n, fs_file_size = fs, fs_sha256 = sha \<rparr>"
proof -
  let ?pre = "[0x44, 0x45, 0x4C, 0xFF, 1, 0, ucast (drop_bit 8 ss), ucast ss] :: bytes"
  let ?buf = "?pre @ u32_to_be_bytes n @ u64_to_be_bytes fs @ sha"
  have "read_be32 ?buf 8 = Ok n" by (rule read_be32_append) simp
  moreover have "read_be64 ?buf 12 = Ok fs"
    using read_be64_append [of 12 "?pre @ u32_to_be_bytes n" fs sha] by simp
  moreover have "slice ?buf 20 52 = Ok sha"
    using slice_append(2) [of 20 "?pre @ u32_to_be_bytes n @ u64_to_be_bytes fs" 52 sha "[]"] assms by simp
  ultimately show ?thesis
    using assms unfolding start_frame_bytes parse_start_def by (simp add: u16_from_to_be)
qed

end
