(* ===== verification/File_Recv_Correct.thy ===== *)
theory File_Recv_Correct
  imports File_Recv Lossless
begin

text \<open>
  The receiver of the command line tool: what its loop collects is true whatever arrives, and everything
  when nothing is lost.
\<close>

section \<open>Datagrams\<close>

lemma parsed_type_byte:
  assumes "and_then (CommonHeader_parse raw) packet_type = Ok t"
  shows "4 \<le> length raw" "raw ! 3 = packet_type_value t"
  using assms by (auto simp: CommonHeader_parse_def Let_def packet_type_def packet_type_from_u8_def split: if_splits)

text \<open>The receiver's dispatch on the type byte is the dispatch on packets.\<close>

lemma take_carried:
  assumes "carries raw p"
  shows "4 \<le> length raw" "raw ! 3 \<noteq> CTRL_END"
    and "take_datagram rnd disp d syms raw = (case handle_packet rnd disp ConstantFeedbackPolicy d p of
      Panic \<Rightarrow> Panic | Err _ \<Rightarrow> Ok (d, syms) | Ok (d, events) \<Rightarrow> Ok (d, insert_ready syms events))"
proof -
  have "4 \<le> length raw \<and> raw ! 3 \<noteq> CTRL_END \<and>
    take_datagram rnd disp d syms raw = (case handle_packet rnd disp ConstantFeedbackPolicy d p of
      Panic \<Rightarrow> Panic | Err _ \<Rightarrow> Ok (d, syms) | Ok (d, events) \<Rightarrow> Ok (d, insert_ready syms events))"
  proof (cases p)
    case (SourceP pkt)
    with assms have "SourcePacket_parse raw = Ok pkt" by simp
    with parsed_type_byte [OF source_parse_type [OF this]] SourceP show ?thesis
      by (simp add: take_datagram_def take_packet_def)
  next
    case (CodedP pkt)
    with assms have "CodedPacket_parse raw = Ok pkt" by simp
    with parsed_type_byte [OF coded_parse_type [OF this]] CodedP show ?thesis
      by (simp add: take_datagram_def take_packet_def)
  qed (use assms in simp)
  then show "4 \<le> length raw" "raw ! 3 \<noteq> CTRL_END"
    "take_datagram rnd disp d syms raw = (case handle_packet rnd disp ConstantFeedbackPolicy d p of
      Panic \<Rightarrow> Panic | Err _ \<Rightarrow> Ok (d, syms) | Ok (d, events) \<Rightarrow> Ok (d, insert_ready syms events))" by simp_all
qed

lemma take_end_frame:
  "take_datagram rnd disp d syms build_end_frame = Ok (d, syms)" "build_end_frame ! 3 = CTRL_END" "length build_end_frame = 4"
  by (simp_all add: take_datagram_def build_end_frame_def)

fun datagrams :: "'io rx_event list \<Rightarrow> bytes list" where
  "datagrams [] = []"
| "datagrams (Datagram raw late # rx) = raw # datagrams rx"
| "datagrams (ev # rx) = datagrams rx"

section \<open>What is collected is true\<close>

lemma bt_insert_subset: "set (bt_insert m k v) \<subseteq> insert (k, v) (set m)"
  by (induction m k v rule: bt_insert.induct) auto

lemma insert_ready_true:
  assumes "\<forall>(i, x) \<in> set (deliveries evs). x = S i" "bt_ok syms" "agrees S syms"
  shows "bt_ok (insert_ready syms evs) \<and> agrees S (insert_ready syms evs) \<and>
    set (bt_keys (insert_ready syms evs)) = set (bt_keys syms) \<union> fst ` set (deliveries evs)"
  using assms
proof (induction evs arbitrary: syms)
  case (Cons ev evs)
  show ?case
  proof (cases ev)
    case (SourceReady i x)
    have "x = S i" using Cons.prems(1) SourceReady by simp
    then have "agrees S (bt_insert syms i x)" using Cons.prems(3) bt_insert_subset [of syms i x] by (fastforce simp: agrees_def)
    moreover have "bt_ok (bt_insert syms i x)" using Cons.prems(2) by (rule bt_ok_insert)
    ultimately show ?thesis using Cons.IH [of "bt_insert syms i x"] Cons.prems(1) by (auto simp: SourceReady set_bt_keys_insert)
  next
    case (SendFeedback fb)
    with Cons show ?thesis by simp
  next
    case (UnrecoverableGap g c)
    with Cons show ?thesis by simp
  qed
qed simp

definition loop_ok :: "(SourceSymbolId \<Rightarrow> bytes) \<Rightarrow> ((u32, bytes) btree, 'e) outcome option \<Rightarrow> bool" where
  "loop_ok S r = (case r of Some (Returned syms) \<Rightarrow> bt_ok syms \<and> agrees S syms | Some Panicked \<Rightarrow> False | _ \<Rightarrow> True)"

lemma receive_loop_sound:
  assumes S: "sized L S" "0 < L"
    and "run_inv f L S C R d" "\<forall>p \<in> set ps. usable f L p \<and> says f S p" "in_order C R ps"
    and "list_all2 carries (filter (\<lambda>b. b \<noteq> build_end_frame) (datagrams rx)) ps"
    and "\<forall>b \<in> set (datagrams rx). length b \<le> RX_BUF" "bt_ok syms" "agrees S syms"
  shows "loop_ok S (receive_loop rnd disp n d syms rx)"
  using assms(3-)
proof (induction rx arbitrary: d syms ps C R rule: datagrams.induct)
  case 1
  then show ?case by (simp add: loop_ok_def)
next
  case (2 raw late rx)
  have len: "take RX_BUF raw = raw" using "2.prems"(5) by simp
  show ?case
  proof (cases "raw = build_end_frame")
    case True
    have "loop_ok S (receive_loop rnd disp n d syms rx)" by (rule "2.IH" [OF "2.prems"(1-3)]) (use "2.prems" True in auto)
    then show ?thesis using "2.prems"(6,7) by (simp add: Let_def take_end_frame True loop_ok_def)
  next
    case False
    then obtain p qs where ps: "ps = p # qs" "carries raw p"
      "list_all2 carries (filter (\<lambda>b. b \<noteq> build_end_frame) (datagrams rx)) qs"
      using "2.prems"(4) by (auto simp: list_all2_Cons1)
    have p: "usable f L p" "says f S p" "carried p \<inter> C \<subseteq> R" and qs: "in_order (C \<union> covered p) (R \<union> carried p) qs"
      using "2.prems"(2,3) ps(1) by simp_all
    obtain d1 evs where h: "handle_packet rnd disp ConstantFeedbackPolicy d p = Ok (d1, evs)"
      "run_inv f L S (C \<union> covered p) (R \<union> carried p) d1" "events_ok S d d1 evs \<or> d1 = d \<and> evs = []"
      by (rule handle_packet_ok [OF "2.prems"(1) S p]) blast
    have "run_events S d d1 evs" using h(2,3) events_ok_run_events run_events_refl by (auto simp: run_inv_def)
    then have "\<forall>(i, x) \<in> set (deliveries evs). x = S i" by (auto simp: run_events_def)
    from insert_ready_true [OF this "2.prems"(6,7)] have new: "bt_ok (insert_ready syms evs)" "agrees S (insert_ready syms evs)" by simp_all
    have "loop_ok S (receive_loop rnd disp n d1 (insert_ready syms evs) rx)"
      by (rule "2.IH" [OF h(2) _ qs ps(3) _ new]) (use "2.prems"(2,5) ps(1) in auto)
    then show ?thesis
      using take_carried(1,2) [OF ps(2)] new
      by (simp add: Let_def len take_carried(3) [OF ps(2)] h(1)) (simp add: loop_ok_def)
  qed
qed (simp_all add: loop_ok_def)

section \<open>Everything, when everything arrives\<close>

lemma insert_ready_append: "insert_ready syms (a @ b) = insert_ready (insert_ready syms a) b"
  by (induction a arbitrary: syms) simp_all

text \<open>Packets that the decoder handles, and the END frame after them: the loop stops with everything delivered,
  or earlier with as many symbols as there are.\<close>

lemma receive_loop_run:
  assumes "list_all2 carries raws ps" "decoder_run rnd disp ConstantFeedbackPolicy d ps = Ok (d', evs)"
    and "datagrams rx = raws @ [build_end_frame]" "\<forall>ev \<in> set rx. \<exists>b l. ev = Datagram b l" "\<forall>b \<in> set raws. length b \<le> RX_BUF"
  shows "\<exists>syms'. receive_loop rnd disp n d syms rx = Some (Returned syms') \<and> (syms' = insert_ready syms evs \<or> complete n syms')"
  using assms
proof (induction raws ps arbitrary: rx d syms evs rule: list_all2_induct)
  case Nil
  obtain b l rx' where 1: "rx = Datagram b l # rx'" using Nil.prems(2,3) by (cases rx rule: datagrams.cases) auto
  then have "datagrams rx' = []" "b = build_end_frame" using Nil.prems(2) by simp_all
  then have "rx = [Datagram build_end_frame l]" using 1 Nil.prems(3) by (cases rx' rule: datagrams.cases) auto
  then show ?case using Nil.prems(1) by (simp add: Let_def take_end_frame)
next
  case (Cons raw raws p ps)
  obtain l rx' where rx: "rx = Datagram raw l # rx'" "datagrams rx' = raws @ [build_end_frame]"
    using Cons.prems(2,3) by (cases rx rule: datagrams.cases) auto
  from Cons.prems(1) obtain d1 a b where h: "handle_packet rnd disp ConstantFeedbackPolicy d p = Ok (d1, a)"
    "decoder_run rnd disp ConstantFeedbackPolicy d1 ps = Ok (d', b)" "evs = a @ b" by auto
  obtain syms' where r: "receive_loop rnd disp n d1 (insert_ready syms a) rx' = Some (Returned syms')"
    "syms' = insert_ready (insert_ready syms a) b \<or> complete n syms'"
    using Cons.IH [OF h(2) rx(2)] Cons.prems(3,4) rx(1) by fastforce
  have len: "take RX_BUF raw = raw" using Cons.prems(4) by simp
  show ?case
    using r take_carried(1,2) [OF Cons.hyps(1)]
    by (cases "complete n (insert_ready syms a) \<and> l")
      (auto simp: rx(1) Let_def len take_carried(3) [OF Cons.hyps(1)] h(1,3) insert_ready_append)
qed

lemma insert_ready_keys: "set (bt_keys (insert_ready syms evs)) = set (bt_keys syms) \<union> fst ` set (deliveries evs)"
proof (induction evs arbitrary: syms)
  case (Cons ev evs)
  then show ?case by (cases ev) (auto simp: set_bt_keys_insert)
qed simp

lemma all_collected:
  assumes "deliveries evs = map (\<lambda>k. (of_nat k, ds ! k)) [0..<length ds] @ extra" "length ds \<le> 65535"
  shows "ids_below (length ds) \<subseteq> set (bt_keys (insert_ready [] evs))"
proof -
  have "set (first_ids (length ds)) \<subseteq> fst ` set (deliveries evs)" by (force simp: assms(1) first_ids_def image_Un image_image)
  then show ?thesis using first_ids(1) [OF assms(2)] by (simp add: insert_ready_keys)
qed

section \<open>Putting the file together\<close>

lemma stitch_cases:
  assumes "agrees S syms"
  shows "stitch syms out ids = Returned (out @ concat (map S ids)) \<or>
    ((\<exists>i. stitch syms out ids = Raised (MissingSymbol i)) \<and> \<not> set ids \<subseteq> set (bt_keys syms))"
proof (induction ids arbitrary: out)
  case (Cons i ids)
  show ?case
  proof (cases "bt_get syms i")
    case None
    have "stitch syms out (i # ids) = Raised (MissingSymbol i)" using None by simp
    moreover have "\<not> set (i # ids) \<subseteq> set (bt_keys syms)" using None bt_get_None_iff [of syms i] by simp
    ultimately show ?thesis by blast
  next
    case (Some x)
    then have "x = S i" by (rule agrees_get [OF assms])
    with Some Cons.IH [of "out @ x"] show ?thesis by auto
  qed
qed simp

end
