(* ===== verification/File_Transfer.thy ===== *)
theory File_Transfer
  imports File_Send_Correct File_Recv_Correct
begin

text \<open>
  The file transfer of the command line tool, end to end. Whatever arrives of what the sender sends, the
  receiver either writes the file that was sent or fails without writing anything; and it writes the file
  when everything arrives.
\<close>

section \<open>From the sender's run to the receiver's packets\<close>

lemma wire_packets:
  assumes cfg: "encoder_config_ok config" "ec_window_capacity config \<le> 255" "ec_field config = Gf2_8_field"
      "ec_symbol_size config = sz"
    and tr: "file_trace disp (Encoder_new config () () fec) outs ds e" "length ds \<le> 65535"
    and ds: "\<forall>d \<in> set ds. length d = sz"
  obtains ps where "list_all2 carries (map raw_of outs) ps" "in_sequence 0 ps" "source_count ps = length ds"
    "\<forall>p \<in> set ps. usable Gf2_8_field sz p \<and> says Gf2_8_field (payloads sz z ds) p"
proof -
  have "\<forall>k < length ds. payloads sz z ds (of_nat k) = ds ! k" using tr(2) by (simp add: payloads_def unat_of_nat)
  from no_cc.trace_invariant [OF tr(1) sending_new [OF cfg(1), where cinv = "\<lambda>_. True", OF TrueI] cfg(2) tr(2) this]
  obtain ps where "outputs_true Gf2_8_field sz (payloads sz z ds) (length ds) outs ps" "in_sequence 0 ps" "source_count ps = length ds"
    using cfg(3,4) by auto
  then show ?thesis by (intro that [of ps]) (simp_all add: outputs_true_def list_all2_map1)
qed

lemma payloads_sized: "\<forall>d \<in> set ds. length d = sz \<Longrightarrow> sized sz (payloads sz z ds)"
  by (auto simp: sized_def payloads_def)

text \<open>True under two fillings of the identifiers that were never sent: only identifiers that were.\<close>

lemma only_sent:
  assumes "agrees (payloads sz 0 ds) syms" "agrees (payloads sz 1 ds) syms" "0 < sz"
  shows "set (bt_keys syms) \<subseteq> ids_below (length ds)"
proof
  fix i assume "i \<in> set (bt_keys syms)"
  then obtain x where "(i, x) \<in> set syms" by (auto simp: bt_keys_def)
  then have eq: "payloads sz 0 ds i = payloads sz 1 ds i" using assms(1,2) by (fastforce simp: agrees_def)
  show "i \<in> ids_below (length ds)"
  proof (rule ccontr)
    assume "i \<notin> ids_below (length ds)"
    then have "replicate sz (0 :: u8) = replicate sz 1" using eq by (simp add: payloads_def ids_below_def)
    then show False using assms(3) by (simp add: replicate_eq_replicate)
  qed
qed

lemma complete_has_all:
  assumes "bt_ok syms" "set (bt_keys syms) \<subseteq> ids_below n" "n \<le> 65535" "complete (of_nat n) syms"
  shows "ids_below n \<subseteq> set (bt_keys syms)"
proof -
  have card: "card (ids_below n) = n" using assms(3) by (simp add: card_ids_below)
  have fin: "finite (ids_below n)" by (rule finite_subset [OF subset_UNIV]) simp
  have len: "card (set (bt_keys syms)) = length syms" using distinct_card [OF bt.keys_distinct [OF assms(1)]] by simp
  then have "length syms \<le> n" using card_mono [OF fin assms(2)] card by simp
  moreover from this have "n \<le> length syms" using assms(3,4) by (simp add: complete_def word_le_nat_alt unat_of_nat)
  ultimately have "card (set (bt_keys syms)) = card (ids_below n)" using len card by simp
  then show ?thesis using card_subset_eq [OF fin assms(2)] by simp
qed

section \<open>After the START frame\<close>

abbreviation file_decoder :: "nat \<Rightarrow> ConstantFeedback Decoder" where
  "file_decoder sz \<equiv> Decoder_new \<lparr> dc_symbol_size = sz, dc_field = Gf2_8_field, dc_max_matrix_rows = 512, dc_feedback_every = 16 \<rparr>
     \<lparr> fp_period = 8, fp_counter = 0 \<rparr>"

text \<open>The end of the command: what it does with the symbols collected.\<close>

definition finish_file :: "(bytes \<Rightarrow> bytes) \<Rightarrow> (bytes \<Rightarrow> unit + bytes option \<times> 'io) \<Rightarrow> nat \<Rightarrow> bytes \<Rightarrow> ((u32, bytes) btree, 'io CliError) outcome \<Rightarrow>
    bytes option \<times> (unit, 'io CliError) outcome" where
  "finish_file sha save n raw r =
     (case o_then r (\<lambda>syms. o_then (stitch syms [] (map of_nat [0..<n])) (\<lambda>out. Returned (take (length raw) out))) of
        Panicked \<Rightarrow> (None, Panicked)
      | Raised e \<Rightarrow> (None, Raised e)
      | Returned out \<Rightarrow>
          (case save out of Inr (left, e) \<Rightarrow> (left, Raised (System e))
           | Inl _ \<Rightarrow> (Some out, if sha out = sha raw then Returned () else Raised DigestMismatch)))"

lemma recv_run_start:
  fixes rx :: "'io rx_event list"
  assumes "0 < sz" "sz \<le> 65535" "symbol_count sz raw \<le> 65535" "length (sha raw) = 32"
  shows "recv_run rnd disp sha (Inl ()) save (Datagram (start_frame sha sz raw) late # rx) =
    map_option (finish_file sha save (symbol_count sz raw) raw)
      (receive_loop rnd disp (of_nat (symbol_count sz raw)) (file_decoder sz) [] rx)"
proof -
  let ?n = "symbol_count sz raw"
  let ?s = "\<lparr> fs_symbol_size = sz, fs_n_symbols = of_nat ?n, fs_file_size = of_nat (length raw), fs_sha256 = sha raw \<rparr>"
  have "length raw \<le> length (padded_file sz raw)" by (simp add: padded_file_def)
  also have "\<dots> = ?n * sz" by (rule length_padded [OF assms(1)])
  also have "\<dots> \<le> 65535 * 65535" using assms(2,3) by (rule mult_le_mono [rotated])
  finally have raw: "length raw \<le> 4294836225" by simp
  have u: "unat (of_nat sz :: u16) = sz" "unat (of_nat ?n :: u32) = ?n" "unat (of_nat (length raw) :: u64) = length raw"
    using assms(2,3) raw by (simp_all add: unat_of_nat)
  have frame: "length (start_frame sha sz raw) = 52" "start_frame sha sz raw ! 3 = CTRL_START"
    using assms(4) by (simp_all add: start_frame_def start_frame_bytes)
  have parse: "(parse_start (start_frame sha sz raw) :: (_, 'io CliError) outcome) = Returned ?s"
    using parse_start_frame [OF assms(4), of "of_nat sz" "of_nat ?n" "of_nat (length raw)"] unfolding start_frame_def u(1) .
  have start: "wait_start (Datagram (start_frame sha sz raw) late # rx) = Some (Returned (?s, rx))"
    using frame parse by (simp add: Let_def)
  have asm: "assemble ?s = (\<lambda>syms. o_then (stitch syms [] (map of_nat [0..<?n])) (\<lambda>out. Returned (take (length raw) out)))"
    using raw by (simp add: fun_eq_iff assemble_def u)
  show ?thesis
    using assms(1,2) unfolding recv_run_def start
    by (cases "receive_loop rnd disp (of_nat ?n) (file_decoder sz) [] rx")
      (simp_all add: DecoderConfigBuilder_new_def ConstantFeedbackPolicy_new_def asm finish_file_def split: outcome.splits sum.splits)
qed

section \<open>Properties\<close>

lemma stitch_file:
  fixes save :: "bytes \<Rightarrow> unit + bytes option \<times> 'io"
  assumes "agrees (payloads sz z (file_symbols sz raw)) syms" "0 < sz" "symbol_count sz raw \<le> 65535"
  shows "finish_file sha save (symbol_count sz raw) raw (Returned syms) =
      (case save raw of Inr (left, e) \<Rightarrow> (left, Raised (System e)) | Inl _ \<Rightarrow> (Some raw, Returned ())) \<or>
    ((\<exists>e. finish_file sha save (symbol_count sz raw) raw (Returned syms) = (None, Raised e)) \<and>
     \<not> ids_below (symbol_count sz raw) \<subseteq> set (bt_keys syms))"
proof -
  let ?n = "symbol_count sz raw" and ?ds = "file_symbols sz raw" and ?ids = "map of_nat [0..<symbol_count sz raw] :: u32 list"
  have u: "unat (of_nat k :: u32) = k" if "k < ?n" for k using that assms(3) by (simp add: unat_of_nat)
  have "map (payloads sz z ?ds) ?ids = ?ds" by (rule nth_equalityI) (simp_all add: payloads_def u)
  then have file_eq: "take (length raw) (concat (map (payloads sz z ?ds) ?ids)) = raw" using concat_file [OF assms(2)] by simp
  have ids: "set ?ids \<subseteq> ids_below ?n" using u by (auto simp: ids_below_def)
  let ?st = "stitch syms [] ?ids :: (bytes, 'io CliError) outcome"
  have "?st = Returned ([] @ concat (map (payloads sz z ?ds) ?ids)) \<or>
      ((\<exists>i. ?st = Raised (MissingSymbol i)) \<and> \<not> set ?ids \<subseteq> set (bt_keys syms))"
    by (rule stitch_cases [OF assms(1)])
  then show ?thesis
  proof (elim disjE conjE exE)
    assume st: "?st = Returned ([] @ concat (map (payloads sz z ?ds) ?ids))"
    then show ?thesis unfolding finish_file_def o_then.simps st append_Nil file_eq by (simp split: sum.splits)
  next
    fix i assume st: "?st = Raised (MissingSymbol i)" "\<not> set ?ids \<subseteq> set (bt_keys syms)"
    then show ?thesis using ids unfolding finish_file_def o_then.simps st(1) by auto
  qed
qed

lemma file_sent_ends:
  assumes "records U" "send_config_ok cfg" "read_file (cfg_file cfg) = Inl raw" "symbol_count (cfg_symbol_size cfg) raw \<le> 65535"
    and "send_run U rnd disp sha rid read_file (Inl ()) clock cfg [] = (first # others, r)"
  shows "others \<noteq> []"
  by (rule send_run_records [where read_file = read_file and cfg = cfg, OF assms(1-4), of rnd disp sha rid clock])
    (use assms(5) in auto)

text \<open>The receive loop on any part of what was sent.\<close>

lemma transfer_loop:
  assumes sz: "0 < sz" "sz \<le> 60000" and dl: "length ds \<le> 65535" "\<forall>d \<in> set ds. length d = sz"
    and cfg: "encoder_config_ok config" "ec_window_capacity config \<le> 255" "ec_symbol_size config = sz" "ec_field config = Gf2_8_field"
    and tr: "file_trace disp (Encoder_new config () () fec) outs ds e"
    and rx: "subseq (filter (\<lambda>b. b \<noteq> build_end_frame) (datagrams rx)) (map raw_of outs)"
  shows "loop_ok (payloads sz z ds) (receive_loop rnd' disp' n (file_decoder sz) [] rx)"
proof -
  let ?data = "filter (\<lambda>b. b \<noteq> build_end_frame) (datagrams rx)"
  obtain ps where ps: "list_all2 carries (map raw_of outs) ps" "in_sequence 0 ps" "source_count ps = length ds"
    "\<forall>p \<in> set ps. usable Gf2_8_field sz p \<and> says Gf2_8_field (payloads sz z ds) p"
    by (rule wire_packets [OF cfg(1,2,4,3) tr dl])
  obtain qs where qs: "subseq qs ps" "list_all2 carries ?data qs" using subseq_list_all2 [OF rx ps(1)] by blast
  have true: "\<forall>p \<in> set qs. usable Gf2_8_field sz p \<and> says Gf2_8_field (payloads sz z ds) p"
    using ps(4) list_emb_set [OF qs(1)] by fastforce
  have "sources_first {} ps" by (rule in_sequence_sources_first [OF ps(2)]) (use ps(3) dl in simp_all)
  then have ord: "in_order {} {} qs" by (rule sources_first_in_order [OF sources_first_subseq [OF qs(1)]])
  have small: "\<forall>b \<in> set (datagrams rx). length b \<le> RX_BUF"
  proof
    fix b assume b: "b \<in> set (datagrams rx)"
    show "length b \<le> RX_BUF"
    proof (cases "b = build_end_frame")
      case False
      with b have "b \<in> set ?data" by simp
      then obtain p where "carries b p" "p \<in> set qs" using list_all2_mem [OF qs(2)] by blast
      with true have "length b \<le> 2080 + sz" by (blast intro: carried_length)
      with sz(2) show ?thesis by simp
    qed (simp add: take_end_frame)
  qed
  show ?thesis
    by (rule receive_loop_sound [OF payloads_sized [OF dl(2)] sz(1) run_inv_new true ord qs(2) small])
      (simp_all add: agrees_def)
qed

text \<open>The receiver ends with the file when what arrives makes the decoder deliver every symbol.\<close>

lemma transfer_finishes:
  fixes save :: "bytes \<Rightarrow> unit + bytes option \<times> 'io"
  assumes sz: "0 < sz" "sz \<le> 60000" and n: "symbol_count sz raw \<le> 65535" "length (sha raw) = 32" "save raw = Inl ()"
    and cfg: "encoder_config_ok config" "ec_window_capacity config \<le> 255" "ec_symbol_size config = sz" "ec_field config = Gf2_8_field"
    and tr: "file_trace disp (Encoder_new config () () fec) outs (file_symbols sz raw) e"
    and rx: "subseq raws (map raw_of outs)" "datagrams rx = raws @ [build_end_frame]"
    and run: "list_all2 carries raws qs" "decoder_run rnd' disp' ConstantFeedbackPolicy (file_decoder sz) qs = Ok (d, evs)"
    and data: "\<forall>ev \<in> set rx. \<exists>b l. ev = Datagram b l"
      "deliveries evs = map (\<lambda>k. (of_nat k, file_symbols sz raw ! k)) [0..<length (file_symbols sz raw)] @ extra"
  shows "recv_run rnd' disp' sha (Inl ()) save (Datagram (start_frame sha sz raw) late # rx) = Some (Some raw, Returned ())"
proof -
  let ?n = "symbol_count sz raw" and ?ds = "file_symbols sz raw"
  have dl: "length ?ds \<le> 65535" using n(1) by simp
  note fl = file_symbol_length [OF sz(1)]
  have sz': "sz \<le> 65535" using sz(2) by simp
  obtain ps where ps: "list_all2 carries (map raw_of outs) ps"
    "\<forall>p \<in> set ps. usable Gf2_8_field sz p \<and> says Gf2_8_field (payloads sz 0 ?ds) p"
    by (rule wire_packets [OF cfg(1,2,4,3) tr dl fl])
  have small: "\<forall>b \<in> set raws. length b \<le> RX_BUF"
  proof
    fix b assume "b \<in> set raws"
    then have "b \<in> set (map raw_of outs)" using list_emb_set [OF rx(1)] by blast
    then obtain p where "carries b p" "p \<in> set ps" using list_all2_mem [OF ps(1)] by blast
    with ps(2) have "length b \<le> 2080 + sz" by (blast intro: carried_length)
    with sz(2) show "length b \<le> RX_BUF" by simp
  qed
  have "subseq (filter (\<lambda>b. b \<noteq> build_end_frame) raws) raws" by simp
  then have "subseq (filter (\<lambda>b. b \<noteq> build_end_frame) raws) (map raw_of outs)"
    using rx(1) by (rule subseq_order.order_trans)
  then have part: "subseq (filter (\<lambda>b. b \<noteq> build_end_frame) (datagrams rx)) (map raw_of outs)" by (simp add: rx(2))
  note sound = transfer_loop [OF sz dl fl cfg tr part, of _ rnd' disp' "of_nat ?n"]
  obtain syms where l: "receive_loop rnd' disp' (of_nat ?n) (file_decoder sz) [] rx = Some (Returned syms)"
    "syms = insert_ready [] evs \<or> complete (of_nat ?n) syms"
    using receive_loop_run [OF run rx(2) data(1) small] by blast
  have s: "bt_ok syms" "agrees (payloads sz 0 ?ds) syms" "agrees (payloads sz 1 ?ds) syms"
    using sound [of 0] sound [of 1] by (simp_all add: l(1) loop_ok_def)
  have "ids_below ?n \<subseteq> set (bt_keys syms)"
    using l(2) complete_has_all [OF s(1) _ n(1)] only_sent [OF s(2,3) sz(1)] all_collected [OF data(2) dl] by auto
  then have "finish_file sha save ?n raw (Returned syms) = (Some raw, Returned ())"
    using stitch_file [OF s(2) sz(1) n(1), of sha save] n(3) by simp
  then show ?thesis
    unfolding recv_run_start [where sha = sha and raw = raw, OF sz(1) sz' n(1,2)] by (simp add: l(1))
qed

text \<open>For the witnesses: a file of two bytes in symbols of one byte.\<close>

abbreviation recording_socket :: "(bytes list, nat, unit) UdpSocket" where
  "recording_socket \<equiv> \<lparr> send_to = (\<lambda>n b a. (n @ [b], Inl ())), try_send_to = (\<lambda>n b a. (n @ [b], Done ())),
     recv_from = (\<lambda>n. None), try_recv_from = (\<lambda>n. (n, WouldBlock)) \<rparr>"

abbreviation small_transfer :: "(nat, nat) SendConfig" where
  "small_transfer \<equiv> \<lparr> cfg_file = 0, cfg_dest = 7, cfg_symbol_size = 1, cfg_window = 4, cfg_fec_n = 1, cfg_fec_d = 2,
     cfg_strategy = Strategy_Cauchy, cfg_altc = Altc_Recent, cfg_altc_recent = 2, cfg_loss_rate = 0 \<rparr>"

abbreviation small_send :: "bytes list \<times> (unit, unit CliError) outcome" where
  "small_send \<equiv> send_run recording_socket (\<lambda>x. x) Avx2 (\<lambda>_. replicate 32 1) (\<lambda>_. 1) (\<lambda>_. Inl [5, 6]) (Inl ()) None small_transfer []"

abbreviation small_recv :: "unit rx_event list \<Rightarrow> (bytes option \<times> (unit, unit CliError) outcome) option" where
  "small_recv rx \<equiv> recv_run (\<lambda>x. x) Scalar (\<lambda>_. replicate 32 1) (Inl ()) (\<lambda>_. Inl ()) rx"

lemma small_transfer_ok:
  "records recording_socket" "send_config_ok small_transfer" "cfg_symbol_size small_transfer \<le> 60000"
  "(\<lambda>_. Inl [5, 6]) (cfg_file small_transfer) = (Inl [5, 6] :: bytes + unit)"
  "symbol_count (cfg_symbol_size small_transfer) [5, 6] \<le> 65535" "length ((\<lambda>_. replicate 32 1) [5 :: u8, 6] :: bytes) = 32"
  "loss_percent (\<lambda>x. x) (cfg_loss_rate small_transfer) = 0"
  by (simp_all add: records_def send_config_ok_def symbol_count_def loss_percent_def)

lemma small_send_records: obtains first others where "small_send = (first # others, Returned ())"
  by (rule send_run_records [where U = recording_socket and cfg = small_transfer and read_file = "\<lambda>_. Inl [5, 6]" and raw = "[5, 6]"
        and rnd = "\<lambda>x. x" and disp = Avx2 and sha = "\<lambda>_. replicate 32 1" and rid = "\<lambda>_. 1" and clock = None,
      OF small_transfer_ok(1,2,4,5)]) blast

lemma datagrams_map [simp]: "datagrams (map (\<lambda>b. Datagram b l) bs) = bs"
  by (induction bs) simp_all

text \<open>C4: a file transfer never writes a wrong file. A valid command sends a file of at most 65535 symbols on a
  socket that takes everything; the receiver gets the first datagram and then, in order, any part of the
  others, with END frames, timeouts and socket errors anywhere in between. The sender succeeds, and if the
  receiver ends, it has either written exactly the file and reports success, or reports an error and has
  written nothing, unless the error is that of writing exactly the file, which may leave a part of it. It never
  panics and never ends with a digest mismatch.\<close>

theorem file_transfer_safe:
  assumes "records U" "send_config_ok cfg" "cfg_symbol_size cfg \<le> 60000" "read_file (cfg_file cfg) = Inl raw"
    and "symbol_count (cfg_symbol_size cfg) raw \<le> 65535" "length (sha raw) = 32"
    and "send_run U rnd disp sha rid read_file (Inl ()) clock cfg [] = (first # others, r)"
    and "subseq (filter (\<lambda>b. b \<noteq> build_end_frame) (datagrams rx)) others"
  shows "r = Returned () \<and>
    (case recv_run rnd' disp' sha (Inl ()) save (Datagram first late # rx) of
       None \<Rightarrow> True
     | Some (saved, Returned _) \<Rightarrow> saved = Some raw
     | Some (saved, Raised e) \<Rightarrow> saved = None \<or> (\<exists>io. save raw = Inr (saved, io) \<and> e = System io)
     | Some (saved, Panicked) \<Rightarrow> False)"
proof -
  let ?sz = "cfg_symbol_size cfg" and ?ds = "file_symbols (cfg_symbol_size cfg) raw" and ?n = "symbol_count (cfg_symbol_size cfg) raw"
  have sz: "0 < ?sz" "?sz \<le> 65535" using assms(2) by (simp_all add: send_config_ok_def)
  obtain config fec mid outs e where w: "send_run U rnd disp sha rid read_file (Inl ()) clock cfg [] =
      (start_frame sha ?sz raw # mid @ [build_end_frame], Returned ())"
    "file_trace disp (Encoder_new config () () fec) outs ?ds e" "subseq mid (map raw_of outs)"
    "encoder_config_ok config" "ec_window_capacity config \<le> 255" "ec_symbol_size config = ?sz" "ec_field config = Gf2_8_field"
    by (rule send_run_records [where read_file = read_file and cfg = cfg, OF assms(1,2,4,5)])
  have r: "r = Returned ()" "first = start_frame sha ?sz raw" "others = mid @ [build_end_frame]" using w(1) assms(7) by simp_all
  have dl: "length ?ds \<le> 65535" using assms(5) by simp
  let ?data = "filter (\<lambda>b. b \<noteq> build_end_frame) (datagrams rx)"
  have "subseq ?data (filter (\<lambda>b. b \<noteq> build_end_frame) others)"
    using subseq_filter [OF assms(8), of "\<lambda>b. b \<noteq> build_end_frame"] by simp
  also have "subseq \<dots> mid" by (simp add: r(3))
  also note w(3)
  finally have part: "subseq ?data (map raw_of outs)" .
  have "loop_ok (payloads ?sz 0 ?ds) (receive_loop rnd' disp' (of_nat ?n) (file_decoder ?sz) [] rx)"
    by (rule transfer_loop [OF sz(1) assms(3) dl file_symbol_length [OF sz(1)] w(4-7,2) part])
  moreover have "case finish_file sha save ?n raw q of (saved, Returned _) \<Rightarrow> saved = Some raw
      | (saved, Raised e) \<Rightarrow> saved = None \<or> (\<exists>io. save raw = Inr (saved, io) \<and> e = System io) | (saved, Panicked) \<Rightarrow> False"
    if "loop_ok (payloads ?sz 0 ?ds) (Some q)" for q
  proof (cases q)
    case (Returned syms)
    then have "agrees (payloads ?sz 0 ?ds) syms" using that by (simp add: loop_ok_def)
    from stitch_file [OF this sz(1) assms(5), of sha save] Returned show ?thesis by (auto split: sum.splits)
  qed (use that in \<open>simp_all add: loop_ok_def finish_file_def\<close>)
  ultimately show ?thesis
    unfolding r(1,2) recv_run_start [where sha = sha and raw = raw, OF sz assms(5,6)]
    by (cases "receive_loop rnd' disp' (of_nat ?n) (file_decoder ?sz) [] rx") simp_all
qed

theorem file_transfer_safe_witness:
  "\<exists>first others. small_send = (first # others, Returned ()) \<and>
    (case small_recv (Datagram first True # Datagram (hd others) False # [Elapsed, Datagram build_end_frame True]) of
       None \<Rightarrow> True
     | Some (saved, Returned _) \<Rightarrow> saved = Some [5, 6]
     | Some (saved, Raised e) \<Rightarrow> saved = None
     | Some (saved, Panicked) \<Rightarrow> False)"
proof -
  obtain first others where s: "small_send = (first # others, Returned ())" by (rule small_send_records)
  have "others \<noteq> []" using file_sent_ends [OF small_transfer_ok(1,2,4,5) s] .
  then have "subseq (filter (\<lambda>b. b \<noteq> build_end_frame) (datagrams [Datagram (hd others) False, Elapsed, Datagram build_end_frame True])) others"
    by (cases others) auto
  from file_transfer_safe [OF small_transfer_ok(1-6) s this, where save = "\<lambda>_. Inl ()", unfolded Inl_Inr_False simp_thms] s
  show ?thesis by blast
qed

text \<open>C10: a transfer without losses delivers the file. When the sender simulates no loss and all its datagrams
  arrive in order, the receiver writes exactly the file that was read, and reports that its digest is
  right, however slowly it handles the packets.\<close>

theorem file_transfer_lossless:
  assumes "records U" "send_config_ok cfg" "cfg_symbol_size cfg \<le> 60000" "read_file (cfg_file cfg) = Inl raw"
    and "symbol_count (cfg_symbol_size cfg) raw \<le> 65535" "length (sha raw) = 32" "loss_percent rnd (cfg_loss_rate cfg) = 0"
    and "send_run U rnd disp sha rid read_file (Inl ()) clock cfg [] = (first # others, r)"
    and "datagrams rx = others" "\<forall>ev \<in> set rx. \<exists>b l. ev = Datagram b l" "save raw = Inl ()"
  shows "recv_run rnd' disp' sha (Inl ()) save (Datagram first late # rx) = Some (Some raw, Returned ())"
proof -
  let ?sz = "cfg_symbol_size cfg" and ?ds = "file_symbols (cfg_symbol_size cfg) raw" and ?n = "symbol_count (cfg_symbol_size cfg) raw"
  have sz: "0 < ?sz" "?sz \<le> 65535" using assms(2) by (simp_all add: send_config_ok_def)
  obtain config fec mid outs e where w: "send_run U rnd disp sha rid read_file (Inl ()) clock cfg [] =
      (start_frame sha ?sz raw # mid @ [build_end_frame], Returned ())"
    "file_trace disp (Encoder_new config () () fec) outs ?ds e" "mid = map raw_of outs"
    "encoder_config_ok config" "ec_window_capacity config \<le> 255" "ec_symbol_size config = ?sz" "ec_field config = Gf2_8_field"
    by (rule send_run_records [where read_file = read_file and cfg = cfg, OF assms(1,2,4,5)]) (use assms(7) in blast)
  have r: "first = start_frame sha ?sz raw" "datagrams rx = mid @ [build_end_frame]" using w(1) assms(8,9) by simp_all
  have dl: "length ?ds \<le> 65535" using assms(5) by simp
  note fl = file_symbol_length [OF sz(1)]
  have dc: "dc_field \<lparr> dc_symbol_size = ?sz, dc_field = Gf2_8_field, dc_max_matrix_rows = 512, dc_feedback_every = 16 \<rparr> = ec_field config"
    "dc_symbol_size \<lparr> dc_symbol_size = ?sz, dc_field = Gf2_8_field, dc_max_matrix_rows = 512, dc_feedback_every = 16 \<rparr> = ec_symbol_size config"
    using w(6,7) by simp_all
  obtain ps d evs where ps: "list_all2 carries (map raw_of outs) ps"
    "decoder_run rnd' disp' ConstantFeedbackPolicy (file_decoder ?sz) ps = Ok (d, evs)"
    "deliveries evs = map (\<lambda>k. (of_nat k, ?ds ! k)) [0..<length ?ds]"
    by (rule lossless_decoder [OF no_cc.congestion_control_axioms TrueI w(4,5,2) dl dc])
  show ?thesis
    unfolding r(1)
    by (rule transfer_finishes [where sha = sha and save = save and raw = raw and raws = mid and rx = rx and extra = "[]",
        OF sz(1) assms(3) assms(5,6,11) w(4-7,2) _ _ _ ps(2)])
      (use r(2) w(3) assms(10) ps(1,3) in simp_all)
qed

theorem file_transfer_lossless_witness:
  "\<exists>first others. small_send = (first # others, Returned ()) \<and>
    small_recv (Datagram first True # map (\<lambda>b. Datagram b True) others) = Some (Some [5, 6], Returned ())"
proof -
  obtain first others where s: "small_send = (first # others, Returned ())" by (rule small_send_records)
  have rx: "datagrams (map (\<lambda>b. Datagram b True) others :: unit rx_event list) = others"
    "\<forall>ev \<in> set (map (\<lambda>b. Datagram b True) others :: unit rx_event list). \<exists>b l. ev = Datagram b l" by auto
  have sv: "(\<lambda>_. Inl ()) [5 :: u8, 6] = (Inl () :: unit + bytes option \<times> unit)" by simp
  from file_transfer_lossless [OF small_transfer_ok s rx sv] s show ?thesis by blast
qed

end
