(* ===== verification/Recovery.thy ===== *)
theory Recovery
  imports Lossless
begin

text \<open>
  Recovery of losses. The coded packets of one batch, made over the same window with consecutive coded
  identifiers, form a Cauchy or Vandermonde system in the symbols the receiver misses: as many of them
  as there are lost symbols restore all of these.
\<close>

section \<open>The system of a batch\<close>

text \<open>The coefficient of a symbol in the coded packet \<open>c\<close> of generation \<open>g\<close>, and how many identifiers a batch and
  the window may use.\<close>

definition coef_of :: "EncoderConfig \<Rightarrow> u8 \<Rightarrow> u32 \<Rightarrow> u32 \<Rightarrow> u8" where
  "coef_of config g c s =
     (case ec_matrix_strategy config of
        Vandermonde \<Rightarrow> vandermonde_coef (ec_field config) s c
      | Cauchy \<Rightarrow>
          (case ec_field config of
             Gf2_8_field \<Rightarrow> gf8_value (1 / (cx8 s + cy8 g c))
           | Gf2_4_field \<Rightarrow> gf4_value (1 / (cx4 s + cy4 g c))))"

definition batch_limit :: "EncoderConfig \<Rightarrow> nat" where
  "batch_limit config =
     (case ec_matrix_strategy config of
        Vandermonde \<Rightarrow> (case ec_field config of Gf2_8_field \<Rightarrow> 255 | Gf2_4_field \<Rightarrow> 15)
      | Cauchy \<Rightarrow> (case ec_field config of Gf2_8_field \<Rightarrow> 128 | Gf2_4_field \<Rightarrow> 7))"

lemma coefs_and_ev_coef:
  assumes "coefs_and_ev config cover c g = Ok (cs, ev)"
  shows "cs = map (coef_of config g c) cover"
  using assms
  by (cases "ec_matrix_strategy config"; cases "ec_field config")
    (auto simp: coefs_and_ev_def coef_of_def vandermonde_batch_eq cauchy_batch_gf2_8_eq cauchy_batch_gf2_4_eq)

lemma inj_unat_mod: "inj_on (\<lambda>s :: u32. unat s mod m) (ids_below m)"
  by (rule inj_onI) (simp add: ids_below_def word_unat_eq_iff)

lemma batch_ids:
  fixes c0 :: u32
  assumes "unat c0 + k \<le> m" "m \<le> 255"
  shows "j < k \<Longrightarrow> unat (c0 + of_nat j) = unat c0 + j" "inj_on (\<lambda>j. c0 + of_nat j :: u32) {..<k}"
    "(\<lambda>j. c0 + of_nat j) ` {..<k} \<subseteq> ids_below m"
proof -
  show u: "unat (c0 + of_nat j) = unat c0 + j" if "j < k" for j
    using that assms by (simp add: unat_word_ariths unat_of_nat)
  show "inj_on (\<lambda>j. c0 + of_nat j) {..<k}"
  proof (rule inj_onI)
    fix a b assume "a \<in> {..<k}" "b \<in> {..<k}" and eq: "c0 + of_nat a = c0 + of_nat b"
    then have "unat c0 + a = unat c0 + b" using u [of a] u [of b] by (metis lessThan_iff)
    then show "a = b" by simp
  qed
  show "(\<lambda>j. c0 + of_nat j) ` {..<k} \<subseteq> ids_below m" using u assms by (auto simp: ids_below_def)
qed

text \<open>As many equations as unknowns have one solution.\<close>

lemma batch_determines:
  assumes lim: "unat c0 + card M \<le> batch_limit config" and M: "M \<subseteq> ids_below (batch_limit config)" "s \<in> M"
    and eq: "\<And>j. j < card M \<Longrightarrow>
      xor_sum (\<lambda>s. byte_mul (ec_field config) (v s) (coef_of config g (c0 + of_nat j) s)) M =
      xor_sum (\<lambda>s. byte_mul (ec_field config) (w s) (coef_of config g (c0 + of_nat j) s)) M"
  shows "v s = w s"
proof -
  have fin: "finite M" by (rule finite_subset [OF subset_UNIV]) simp
  have le: "batch_limit config \<le> 255"
    by (simp add: batch_limit_def split: MatrixStrategy.split Field.split)
  note b = batch_ids [OF lim le]
  let ?C = "(\<lambda>j. c0 + of_nat j :: u32) ` {..<card M}"
  have C: "finite ?C" "card M = card ?C" by (simp_all add: card_image [OF b(2)])
  have inj: "inj_on (\<lambda>s. unat s mod batch_limit config) M" "inj_on (\<lambda>c. unat c mod batch_limit config) ?C"
    using inj_unat_mod inj_on_subset M(1) b(3) by blast+
  have eqC: "xor_sum (\<lambda>s. byte_mul (ec_field config) (v s) (coef_of config g c s)) M =
      xor_sum (\<lambda>s. byte_mul (ec_field config) (w s) (coef_of config g c s)) M" if "c \<in> ?C" for c
    using that eq by auto
  show ?thesis
  proof (cases "ec_matrix_strategy config")
    case Cauchy
    show ?thesis
    proof (cases "ec_field config")
      case Gf2_8_field
      show ?thesis
        by (rule cauchy_determines_gf2_8 [where S = M and C = ?C and g = g and k = "\<lambda>s c. coef_of config g c s"])
          (use fin C inj M(2) eqC in \<open>simp_all add: batch_limit_def coef_of_def Cauchy Gf2_8_field cauchy_coef_gf2_8_eq\<close>)
    next
      case Gf2_4_field
      have c7: "\<forall>c \<in> ?C. c < 7"
        using b(3) by (force simp: batch_limit_def Cauchy Gf2_4_field ids_below_def word_less_nat_alt)
      show ?thesis
        by (rule cauchy_determines_gf2_4 [where S = M and C = ?C and g = g and k = "\<lambda>s c. coef_of config g c s", OF fin C(2) _ c7])
          (use inj M(2) eqC in \<open>simp_all add: batch_limit_def coef_of_def Cauchy Gf2_4_field cauchy_coef_gf2_4_eq\<close>)
    qed
  next
    case Vandermonde
    have mem: "c \<in> ?C" if "c0 \<le> c" "unat c < unat c0 + card M" for c
    proof -
      have "unat c - unat c0 < card M" using that by (simp add: word_le_nat_alt)
      moreover from this have "unat (c0 + of_nat (unat c - unat c0)) = unat c"
        using b(1) that by (simp add: word_le_nat_alt)
      ultimately show ?thesis by (force simp: word_unat_eq_iff)
    qed
    have l32: "unat c0 + card M \<le> 2 ^ 32" using lim le by simp
    show ?thesis
    proof (cases "ec_field config")
      case Gf2_8_field
      show ?thesis
        by (rule vandermonde_determines_gf2_8 [where S = M, OF fin _ l32 M(2)])
          (use inj eqC [OF mem] in \<open>simp_all add: batch_limit_def coef_of_def Vandermonde Gf2_8_field\<close>)
    next
      case Gf2_4_field
      show ?thesis
        by (rule vandermonde_determines_gf2_4 [where S = M, OF fin _ l32 M(2)])
          (use inj eqC [OF mem] in \<open>simp_all add: batch_limit_def coef_of_def Vandermonde Gf2_4_field\<close>)
    qed
  qed
qed

text \<open>What an encoding vector of the encoder says of an assignment.\<close>

lemma announced_lin:
  assumes "announces ev cover cs" "distinct cover" "ev_sat f X ev payload" "ev_field ev = f" "k < length payload"
  shows "lin f X (pair_coef (zip cover cs)) k = payload ! k"
proof -
  have len: "length cs = length cover" using assms(1) by (simp add: announces_def)
  obtain cm where cm: "coef_map_loop ev 0 (ev_source_ids ev) [] = Ok cm" "lin f X (map_coef cm) k = payload ! k"
    using assms(3,5) by (auto simp: ev_sat_def)
  show ?thesis using announced_coefs [OF assms(1,2)] cm by auto
qed

text \<open>One packet of a batch, as an equation over the symbols it covers.\<close>

lemma batch_equation:
  assumes ce: "coefs_and_ev config cover c g = Ok (cs, ev)" and d: "distinct cover"
    and sat: "ev_sat (ec_field config) X ev payload" "k < length payload"
  shows "xor_sum (\<lambda>s. byte_mul (ec_field config) (X s ! k) (coef_of config g c s)) (set cover) = payload ! k"
proof -
  let ?f = "ec_field config"
  obtain cs' ev' where a: "coefs_and_ev config cover c g = Ok (cs', ev')" "announces ev' cover cs'" "ev_field ev' = ?f"
    by (rule coefs_and_ev_ok [of config cover c g])
  have co: "pair_coef (zip cover cs) i = (if i \<in> set cover then coef_of config g c i else 0)" for i
    unfolding coefs_and_ev_coef [OF ce] by (auto simp: pair_coef_def map_of_zip_map)
  have "xor_sum (\<lambda>s. byte_mul ?f (X s ! k) (coef_of config g c s)) (set cover) =
      xor_sum (\<lambda>s. byte_mul ?f (X s ! k) (pair_coef (zip cover cs) s)) (set cover)"
    by (rule xsum.cong) (simp_all add: co)
  also have "\<dots> = lin ?f X (pair_coef (zip cover cs)) k"
    unfolding lin_def by (rule xsum.mono_neutral_left) (auto simp: co)
  also have "\<dots> = payload ! k" by (rule announced_lin [OF _ d sat(1) _ sat(2)]) (use a ce in simp_all)
  finally show ?thesis .
qed

lemma batch_recovers:
  assumes cover: "distinct cover" "set cover \<subseteq> ids_below (batch_limit config)"
    and m: "card (set cover - K) \<le> m" "unat c0 + m \<le> batch_limit config"
    and batch: "\<And>j. j < m \<Longrightarrow> \<exists>cs. coefs_and_ev config cover (c0 + of_nat j) g = Ok (cs, ev j) \<and> length (pl j) = L \<and>
        ev_sat (ec_field config) X (ev j) (pl j) \<and> ev_sat (ec_field config) S (ev j) (pl j)"
    and XS: "sized L X" "sized L S" "\<forall>i \<in> K. X i = S i" and i: "i \<in> set cover"
  shows "X i = S i"
proof (cases "i \<in> K")
  case True
  with XS(3) show ?thesis by blast
next
  case False
  let ?M = "set cover - K" and ?f = "ec_field config"
  have "X i ! k = S i ! k" if k: "k < L" for k
  proof (rule batch_determines [where M = ?M and v = "\<lambda>s. X s ! k" and w = "\<lambda>s. S s ! k"])
    show "unat c0 + card ?M \<le> batch_limit config" using m by simp
    show "?M \<subseteq> ids_below (batch_limit config)" "i \<in> ?M" using cover(2) i False by auto
    fix j assume j: "j < card ?M"
    let ?g = "\<lambda>X s. byte_mul ?f (X s ! k) (coef_of config g (c0 + of_nat j) s)"
    have split: "xor_sum (?g Y) (set cover) = xor_sum (?g Y) ?M XOR xor_sum (?g Y) (set cover \<inter> K)" for Y
      using xsum.Int_Diff [of "set cover" "?g Y" K] by (simp add: xor.commute)
    have "j < m" using j m(1) by simp
    then obtain cs where b: "coefs_and_ev config cover (c0 + of_nat j) g = Ok (cs, ev j)" "length (pl j) = L"
      "ev_sat ?f X (ev j) (pl j)" "ev_sat ?f S (ev j) (pl j)" using batch by blast
    have "xor_sum (?g X) (set cover) = pl j ! k" by (rule batch_equation [OF b(1) cover(1) b(3)]) (simp add: b(2) k)
    moreover have "xor_sum (?g S) (set cover) = pl j ! k" by (rule batch_equation [OF b(1) cover(1) b(4)]) (simp add: b(2) k)
    ultimately have "xor_sum (?g X) (set cover) = xor_sum (?g S) (set cover)" by simp
    moreover have "xor_sum (?g X) (set cover \<inter> K) = xor_sum (?g S) (set cover \<inter> K)"
      by (rule xsum.cong) (use XS(3) in auto)
    ultimately show "xor_sum (?g X) ?M = xor_sum (?g S) ?M" unfolding split by simp
  qed
  then show ?thesis using XS(1,2) by (intro nth_equalityI) (auto simp: sized_def)
qed

section \<open>The batch on the wire\<close>

lemma advance_counters:
  assumes "unat (enc_next_coded_id e) + 1 < batch_limit (enc_config e)"
  shows "enc_next_coded_id (advance_coded_id e) = enc_next_coded_id e + 1"
    "enc_generation (advance_coded_id e) = enc_generation e"
proof -
  have "batch_limit (enc_config e) \<le> 255"
    by (simp add: batch_limit_def split: MatrixStrategy.split Field.split)
  then have "unat (enc_next_coded_id e + 1) = unat (enc_next_coded_id e) + 1"
    using assms by (simp add: unat_word_ariths)
  then show "enc_next_coded_id (advance_coded_id e) = enc_next_coded_id e + 1"
      "enc_generation (advance_coded_id e) = enc_generation e"
    using assms
    by (cases "ec_matrix_strategy (enc_config e)"; cases "ec_field (enc_config e)";
        simp add: advance_coded_id_def coded_id_cycle_def batch_limit_def Let_def word_le_nat_alt)+
qed

context congestion_control
begin

lemma batch_loop:
  assumes "sending cinv config S n e" "n \<le> 65535" "ec_window_capacity config \<le> 255"
    and "id_slice (enc_window e) = ids" "ids \<noteq> []"
    and "0 < k \<Longrightarrow> enc_next_coded_id e = c0 \<and> enc_generation e = g" "unat c0 + k \<le> batch_limit config"
  shows "\<exists>e' new ps. coded_loop disp C k e out = Ok (e', out @ new) \<and> length ps = k \<and>
    outputs_true (ec_field config) (ec_symbol_size config) S n new ps \<and>
    (\<forall>j < k. \<exists>pkt cs. ps ! j = CodedP pkt \<and> ev_source_ids (cp_ev pkt) = ids \<and>
       coefs_and_ev config ids (c0 + of_nat j) g = Ok (cs, cp_ev pkt))"
  using assms
proof (induction k arbitrary: e out c0)
  case 0
  then show ?case by (intro exI [of _ e] exI [of _ "[]"]) (simp add: outputs_true_def)
next
  case (Suc k)
  have s: "encoder_ok e" "cinv (enc_cc e)" "window_agrees (enc_window e) S" "enc_config e = config"
    using Suc.prems(1) by (simp_all add: sending_def)
  have c: "enc_next_coded_id e = c0" "enc_generation e = g" using Suc.prems(6) by simp_all
  note w = window_ids_below [OF Suc.prems(1,2)]
  have ids: "set ids \<subseteq> set (id_slice (enc_window e))" "sorted_wrt (<) ids" "length ids \<le> 255"
      "\<forall>i \<in> set ids. unat i < unat (hd ids) + 65536" "set ids \<subseteq> ids_below n"
    using encoder_ids(1) [OF s(1)] w(1,2) w(3) Suc.prems(3,4) by (auto simp: id_slice_def)
  obtain e1 pkt p cs where t: "generate_coded_inner disp C e ids = Ok (e1, Some (CodedOut pkt))" "emits e e1" "cinv (enc_cc e1)"
    "CodedPacket_parse pkt = Ok p" "ev_source_ids (cp_ev p) = ids"
    "ev_ok (ec_field config) (cp_ev p)" "length (cp_payload p) = ec_symbol_size config"
    "ev_sat (ec_field config) S (cp_ev p) (cp_payload p)"
    "coefs_and_ev config ids c0 g = Ok (cs, cp_ev p)"
    by (rule generate_inner_true [OF s(1-3) ids(1,2) Suc.prems(5) ids(3,4), of disp]) (use s(4) c in blast)
  have g1: "generate_coded disp C e = Ok (e1, Some (CodedOut pkt))"
    using t(1) Suc.prems(4,5) by (auto simp: generate_coded_def window_is_empty_def id_slice_def)
  have e1: "sending cinv config S n e1" "id_slice (enc_window e1) = ids"
    using t(2,3) Suc.prems(1,4) by (simp_all add: sending_def emits_def)
  have le: "batch_limit config \<le> 255" by (simp add: batch_limit_def split: MatrixStrategy.split Field.split)
  have u: "unat (c0 + 1) = unat c0 + 1" using Suc.prems(7) le by (simp add: unat_word_ariths)
  have next1: "0 < k \<Longrightarrow> enc_next_coded_id e1 = c0 + 1 \<and> enc_generation e1 = g"
    using inner_counters [OF t(1)] advance_counters [of e] s(4) c Suc.prems(7) by simp
  have "unat (c0 + 1) + k \<le> batch_limit config" using Suc.prems(7) u by simp
  from Suc.IH [OF e1(1) Suc.prems(2,3) e1(2) Suc.prems(5) next1 this, of "out @ [CodedOut pkt]"]
  obtain e' new ps where r: "coded_loop disp C k e1 (out @ [CodedOut pkt]) = Ok (e', (out @ [CodedOut pkt]) @ new)" "length ps = k"
    "outputs_true (ec_field config) (ec_symbol_size config) S n new ps"
    "\<forall>j < k. \<exists>pkt cs. ps ! j = CodedP pkt \<and> ev_source_ids (cp_ev pkt) = ids \<and>
       coefs_and_ev config ids (c0 + 1 + of_nat j) g = Ok (cs, cp_ev pkt)" by blast
  have "outputs_true (ec_field config) (ec_symbol_size config) S n [CodedOut pkt] [CodedP p]"
    using t(4-8) ids(5) by (simp add: outputs_true_def)
  from outputs_true_append [OF this r(3) order_refl]
  have true: "outputs_true (ec_field config) (ec_symbol_size config) S n (CodedOut pkt # new) (CodedP p # ps)" by simp
  have all: "\<exists>pkt cs. (CodedP p # ps) ! j = CodedP pkt \<and> ev_source_ids (cp_ev pkt) = ids \<and>
       coefs_and_ev config ids (c0 + of_nat j) g = Ok (cs, cp_ev pkt)" if "j < Suc k" for j
    using that t(5,9) r(4) by (cases j) (auto simp: add.assoc)
  show ?case
    by (rule exI [of _ e'], rule exI [of _ "CodedOut pkt # new"], rule exI [of _ "CodedP p # ps"])
      (use g1 r(1,2) true all in simp)
qed

end

end
