(* ===== verification/Loss_Repair.thy ===== *)
theory Loss_Repair
  imports Recovery
begin

text \<open>
  The promise of the code, end to end: a block of symbols is submitted, some of the source packets are
  lost, and a batch of as many coded packets as packets were lost restores the whole block.
\<close>

section \<open>Submitting a block\<close>

fun submit_all :: "Dispatch \<Rightarrow> 'c CongestionControl \<Rightarrow> 'f FecRateController \<Rightarrow> ('w, 'c, 'f) Encoder \<Rightarrow> bytes list \<Rightarrow>
    (('w, 'c, 'f) Encoder \<times> EncoderOutput list) res" where
  "submit_all disp C F e [] = Ok (e, [])"
| "submit_all disp C F e (data # ds) =
     and_then (submit_source disp C F e data) (\<lambda>(e, new).
     and_then (submit_all disp C F e ds) (\<lambda>(e, outs). Ok (e, new @ outs)))"

text \<open>Coded packets over a window that starts at the first symbol ever sent.\<close>

fun from_zero :: "DelpPacket \<Rightarrow> bool" where
  "from_zero (CodedP pkt) = (hd (ev_source_ids (cp_ev pkt)) = 0)"
| "from_zero _ = True"

lemma covers_from_zero: "covers (map of_nat [0..<n]) p \<Longrightarrow> from_zero p"
  by (cases p) (auto simp: hd_map upt_conv_Cons)

context congestion_control
begin

lemma submit_all_true:
  assumes "sending cinv config S n e" "n + length ds \<le> 65535" "ec_window_capacity config \<le> 255"
    and "id_slice (enc_window e) = first_ids n" "n + length ds \<le> ec_window_capacity config"
    and "\<forall>d \<in> set ds. length d = ec_symbol_size config" "\<forall>k < length ds. S (of_nat (n + k)) = ds ! k"
  shows "\<exists>e' outs ps. submit_all disp C F e ds = Ok (e', outs) \<and> sending cinv config S (n + length ds) e' \<and>
    id_slice (enc_window e') = first_ids (n + length ds) \<and>
    outputs_true (ec_field config) (ec_symbol_size config) S (n + length ds) outs ps \<and>
    in_sequence n ps \<and> source_count ps = length ds \<and> (\<forall>p \<in> set ps. from_zero p)"
  using assms
proof (induction ds arbitrary: n e)
  case Nil
  then show ?case by (auto simp: outputs_true_def)
next
  case (Cons d ds)
  have s: "encoder_ok e" "cinv (enc_cc e)" "enc_config e = config" "next_id (enc_window e) = of_nat n"
    using Cons.prems(1) by (simp_all add: sending_def)
  have len: "length (win_symbols (enc_window e)) = n"
    using arg_cong [OF Cons.prems(4), of length] by (simp add: id_slice_def first_ids_def)
  have "win_capacity (enc_window e) = ec_window_capacity config" using s(1,3) by (simp add: encoder_ok_def)
  then have full: "\<not> is_full (enc_window e)" using len Cons.prems(5) by (simp add: is_full_def)
  have nid: "next_id (enc_window e) \<noteq> - 1"
  proof
    assume "next_id (enc_window e) = - 1"
    then have "unat (of_nat n :: u32) = unat (- 1 :: u32)" using s(4) by simp
    then show False using Cons.prems(2) by (simp add: unat_of_nat unsigned_minus_1_eq_mask mask_eq_exp_minus_1)
  qed
  have dl: "length d = ec_symbol_size (enc_config e)" using Cons.prems(6) s(3) by simp
  obtain e1 new where sub: "submit_source disp C F e d = Ok (e1, new)"
    using submit_ok [OF s(1,2) dl _ nid, of disp F] full by metis
  have S0: "S (of_nat n) = d" using spec [OF Cons.prems(7), of 0] by simp
  have n1: "n < 65535" using Cons.prems(2) by simp
  obtain p qs where t: "sending cinv config S (Suc n) e1" "enc_window e1 = fst (window_push (make_room e) d)"
    "source_symbol_id p = of_nat n" "\<forall>p \<in> set qs. covers (id_slice (enc_window e1)) p"
    "outputs_true (ec_field config) (ec_symbol_size config) S (Suc n) new (SourceP p # qs)"
    using submitted_true [OF Cons.prems(1) n1 Cons.prems(3) sub S0] by blast
  have ids1: "id_slice (enc_window e1) = first_ids (Suc n)"
    using full Cons.prems(4) s(4) by (simp add: t(2) make_room_def window_push_def Let_def id_slice_def first_ids_def
        split: option.split)
  have S1: "\<forall>k < length ds. S (of_nat (Suc n + k)) = ds ! k"
  proof (intro allI impI)
    fix k assume "k < length ds"
    then show "S (of_nat (Suc n + k)) = ds ! k" using spec [OF Cons.prems(7), of "Suc k"] by simp
  qed
  obtain e' outs ps where r: "submit_all disp C F e1 ds = Ok (e', outs)" "sending cinv config S (Suc n + length ds) e'"
    "id_slice (enc_window e') = first_ids (Suc n + length ds)"
    "outputs_true (ec_field config) (ec_symbol_size config) S (Suc n + length ds) outs ps"
    "in_sequence (Suc n) ps" "source_count ps = length ds" "\<forall>p \<in> set ps. from_zero p"
    using Cons.IH [OF t(1) _ Cons.prems(3) ids1 _ _ S1] Cons.prems(2,5,6) by auto
  have zero: "\<forall>p \<in> set qs. from_zero p"
    using t(4) covers_from_zero unfolding ids1 first_ids_def by blast
  have "in_sequence (Suc n) qs \<and> source_count qs = 0"
    by (rule in_sequence_coded) (use t(4,5) covers_is_coded in \<open>auto simp: outputs_true_def\<close>)
  then have "in_sequence n ((SourceP p # qs) @ ps)" "source_count ((SourceP p # qs) @ ps) = length (d # ds)"
    using r(5,6) t(3) by simp_all
  moreover have "outputs_true (ec_field config) (ec_symbol_size config) S (Suc n + length ds) (new @ outs) ((SourceP p # qs) @ ps)"
    by (rule outputs_true_append [OF t(5) r(4)]) simp
  moreover have "\<forall>q \<in> set ((SourceP p # qs) @ ps). from_zero q" using zero r(7) by auto
  ultimately show ?case
    using sub r(1-3)
    by (intro exI [of _ e'] exI [of _ "new @ outs"] exI [of _ "(SourceP p # qs) @ ps"]) simp
qed

end

section \<open>The decoder never gives a symbol up\<close>

lemma handle_packet_from_zero:
  assumes "handle_packet rnd disp P d p = Ok (d', evs)" "from_zero p"
  shows "encoder_win_min d' = encoder_win_min d"
proof (cases p)
  case (CodedP pkt)
  show ?thesis
    using assms CodedP
    by (cases "ev_source_ids (cp_ev pkt)")
      (auto simp: handle_coded_def Let_def and_then_Ok_iff absorb_win_min dest!: finish_packet_win_min split: if_splits)
qed (use assms in \<open>auto dest: handle_source_win_min\<close>)

lemma decoder_run_no_gap:
  assumes "run_inv f L S C R d" "sized L S" "0 < L" "\<forall>p \<in> set ps. usable f L p \<and> says f S p \<and> from_zero p" "in_order C R ps"
    and "encoder_win_min d = 0" "decoder_run rnd disp P d ps = Ok (d', evs)"
  shows "no_gap evs"
  using assms
proof (induction ps arbitrary: C R d evs)
  case Nil
  then show ?case by (simp add: no_gap_def)
next
  case (Cons p ps)
  have p: "usable f L p" "says f S p" "carried p \<inter> C \<subseteq> R" and ps: "in_order (C \<union> covered p) (R \<union> carried p) ps"
    using Cons.prems(4,5) by simp_all
  obtain d1 a where h: "handle_packet rnd disp P d p = Ok (d1, a)" "run_inv f L S (C \<union> covered p) (R \<union> carried p) d1"
    "events_ok S d d1 a \<or> d1 = d \<and> a = []"
    by (rule handle_packet_ok [OF Cons.prems(1-3) p]) blast
  from Cons.prems(7) h(1) obtain b where b: "decoder_run rnd disp P d1 ps = Ok (d', b)" "evs = a @ b" by auto
  have w: "encoder_win_min d1 = 0" using handle_packet_from_zero [OF h(1)] Cons.prems(4,6) by simp
  have "no_gap a"
    using h(3)
  proof
    assume "events_ok S d d1 a"
    then obtain out fb nxt where "a = map (\<lambda>(i, x). SourceReady i x) out @ fb @ gap_events nxt (encoder_win_min d1)"
      "fb = [] \<or> (\<exists>bs. fb = [SendFeedback bs])"
      unfolding events_ok_def Let_def by blast
    then show ?thesis by (auto simp: w no_gap_def gap_events_def)
  qed (simp add: no_gap_def)
  moreover have "no_gap b" using Cons.IH [OF h(2) Cons.prems(2,3) _ ps w b(1)] Cons.prems(4) by simp
  ultimately show ?case by (simp add: b(2) no_gap_append)
qed

section \<open>What arrives\<close>

fun source_ids :: "DelpPacket list \<Rightarrow> SourceSymbolId list" where
  "source_ids [] = []"
| "source_ids (SourceP pkt # ps) = source_symbol_id pkt # source_ids ps"
| "source_ids (p # ps) = source_ids ps"

lemma length_source_ids: "length (source_ids ps) = source_count ps"
  by (induction ps rule: source_ids.induct) simp_all

lemma source_ids_in_sequence: "in_sequence n ps \<Longrightarrow> source_ids ps = map of_nat [n..<n + source_count ps]"
proof (induction n ps rule: in_sequence.induct)
  case (2 n pkt ps)
  have "[n..<n + source_count (SourceP pkt # ps)] = n # [Suc n..<Suc n + source_count ps]" by (simp add: upt_conv_Cons del: upt_Suc)
  with 2 show ?case by simp
qed simp_all

lemma source_ids_subseq: "subseq qs ps \<Longrightarrow> subseq (source_ids qs) (source_ids ps)"
proof (induction rule: list_emb.induct)
  case (list_emb_Cons xs ys y)
  then show ?case by (cases y) auto
next
  case (list_emb_Cons2 x y xs ys)
  then show ?case by (cases y) auto
qed simp

lemma source_ids_carried: "set (source_ids ps) = (\<Union>p \<in> set ps. carried p)"
  by (induction ps rule: source_ids.induct) auto

lemma subseq_distinct': "subseq xs ys \<Longrightarrow> distinct ys \<Longrightarrow> distinct xs"
proof (induction rule: list_emb.induct)
  case (list_emb_Cons2 x y xs ys)
  then show ?case using list_emb_set [OF list_emb_Cons2.hyps(2), of x] by auto
qed simp_all

text \<open>The lost symbols are as many as the source packets that did not arrive.\<close>

lemma lost_count:
  assumes "in_sequence 0 ps" "source_count ps = n" "n \<le> 65535" "subseq qs ps"
  shows "card (ids_below n - (\<Union>p \<in> set qs. carried p)) = n - source_count qs"
proof -
  have all: "source_ids ps = first_ids n" using source_ids_in_sequence [OF assms(1)] assms(2) by (simp add: first_ids_def)
  have sub: "subseq (source_ids qs) (first_ids n)" using source_ids_subseq [OF assms(4)] by (simp add: all)
  note fi = first_ids [OF assms(3)]
  have "distinct (source_ids qs)" by (rule subseq_distinct' [OF sub fi(2)])
  then have c: "card (set (source_ids qs)) = source_count qs" by (simp add: distinct_card length_source_ids)
  have "set (source_ids qs) \<subseteq> set (first_ids n)" using list_emb_set [OF sub] by blast
  then have "card (ids_below n - set (source_ids qs)) = card (ids_below n) - card (set (source_ids qs))"
    unfolding fi(1) by (intro card_Diff_subset) simp_all
  moreover have "card (ids_below n) = n" by (rule card_ids_below [OF assms(3)])
  ultimately show ?thesis using c by (simp add: source_ids_carried)
qed

definition is_source_datagram :: "bytes \<Rightarrow> bool" where
  "is_source_datagram raw = (case SourcePacket_parse raw of Ok _ \<Rightarrow> True | _ \<Rightarrow> False)"

lemma carries_source: "carries raw p \<Longrightarrow> is_source_datagram raw = (carried p \<noteq> {})"
proof (cases p)
  case (CodedP pkt)
  assume "carries raw p"
  then have "SourcePacket_parse raw \<noteq> Ok x" for x
    using source_parse_type [of raw x] coded_parse_type [of raw pkt] CodedP by auto
  then show ?thesis using CodedP by (auto simp: is_source_datagram_def split: res.split)
qed (simp_all add: is_source_datagram_def)

lemma carries_counts:
  assumes "list_all2 carries raws ps"
  shows "source_count ps = length (filter is_source_datagram raws)"
    "coded_count ps = length (filter (\<lambda>raw. \<not> is_source_datagram raw) raws)"
proof -
  have "source_count ps = length (filter is_source_datagram raws) \<and>
      coded_count ps = length (filter (\<lambda>raw. \<not> is_source_datagram raw) raws)"
    using assms
  proof (induction rule: list_all2_induct)
    case (Cons raw raws p ps)
    then show ?case using carries_source [of raw p] by (cases p) auto
  qed simp
  then show "source_count ps = length (filter is_source_datagram raws)"
    "coded_count ps = length (filter (\<lambda>raw. \<not> is_source_datagram raw) raws)" by blast+
qed

lemma coded_count_append [simp]: "coded_count (ps @ qs) = coded_count ps + coded_count qs"
  by (induction ps) auto

lemma coded_count_le: "coded_count ps \<le> length ps"
  by (induction ps) (auto split: DelpPacket.split)

section \<open>Traces of the block and the batch\<close>

lemma submit_all_trace:
  "submit_all disp C F e ds = Ok (e', outs) \<Longrightarrow> encoder_trace W C F disp e0 o0 d0 e \<Longrightarrow>
     encoder_trace W C F disp e0 (o0 @ outs) (d0 @ ds) e'"
proof (induction ds arbitrary: e o0 d0 outs)
  case (Cons d ds)
  from Cons.prems(1) obtain e1 new outs1 where r: "submit_source disp C F e d = Ok (e1, new)"
    "submit_all disp C F e1 ds = Ok (e', outs1)" "outs = new @ outs1" by auto
  from Cons.IH [OF r(2) encoder_trace.submit [OF Cons.prems(2) r(1)]] show ?case by (simp add: r(3))
qed simp

section \<open>The block is restored\<close>

lemma batch_limit_le: "batch_limit config \<le> 255"
  by (simp add: batch_limit_def split: MatrixStrategy.split Field.split)

lemma repaired_run:
  assumes dc: "dc_field dconfig = ec_field config" "dc_symbol_size dconfig = ec_symbol_size config"
    and S: "sized (ec_symbol_size config) S" "0 < ec_symbol_size config"
    and ps: "\<forall>p \<in> set ps. usable (ec_field config) (ec_symbol_size config) p \<and> says (ec_field config) S p \<and> from_zero p"
      "in_sequence 0 ps" "source_count ps = n" "0 < n" "n \<le> batch_limit config"
    and qs: "subseq qs ps" "n \<le> source_count qs + m" "coded_count qs + m \<le> dc_max_matrix_rows dconfig"
    and bs: "\<forall>p \<in> set bs. usable (ec_field config) (ec_symbol_size config) p \<and> says (ec_field config) S p" "length bs = m"
      "\<forall>j < m. \<exists>pkt cs. bs ! j = CodedP pkt \<and> ev_source_ids (cp_ev pkt) = first_ids n \<and>
         coefs_and_ev config (first_ids n) (c0 + of_nat j) g = Ok (cs, cp_ev pkt)" "unat c0 + m \<le> batch_limit config"
  obtains d evs where "decoder_run rnd disp P (Decoder_new dconfig policy) (qs @ bs) = Ok (d, evs)" "no_gap evs"
    "run_events S (Decoder_new dconfig policy) d evs" "ids_below n \<subseteq> set (bt_keys (known d))"
proof -
  let ?f = "ec_field config" and ?L = "ec_symbol_size config" and ?d0 = "Decoder_new dconfig policy"
  have n: "n \<le> 65535" using ps(5) batch_limit_le [of config] by simp
  note fi = first_ids [OF n]
  obtain pk where pk: "\<And>j. j < m \<Longrightarrow> bs ! j = CodedP (pk j)" "\<And>j. j < m \<Longrightarrow> ev_source_ids (cp_ev (pk j)) = first_ids n"
    "\<And>j. j < m \<Longrightarrow> \<exists>cs. coefs_and_ev config (first_ids n) (c0 + of_nat j) g = Ok (cs, cp_ev (pk j))"
    using bs(3) by metis
  have cov: "covers (first_ids n) p" if p: "p \<in> set bs" for p
  proof -
    obtain j where j: "j < m" "p = bs ! j" using p bs(2) by (metis in_set_conv_nth)
    have "encoder_vector (cp_ev (pk j))" using pk(2,3) [OF j(1)] unfolding encoder_vector_def by metis
    then show ?thesis using pk(1,2) j ps(4) by (simp add: first_ids_def)
  qed
  have true: "\<forall>p \<in> set (qs @ bs). usable ?f ?L p \<and> says ?f S p \<and> from_zero p"
    using ps(1) list_emb_set [OF qs(1)] bs(1) cov covers_from_zero unfolding first_ids_def by fastforce
  have "is_coded p \<and> covered p \<subseteq> ids_below n" if "p \<in> set bs" for p
    using cov [OF that] covers_is_coded fi(1) by (cases p) auto
  then have seqb: "in_sequence n bs \<and> source_count bs = 0" by (intro in_sequence_coded) blast
  then have "sources_first {} (ps @ bs)"
    using ps(2,3) n by (intro in_sequence_sources_first [of 0]) simp_all
  then have "sources_first {} (qs @ bs)" by (rule sources_first_subseq [rotated]) (simp add: qs(1))
  then have ord: "in_order {} {} (qs @ bs)" by (rule sources_first_in_order)
  have true': "\<forall>p \<in> set (qs @ bs). usable ?f ?L p \<and> says ?f S p" using true by blast
  obtain d evs where r: "decoder_run rnd disp P ?d0 (qs @ bs) = Ok (d, evs)" "run_events S ?d0 d evs"
    using decoder_run_ok [OF run_inv_new [OF dc] S true' ord, of rnd disp P policy] by blast
  have w0: "encoder_win_min ?d0 = 0" by (simp add: Decoder_new_def)
  have gap: "no_gap evs" by (rule decoder_run_no_gap [OF run_inv_new [OF dc] S true ord w0 r(1)])
  have rows: "coded_count (qs @ bs) \<le> dc_max_matrix_rows dconfig" using qs(3) bs(2) coded_count_le [of bs] by simp
  have lost: "card (set (first_ids n) - (\<Union>p \<in> set qs. carried p)) \<le> m"
    using lost_count [OF ps(2,3) n qs(1)] qs(2) by (simp add: fi(1))
  have "i \<in> set (bt_keys (known d))" if i: "i \<in> ids_below n" for i
  proof (rule known_iff_determined [OF dc S true' ord rows r(1), THEN iffD2], intro allI impI)
    fix X assume X: "sized ?L X" "\<forall>p \<in> set (qs @ bs). says ?f X p"
    have got: "\<forall>i \<in> (\<Union>p \<in> set qs. carried p). X i = S i"
    proof
      fix i assume "i \<in> (\<Union>p \<in> set qs. carried p)"
      then obtain p where p: "p \<in> set qs" "i \<in> carried p" by blast
      then have "says ?f X p" "says ?f S p" using X(2) true' by auto
      with p(2) show "X i = S i" by (cases p) auto
    qed
    have lim: "set (first_ids n) \<subseteq> ids_below (batch_limit config)" using fi(1) ids_below_mono [OF ps(5)] by simp
    show "X i = S i"
    proof (rule batch_recovers [OF fi(2) lim lost bs(4) _ X(1) S(1) got])
      show "i \<in> set (first_ids n)" using i fi(1) by simp
      fix j assume j: "j < m"
      then have "CodedP (pk j) \<in> set (qs @ bs)" using pk(1) bs(2) by (metis UnCI nth_mem set_append)
      then have "says ?f X (CodedP (pk j))" "says ?f S (CodedP (pk j))" "usable ?f ?L (CodedP (pk j))"
        using X(2) true' by blast+
      with pk(3) [OF j] show "\<exists>cs. coefs_and_ev config (first_ids n) (c0 + of_nat j) g = Ok (cs, cp_ev (pk j)) \<and>
          length (cp_payload (pk j)) = ?L \<and> ev_sat ?f X (cp_ev (pk j)) (cp_payload (pk j)) \<and>
          ev_sat ?f S (cp_ev (pk j)) (cp_payload (pk j))" by simp
    qed
  qed
  then show ?thesis using that r gap by blast
qed

text \<open>The sender's side: the packets of the block, and the batch after it.\<close>

lemma block_and_batch:
  assumes "congestion_control C cinv" "cinv c" "encoder_config_ok config" "ec_window_capacity config \<le> 255"
    and "ds \<noteq> []" "length ds \<le> ec_window_capacity config" "length ds \<le> 65535"
    and "\<forall>d \<in> set ds. length d = ec_symbol_size config" "\<forall>k < length ds. S (of_nat k) = ds ! k"
    and "submit_all disp C F (Encoder_new config w c fec) ds = Ok (e, outs)"
    and "unat (enc_next_coded_id e) + m \<le> batch_limit config"
  obtains e' batch ps bs where "coded_loop disp C m e [] = Ok (e', batch)" "length batch = m" "length bs = m"
    "outputs_true (ec_field config) (ec_symbol_size config) S (length ds) outs ps"
    "in_sequence 0 ps" "source_count ps = length ds" "\<forall>p \<in> set ps. from_zero p"
    "outputs_true (ec_field config) (ec_symbol_size config) S (length ds) batch bs"
    "\<forall>j < m. \<exists>pkt cs. bs ! j = CodedP pkt \<and> ev_source_ids (cp_ev pkt) = first_ids (length ds) \<and>
       coefs_and_ev config (first_ids (length ds)) (enc_next_coded_id e + of_nat j) (enc_generation e) = Ok (cs, cp_ev pkt)"
proof -
  let ?n = "length ds"
  have n: "0 + ?n \<le> 65535" "0 + ?n \<le> ec_window_capacity config" "\<forall>k < ?n. S (of_nat (0 + k)) = ds ! k"
    using assms(6,7,9) by simp_all
  have ids0: "id_slice (enc_window (Encoder_new config w c fec)) = first_ids 0"
    by (simp add: Encoder_new_def EncodingWindow_new_def id_slice_def first_ids_def)
  obtain ps where sub: "sending cinv config S ?n e" "id_slice (enc_window e) = first_ids ?n"
    "outputs_true (ec_field config) (ec_symbol_size config) S ?n outs ps" "in_sequence 0 ps" "source_count ps = ?n"
    "\<forall>p \<in> set ps. from_zero p"
    using congestion_control.submit_all_true [OF assms(1) sending_new [OF assms(3), where cinv = cinv, OF assms(2)]
      n(1) assms(4) ids0 n(2) assms(8) n(3), of disp F] assms(10) by auto
  have ne: "first_ids ?n \<noteq> []" using assms(5) by (simp add: first_ids_def)
  obtain e' batch bs where b: "coded_loop disp C m e [] = Ok (e', batch)" "length bs = m"
    "outputs_true (ec_field config) (ec_symbol_size config) S ?n batch bs"
    "\<forall>j < m. \<exists>pkt cs. bs ! j = CodedP pkt \<and> ev_source_ids (cp_ev pkt) = first_ids ?n \<and>
       coefs_and_ev config (first_ids ?n) (enc_next_coded_id e + of_nat j) (enc_generation e) = Ok (cs, cp_ev pkt)"
    using congestion_control.batch_loop [OF assms(1) sub(1) assms(7,4) sub(2) ne _ assms(11),
      where g = "enc_generation e" and disp = disp and out = "[]"]
    by auto
  have "length batch = m" using b(2,3) by (auto simp: outputs_true_def dest: list_all2_lengthD)
  then show ?thesis using b sub(3-6) by (intro that)
qed

text \<open>The decoder on what arrives of the block, and the batch.\<close>

lemma repaired_decoder:
  assumes "congestion_control C cinv" "cinv c" "encoder_config_ok config" "ec_window_capacity config \<le> 255"
    and "dc_field dconfig = ec_field config" "dc_symbol_size dconfig = ec_symbol_size config"
    and "ds \<noteq> []" "length ds \<le> ec_window_capacity config" "length ds \<le> batch_limit config"
    and "\<forall>d \<in> set ds. length d = ec_symbol_size config"
    and "submit_all disp C F (Encoder_new config w c fec) ds = Ok (e, outs)"
    and "subseq raws (map raw_of outs)" "length ds \<le> length (filter is_source_datagram raws) + m"
    and "unat (enc_next_coded_id e) + m \<le> batch_limit config"
    and "length (filter (\<lambda>raw. \<not> is_source_datagram raw) raws) + m \<le> dc_max_matrix_rows dconfig"
  obtains e' batch qs d evs where "coded_loop disp C m e [] = Ok (e', batch)" "length batch = m"
    "list_all2 carries (raws @ map raw_of batch) qs"
    "decoder_run rnd disp' P (Decoder_new dconfig policy) qs = Ok (d, evs)"
    "deliveries evs = map (\<lambda>k. (of_nat k, ds ! k)) [0..<length ds]"
proof -
  let ?L = "ec_symbol_size config" and ?S = "payloads (ec_symbol_size config) 0 ds" and ?n = "length ds"
    and ?d0 = "Decoder_new dconfig policy"
  have n: "?n \<le> 65535" using assms(9) batch_limit_le [of config] by simp
  have pre: "\<forall>k < ?n. ?S (of_nat k) = ds ! k" using n by (simp add: payloads_def unat_of_nat)
  have S: "sized ?L ?S" "0 < ?L" using assms(3,10) by (auto simp: sized_def payloads_def encoder_config_ok_def)
  obtain e' batch ps bs where b: "coded_loop disp C m e [] = Ok (e', batch)" "length batch = m" "length bs = m"
    and sub: "outputs_true (ec_field config) ?L ?S ?n outs ps" "in_sequence 0 ps" "source_count ps = ?n"
      "\<forall>p \<in> set ps. from_zero p" "outputs_true (ec_field config) ?L ?S ?n batch bs"
    and bat: "\<forall>j < m. \<exists>pkt cs. bs ! j = CodedP pkt \<and> ev_source_ids (cp_ev pkt) = first_ids ?n \<and>
       coefs_and_ev config (first_ids ?n) (enc_next_coded_id e + of_nat j) (enc_generation e) = Ok (cs, cp_ev pkt)"
    by (rule block_and_batch [OF assms(1-4,7,8) n assms(10) pre assms(11,14)])
  have "list_all2 carries (map raw_of outs) ps" using sub(1) by (simp add: outputs_true_def list_all2_map1)
  from subseq_list_all2 [OF assms(12) this] obtain qs where qs: "subseq qs ps" "list_all2 carries raws qs" by blast
  have batch: "list_all2 carries (map raw_of batch) bs" using sub(5) by (simp add: outputs_true_def list_all2_map1)
  obtain d evs where r: "decoder_run rnd disp' P ?d0 (qs @ bs) = Ok (d, evs)" "no_gap evs" "run_events ?S ?d0 d evs"
    "ids_below ?n \<subseteq> set (bt_keys (known d))"
  proof (rule repaired_run [OF assms(5,6) S _ sub(2,3) _ assms(9) qs(1) _ _ _ b(3) bat assms(14)])
    show "\<forall>p \<in> set ps. usable (ec_field config) ?L p \<and> says (ec_field config) ?S p \<and> from_zero p"
      "\<forall>p \<in> set bs. usable (ec_field config) ?L p \<and> says (ec_field config) ?S p"
      using sub(1,4,5) by (simp_all add: outputs_true_def)
    show "?n \<le> source_count qs + m" "coded_count qs + m \<le> dc_max_matrix_rows dconfig"
      using assms(13,15) carries_counts [OF qs(2)] by simp_all
  qed (use assms(7) in simp_all)
  have carry: "list_all2 carries (raws @ map raw_of batch) (qs @ bs)" by (rule list_all2_appendI [OF qs(2) batch])
  have tr: "encoder_trace W C F disp (Encoder_new config w c fec) (outs @ batch) ds e'" for W
    using coded_loop_trace [OF b(1) submit_all_trace [OF assms(11) encoder_trace.start]] by auto
  have "subseq (raws @ map raw_of batch) (map raw_of (outs @ batch))" using assms(12) by simp
  from decoded_sound [OF assms(1-4) tr n this assms(5,6) carry r(1)]
  have snd: "sorted_wrt (<) (map fst (deliveries evs))" "\<forall>(i, x) \<in> set (deliveries evs). unat i < ?n \<and> x = ds ! unat i" by auto
  have n0: "next_of ?d0 = 0" "caught_up ?d0"
    by (simp_all add: caught_up_def next_of_def Decoder_new_def SymbolBuffer_new_def)
  then have run: "run_from 0 (deliveries evs)" "next_of d = of_nat (length (deliveries evs))" "caught_up d"
    using r(2,3) by (simp_all add: run_events_def)
  then have "of_nat (length (deliveries evs)) \<notin> set (bt_keys (known d))" by (simp add: caught_up_def)
  with run(1) have "deliveries evs = map (\<lambda>k. (of_nat k, ds ! k)) [0..<?n]" by (rule all_ready [OF snd _ _ r(4) n])
  then show ?thesis by (rule that [OF b(1,2) carry r(1)])
qed

text \<open>C3: losses are repaired. A block of symbols that fits the window and the identifiers of the field is
  submitted (which may produce coded packets of its own), and any of the datagrams are lost, at most \<open>m\<close> source
  packets among them. Then a batch of \<open>m\<close> coded packets, unless it would run over the end of the coded
  identifiers, is made without error, and the receiver that gets it after what arrived of the block has the
  whole block ready, in order: one coded packet for each packet lost is enough, whichever packets were lost, for
  both coefficient strategies and both fields.\<close>

theorem repairs_losses:
  assumes "congestion_control C cinv" "cinv c" "encoder_config_ok config" "ec_window_capacity config \<le> 255"
    and "dc_field dconfig = ec_field config" "dc_symbol_size dconfig = ec_symbol_size config"
    and "ds \<noteq> []" "length ds \<le> ec_window_capacity config" "length ds \<le> batch_limit config"
    and "\<forall>d \<in> set ds. length d = ec_symbol_size config"
    and "submit_all disp C F (Encoder_new config w c fec) ds = Ok (e, outs)"
    and "subseq raws (map raw_of outs)" "length ds \<le> length (filter is_source_datagram raws) + m"
    and "unat (enc_next_coded_id e) + m \<le> batch_limit config"
    and "length (filter (\<lambda>raw. \<not> is_source_datagram raw) raws) + m \<le> dc_max_matrix_rows dconfig"
  shows "\<exists>e' batch. coded_loop disp C m e [] = Ok (e', batch) \<and> length batch = m \<and>
    (\<exists>r net' xs. receive_all U rnd disp' P (FecReceiver_new (Decoder_new dconfig policy) addr) net (raws @ map raw_of batch) =
       (r, net', xs) \<and> (\<forall>x \<in> set xs. \<exists>b. x = TOk b) \<and> ready r = map (\<lambda>k. (of_nat k, ds ! k)) [0..<length ds])"
proof -
  obtain e' batch qs d evs where b: "coded_loop disp C m e [] = Ok (e', batch)" "length batch = m"
    "list_all2 carries (raws @ map raw_of batch) qs"
    "decoder_run rnd disp' P (Decoder_new dconfig policy) qs = Ok (d, evs)"
    "deliveries evs = map (\<lambda>k. (of_nat k, ds ! k)) [0..<length ds]"
    by (rule repaired_decoder [OF assms])
  have "decoder_run rnd disp' P (rx_decoder (FecReceiver_new (Decoder_new dconfig policy) addr)) qs = Ok (d, evs)"
    using b(4) by (simp add: FecReceiver_new_def)
  from receive_all_run [OF b(3) this, of U net] b(1,2,5) show ?thesis by (auto simp: FecReceiver_new_def)
qed

text \<open>The witness: a block of one symbol is lost, and one coded packet brings it back.\<close>

theorem repairs_losses_witness:
  "\<exists>e outs e' batch r net' xs. submit_all Ssse3 NoCongestionControl ConstantFecRate
      (Encoder_new small_config () () \<lparr> fec_numer = 1, fec_denom = 4, fec_acc = 0 \<rparr>) [[5]] = Ok (e, outs) \<and>
    coded_loop Ssse3 NoCongestionControl 1 e [] = Ok (e', batch) \<and>
    receive_all silent_socket (\<lambda>x. x) Scalar ImmediateFeedbackPolicy
      (FecReceiver_new (Decoder_new small_decoder_config ()) 7) () (map raw_of batch) = (r, net', xs) \<and>
    ready r = [(0, [5])]"
proof -
  let ?e = "Encoder_new small_config () () \<lparr> fec_numer = 1, fec_denom = 4, fec_acc = 0 \<rparr>" and ?ds = "[[5]] :: bytes list"
  have cfg: "encoder_config_ok small_config" "ec_window_capacity small_config \<le> 255" by (simp_all add: encoder_config_ok_def)
  have d: "dc_field small_decoder_config = ec_field small_config" "dc_symbol_size small_decoder_config = ec_symbol_size small_config"
    by simp_all
  have l: "?ds \<noteq> []" "length ?ds \<le> ec_window_capacity small_config" "length ?ds \<le> batch_limit small_config"
      "\<forall>d \<in> set ?ds. length d = ec_symbol_size small_config" "0 + length ?ds \<le> 65535" "0 + length ?ds \<le> ec_window_capacity small_config"
      "id_slice (enc_window ?e) = first_ids 0"
    by (simp_all add: batch_limit_def Encoder_new_def EncodingWindow_new_def id_slice_def first_ids_def)
  have S: "\<forall>k < length ?ds. payloads 1 0 ?ds (of_nat (0 + k)) = ?ds ! k" by (simp add: payloads_def)
  obtain e outs where s: "submit_all Ssse3 NoCongestionControl ConstantFecRate ?e ?ds = Ok (e, outs)"
    "sending (\<lambda>_. True) small_config (payloads 1 0 ?ds) (0 + length ?ds) e"
    using congestion_control.submit_all_true [OF no_cc.congestion_control_axioms
      sending_new [OF cfg(1), where cinv = "\<lambda>_. True", OF TrueI] l(5) cfg(2) l(7) l(6) l(4) S] by blast
  from s(2) have "coded_id_ok small_config (enc_next_coded_id e)" unfolding sending_def encoder_ok_def by metis
  then have lim: "unat (enc_next_coded_id e) + 1 \<le> batch_limit small_config"
    by (simp add: coded_id_ok_def batch_limit_def word_le_nat_alt)
  have few: "length ?ds \<le> length (filter is_source_datagram []) + 1"
    "length (filter (\<lambda>raw. \<not> is_source_datagram raw) []) + 1 \<le> dc_max_matrix_rows small_decoder_config" by simp_all
  from repairs_losses [OF no_cc.congestion_control_axioms TrueI cfg d l(1-4) s(1) list_emb_Nil few(1) lim few(2),
      where U = silent_socket and rnd = "\<lambda>x. x" and disp' = Scalar and P = ImmediateFeedbackPolicy and policy = "()"
        and addr = 7 and net = "()"]
  obtain e' batch r net' xs where "coded_loop Ssse3 NoCongestionControl 1 e [] = Ok (e', batch)"
    "receive_all silent_socket (\<lambda>x. x) Scalar ImmediateFeedbackPolicy
      (FecReceiver_new (Decoder_new small_decoder_config ()) 7) () (map raw_of batch) = (r, net', xs)"
    "ready r = map (\<lambda>k. (of_nat k, ?ds ! k)) [0..<length ?ds]" by auto
  with s(1) show ?thesis by (intro exI conjI) (assumption+, simp)
qed

end
