(* ===== verification/Coded_Ids.thy ===== *)
theory Coded_Ids
  imports End_To_End
begin

text \<open>
  The coded identifiers of an encoder run: they cycle through the range of the strategy, and the generation
  counts the complete cycles of a Cauchy encoder.
\<close>

text \<open>The counters of an encoder that has emitted \<open>j\<close> coded packets.\<close>

definition counts :: "nat \<Rightarrow> ('w, 'c, 'f) Encoder \<Rightarrow> bool" where
  "counts j e =
     (let cycle = unat (coded_id_cycle e) in
      coded_ids_used e = of_nat j \<and>
      (case ec_matrix_strategy (enc_config e) of
         Vandermonde \<Rightarrow> enc_next_coded_id e = of_nat (1 + j mod cycle) \<and> enc_generation e = 0
       | Cauchy \<Rightarrow> enc_next_coded_id e = of_nat (j mod cycle) \<and> enc_generation e = of_nat (j div cycle)))"

lemma counts_new: "counts 0 (Encoder_new config w c fec)"
  by (simp add: counts_def Encoder_new_def Let_def split: MatrixStrategy.split)

lemma cycle_cong: "enc_config e' = enc_config e \<Longrightarrow> coded_id_cycle e' = coded_id_cycle e"
  unfolding coded_id_cycle_def by (cases "ec_matrix_strategy (enc_config e)") simp_all

lemma counts_cong:
  "enc_config e' = enc_config e \<Longrightarrow> enc_next_coded_id e' = enc_next_coded_id e \<Longrightarrow> enc_generation e' = enc_generation e \<Longrightarrow>
     coded_ids_used e' = coded_ids_used e \<Longrightarrow> counts j e' = counts j e"
  using cycle_cong [of e' e] unfolding counts_def Let_def by (cases "ec_matrix_strategy (enc_config e)") simp_all

lemma next_id_value: "a < 300 \<Longrightarrow> unat ((of_nat a :: u32) + 1) = Suc a"
  by (simp add: unat_word_ariths unat_of_nat)

lemma advance_counts:
  assumes "counts j e"
  shows "counts (Suc j) (advance_coded_id e)"
proof -
  have m: "j mod 254 < 254" "j mod 14 < 14" "j mod 128 < 128" "j mod 7 < 7" by simp_all
  have cyc: "coded_id_cycle (advance_coded_id e) = coded_id_cycle e" by (rule cycle_cong) simp
  show ?thesis
  proof (cases "ec_matrix_strategy (enc_config e)")
    case Vandermonde
    show ?thesis
      using assms m next_id_value [of "Suc (j mod 254)"] next_id_value [of "Suc (j mod 14)"] Vandermonde
      by (cases "ec_field (enc_config e)")
        (auto simp: counts_def cyc advance_coded_id_def coded_id_cycle_def Let_def word_le_nat_alt mod_Suc)
  next
    case Cauchy
    show ?thesis
      using assms m next_id_value [of "j mod 128"] next_id_value [of "j mod 7"] Cauchy
      by (cases "ec_field (enc_config e)")
        (auto simp: counts_def cyc advance_coded_id_def coded_id_cycle_def Let_def word_le_nat_alt mod_Suc div_Suc)
  qed
qed

fun is_coded_out :: "EncoderOutput \<Rightarrow> bool" where
  "is_coded_out (SourceOut raw) = False"
| "is_coded_out (CodedOut raw) = True"

lemma inner_counts:
  assumes "generate_coded_inner disp C e cover = Ok (e', r)" "counts j e"
  shows "counts (Suc j) e'" "\<exists>b. r = Some (CodedOut b)"
proof -
  have "counts (Suc j) e' = counts (Suc j) (advance_coded_id e)"
    by (rule counts_cong) (use inner_counters [OF assms(1)] inner_config [OF assms(1)] in simp_all)
  then show "counts (Suc j) e'" using advance_counts [OF assms(2)] by simp
  show "\<exists>b. r = Some (CodedOut b)" using assms(1) by (auto simp: generate_coded_inner_def Let_def)
qed

text \<open>Every way to ask for a coded packet gives none, or one over some cover.\<close>

lemma coded_calls:
  "generate_coded disp C e = Ok (e', Some t) \<Longrightarrow> \<exists>cover. generate_coded_inner disp C e cover = Ok (e', Some t)"
  "generate_coded_recent disp C e k = Ok (e', Some t) \<Longrightarrow> \<exists>cover. generate_coded_inner disp C e cover = Ok (e', Some t)"
  "generate_coded_for_receiver disp C e rid = Ok (e', Some t) \<Longrightarrow> \<exists>cover. generate_coded_inner disp C e cover = Ok (e', Some t)"
  "generate_coded_targeted disp C e ids = Ok (e', Some t) \<Longrightarrow> \<exists>cover. generate_coded_inner disp C e cover = Ok (e', Some t)"
  by (auto simp: generate_coded_def generate_coded_recent_def generate_coded_for_receiver_def generate_coded_targeted_def Let_def
      split: if_splits)

lemma loop_counts:
  assumes "coded_loop disp C k e out = Ok (e', out')" "counts j e"
  shows "\<exists>new. out' = out @ new \<and> counts (j + length new) e' \<and> (\<forall>t \<in> set new. is_coded_out t)"
  using assms
proof (induction k arbitrary: e out j)
  case (Suc k)
  from Suc.prems(1) obtain e1 r where g: "generate_coded disp C e = Ok (e1, r)"
    "(case r of Some coded \<Rightarrow> coded_loop disp C k e1 (out @ [coded]) | None \<Rightarrow> Ok (e1, out)) = Ok (e', out')" by auto
  show ?case
  proof (cases r)
    case None
    with g Suc.prems(2) show ?thesis using generate_coded_none by (intro exI [of _ "[]"]) auto
  next
    case (Some t)
    with g(1) obtain cover where "generate_coded_inner disp C e cover = Ok (e1, Some t)" using coded_calls(1) by blast
    note c = inner_counts [OF this Suc.prems(2)]
    have "coded_loop disp C k e1 (out @ [t]) = Ok (e', out')" using g(2) Some by simp
    from Suc.IH [OF this c(1)] c(2) show ?thesis by auto
  qed
qed simp

lemma submit_counts:
  assumes "submit_source disp C F e data = Ok (e', out)" "counts j e"
  shows "\<exists>pkt new. out = SourceOut pkt # new \<and> counts (j + length new) e' \<and> (\<forall>t \<in> set new. is_coded_out t)"
proof -
  from assms(1) obtain k e1 pkt where l: "coded_loop disp C k e1 [SourceOut pkt] = Ok (e', out)"
    "enc_config e1 = enc_config e" "enc_next_coded_id e1 = enc_next_coded_id e" "enc_generation e1 = enc_generation e"
    "coded_ids_used e1 = coded_ids_used e"
    by (fastforce simp: submit_source_def Let_def split_beta and_then_Ok_iff split: if_splits)
  then have "counts j e1" using assms(2) counts_cong [of e1 e j] by simp
  from loop_counts [OF l(1) this] show ?thesis by auto
qed

lemma coded_step_counts:
  assumes "\<exists>cover. generate_coded_inner disp C e cover = Ok (e', Some t)" "counts (length (filter is_coded_out outs)) e"
  shows "counts (length (filter is_coded_out (outs @ [t]))) e'"
proof -
  obtain cover where "generate_coded_inner disp C e cover = Ok (e', Some t)" using assms(1) by blast
  from inner_counts [OF this assms(2)] show ?thesis by auto
qed

lemma trace_counts:
  assumes "encoder_trace W C F disp (Encoder_new config w c fec) outs ds e"
  shows "counts (length (filter is_coded_out outs)) e"
  using assms
proof (induction rule: encoder_trace.induct)
  case start
  show ?case by (simp add: counts_new)
next
  case (submit outs ds e data e' new)
  from submit_counts [OF submit.hyps(2) submit.IH] obtain pkt coded where
    n: "new = SourceOut pkt # coded" "counts (length (filter is_coded_out outs) + length coded) e'" "\<forall>t \<in> set coded. is_coded_out t" by blast
  then have "filter is_coded_out coded = coded" by (simp add: filter_id_conv)
  with n show ?case by simp
next
  case (feedback outs ds e rid pkt)
  have "counts j (handle_feedback W C F e rid pkt) = counts j e" for j
    by (rule counts_cong) (simp_all add: handle_feedback_def Let_def split_beta)
  with feedback show ?case by simp
next
  case (coded outs ds e e' new)
  show ?case by (rule coded_step_counts [OF coded_calls(1) [OF coded.hyps(2)] coded.IH])
next
  case (recent outs ds e k e' new)
  show ?case by (rule coded_step_counts [OF coded_calls(2) [OF recent.hyps(2)] recent.IH])
next
  case (for_receiver outs ds e rid e' new)
  show ?case by (rule coded_step_counts [OF coded_calls(3) [OF for_receiver.hyps(2)] for_receiver.IH])
next
  case (targeted outs ds e cover_ids e' new)
  show ?case by (rule coded_step_counts [OF coded_calls(4) [OF targeted.hyps(3)] targeted.IH])
qed

text \<open>C36: coded identifiers cycle. After any run that emitted \<open>j\<close> coded packets of any kind, the counter of used
  identifiers is \<open>j\<close> (modulo \<open>2 ^ 64\<close>); a Vandermonde encoder is at the identifier \<open>1 + j mod 254\<close> (14 over GF(2^4)),
  so it never uses the identifier 0, whose row is constant, and its generation stays 0; a Cauchy encoder is at
  \<open>j mod 128\<close> (7) in the generation \<open>j div 128\<close> (7) modulo 256.\<close>

theorem coded_ids_cycle:
  assumes "encoder_trace W C F disp (Encoder_new config w c fec) outs ds e"
  shows "let j = length (filter is_coded_out outs) in
    coded_ids_used e = of_nat j \<and>
    (case (ec_matrix_strategy config, ec_field config) of
       (Vandermonde, Gf2_8_field) \<Rightarrow> enc_next_coded_id e = of_nat (1 + j mod 254) \<and> enc_generation e = 0
     | (Vandermonde, Gf2_4_field) \<Rightarrow> enc_next_coded_id e = of_nat (1 + j mod 14) \<and> enc_generation e = 0
     | (Cauchy, Gf2_8_field) \<Rightarrow> enc_next_coded_id e = of_nat (j mod 128) \<and> enc_generation e = of_nat (j div 128)
     | (Cauchy, Gf2_4_field) \<Rightarrow> enc_next_coded_id e = of_nat (j mod 7) \<and> enc_generation e = of_nat (j div 7))"
proof -
  have "enc_config e = config" using trace_sizes [OF assms] by (simp add: Encoder_new_def Let_def)
  with trace_counts [OF assms] show ?thesis
    by (cases "ec_matrix_strategy config"; cases "ec_field config") (simp_all add: counts_def coded_id_cycle_def Let_def)
qed

theorem coded_ids_cycle_witness:
  "\<exists>outs e. encoder_trace AnyAckPolicy NoCongestionControl ConstantFecRate Ssse3
      (Encoder_new small_config () () \<lparr> fec_numer = 1, fec_denom = 4, fec_acc = 0 \<rparr>) outs [[5]] e \<and>
    enc_next_coded_id e = of_nat (1 + length (filter is_coded_out outs) mod 254)"
proof -
  obtain outs e where tr: "encoder_trace AnyAckPolicy NoCongestionControl ConstantFecRate Ssse3
      (Encoder_new small_config () () \<lparr> fec_numer = 1, fec_denom = 4, fec_acc = 0 \<rparr>) outs [[5]] e"
    by (rule small_trace)
  from coded_ids_cycle [OF tr] tr show ?thesis by (auto simp: Let_def)
qed

end
