(* ===== verification/File_Repair.thy ===== *)
theory File_Repair
  imports File_Transfer Loss_Repair Coded_Ids
begin

text \<open>
  The file transfer over a lossy network: a file that fits the window arrives whole when the receiver gets
  as many packets of the final batch as source packets were lost.
\<close>

section \<open>The sender as a block and a batch\<close>

lemma sends_all: "sends 0 st st' bs \<Longrightarrow> snd_net st' = snd_net st @ bs"
  by (auto simp: sends_def)

lemma s_then_Returned:
  "s_then r f = (st', Returned y) \<longleftrightarrow> (\<exists>st x. r = (st, Returned x) \<and> f st x = (st', Returned y))"
  by (cases "(r, f)" rule: s_then.cases) auto

lemma from_res_Returned: "from_res r = Returned x \<longleftrightarrow> r = Ok x"
  by (cases r) auto

text \<open>Without extra packets and without simulated losses the loop over the symbols submits the block and
  sends what the encoder gives, and the final loop is the encoder's batch.\<close>

lemma send_symbols_all:
  assumes "records U" "cfg_altc cfg = Altc_None"
    and "send_symbols U disp C F rid cfg 0 padded st e is = (st', Returned e')"
  shows "\<exists>outs. submit_all disp C F e (map (chunk (cfg_symbol_size cfg) padded) is) = Ok (e', outs) \<and>
    snd_net st' = snd_net st @ map raw_of outs"
  using assms(3)
proof (induction "is" arbitrary: st e)
  case (Cons i "is")
  let ?sz = "cfg_symbol_size cfg"
  from Cons.prems obtain st1 e1 data new where
    s: "slice padded (i * ?sz) (i * ?sz + ?sz) = Ok data" "submit_source disp C F e data = Ok (e1, new)"
      "send_outputs U (cfg_dest cfg) 0 st new = (st1, Returned ())"
      "send_symbols U disp C F rid cfg 0 padded st1 e1 is = (st', Returned e')"
    by (auto simp: send_symbol_def Let_def s_then_Returned from_res_Returned and_then_Ok_iff assms(2) send_extra_def)
  have d: "data = chunk ?sz padded i" using s(1) by (auto simp: slice_def chunk_def split: if_splits)
  have n: "snd_net st1 = snd_net st @ map raw_of new"
    using send_outputs_records [OF assms(1), of "cfg_dest cfg" 0 st new] s(3) sends_all by fastforce
  from Cons.IH [OF s(4)] s(2) show ?case by (auto simp: d n)
qed simp

lemma tail_flush_all:
  assumes "records U" "tail_flush U disp C dest 0 k st e = (st', Returned e')"
  shows "\<exists>outs. coded_loop disp C k e acc = Ok (e', acc @ outs) \<and> snd_net st' = snd_net st @ map raw_of outs"
  using assms(2)
proof (induction k arbitrary: st e acc)
  case (Suc k)
  from Suc.prems obtain e1 x where g: "generate_coded disp C e = Ok (e1, x)"
    "(case x of Some (CodedOut raw) \<Rightarrow> s_then (send_packet U dest 0 st raw False) (\<lambda>st _. tail_flush U disp C dest 0 k st e1)
      | _ \<Rightarrow> (st, Returned e1)) = (st', Returned e')"
    by (auto simp: s_then_Returned from_res_Returned)
  show ?case
  proof (cases x)
    case None
    with g show ?thesis by (intro exI [of _ "[]"]) simp
  next
    case (Some t)
    obtain cover where "generate_coded_inner disp C e cover = Ok (e1, Some t)" using coded_calls(1) g(1) Some by blast
    then obtain b where t: "t = CodedOut b" using inner_counts(2) by (auto simp: generate_coded_inner_def Let_def)
    obtain st1 where p: "send_packet U dest 0 st b False = (st1, Returned ())" "sends 0 st st1 [b]"
      using send_packet_records [OF assms(1)] by blast
    have "tail_flush U disp C dest 0 k st1 e1 = (st', Returned e')" using g(2) Some t p(1) by simp
    from Suc.IH [OF this, of "acc @ [t]"] show ?thesis using g(1) Some t sends_all [OF p(2)] by auto
  qed
qed simp

text \<open>The block has one source packet per symbol and the coded packets of the rate; the window ends non-empty.\<close>

lemma block_size:
  assumes cfg: "encoder_config_ok config" "ec_window_capacity config \<le> 255" "ec_backpressure config = EvictOldest"
    and "file_trace disp (Encoder_new config () () fec) o0 d0 e" "length d0 + length ds \<le> 65535"
    and "\<forall>d \<in> set ds. length d = ec_symbol_size config" "fec_acc (enc_fec e) < fec_denom (enc_fec e)"
    and "submit_all disp NoCongestionControl ConstantFecRate e ds = Ok (e', outs)"
  shows "length outs = length ds + (fec_acc (enc_fec e) + length ds * fec_numer (enc_fec e)) div fec_denom (enc_fec e) \<and>
    length (filter is_coded_out outs) = (fec_acc (enc_fec e) + length ds * fec_numer (enc_fec e)) div fec_denom (enc_fec e) \<and>
    (ds \<noteq> [] \<or> win_symbols (enc_window e) \<noteq> [] \<longrightarrow> win_symbols (enc_window e') \<noteq> [])"
  using assms(4-)
proof (induction ds arbitrary: o0 d0 e outs)
  case (Cons d ds)
  let ?a = "fec_acc (enc_fec e)" and ?n = "fec_numer (enc_fec e)" and ?d = "fec_denom (enc_fec e)"
  have l: "length d0 < 65535" "length d = ec_symbol_size config" using Cons.prems(2,3) by simp_all
  obtain e1 pkt pkts where s: "submit_source disp NoCongestionControl ConstantFecRate e d = Ok (e1, SourceOut pkt # map CodedOut pkts)"
    "file_trace disp (Encoder_new config () () fec) (o0 @ SourceOut pkt # map CodedOut pkts) (d0 @ [d]) e1"
    "enc_window e1 = fst (window_push (make_room e) d)" "length pkts = (?a + ?n) div ?d"
    "enc_fec e1 = enc_fec e\<lparr> fec_acc := (?a + ?n) mod ?d \<rparr>"
    by (rule submit_extends [OF Cons.prems(1) l(1) cfg(1,2) _ l(2)]) (use cfg(3) in blast)+
  from Cons.prems(5) s(1) obtain outs1 where r: "submit_all disp NoCongestionControl ConstantFecRate e1 ds = Ok (e', outs1)"
    "outs = (SourceOut pkt # map CodedOut pkts) @ outs1" by auto
  have ne: "win_symbols (enc_window e1) \<noteq> []" by (simp add: s(3) window_push_def Let_def)
  have "length (d0 @ [d]) + length ds \<le> 65535" "\<forall>x \<in> set ds. length x = ec_symbol_size config"
    "fec_acc (enc_fec e1) < fec_denom (enc_fec e1)"
    using Cons.prems(2-4) by (simp_all add: s(5))
  note ih = Cons.IH [OF s(2) this r(1)]
  have "(?a + ?n) div ?d + ((?a + ?n) mod ?d + length ds * ?n) div ?d = (?a + ?n + length ds * ?n) div ?d"
    using Cons.prems(4) div_mult_self4 [of ?d "(?a + ?n) div ?d" "(?a + ?n) mod ?d + length ds * ?n"]
    by (simp add: add.assoc [symmetric])
  then have sum: "(?a + ?n) div ?d + ((?a + ?n) mod ?d + length ds * ?n) div ?d = (?a + length (d # ds) * ?n) div ?d"
    by (simp add: algebra_simps)
  have "filter is_coded_out (map CodedOut pkts) = map CodedOut pkts" by (induction pkts) simp_all
  with ih ne sum show ?case by (simp add: r(2) s(4,5))
qed simp

text \<open>The loop of a batch appends, and can be cut in two.\<close>

lemma coded_loop_prefix: "coded_loop disp C k e acc = Ok (e', out) \<Longrightarrow> \<exists>new. out = acc @ new"
proof (induction k arbitrary: e acc)
  case (Suc k)
  from Suc.prems obtain e1 x where g: "(case x of Some coded \<Rightarrow> coded_loop disp C k e1 (acc @ [coded]) | None \<Rightarrow> Ok (e1, acc)) = Ok (e', out)"
    by auto
  then show ?case using Suc.IH [of e1] by (cases x) fastforce+
qed simp

lemma batch_step:
  assumes "coded_loop disp C (Suc k) e acc = Ok (e', acc @ outs)" "win_symbols (enc_window e) \<noteq> []"
  obtains e1 t new where "generate_coded disp C e = Ok (e1, Some t)" "coded_loop disp C k e1 (acc @ [t]) = Ok (e', (acc @ [t]) @ new)"
    "outs = t # new" "win_symbols (enc_window e1) \<noteq> []"
proof -
  from assms(1) obtain e1 x where g: "generate_coded disp C e = Ok (e1, x)"
    "(case x of Some coded \<Rightarrow> coded_loop disp C k e1 (acc @ [coded]) | None \<Rightarrow> Ok (e1, acc)) = Ok (e', acc @ outs)" by auto
  have "generate_coded_inner disp C e (id_slice (enc_window e)) = Ok (e1, x)"
    using g(1) assms(2) by (simp add: generate_coded_def window_is_empty_def id_slice_def split: if_splits)
  then obtain t where x: "x = Some t" "win_symbols (enc_window e1) \<noteq> []"
    using assms(2)
    by (auto simp: generate_coded_inner_def compute_coded_payload_targeted_def Let_def id_slice_def advance_coded_id_def
        split: MatrixStrategy.splits if_splits)
  then have l: "coded_loop disp C k e1 (acc @ [t]) = Ok (e', acc @ outs)" using g(2) by simp
  from coded_loop_prefix [OF this] obtain new where "acc @ outs = (acc @ [t]) @ new" by blast
  then have "outs = t # new" by simp
  then show ?thesis using that g(1) x l by simp
qed

lemma batch_size:
  assumes "coded_loop disp C k e acc = Ok (e', acc @ outs)" "win_symbols (enc_window e) \<noteq> []"
  shows "length outs = k"
  using assms
proof (induction k arbitrary: e acc outs)
  case (Suc k)
  obtain e1 t new where "coded_loop disp C k e1 (acc @ [t]) = Ok (e', (acc @ [t]) @ new)" "outs = t # new"
    "win_symbols (enc_window e1) \<noteq> []"
    by (rule batch_step [OF Suc.prems])
  with Suc.IH [of e1 "acc @ [t]" new] show ?case by simp
qed simp

lemma batch_take:
  assumes "coded_loop disp C (m + k) e acc = Ok (e', acc @ outs)" "win_symbols (enc_window e) \<noteq> []"
    and "coded_loop disp C m e acc = Ok (e1, acc @ first)"
  shows "first = take m outs"
  using assms
proof (induction m arbitrary: e acc outs first)
  case (Suc m)
  obtain e2 t new where 1: "generate_coded disp C e = Ok (e2, Some t)" "coded_loop disp C (m + k) e2 (acc @ [t]) = Ok (e', (acc @ [t]) @ new)"
    "outs = t # new" "win_symbols (enc_window e2) \<noteq> []"
    by (rule batch_step [of disp C "m + k" e acc e' outs]) (use Suc.prems(1,2) in simp_all)
  obtain e3 u new' where 2: "generate_coded disp C e = Ok (e3, Some u)" "coded_loop disp C m e3 (acc @ [u]) = Ok (e1, (acc @ [u]) @ new')"
    "first = u # new'"
    by (rule batch_step [OF Suc.prems(3,2)])
  have "e3 = e2" "u = t" using 1(1) 2(1) by simp_all
  with Suc.IH [OF 1(2,4), of new'] 2(2,3) 1(3) show ?case by simp
qed simp

text \<open>What a run of the sender is made of.\<close>

lemma send_run_block:
  fixes U :: "(bytes list, 'addr, 'io) UdpSocket"
  assumes U: "records U" and cfg: "send_config_ok cfg" and rd: "read_file (cfg_file cfg) = Inl raw"
    and quiet: "cfg_altc cfg = Altc_None" "loss_percent rnd (cfg_loss_rate cfg) = 0"
    and len: "0 < symbol_count (cfg_symbol_size cfg) raw" "symbol_count (cfg_symbol_size cfg) raw \<le> 65535"
  obtains e outs e' batch where
    "send_run U rnd disp sha rid read_file (Inl ()) clock cfg [] =
      (start_frame sha (cfg_symbol_size cfg) raw # map raw_of outs @ map raw_of batch @ [build_end_frame], Returned ())"
    "submit_all disp NoCongestionControl ConstantFecRate (Encoder_new (file_config cfg) () () (file_fec cfg))
      (file_symbols (cfg_symbol_size cfg) raw) = Ok (e, outs)"
    "coded_loop disp NoCongestionControl (cfg_window cfg * 2) e [] = Ok (e', batch)" "length batch = cfg_window cfg * 2"
    "win_symbols (enc_window e) \<noteq> []"
    "length outs = symbol_count (cfg_symbol_size cfg) raw + symbol_count (cfg_symbol_size cfg) raw * cfg_fec_n cfg div cfg_fec_d cfg"
    "length (filter is_coded_out outs) = symbol_count (cfg_symbol_size cfg) raw * cfg_fec_n cfg div cfg_fec_d cfg"
proof -
  let ?sz = "cfg_symbol_size cfg" and ?n = "symbol_count (cfg_symbol_size cfg) raw" and ?config = "file_config cfg"
    and ?e0 = "Encoder_new (file_config cfg) () () (file_fec cfg)" and ?C = NoCongestionControl and ?F = ConstantFecRate
  let ?st0 = "\<lparr> snd_net = [start_frame sha ?sz raw], snd_rng = initial_rng clock, sent_src = 0, sent_cod = 0, dropped = 0 \<rparr>"
  note c = file_encoder_ok [OF cfg]
  have c': "ec_backpressure ?config = EvictOldest" "ec_symbol_size ?config = ?sz" by simp_all
  have pos: "0 < ?sz" using cfg by (simp add: send_config_ok_def)
  have pre: "length ([] :: bytes list) + ?n \<le> 65535" "(0 + ?n) * ?sz \<le> length (padded_file ?sz raw)"
    using len(2) length_padded [OF pos] by simp_all
  from send_symbols_records [OF U c(2,3) c' encoder_trace.start pre, where disp = disp
      and fec = "file_fec cfg" and rid = "rid (cfg_dest cfg)" and p = 0 and st = ?st0]
  obtain st1 e1 new where 1: "send_symbols U disp ?C ?F (rid (cfg_dest cfg)) cfg 0 (padded_file ?sz raw) ?st0 ?e0 [0..<?n] = (st1, Returned e1)"
    "file_trace disp ?e0 new (file_symbols ?sz raw) e1"
    unfolding file_symbols_def append_Nil add_0 by blast
  have "length (file_symbols ?sz raw) \<le> 65535" using len(2) by simp
  from tail_flush_records [OF U c(2,3) 1(2) this] obtain st2 e2 where
    2: "tail_flush U disp ?C (cfg_dest cfg) 0 (cfg_window cfg * 2) st1 e1 = (st2, Returned e2)" by blast
  obtain outs where o: "submit_all disp ?C ?F ?e0 (file_symbols ?sz raw) = Ok (e1, outs)" "snd_net st1 = snd_net ?st0 @ map raw_of outs"
    using send_symbols_all [OF U quiet(1) 1(1)] by (auto simp: file_symbols_def)
  obtain batch where b: "coded_loop disp ?C (cfg_window cfg * 2) e1 [] = Ok (e2, [] @ batch)" "snd_net st2 = snd_net st1 @ map raw_of batch"
    using tail_flush_all [OF U 2, of "[]"] by blast
  have fl: "length ([] :: bytes list) + length (file_symbols ?sz raw) \<le> 65535"
    "\<forall>d \<in> set (file_symbols ?sz raw). length d = ec_symbol_size ?config"
    using len(2) file_symbol_length [OF pos] by simp_all
  have fec: "enc_fec ?e0 = file_fec cfg" "0 < cfg_fec_d cfg" using cfg by (simp_all add: Encoder_new_def Let_def send_config_ok_def)
  then have acc: "fec_acc (enc_fec ?e0) < fec_denom (enc_fec ?e0)" by simp
  have "file_symbols ?sz raw \<noteq> []" using len(1) by (auto simp flip: length_greater_0_conv)
  with block_size [OF c(2,3) c'(1) encoder_trace.start fl acc o(1)]
  have size: "length outs = ?n + ?n * cfg_fec_n cfg div cfg_fec_d cfg" "length (filter is_coded_out outs) = ?n * cfg_fec_n cfg div cfg_fec_d cfg"
    "win_symbols (enc_window e1) \<noteq> []"
    by (simp_all add: fec(1))
  have "send_run U rnd disp sha rid read_file (Inl ()) clock cfg [] = (snd_net st2 @ [build_end_frame], Returned ())"
    using pos U 1(1) 2 by (simp add: send_run_def rd c(1) Let_def quiet(2) records_def start_frame_def)
  then show ?thesis using that o(1) b batch_size [OF b(1) size(3)] size o(2) by simp
qed

section \<open>The decoder on what arrives\<close>

definition repair_limit :: "Strategy \<Rightarrow> nat" where
  "repair_limit s = (case s of Strategy_Vandermonde \<Rightarrow> 254 | Strategy_Cauchy \<Rightarrow> 128)"

text \<open>Below the limit no coded identifier is used twice.\<close>

lemma next_coded_id_limit:
  assumes "counts j e" "enc_config e = file_config cfg" "j + m \<le> repair_limit (cfg_strategy cfg)"
  shows "unat (enc_next_coded_id e) + m \<le> batch_limit (file_config cfg)"
proof -
  have small: "unat (of_nat k :: u32) = k" if "k < 300" for k using that by (simp add: unat_of_nat)
  show ?thesis
  proof (cases "cfg_strategy cfg")
    case Strategy_Vandermonde
    then have "unat (coded_id_cycle e) = 254" using assms(2) by (simp add: coded_id_cycle_def)
    then have id: "enc_next_coded_id e = of_nat (1 + j mod 254)"
      using assms(1,2) Strategy_Vandermonde by (simp add: counts_def Let_def)
    have "1 + j mod 254 < 300" using mod_less_divisor [of 254 j] by simp
    then have "unat (enc_next_coded_id e) = 1 + j mod 254" unfolding id by (rule small)
    moreover have "1 + j mod 254 + m \<le> 255" using assms(3) Strategy_Vandermonde by (cases "j = 254") (simp_all add: repair_limit_def)
    ultimately show ?thesis using Strategy_Vandermonde by (simp add: batch_limit_def)
  next
    case Strategy_Cauchy
    then have "unat (coded_id_cycle e) = 128" using assms(2) by (simp add: coded_id_cycle_def)
    then have id: "enc_next_coded_id e = of_nat (j mod 128)"
      using assms(1,2) Strategy_Cauchy by (simp add: counts_def Let_def)
    have "j mod 128 < 300" using mod_less_divisor [of 128 j] by simp
    then have "unat (enc_next_coded_id e) = j mod 128" unfolding id by (rule small)
    moreover have "j mod 128 + m \<le> 128" using assms(3) Strategy_Cauchy by (cases "j = 128") (simp_all add: repair_limit_def)
    ultimately show ?thesis using Strategy_Cauchy by (simp add: batch_limit_def)
  qed
qed

lemma coded_datagrams:
  assumes "list_all2 carries bs ps" "source_count ps = n" "length bs = n + j" "subseq raws bs"
  shows "length (filter (\<lambda>raw. \<not> is_source_datagram raw) raws) \<le> j"
proof -
  have "length (filter (\<lambda>raw. \<not> is_source_datagram raw) raws) \<le> length (filter (\<lambda>raw. \<not> is_source_datagram raw) bs)"
    using list_emb_length [OF subseq_filter [OF assms(4)]] .
  moreover have "length (filter is_source_datagram bs) = n" using carries_counts(1) [OF assms(1)] assms(2) by simp
  ultimately show ?thesis using sum_length_filter_compl [of is_source_datagram bs] assms(3) by simp
qed

lemma repaired_file:
  assumes cfg: "send_config_ok cfg" and ds: "ds \<noteq> []" "length ds \<le> cfg_window cfg" "\<forall>d \<in> set ds. length d = cfg_symbol_size cfg"
    and sub: "submit_all disp NoCongestionControl ConstantFecRate (Encoder_new (file_config cfg) () () (file_fec cfg)) ds = Ok (e, outs)"
      "length outs = length ds + j" "length (filter is_coded_out outs) = j"
    and batch: "coded_loop disp NoCongestionControl (m + k) e [] = Ok (e', batch)" "win_symbols (enc_window e) \<noteq> []"
    and rx: "subseq raws (map raw_of outs)" "length ds \<le> length (filter is_source_datagram raws) + m"
      "j + m \<le> repair_limit (cfg_strategy cfg)" "subseq rest (drop m (map raw_of batch))"
  obtains qs d evs extra where "list_all2 carries (raws @ take m (map raw_of batch) @ rest) qs"
    "decoder_run rnd disp' ConstantFeedbackPolicy (file_decoder (cfg_symbol_size cfg)) qs = Ok (d, evs)"
    "deliveries evs = map (\<lambda>k. (of_nat k, ds ! k)) [0..<length ds] @ extra"
    "file_trace disp (Encoder_new (file_config cfg) () () (file_fec cfg)) (outs @ batch) ds e'"
    "subseq (raws @ take m (map raw_of batch) @ rest) (map raw_of (outs @ batch))"
proof -
  let ?config = "file_config cfg" and ?e0 = "Encoder_new (file_config cfg) () () (file_fec cfg)" and ?sz = "cfg_symbol_size cfg"
  let ?dc = "\<lparr> dc_symbol_size = ?sz, dc_field = Gf2_8_field, dc_max_matrix_rows = 512, dc_feedback_every = 16 \<rparr>"
  note c = file_encoder_ok(2,3) [OF cfg]
  have n: "length ds \<le> 255" "length ds \<le> batch_limit ?config"
    using ds(2) cfg by (cases "cfg_strategy cfg"; simp add: send_config_ok_def batch_limit_def)+
  then have n': "length ds \<le> 65535" by simp
  have dl: "\<forall>d \<in> set ds. length d = ec_symbol_size ?config" using ds(3) by simp
  have tr: "file_trace disp ?e0 outs ds e" using submit_all_trace [OF sub(1) encoder_trace.start] by simp
  have e: "enc_config e = ?config" by (rule trace_state(2) [OF c n' tr])
  have lim: "unat (enc_next_coded_id e) + m \<le> batch_limit ?config"
    using next_coded_id_limit [OF trace_counts [OF tr] e] rx(3) sub(3) by simp
  obtain ps where ps: "list_all2 carries (map raw_of outs) ps" "source_count ps = length ds"
    by (rule wire_packets [OF c _ _ tr n' ds(3)]) simp_all
  have "length (filter (\<lambda>raw. \<not> is_source_datagram raw) raws) \<le> j"
    by (rule coded_datagrams [OF ps _ rx(1)]) (simp add: sub(2))
  moreover have "repair_limit (cfg_strategy cfg) \<le> 254" by (simp add: repair_limit_def split: Strategy.split)
  ultimately have rows: "length (filter (\<lambda>raw. \<not> is_source_datagram raw) raws) + m \<le> dc_max_matrix_rows ?dc" using rx(3) by simp
  have w: "length ds \<le> ec_window_capacity ?config" using ds(2) by simp
  obtain e1 first qs d evs where r: "coded_loop disp NoCongestionControl m e [] = Ok (e1, first)"
    "list_all2 carries (raws @ map raw_of first) qs"
    "decoder_run rnd disp' ConstantFeedbackPolicy (file_decoder ?sz) qs = Ok (d, evs)"
    "deliveries evs = map (\<lambda>k. (of_nat k, ds ! k)) [0..<length ds]"
    by (rule repaired_decoder [OF no_cc.congestion_control_axioms TrueI c _ _ ds(1) w n(2) dl sub(1) rx(1,2) lim rows,
          where rnd = rnd and disp' = disp' and P = ConstantFeedbackPolicy and policy = "\<lparr> fp_period = 8, fp_counter = 0 \<rparr>"])
      simp_all
  have f: "first = take m batch"
    by (rule batch_take [of disp NoCongestionControl m k e "[]" e' batch e1 first]) (use batch r(1) in simp_all)
  have tr': "file_trace disp ?e0 (outs @ batch) ds e'" using coded_loop_trace [OF batch(1) tr] by simp
  have "subseq (take m (map raw_of batch) @ rest) (take m (map raw_of batch) @ drop m (map raw_of batch))"
    by (rule list_emb_append_mono [OF subseq_order.order_refl rx(4)])
  then have part: "subseq (raws @ take m (map raw_of batch) @ rest) (map raw_of (outs @ batch))"
    using list_emb_append_mono [OF rx(1)] by simp
  obtain all d2 evs2 where a: "list_all2 carries (raws @ take m (map raw_of batch) @ rest) all"
    "decoder_run rnd disp' ConstantFeedbackPolicy (file_decoder ?sz) all = Ok (d2, evs2)"
    using decoded_total [OF no_cc.congestion_control_axioms TrueI c tr' n' part, of ?dc rnd disp' ConstantFeedbackPolicy
        "\<lparr> fp_period = 8, fp_counter = 0 \<rparr>"] by auto
  have "raws @ take m (map raw_of batch) @ rest = (raws @ map raw_of first) @ rest" by (simp add: f take_map)
  with a(1) obtain us vs where uv: "all = us @ vs" "list_all2 carries (raws @ map raw_of first) us"
    by (metis list_all2_append1)
  have "us = qs" by (rule carries_list_unique [OF uv(2) r(2)])
  then obtain evs3 where "evs2 = evs @ evs3" using a(2) by (auto simp: uv(1) decoder_run_append r(3) and_then_Ok_iff)
  then show ?thesis using r(4) by (intro that [OF a _ tr' part]) simp
qed

section \<open>The file arrives\<close>

text \<open>C2: lost packets do not cost the file. A file that fits the window is sent without extra packets and
  without simulated losses: the datagrams are the START frame, the block of the file with the coded packets
  of the rate, a final batch of twice the window and the END frame. Of the block any part arrives, with at
  most \<open>m\<close> source packets missing; the first \<open>m\<close> packets of the batch arrive, and any part of its rest; and
  the coded packets of the block and those \<open>m\<close> do not exhaust the coded identifiers of the strategy. Then the
  receiver writes exactly the file that was read and finds its digest right.\<close>

theorem file_transfer_repairs:
  assumes "records U" "send_config_ok cfg" "cfg_symbol_size cfg \<le> 60000" "read_file (cfg_file cfg) = Inl raw"
    and "cfg_altc cfg = Altc_None" "loss_percent rnd (cfg_loss_rate cfg) = 0" "length (sha raw) = 32" "save raw = Inl ()"
    and "0 < symbol_count (cfg_symbol_size cfg) raw" "symbol_count (cfg_symbol_size cfg) raw \<le> cfg_window cfg"
    and "send_run U rnd disp sha rid read_file (Inl ()) clock cfg [] = (first # block @ batch @ [final], r)"
      "length batch = cfg_window cfg * 2"
    and "subseq raws block" "symbol_count (cfg_symbol_size cfg) raw \<le> length (filter is_source_datagram raws) + m"
      "m \<le> cfg_window cfg * 2" "subseq rest (drop m batch)"
      "symbol_count (cfg_symbol_size cfg) raw * cfg_fec_n cfg div cfg_fec_d cfg + m \<le> repair_limit (cfg_strategy cfg)"
    and "datagrams rx = raws @ take m batch @ rest @ [final]" "\<forall>ev \<in> set rx. \<exists>b l. ev = Datagram b l"
  shows "recv_run rnd' disp' sha (Inl ()) save (Datagram first late # rx) = Some (Some raw, Returned ())"
proof -
  let ?sz = "cfg_symbol_size cfg" and ?n = "symbol_count (cfg_symbol_size cfg) raw" and ?ds = "file_symbols (cfg_symbol_size cfg) raw"
  have sz: "0 < ?sz" and w: "cfg_window cfg \<le> 255" using assms(2) by (simp_all add: send_config_ok_def)
  have n: "?n \<le> 65535" using assms(10) w by simp
  note fl = file_symbol_length [OF sz]
  obtain e outs e' batch' where s: "send_run U rnd disp sha rid read_file (Inl ()) clock cfg [] =
      (start_frame sha ?sz raw # map raw_of outs @ map raw_of batch' @ [build_end_frame], Returned ())"
    "submit_all disp NoCongestionControl ConstantFecRate (Encoder_new (file_config cfg) () () (file_fec cfg)) ?ds = Ok (e, outs)"
    "coded_loop disp NoCongestionControl (cfg_window cfg * 2) e [] = Ok (e', batch')" "length batch' = cfg_window cfg * 2"
    "win_symbols (enc_window e) \<noteq> []"
    "length outs = ?n + ?n * cfg_fec_n cfg div cfg_fec_d cfg"
    "length (filter is_coded_out outs) = ?n * cfg_fec_n cfg div cfg_fec_d cfg"
    by (rule send_run_block [where read_file = read_file and cfg = cfg, OF assms(1,2,4-6,9) n])
  have parts: "first = start_frame sha ?sz raw" "block = map raw_of outs" "batch = map raw_of batch'" "final = build_end_frame"
    using s(1,4) assms(11,12) by (auto simp: append_eq_append_conv)
  have ne: "?ds \<noteq> []" using assms(9) by (auto simp flip: length_greater_0_conv)
  have k: "m + (cfg_window cfg * 2 - m) = cfg_window cfg * 2" using assms(15) by simp
  obtain qs d evs extra where q: "list_all2 carries (raws @ take m (map raw_of batch') @ rest) qs"
    "decoder_run rnd' disp' ConstantFeedbackPolicy (file_decoder ?sz) qs = Ok (d, evs)"
    "deliveries evs = map (\<lambda>k. (of_nat k, ?ds ! k)) [0..<length ?ds] @ extra"
    "file_trace disp (Encoder_new (file_config cfg) () () (file_fec cfg)) (outs @ batch') ?ds e'"
    "subseq (raws @ take m (map raw_of batch') @ rest) (map raw_of (outs @ batch'))"
    by (rule repaired_file [where k = "cfg_window cfg * 2 - m" and rnd = rnd' and disp' = disp', OF assms(2) ne _ fl s(2) _ s(7) _ s(5)])
      (use s(3,6) k parts assms(10,13,14,16,17) in simp_all)
  show ?thesis
    unfolding parts(1)
    by (rule transfer_finishes [where sha = sha and save = save and raw = raw and rx = rx and extra = extra,
        OF sz assms(3) n assms(7,8) file_encoder_ok(2,3) [OF assms(2)] _ _ q(4,5) _ q(1,2) assms(19) q(3)])
      (use assms(18) parts in simp_all)
qed

text \<open>The witness: both source packets of a file of two symbols are lost, and the one coded packet between them;
  two packets of the batch bring the file.\<close>

abbreviation plain_transfer :: "(nat, nat) SendConfig" where
  "plain_transfer \<equiv> small_transfer\<lparr> cfg_altc := Altc_None \<rparr>"

theorem file_transfer_repairs_witness:
  "\<exists>first block batch final. send_run recording_socket (\<lambda>x. x) Avx2 (\<lambda>_. replicate 32 1) (\<lambda>_. 1) (\<lambda>_. Inl [5, 6]) (Inl ()) None
      plain_transfer [] = (first # block @ batch @ [final], Returned () :: (unit, unit CliError) outcome) \<and>
    small_recv (Datagram first True # map (\<lambda>b. Datagram b False) (take 2 batch @ [final])) = Some (Some [5, 6], Returned ())"
proof -
  let ?raw = "[5, 6] :: bytes" and ?run = "send_run recording_socket (\<lambda>x. x) Avx2 (\<lambda>_. replicate 32 1) (\<lambda>_. 1) (\<lambda>_. Inl [5, 6]) (Inl ()) None
      plain_transfer [] :: bytes list \<times> (unit, unit CliError) outcome"
  have cfg: "send_config_ok plain_transfer" "cfg_symbol_size plain_transfer \<le> 60000" "(\<lambda>_. Inl [5, 6]) (cfg_file plain_transfer) = (Inl ?raw :: bytes + unit)"
    "cfg_altc plain_transfer = Altc_None" "loss_percent (\<lambda>x. x) (cfg_loss_rate plain_transfer) = 0"
    by (simp_all add: send_config_ok_def loss_percent_def)
  have n: "symbol_count (cfg_symbol_size plain_transfer) ?raw = 2" by (simp add: symbol_count_def)
  have len: "0 < symbol_count (cfg_symbol_size plain_transfer) ?raw" "symbol_count (cfg_symbol_size plain_transfer) ?raw \<le> cfg_window plain_transfer"
    "symbol_count (cfg_symbol_size plain_transfer) ?raw \<le> 65535" unfolding n by simp_all
  have sha: "length ((\<lambda>_. replicate 32 1) ?raw :: bytes) = 32" and save: "(\<lambda>_. Inl ()) ?raw = (Inl () :: unit + bytes option \<times> unit)" by simp_all
  obtain first block batch where s: "?run = (first # block @ batch @ [build_end_frame], Returned ())" "length batch = cfg_window plain_transfer * 2"
    by (rule send_run_block [where read_file = "\<lambda>_. Inl [5, 6]" and cfg = plain_transfer and U = recording_socket and rnd = "\<lambda>x. x"
          and raw = ?raw and disp = Avx2 and sha = "\<lambda>_. replicate 32 1" and rid = "\<lambda>_. 1" and clock = None,
          OF small_transfer_ok(1) cfg(1,3-5) len(1,3)]) simp
  have few: "symbol_count (cfg_symbol_size plain_transfer) ?raw \<le> length (filter is_source_datagram []) + 2" "2 \<le> cfg_window plain_transfer * 2"
    "symbol_count (cfg_symbol_size plain_transfer) ?raw * cfg_fec_n plain_transfer div cfg_fec_d plain_transfer + 2 \<le> repair_limit (cfg_strategy plain_transfer)"
    unfolding n by (simp_all add: repair_limit_def)
  let ?rx = "map (\<lambda>b. Datagram b False) (take 2 batch @ [build_end_frame]) :: unit rx_event list"
  have rx: "datagrams ?rx = [] @ take 2 batch @ [] @ [build_end_frame]" "\<forall>ev \<in> set ?rx. \<exists>b l. ev = Datagram b l"
    unfolding datagrams_map by auto
  from file_transfer_repairs [OF small_transfer_ok(1) cfg sha save len(1,2) s list_emb_Nil few(1,2) list_emb_Nil few(3) rx] s(1)
  show ?thesis by blast
qed

end
