(* ===== verification/Robustness.thy ===== *)
theory Robustness
  imports End_To_End
begin

text \<open>
  The decoder on arbitrary input: packets in any order, with any content, also false ones. The decoder's
  state stays well typed, no operation on it panics, and the matrix stays within its row limit. The one
  condition on a packet is that its encoding vector can be handled at all (\<open>ev_typed\<close>): no identifier is
  \<open>2 ^ 32 - 1\<close>, and over GF(2^4) it is one of that field.
\<close>

section \<open>Typed rows\<close>

definition rows_typed :: "Field \<Rightarrow> nat \<Rightarrow> (SourceSymbolId, MatrixRow) btree \<Rightarrow> bool" where
  "rows_typed f L rows = (bt_ok rows \<and> (\<forall>p \<in> set rows. row_ok f L (snd p)))"

definition payloads_typed :: "nat \<Rightarrow> (SourceSymbolId \<times> bytes) list \<Rightarrow> bool" where
  "payloads_typed L xs = (\<forall>p \<in> set xs. length (snd p) = L)"

lemma payloads_typed_simps [simp]:
  "payloads_typed L []" "payloads_typed L (p # xs) = (length (snd p) = L \<and> payloads_typed L xs)"
  "payloads_typed L (xs @ ys) = (payloads_typed L xs \<and> payloads_typed L ys)"
  by (auto simp: payloads_typed_def)

lemma payloads_typed_filter [simp]: "payloads_typed L xs \<Longrightarrow> payloads_typed L (filter P xs)"
  by (simp add: payloads_typed_def)

lemma payloads_typed_mono: "set xs \<subseteq> set ys \<Longrightarrow> payloads_typed L ys \<Longrightarrow> payloads_typed L xs"
  by (auto simp: payloads_typed_def)

lemma rows_typed_get: "rows_typed f L rows \<Longrightarrow> bt_get rows k = Some row \<Longrightarrow> row_ok f L row"
  by (force simp: rows_typed_def dest: bt_get_Some_mem)

lemma rows_typed_insert: "rows_typed f L rows \<Longrightarrow> row_ok f L row \<Longrightarrow> rows_typed f L (bt_insert rows k row)"
  using set_bt_insert [of rows k row] by (auto simp: rows_typed_def bt_ok_insert)

lemma rows_typed_remove: "rows_typed f L rows \<Longrightarrow> rows_typed f L (bt_remove rows k)"
  using set_bt_remove [of rows k] by (auto simp: rows_typed_def bt_ok_remove)

lemma payload_typed: "row_ok f L row \<Longrightarrow> length (row_payload row) = L"
  by (simp add: row_ok_def)

lemma or_insert_typed: "payloads_typed L kn \<Longrightarrow> length data = L \<Longrightarrow> payloads_typed L (bt_or_insert kn sid data)"
  using set_bt_insert [of kn sid data] payloads_typed_mono [of "bt_insert kn sid data" "(sid, data) # kn" L]
  by (simp add: bt_or_insert_def)

section \<open>Known symbols\<close>

lemma substitute_rows_typed:
  assumes "rows_typed f L rows" "length data = L"
  shows "\<exists>rows' ns. substitute_rows disp f sid data rows = Ok (rows', ns) \<and> rows_typed f L rows'"
proof -
  have "\<forall>(k, row) \<in> set rows. length (row_payload row) = length data"
    using assms by (auto simp: rows_typed_def row_ok_def)
  moreover have "rows_typed f L (bt_map_values (\<lambda>_. subst_row f sid data) rows)"
    using assms unfolding rows_typed_def by (simp add: bt_ok_map_values) (auto simp: bt_map_values_def subst_row_ok(1))
  ultimately show ?thesis using substitute_rows_eq by blast
qed

lemma extract_solved_typed:
  "extract_solved ns kn rows queue rec = (rows', queue', rec') \<Longrightarrow> rows_typed f L rows \<Longrightarrow> payloads_typed L queue \<Longrightarrow>
     payloads_typed L rec \<Longrightarrow> rows_typed f L rows' \<and> payloads_typed L queue' \<and> payloads_typed L rec'"
proof (induction ns kn rows queue rec rule: extract_solved.induct)
  case (2 sid ns kn rows queue rec)
  show ?case
  proof (cases "bt_get rows sid")
    case None
    with 2 show ?thesis by simp
  next
    case (Some row)
    have len: "length (row_payload row) = L" by (rule payload_typed [OF rows_typed_get [OF "2.prems"(2) Some]])
    have "extract_solved ns kn (bt_remove rows sid) (if bt_contains_key kn sid then queue else queue @ [(sid, row_payload row)])
        (rec @ [(sid, row_payload row)]) = (rows', queue', rec')"
      using "2.prems"(1) Some by simp
    from "2.IH"(2) [OF Some this rows_typed_remove [OF "2.prems"(2)]] show ?thesis
      using "2.prems"(3,4) len by (cases "bt_contains_key kn sid") simp_all
  qed
qed simp

lemma known_loop_typed:
  assumes "rows_typed f L rows" "payloads_typed L queue" "payloads_typed L rec"
  shows "\<exists>rows' rec'. known_loop disp f rows queue kn rec = Ok (rows', rec') \<and> rows_typed f L rows' \<and> payloads_typed L rec'"
  using assms
proof (induction disp f rows queue kn rec rule: known_loop.induct)
  case (2 disp f rows sid data queue kn rec)
  obtain rows1 ns where s: "substitute_rows disp f sid data rows = Ok (rows1, ns)" "rows_typed f L rows1"
    using substitute_rows_typed [OF "2.prems"(1), of data disp sid] "2.prems"(2) by auto
  obtain rows2 q r where x: "extract_solved ns (bt_insert kn sid data) rows1 queue rec = (rows2, q, r)" by (metis prod_cases3)
  have t: "rows_typed f L rows2 \<and> payloads_typed L q \<and> payloads_typed L r"
    by (rule extract_solved_typed [OF x s(2)]) (use "2.prems" in auto)
  from "2.IH" [OF s(1) refl refl x [symmetric] refl refl] t show ?case by (simp add: known_loop.simps(2) s(1) x)
qed simp

text \<open>A matrix of a given configuration, and what a typed operation on it returns.\<close>

definition matrix_typed :: "Field \<Rightarrow> nat \<Rightarrow> nat \<Rightarrow> DecodingMatrix \<Rightarrow> bool" where
  "matrix_typed f L n m = (dm_field m = f \<and> dm_max_rows m = n \<and> rows_typed f L (dm_rows m))"

lemma matrix_typed_new: "matrix_typed f L n (DecodingMatrix_new f L n)"
  by (simp add: matrix_typed_def DecodingMatrix_new_def rows_typed_def)

lemma matrix_typed_rows: "matrix_typed f L n m \<Longrightarrow> rows_typed f L rows \<Longrightarrow> matrix_typed f L n (m\<lparr> dm_rows := rows \<rparr>)"
  by (simp add: matrix_typed_def)

lemma add_known_source_typed:
  assumes "matrix_typed f L n m" "length data = L"
  shows "\<exists>m' rec. add_known_source disp m sid data kn = Ok (m', rec) \<and> matrix_typed f L n m' \<and> payloads_typed L rec"
proof -
  obtain rows rec where "known_loop disp f (dm_rows m) [(sid, data)] kn [] = Ok (rows, rec)" "rows_typed f L rows" "payloads_typed L rec"
    using known_loop_typed [of f L "dm_rows m" "[(sid, data)]" "[]" disp kn] assms by (auto simp: matrix_typed_def)
  with assms(1) show ?thesis by (simp add: add_known_source_def matrix_typed_def)
qed

section \<open>Elimination\<close>

lemma for_each_typed:
  "I s \<Longrightarrow> (\<And>s x. x \<in> set xs \<Longrightarrow> I s \<Longrightarrow> \<exists>s'. g s x = Ok s' \<and> I s') \<Longrightarrow> \<exists>s'. for_each g s xs = Ok s' \<and> I s'"
proof (induction xs arbitrary: s)
  case (Cons x xs)
  obtain s1 where s1: "g s x = Ok s1" "I s1" using Cons.prems(2) [of x s] Cons.prems(1) by auto
  obtain s2 where "for_each g s1 xs = Ok s2" "I s2" using Cons.IH [OF s1(2)] Cons.prems(2) by auto
  with s1(1) show ?case by simp
qed simp

lemma forward_eliminate_typed:
  assumes "matrix_typed f L n m" "row_ok f L row"
  shows "\<exists>row'. forward_eliminate disp m row = Ok row' \<and> row_ok f L row'"
  unfolding forward_eliminate_def
proof (rule for_each_typed [where I = "row_ok f L", OF assms(2)])
  fix row pid assume r: "pid \<in> set (bt_keys (dm_rows m))" "row_ok f L row"
  then obtain e where e: "bt_get (dm_rows m) pid = Some e" using bt_get_None_iff [of "dm_rows m" pid] by auto
  have "row_ok f L e" using rows_typed_get e assms(1) by (auto simp: matrix_typed_def)
  then obtain row' where "row_subtract_scaled disp row e (dense_get (row_coefs row) pid) f = Ok row'" "row_ok f L row'"
    by (rule row_subtract_scaled_Ok [OF r(2)]) blast
  with r(2) e assms(1)
  show "\<exists>row'. (let c = dense_get (row_coefs row) pid in if c = 0 then Ok row
      else case bt_get (dm_rows m) pid of None \<Rightarrow> Panic
      | Some existing \<Rightarrow> row_subtract_scaled disp row existing c (dm_field m)) = Ok row' \<and> row_ok f L row'"
    by (simp add: Let_def matrix_typed_def)
qed

lemma back_substitute_typed:
  assumes "matrix_typed f L n m" "row_ok f L new"
  shows "\<exists>m'. back_substitute disp m p new = Ok m' \<and> matrix_typed f L n m'"
proof -
  have bt: "bt_ok (dm_rows m)" and rows: "\<forall>k row. bt_get (dm_rows m) k = Some row \<longrightarrow> row_ok f L row" and field: "dm_field m = f"
    using assms(1) rows_typed_get by (auto simp: matrix_typed_def rows_typed_def)
  obtain rows' where b: "back_substitute disp m p new = Ok (m\<lparr> dm_rows := rows' \<rparr>)" "bt_ok rows'"
    "\<forall>k \<in> set (bt_keys (dm_rows m)). \<exists>row row'. bt_get (dm_rows m) k = Some row \<and> bt_get rows' k = Some row' \<and>
       updated_row f L p new row row'"
    "\<forall>k. k \<notin> set (bt_keys (dm_rows m)) \<longrightarrow> bt_get rows' k = bt_get (dm_rows m) k"
    using back_keys [OF bt rows field assms(2) order_refl bt.keys_distinct [OF bt], of p disp]
    unfolding back_substitute_def by blast
  have "row_ok f L row" if "(k, row) \<in> set rows'" for k row
    using bt_mem_get [OF b(2) that] b(3,4) rows by (cases "k \<in> set (bt_keys (dm_rows m))") (auto simp: updated_row_def)
  then have "rows_typed f L rows'" using b(2) by (auto simp: rows_typed_def)
  with b(1) assms(1) show ?thesis by (auto intro: matrix_typed_rows)
qed

section \<open>Solved rows\<close>

lemma solve_pass_typed:
  assumes "matrix_typed f L n m" "payloads_typed L rec"
  shows "\<exists>m' rec' kn'. solve_pass disp solved m rec kn = Ok (m', rec', kn') \<and> matrix_typed f L n m' \<and> payloads_typed L rec'"
  using assms
proof (induction disp solved m rec kn rule: solve_pass.induct)
  case (2 disp pid solved m rec kn)
  show ?case
  proof (cases "bt_get (dm_rows m) pid")
    case None
    with 2 show ?thesis by simp
  next
    case row: (Some row)
    let ?m = "m\<lparr> dm_rows := bt_remove (dm_rows m) pid \<rparr>"
    have m: "matrix_typed f L n ?m" using "2.prems"(1) by (simp add: matrix_typed_def rows_typed_remove)
    have len: "length (row_payload row) = L"
      using "2.prems"(1) rows_typed_get row by (intro payload_typed) (auto simp: matrix_typed_def)
    show ?thesis
    proof (cases "is_solved (row_coefs row)")
      case None
      with "2.IH"(2) [OF row refl None m "2.prems"(2)] row show ?thesis by (simp add: Let_def)
    next
      case i: (Some i)
      let ?sym = "row_payload row"
      obtain m1 more where a: "add_known_source disp ?m i ?sym (bt_insert kn i ?sym) = Ok (m1, more)" "matrix_typed f L n m1"
        "payloads_typed L more"
        using add_known_source_typed [OF m len] by blast
      have "payloads_typed L ((rec @ [(i, ?sym)]) @ more)" using "2.prems"(2) len a(3) by auto
      from "2.IH"(3) [OF row refl i refl refl refl refl a(2) this] a(1) row i show ?thesis by (auto simp: Let_def)
    qed
  qed
qed simp

lemma solve_loop_typed:
  assumes "matrix_typed f L n m" "payloads_typed L rec"
  shows "\<exists>m' rec'. solve_loop disp m rec kn = Ok (m', rec') \<and> matrix_typed f L n m' \<and> payloads_typed L rec'"
  using assms
proof (induction disp m rec kn rule: solve_loop.induct)
  case (1 disp m rec kn)
  show ?case
  proof (cases "singleton_pivots m = []")
    case True
    with "1.prems" show ?thesis by (simp add: solve_loop.simps)
  next
    case False
    obtain m1 rec1 kn1 where p: "solve_pass disp (singleton_pivots m) m rec kn = Ok (m1, rec1, kn1)" "matrix_typed f L n m1"
      "payloads_typed L rec1"
      using solve_pass_typed [OF "1.prems"] by blast
    from "1.IH" [OF refl False p(1) refl refl p(2,3)] p(1) False show ?thesis by (subst solve_loop.simps) simp
  qed
qed

section \<open>A coded packet\<close>

lemma drop_oldest_typed:
  assumes "matrix_typed f L n m" "length (dm_rows m) \<le> n" "0 < n"
  shows "matrix_typed f L n (drop_oldest m)" "length (dm_rows (drop_oldest m)) < n"
proof -
  have "rows_typed f L rest" if "rows_typed f L (p # rest)" for p rest using that by (simp add: rows_typed_def)
  then show "matrix_typed f L n (drop_oldest m)"
    using assms(1) by (cases "dm_rows m") (auto simp: drop_oldest_def matrix_typed_def)
  show "length (dm_rows (drop_oldest m)) < n"
    using assms by (cases "dm_rows m") (auto simp: drop_oldest_def matrix_typed_def)
qed

lemma substitute_typed:
  "row_ok f L row \<Longrightarrow> payloads_typed L kn \<Longrightarrow> \<exists>row'. substitute_known disp f row kn = Ok row' \<and> row_ok f L row'"
  unfolding payloads_typed_def using substitute_known_ok by blast

lemma insert_row_typed:
  assumes m: "matrix_typed f L n m" "row_count m \<le> n" "0 < n" and row: "row_ok f L row"
  shows "\<exists>m' rec. solve_loop disp ((drop_oldest m)\<lparr> dm_rows := bt_insert (dm_rows (drop_oldest m)) pivot row \<rparr>) [] kn = Ok (m', rec) \<and>
    matrix_typed f L n m' \<and> payloads_typed L rec \<and> row_count m' \<le> n"
proof -
  let ?m = "(drop_oldest m)\<lparr> dm_rows := bt_insert (dm_rows (drop_oldest m)) pivot row \<rparr>"
  note d = drop_oldest_typed [OF m(1) m(2) [unfolded row_count_def] m(3)]
  have t: "matrix_typed f L n ?m" using d(1) row by (auto simp: matrix_typed_def rows_typed_insert)
  have len: "length (dm_rows ?m) \<le> n" using d(2) bt_insert_length [of "dm_rows (drop_oldest m)" pivot row] by simp
  obtain m' rec where s: "solve_loop disp ?m [] kn = Ok (m', rec)" "matrix_typed f L n m'" "payloads_typed L rec"
    using solve_loop_typed [OF t, of "[]" disp kn] by auto
  with solve_loop_length [OF s(1)] len show ?thesis by (simp add: row_count_def)
qed

lemma add_coded_typed:
  assumes m: "matrix_typed f L n m" "row_count m \<le> n" "0 < n" and ev: "ev_typed f ev" "length payload = L"
    and kn: "payloads_typed L kn"
  shows "\<exists>m' rec. add_coded disp m ev payload kn = Ok (m', rec) \<and> matrix_typed f L n m' \<and> payloads_typed L rec \<and> row_count m' \<le> n"
proof -
  have f: "dm_field m = f" using m(1) by (simp add: matrix_typed_def)
  obtain cm cs where c: "coef_map_loop ev 0 (ev_source_ids ev) [] = Ok cm" "from_map cm = Ok cs"
    "row_ok f L \<lparr> row_coefs = cs, row_payload = payload \<rparr>"
    by (rule new_row_ok [OF ev]) blast
  obtain row where r: "substitute_known disp f \<lparr> row_coefs = cs, row_payload = payload \<rparr> kn = Ok row" "row_ok f L row"
    using substitute_typed [OF c(3) kn] by blast
  obtain row1 where e: "forward_eliminate disp m row = Ok row1" "row_ok f L row1" using forward_eliminate_typed [OF m(1) r(2)] by blast
  show ?thesis
  proof (cases "is_zero (row_coefs row) \<or> is_zero (row_coefs row1)")
    case True
    with m(1,2) show ?thesis by (auto simp: add_coded_def c r(1) e(1) f)
  next
    case False
    obtain row2 p where nr: "normalize disp row1 f = Ok row2" "row_ok f L row2" "pivot_id (row_coefs row2) = Some p"
      by (rule normalize_Ok [OF e(2)]) (use False in auto)
    obtain m1 where b: "back_substitute disp m p row2 = Ok m1" "matrix_typed f L n m1" using back_substitute_typed [OF m(1) nr(2)] by blast
    have "bt_ok (dm_rows m)" using m(1) by (simp add: matrix_typed_def rows_typed_def)
    then have "row_count m1 \<le> n" using back_substitute_length [OF b(1)] m(2) by (simp add: row_count_def)
    from insert_row_typed [OF b(2) this m(3) nr(2), of disp p kn] show ?thesis
      using False by (simp add: add_coded_def c r(1) e(1) f nr(1,3) b(1) Let_def drop_oldest_def)
  qed
qed

section \<open>The decoder\<close>

definition decoder_typed :: "Field \<Rightarrow> nat \<Rightarrow> nat \<Rightarrow> 'p Decoder \<Rightarrow> bool" where
  "decoder_typed f L n d = (dc_symbol_size (dec_config d) = L \<and> matrix_typed f L n (dec_matrix d) \<and>
     row_count (dec_matrix d) \<le> n \<and> payloads_typed L (known d) \<and> payloads_typed L (symbols (dec_buffer d)))"

lemma decoder_typed_new:
  "decoder_typed (dc_field config) (dc_symbol_size config) (dc_max_matrix_rows config) (Decoder_new config policy)"
  by (simp add: decoder_typed_def Decoder_new_def SymbolBuffer_new_def matrix_typed_new)
    (simp add: row_count_def DecodingMatrix_new_def)

lemma drain_loop_typed:
  "drain_loop m i out = (m', i', out') \<Longrightarrow> payloads_typed L m \<Longrightarrow> payloads_typed L out \<Longrightarrow>
     payloads_typed L m' \<and> payloads_typed L out'"
proof (induction m i out rule: drain_loop.induct)
  case (1 m i out)
  show ?case
  proof (cases "bt_get m i")
    case None
    with "1.prems" show ?thesis by (simp add: drain_loop.simps [of m])
  next
    case (Some x)
    have "drain_loop (bt_remove m i) (i + 1) (out @ [(i, x)]) = (m', i', out')" using "1.prems"(1) Some by (simp add: drain_loop.simps [of m])
    note ih = "1.IH" [OF Some this payloads_typed_mono [OF set_bt_remove "1.prems"(2)]]
    have "length x = L" using bt_get_Some_mem [OF Some] "1.prems"(2) by (auto simp: payloads_typed_def)
    with ih "1.prems"(3) show ?thesis by simp
  qed
qed

lemma buffer_insert_typed:
  "payloads_typed L (symbols b) \<Longrightarrow> length x = L \<Longrightarrow> payloads_typed L (symbols (buffer_insert b i x))"
  by (simp add: buffer_insert_def or_insert_typed)

lemma absorb_typed:
  assumes "decoder_typed f L n d" "payloads_typed L rec"
  shows "decoder_typed f L n (foldl absorb_recovered d rec)"
  using assms
proof (induction rec arbitrary: d)
  case (Cons r rec)
  obtain i x where r: "r = (i, x)" by fastforce
  have "decoder_typed f L n (absorb_recovered d r)"
    using Cons.prems by (simp add: decoder_typed_def absorb_recovered_def r or_insert_typed buffer_insert_typed)
  with Cons show ?case by simp
qed simp

lemma deliveries_other: "deliveries (gap_events a b) = []" "deliveries [SendFeedback fb] = []"
  by (simp_all add: gap_events_def)

lemma send_feedback_typed:
  "\<exists>p fb. maybe_send_feedback rnd P d evs = Ok (d\<lparr> dec_policy := p \<rparr>, evs @ fb) \<and> deliveries fb = []"
proof -
  obtain p send where s: "should_send_feedback P (dec_policy d) (make_state rnd d) = (p, send)" by fastforce
  let ?n = "next_delivery_id (dec_buffer d)"
  obtain sk where "build_sack ?n (take 256 (ids_from (dec_buffer d) ?n)) = Ok sk" by (rule build_sack_bits)
  then show ?thesis
    by (cases send) (auto simp: maybe_send_feedback_def s Let_def FeedbackPacket_build_def intro!: exI [of _ p])
qed

lemma finish_packet_typed:
  assumes "decoder_typed f L n d"
  shows "\<exists>d' evs. finish_packet rnd P d = Ok (d', evs) \<and> decoder_typed f L n d' \<and> payloads_typed L (deliveries evs)"
proof -
  obtain m i out where dr: "drain_loop (symbols (dec_buffer d)) (next_delivery_id (dec_buffer d)) [] = (m, i, out)" by (metis prod_cases3)
  have t: "payloads_typed L m" "payloads_typed L out"
    using drain_loop_typed [OF dr, of L] assms by (simp_all add: decoder_typed_def)
  let ?d = "d\<lparr> dec_buffer := \<lparr> symbols = m, next_delivery_id = i \<rparr> \<rparr>" and ?evs = "map (\<lambda>(i, x). SourceReady i x) out"
  obtain p fb where fb: "maybe_send_feedback rnd P ?d ?evs = Ok (?d\<lparr> dec_policy := p \<rparr>, ?evs @ fb)" "deliveries fb = []"
    using send_feedback_typed [of rnd P ?d ?evs] by auto
  have "decoder_typed f L n (fst (check_gap (?d\<lparr> dec_policy := p \<rparr>) (?evs @ fb)))"
    using assms t(1) by (auto simp: check_gap_def Let_def decoder_typed_def prune_below_def)
  moreover have "deliveries (snd (check_gap (?d\<lparr> dec_policy := p \<rparr>) (?evs @ fb))) = out"
    using fb(2) by (simp add: check_gap_def Let_def)
  ultimately show ?thesis
    using fb(1) t(2) by (cases "check_gap (?d\<lparr> dec_policy := p \<rparr>) (?evs @ fb)")
      (auto simp: finish_packet_def drain_to_events_def drain_deliverable_def dr)
qed

text \<open>A handler returns, or reports the one error it checks for.\<close>

fun packet_tame :: "Field \<Rightarrow> DelpPacket \<Rightarrow> bool" where
  "packet_tame f (CodedP pkt) = ev_typed f (cp_ev pkt)"
| "packet_tame f p = True"

lemma handle_packet_typed:
  assumes d: "decoder_typed f L n d" "0 < n" and p: "packet_tame f p"
  shows "(\<exists>d' evs. handle_packet rnd disp P d p = Ok (d', evs) \<and> decoder_typed f L n d' \<and> payloads_typed L (deliveries evs)) \<or>
    (\<exists>k. handle_packet rnd disp P d p = Err (SymbolSizeMismatch L k))"
proof (cases p)
  case (SourceP pkt)
  show ?thesis
  proof (cases "length (sp_payload pkt) = L")
    case False
    with d(1) SourceP show ?thesis by (auto simp: handle_source_def decoder_typed_def)
  next
    case len: True
    let ?sid = "source_symbol_id pkt" and ?data = "sp_payload pkt"
    let ?d = "d\<lparr> loss := on_source (loss d) ?sid, packets_received := packets_received d + 1,
      known := bt_or_insert (known d) ?sid ?data, dec_buffer := buffer_insert (dec_buffer d) ?sid ?data \<rparr>"
    have t: "decoder_typed f L n ?d" using d(1) len by (simp add: decoder_typed_def or_insert_typed buffer_insert_typed)
    have m: "matrix_typed f L n (dec_matrix d)" using d(1) by (simp add: decoder_typed_def)
    obtain m1 rec where a: "add_known_source disp (dec_matrix d) ?sid ?data (bt_or_insert (known d) ?sid ?data) = Ok (m1, rec)"
      "matrix_typed f L n m1" "payloads_typed L rec" using add_known_source_typed [OF m len] by blast
    have "decoder_typed f L n (?d\<lparr> dec_matrix := m1 \<rparr>)"
      using t a(2) add_known_source_length [OF a(1)] by (simp add: decoder_typed_def row_count_def)
    from finish_packet_typed [OF absorb_typed [OF this a(3)], of rnd P] show ?thesis
      using d(1) len a(1) by (simp add: SourceP handle_source_def Let_def decoder_typed_def)
  qed
next
  case (CodedP pkt)
  show ?thesis
  proof (cases "length (cp_payload pkt) = L")
    case False
    with d(1) CodedP show ?thesis by (auto simp: handle_coded_def decoder_typed_def)
  next
    case len: True
    define d1 where "d1 = (let d = d\<lparr> loss := on_coded (loss d), packets_received := packets_received d + 1 \<rparr>
      in case ev_source_ids (cp_ev pkt) of
           first_src # _ \<Rightarrow> if first_src > encoder_win_min d then d\<lparr> encoder_win_min := first_src \<rparr> else d
         | [] \<Rightarrow> d)"
    have t: "decoder_typed f L n d1" using d(1) by (auto simp: d1_def Let_def decoder_typed_def split: list.split)
    then have m: "matrix_typed f L n (dec_matrix d1)" "row_count (dec_matrix d1) \<le> n" "payloads_typed L (known d1)"
      by (simp_all add: decoder_typed_def)
    have ev: "ev_typed f (cp_ev pkt)" using p CodedP by simp
    obtain m1 rec where a: "add_coded disp (dec_matrix d1) (cp_ev pkt) (cp_payload pkt) (known d1) = Ok (m1, rec)"
      "matrix_typed f L n m1" "payloads_typed L rec" "row_count m1 \<le> n"
      using add_coded_typed [OF m(1,2) d(2) ev len m(3)] by blast
    have "decoder_typed f L n (d1\<lparr> dec_matrix := m1 \<rparr>)" using t a(2,4) by (simp add: decoder_typed_def)
    from finish_packet_typed [OF absorb_typed [OF this a(3)], of rnd P] show ?thesis
      using d(1) len a(1) unfolding CodedP by (simp add: handle_coded_def Let_def decoder_typed_def d1_def [unfolded Let_def, symmetric])
  qed
qed (use d(1) in simp)

section \<open>From the wire\<close>

lemma read_deltas_length: "read_deltas n reader prev ids = (ids', r) \<Longrightarrow> length ids' = length ids + n"
  by (induction n reader prev ids arbitrary: ids' r rule: read_deltas.induct) (auto simp: Let_def split: prod.splits)

lemma decode_ue_length: "decode_ue_loop buf n first ids off = Ok (ids', k) \<Longrightarrow> length ids' \<le> n"
proof (induction buf n first ids off rule: decode_ue_loop.induct)
  case (1 buf n first ids off)
  show ?case
  proof (cases "length ids < n")
    case True
    with "1.prems" obtain a b where l: "\<not> length buf < off + 8" "read_be32 buf off = Ok a" "read_be32 buf (off + 4) = Ok b"
      "decode_ue_loop buf n first (ids @ u32_range (first + a) (first + b)) (off + 8) = Ok (ids', k)"
      by (subst (asm) decode_ue_loop.simps) (auto simp: and_then_Ok_iff split: if_splits)
    show ?thesis by (rule "1.IH" [OF True l(1,4)])
  qed (use "1.prems" in \<open>simp add: decode_ue_loop.simps [of buf n first ids off]\<close>, auto)
qed

lemma decode_ce_length: "decode_ce_loop n first reader a ids = Ok (ids', k) \<Longrightarrow> length ids' \<le> n"
proof (induction n first reader a ids rule: decode_ce_loop.induct)
  case (1 n first reader a ids)
  show ?case
  proof (cases "length ids < n")
    case True
    obtain x r1 where x: "read_bits reader 16 = (x, r1)" by fastforce
    obtain y r2 where y: "read_bits r1 16 = (y, r2)" by fastforce
    have l: "\<not> remaining_bits reader < 32" "decode_ce_loop n first r2 (first + a + x - first + y)
        (ids @ u32_range (first + a + x) (first + a + x + y)) = Ok (ids', k)"
      using "1.prems" True by (subst (asm) decode_ce_loop.simps, simp add: x y Let_def split: if_splits)+
    show ?thesis by (rule "1.IH" [OF True l(1) x [symmetric] refl y [symmetric] refl refl l(2)])
  qed (use "1.prems" in \<open>simp add: decode_ce_loop.simps [of n first reader a ids]\<close>, auto)
qed

lemma id_decode_length:
  assumes "id_decode buf n first fmt = Ok (ids, k)"
  shows "length ids \<le> max 1 n"
proof (cases fmt)
  case CompressedList
  obtain ids' r where r: "read_deltas (n - 1) (BitReader_new buf) first [first] = (ids', r)" by fastforce
  from assms CompressedList r have "ids = [first] \<or> ids = ids'" by (simp add: decode_compressed_list_def split: if_splits)
  with read_deltas_length [OF r] show ?thesis by auto
next
  case UncompressedEdges
  with assms decode_ue_length [of buf n first "[]" 0 ids k] show ?thesis by (simp add: decode_uncompressed_edges_def)
next
  case CompressedEdges
  with assms decode_ce_length [of n first "BitReader_new buf" 0 "[]" ids k] show ?thesis by (simp add: decode_compressed_edges_def)
qed (use assms in auto)

lemma unpack_loop_length:
  "min count (length out + 2 * length bs) \<le> length (foldl (\<lambda>out b.
     let out = out @ [drop_bit 4 b AND 0x0F] in if length out < count then out @ [b AND 0x0F] else out) out (bs :: bytes))"
proof (induction bs arbitrary: out)
  case (Cons b bs)
  show ?case using Cons.IH [of "out @ [drop_bit 4 b AND 0x0F, b AND 0x0F]"] Cons.IH [of "out @ [drop_bit 4 b AND 0x0F]"]
    by (simp add: Let_def) linarith
qed simp

lemma unpack_loop_range:
  "\<forall>c \<in> set out. c < 16 \<Longrightarrow> \<forall>c \<in> set (foldl (\<lambda>out b.
     let out = out @ [drop_bit 4 b AND 0x0F] in if length out < count then out @ [b AND 0x0F] else out) out (bs :: bytes)). c < 16"
proof (induction bs arbitrary: out)
  case (Cons b bs)
  have low: "x AND 0x0F < 16" for x :: u8 using word_and_le1 [of x 15] by (simp add: word_le_nat_alt word_less_nat_alt)
  have two: "\<forall>c \<in> set ((out @ [drop_bit 4 b AND 0x0F]) @ [b AND 0x0F]). c < 16"
    and one: "\<forall>c \<in> set (out @ [drop_bit 4 b AND 0x0F]). c < 16"
    using Cons.prems low [of b] low [of "drop_bit 4 b"] by auto
  from Cons.IH [OF two] Cons.IH [OF one] show ?case
    by (cases "length (out @ [drop_bit 4 b AND 0x0F]) < count") (simp_all only: foldl_Cons Let_def if_True if_False)
qed simp

lemma unpack_nibbles_typed:
  "length bs = (n + 1) div 2 \<Longrightarrow> length (unpack_nibbles bs n) = n \<and> (\<forall>c \<in> set (unpack_nibbles bs n). c < 16)"
  using unpack_loop_length [of n "[]" bs] unpack_loop_range [of "[]" n bs]
  by (auto simp: unpack_nibbles_def dest: in_set_takeD)

lemma ev_parse_typed:
  assumes "ev_parse buf cid = Ok (ev, k)" "has_explicit_coefs ev"
  shows "length (ev_source_ids ev) \<le> length (ev_coefficients ev)"
    "ev_field ev = Gf2_4_field \<Longrightarrow> \<forall>c \<in> set (ev_coefficients ev). c < 16"
proof -
  let ?n = "unat (buf ! 3)"
  obtain c_bit body first used off where p: "id_decode body (unat (buf ! 2)) first (ev_id_format ev) = Ok (ev_source_ids ev, used)"
    "ev_parse_coefs buf (ev_field ev) c_bit ?n off = Ok (ev_coefficients ev)"
    "c_bit = 1 \<longrightarrow> ?n = unat (buf ! 2)"
    using assms(1) by (auto simp: ev_parse_def Let_def and_then_Ok_iff split: if_splits)
  have c: "c_bit = 1" using p(2) assms(2) by (auto simp: ev_parse_coefs_def has_explicit_coefs_def split: if_splits)
  obtain raw where raw: "slice buf off (off + (case ev_field ev of Gf2_8_field \<Rightarrow> ?n | Gf2_4_field \<Rightarrow> (?n + 1) div 2)) = Ok raw"
    "ev_coefficients ev = (case ev_field ev of Gf2_8_field \<Rightarrow> raw | Gf2_4_field \<Rightarrow> unpack_nibbles raw ?n)"
    using p(2) c by (auto simp: ev_parse_coefs_def Let_def split: if_splits)
  then have len: "length raw = (case ev_field ev of Gf2_8_field \<Rightarrow> ?n | Gf2_4_field \<Rightarrow> (?n + 1) div 2)"
    by (auto simp: slice_def split: if_splits)
  have coefs: "length (ev_coefficients ev) = ?n \<and> (ev_field ev = Gf2_4_field \<longrightarrow> (\<forall>c \<in> set (ev_coefficients ev). c < 16))"
    using raw(2) len unpack_nibbles_typed [of raw ?n] by (cases "ev_field ev") simp_all
  then have "0 < ?n" using assms(2) unfolding has_explicit_coefs_def by (metis length_greater_0_conv)
  then show "length (ev_source_ids ev) \<le> length (ev_coefficients ev)" using id_decode_length [OF p(1)] p(3) c coefs by simp
  show "ev_field ev = Gf2_4_field \<Longrightarrow> \<forall>c \<in> set (ev_coefficients ev). c < 16" using coefs by blast
qed

text \<open>What the properties exclude, read off the bytes: a coded packet that ends within its CCI or TSI or whose vector
  is too short for its own fixed part (\<open>coded_overrun\<close>, the datagrams on which the parser panics), and one
  that names the last identifier or, over GF(2^4), has coefficients of the other field.\<close>

definition datagram_tame :: "Field \<Rightarrow> bytes \<Rightarrow> bool" where
  "datagram_tame f raw = (\<not> coded_overrun raw \<and> (case CodedPacket_parse raw of
      Ok pkt \<Rightarrow> (f = Gf2_8_field \<or> ev_field (cp_ev pkt) = f) \<and> - 1 \<notin> set (ev_source_ids (cp_ev pkt))
    | _ \<Rightarrow> True))"

lemma tame_no_panic: "datagram_tame f raw \<Longrightarrow> CodedPacket_parse raw \<noteq> Panic"
  by (simp add: datagram_tame_def coded_parse_panic_iff)

lemma tame_parsed:
  assumes "datagram_tame f raw" "CodedPacket_parse raw = Ok pkt"
  shows "packet_tame f (CodedP pkt)"
proof -
  obtain rest k where "ev_parse rest (coded_symbol_id pkt) = Ok (cp_ev pkt, k)"
    using assms(2) by (auto simp: CodedPacket_parse_def and_then_Ok_iff Let_def split: if_splits)
  note ev = ev_parse_typed [OF this]
  have "has_explicit_coefs (cp_ev pkt) \<longrightarrow> (\<forall>c \<in> set (ev_coefficients (cp_ev pkt)). coef_ok f c)"
    using assms ev(2) by (cases f) (auto simp: coef_ok_def datagram_tame_def)
  with assms ev(1) show ?thesis by (auto simp: ev_typed_def datagram_tame_def)
qed

section \<open>The receiver\<close>

lemma decode_datagram_typed:
  assumes "decoder_typed f L n d" "0 < n" "datagram_tame f raw"
  shows "decode_datagram rnd disp P d raw = Ok None \<or>
    (\<exists>d' evs. decode_datagram rnd disp P d raw = Ok (Some (d', evs)) \<and> decoder_typed f L n d' \<and> payloads_typed L (deliveries evs)) \<or>
    (\<exists>k. decode_datagram rnd disp P d raw = Err (SymbolSizeMismatch L k))"
proof (cases "and_then (CommonHeader_parse raw) packet_type")
  case Panic
  then show ?thesis using header_parse_cases [of raw] packet_type_cases by (metis and_then.simps(1,2) res.distinct(3,5))
next
  case (Ok t)
  note e = decode_datagram_def [of rnd disp P d raw, unfolded Ok res.case]
  show ?thesis
  proof (cases t)
    case Source
    show ?thesis
    proof (cases "SourcePacket_parse raw")
      case (Ok pkt)
      with handle_packet_typed [OF assms(1,2), of "SourceP pkt" rnd disp P] Source show ?thesis by (auto simp: e)
    qed (use Source source_parse_total [of raw] in \<open>simp_all add: e\<close>)
  next
    case Coded
    show ?thesis
    proof (cases "CodedPacket_parse raw")
      case (Ok pkt)
      with handle_packet_typed [OF assms(1,2) tame_parsed [OF assms(3) Ok], of rnd disp P] Coded show ?thesis by (auto simp: e)
    qed (use Coded tame_no_panic [OF assms(3)] in \<open>simp_all add: e\<close>)
  qed (simp add: e)
qed (simp add: decode_datagram_def)

text \<open>The state of a receiver, and the results a call may have.\<close>

definition receiver_typed :: "Field \<Rightarrow> nat \<Rightarrow> nat \<Rightarrow> ('p, 'addr) FecReceiver \<Rightarrow> bool" where
  "receiver_typed f L n r = (decoder_typed f L n (rx_decoder r) \<and> payloads_typed L (ready r))"

definition survived :: "nat \<Rightarrow> (bool, 'io) tres \<Rightarrow> bool" where
  "survived L x = ((\<exists>b. x = TOk b) \<or> (\<exists>k. x = TErr (Codec (SymbolSizeMismatch L k))))"

lemma process_datagram_typed:
  assumes "receiver_typed f L n r" "0 < n" "datagram_tame f raw"
  shows "\<exists>r' net' x. process_datagram U rnd disp P r net raw = (r', net', x) \<and> receiver_typed f L n r' \<and> survived L x"
proof -
  have d: "decoder_typed f L n (rx_decoder r)" using assms(1) by (simp add: receiver_typed_def)
  show ?thesis
    using decode_datagram_typed [OF d assms(2,3), of rnd disp P]
  proof (elim disjE exE conjE)
    fix d' evs assume e: "decode_datagram rnd disp P (rx_decoder r) raw = Ok (Some (d', evs))"
      and t: "decoder_typed f L n d'" "payloads_typed L (deliveries evs)"
    let ?r = "r\<lparr> rx_decoder := d' \<rparr>"
    obtain net' b where "event_loop (send_to U) ?r net False evs = (?r\<lparr> ready := ready ?r @ deliveries evs \<rparr>, net', b)"
      using event_loop_ready [of "send_to U" ?r net False evs] by blast
    with e t assms(1) show ?thesis by (simp add: process_datagram_def receiver_typed_def survived_def)
  qed (use assms(1) in \<open>auto simp: process_datagram_def survived_def\<close>)
qed

lemma receive_all_typed:
  assumes "receiver_typed f L n r" "0 < n" "\<forall>raw \<in> set raws. datagram_tame f raw"
  shows "\<exists>r' net' xs. receive_all U rnd disp P r net raws = (r', net', xs) \<and> receiver_typed f L n r' \<and> (\<forall>x \<in> set xs. survived L x)"
  using assms
proof (induction raws arbitrary: r net)
  case (Cons raw raws)
  obtain r1 net1 x where p: "process_datagram U rnd disp P r net raw = (r1, net1, x)" "receiver_typed f L n r1" "survived L x"
    using process_datagram_typed [OF Cons.prems(1,2)] Cons.prems(3) by (metis list.set_intros(1))
  from Cons.IH [OF p(2) Cons.prems(2), of net1] Cons.prems(3) p(1,3) show ?case by auto
qed simp


text \<open>The witness: a datagram too short for a header, a coded packet that claims to be the symbol 0, and a
  source packet of another size.\<close>

abbreviation hostile_coded :: bytes where
  "hostile_coded \<equiv> [0x10, 0, 1, 1, 0, 0, 0, 1, 2, 0x10, 1, 0, 0, 0, 0, 0, 9]"

abbreviation hostile_source :: bytes where
  "hostile_source \<equiv> [0x10, 0, 1, 0, 0, 0, 0, 0, 7, 7]"

lemma hostile_tame: "\<forall>raw \<in> set [[1, 2], hostile_coded, hostile_source]. datagram_tame Gf2_8_field raw"
  by (simp add: datagram_tame_def coded_overrun_def vector_overrun_def CodedPacket_parse_def CommonHeader_parse_def header_version_def
      hdr_len_bytes_def packet_type_def
      packet_type_from_u8_def cci_words_def tsi_parse_def has_tsi_def slice_def slice_from_def read_be32_def ev_parse_def
      from_wire_def ev_parse_coefs_def index_def)


end
