(* ===== verification/File_Robust.thy ===== *)
theory File_Robust
  imports Robustness File_Transfer
begin

text \<open>
  The receiving command on arbitrary input: whatever datagrams arrive, it ends with the first timeout, it panics
  only on the malformed packets and the START frame for which the code does, and it reports success only for a
  file of the announced digest.
\<close>

section \<open>The START frame\<close>

lemma parse_start_total: "parse_start buf \<noteq> Panicked"
proof (cases "length buf < 52")
  case False
  then obtain a b c where "read_be32 buf 8 = Ok a" "read_be32 buf 12 = Ok b" "read_be32 buf 16 = Ok c"
    using read_be32_Ok [of 8 buf] read_be32_Ok [of 12 buf] read_be32_Ok [of 16 buf] by auto
  with False show ?thesis by (simp add: parse_start_def read_be64_def slice_def)
qed (simp add: parse_start_def)

text \<open>Waiting for the START frame does not panic, and leaves a part of the events.\<close>

lemma wait_start_cases:
  fixes rx :: "'io rx_event list"
  assumes "Elapsed \<in> set rx"
  obtains e where "wait_start rx = Some (Raised e)"
  | s rest where "wait_start rx = Some (Returned (s, rest))" "Elapsed \<in> set rest" "set (datagrams rest) \<subseteq> set (datagrams rx)"
  using assms
proof (induction rx arbitrary: thesis rule: wait_start.induct)
  case (4 raw late rx)
  show ?case
  proof (cases "length (take RX_BUF raw) \<ge> 4 \<and> take RX_BUF raw ! 3 = CTRL_START")
    case True
    then have e: "wait_start (Datagram raw late # rx) = Some (o_then (parse_start (take RX_BUF raw)) (\<lambda>s. Returned (s, rx)))"
      by (simp add: Let_def)
    show ?thesis
    proof (cases "parse_start (take RX_BUF raw) :: (FileSession, 'io CliError) outcome")
      case (Returned s)
      with e "4.prems"(2) [of s rx] "4.prems"(3) show ?thesis by auto
    next
      case (Raised err)
      with e "4.prems"(1) [of err] show ?thesis by simp
    qed (use parse_start_total in auto)
  next
    case False
    then have e: "wait_start (Datagram raw late # rx) = wait_start rx" by (auto simp: Let_def)
    have el: "Elapsed \<in> set rx" using "4.prems"(3) by simp
    show ?thesis
      by (rule "4.IH" [OF refl False _ _ el]) (use "4.prems"(1,2) e in \<open>auto simp del: wait_start.simps\<close>)
  qed
qed auto

section \<open>The loop\<close>

lemma take_datagram_typed:
  assumes "decoder_typed Gf2_8_field L n d" "0 < n" "datagram_tame Gf2_8_field buf"
  shows "\<exists>d' syms'. take_datagram rnd disp d syms buf = Ok (d', syms') \<and> decoder_typed Gf2_8_field L n d'"
proof -
  have packet: "\<exists>d' syms'. take_packet (\<lambda>d pkt. handle_packet rnd disp ConstantFeedbackPolicy d (wrap pkt)) parsed d syms = Ok (d', syms') \<and>
      decoder_typed Gf2_8_field L n d'"
    if "parsed \<noteq> Panic" "\<And>pkt. parsed = Ok pkt \<Longrightarrow> packet_tame Gf2_8_field (wrap pkt)" for wrap and parsed :: "'x res"
  proof (cases parsed)
    case (Ok pkt)
    with handle_packet_typed [OF assms(1,2) that(2) [OF Ok], of rnd disp ConstantFeedbackPolicy] assms(1) show ?thesis
      by (auto simp: take_packet_def)
  qed (use that(1) assms(1) in \<open>simp_all add: take_packet_def\<close>)
  have "CodedPacket_parse buf \<noteq> Panic" using assms(3) by (rule tame_no_panic)
  from packet [OF this, of CodedP] packet [OF source_parse_total [of buf], of SourceP] assms(1) tame_parsed [OF assms(3)]
  show ?thesis by (simp add: take_datagram_def del: packet_tame.simps(1))
qed

lemma receive_loop_typed:
  assumes "decoder_typed Gf2_8_field L n d" "0 < n" "\<forall>raw \<in> set (datagrams rx). datagram_tame Gf2_8_field (take RX_BUF raw)"
    and "Elapsed \<in> set rx"
  shows "\<exists>r. receive_loop rnd disp k d syms rx = Some r \<and> r \<noteq> Panicked"
  using assms
proof (induction rx arbitrary: d syms rule: datagrams.induct)
  case (2 raw late rx)
  let ?buf = "take RX_BUF raw"
  obtain d' syms' where t: "take_datagram rnd disp d syms ?buf = Ok (d', syms')" "decoder_typed Gf2_8_field L n d'"
    using take_datagram_typed [OF "2.prems"(1,2), of ?buf rnd disp syms] "2.prems"(3) by auto
  have rest: "\<forall>raw \<in> set (datagrams rx). datagram_tame Gf2_8_field (take RX_BUF raw)" "Elapsed \<in> set rx" using "2.prems"(3,4) by simp_all
  from "2.IH" [OF "2.prems"(1,2) rest, of syms] "2.IH" [OF t(2) "2.prems"(2) rest, of syms'] t(1)
  show ?case by (auto simp: Let_def)
qed auto

lemma receive_loop_ends: "Elapsed \<in> set rx \<Longrightarrow> \<exists>r. receive_loop rnd disp k d syms rx = Some r"
proof (induction rx arbitrary: d syms rule: datagrams.induct)
  case (2 raw late rx)
  then show ?case by (auto simp: Let_def split: res.split)
qed auto

section \<open>The file\<close>

lemma stitch_total: "stitch syms out ids \<noteq> Panicked"
  by (induction syms out ids rule: stitch.induct) (simp_all split: option.split)

lemma assemble_cases:
  fixes res :: "(bytes, 'io CliError) outcome"
  assumes "assemble s syms = res"
  obtains e where "res = Raised e" | data where "res = Returned data" "length data \<le> unat (fs_file_size s)"
  | "res = Panicked" "2 ^ 63 \<le> unat (fs_file_size s)"
proof (cases "unat (fs_file_size s) \<ge> 2 ^ 63")
  case True
  with assms that(3) show ?thesis by (simp add: assemble_def)
next
  case False
  then show ?thesis
    using assms that(1,2) stitch_total [of syms "[]" "map of_nat [0..<unat (fs_n_symbols s)]", where 'a = 'io]
    by (cases "stitch syms [] (map of_nat [0..<unat (fs_n_symbols s)]) :: (bytes, 'io CliError) outcome")
      (auto simp: assemble_def)
qed

section \<open>The command\<close>

abbreviation decoder_setup :: "nat \<Rightarrow> (ConstantFeedback Decoder, 'io CliError) outcome" where
  "decoder_setup sz \<equiv> from_res (and_then (DecoderConfigBuilder_build (DecoderConfigBuilder_new sz)) (\<lambda>dec_cfg.
     and_then (ConstantFeedbackPolicy_new 8) (\<lambda>policy. Ok (Decoder_new dec_cfg policy))))"

lemma decoder_setup_cases:
  assumes "decoder_setup sz = res"
  obtains e where "res = Raised e" | "res = Returned (file_decoder sz)"
  using assms by (auto simp: DecoderConfigBuilder_new_def ConstantFeedbackPolicy_new_def split: if_splits)

text \<open>C7: the receiving command on arbitrary input. Take any sequence of datagrams, socket errors and timeouts, from
  a sender or from anyone, in which a timeout occurs. Then the command ends. If it panics, the reason is
  one of these: a coded packet that ends within its CCI or TSI or whose vector is too short for its own fixed
  part, a coded packet that names the identifier \<open>2 ^ 32 - 1\<close>, or a START frame that announces
  \<open>2 ^ 63\<close> bytes or more; whatever else arrives is survived. It reports success only if the data it has written
  is no longer than announced and has the digest of the START frame; and if it reports an error after writing,
  the error is that the digest is another, or writing itself has failed.\<close>

theorem recv_survives:
  fixes rx :: "'io rx_event list"
  assumes "Elapsed \<in> set rx"
  shows "\<exists>saved r. recv_run rnd disp sha (Inl ()) save rx = Some (saved, r) \<and>
    (r = Panicked \<longrightarrow> (\<exists>raw \<in> set (datagrams rx). \<not> datagram_tame Gf2_8_field (take RX_BUF raw)) \<or>
      (\<exists>s rest. wait_start rx = Some (Returned (s, rest)) \<and> 2 ^ 63 \<le> unat (fs_file_size s))) \<and>
    (r = Returned () \<longrightarrow> (\<exists>s rest data. wait_start rx = Some (Returned (s, rest)) \<and> saved = Some data \<and>
      length data \<le> unat (fs_file_size s) \<and> sha data = fs_sha256 s)) \<and>
    (saved \<noteq> None \<longrightarrow> r = Returned () \<or> r = Raised DigestMismatch \<or> (\<exists>data e. save data = Inr (saved, e) \<and> r = Raised (System e)))"
  using assms
proof (cases rule: wait_start_cases)
  case (1 e)
  then show ?thesis by (simp add: recv_run_def)
next
  case start: (2 s rest)
  show ?thesis
  proof (rule decoder_setup_cases [OF refl, of "fs_symbol_size s"])
    fix e assume "decoder_setup (fs_symbol_size s) = (Raised e :: (ConstantFeedback Decoder, 'io CliError) outcome)"
    with start(1) show ?thesis by (simp add: recv_run_def)
  next
    assume config: "decoder_setup (fs_symbol_size s) = (Returned (file_decoder (fs_symbol_size s)) :: (ConstantFeedback Decoder, 'io CliError) outcome)"
    have "decoder_typed Gf2_8_field (fs_symbol_size s) 512 (file_decoder (fs_symbol_size s))"
      using decoder_typed_new [of "\<lparr> dc_symbol_size = fs_symbol_size s, dc_field = Gf2_8_field, dc_max_matrix_rows = 512,
        dc_feedback_every = 16 \<rparr>"] by simp
    note typed = receive_loop_typed [OF this _ _ start(2), of rnd disp "fs_n_symbols s" "[]"]
    obtain r where r: "receive_loop rnd disp (fs_n_symbols s) (file_decoder (fs_symbol_size s)) [] rest = Some r"
      using receive_loop_ends [OF start(2)] by blast
    note run = recv_run_def [of rnd disp sha "Inl ()" save rx, unfolded start(1) sum.case option.case outcome.case prod.case config r]
    show ?thesis
    proof (cases r)
      case (Returned syms)
      show ?thesis
        by (rule assemble_cases [where 'io = 'io and s = s and syms = syms, OF refl]) (auto simp: run Returned start(1) split: sum.split)
    next
      case Panicked
      then have "\<not> (\<forall>raw \<in> set (datagrams rest). datagram_tame Gf2_8_field (take RX_BUF raw))" using typed r by auto
      then show ?thesis using start(3) by (auto simp: run Panicked)
    qed (simp add: run)
  qed
qed

text \<open>The witness: a START frame from nowhere that announces two symbols, junk, a false equation, a symbol of
  another size, and silence.\<close>

abbreviation hostile_events :: "unit rx_event list" where
  "hostile_events \<equiv> [Datagram (build_start_frame 1 2 2 (replicate 32 0)) False, Datagram [1, 2] False,
     Datagram hostile_coded False, Datagram hostile_source False, Elapsed]"

lemma hostile_events_start: "wait_start hostile_events = Some (Returned
    (\<lparr> fs_symbol_size = 1, fs_n_symbols = 2, fs_file_size = 2, fs_sha256 = replicate 32 0 \<rparr>, tl hostile_events))"
proof -
  have "(parse_start (build_start_frame 1 2 2 (replicate 32 0)) :: (FileSession, unit CliError) outcome) =
      Returned \<lparr> fs_symbol_size = 1, fs_n_symbols = 2, fs_file_size = 2, fs_sha256 = replicate 32 0 \<rparr>"
    by (subst parse_start_frame) simp_all
  moreover have "length (build_start_frame 1 2 2 (replicate 32 0)) = 52" "build_start_frame 1 2 2 (replicate 32 0) ! 3 = CTRL_START"
    by (simp_all add: start_frame_bytes)
  ultimately show ?thesis by (simp add: Let_def)
qed

lemma hostile_events_tame: "\<forall>raw \<in> set (datagrams hostile_events). datagram_tame Gf2_8_field (take RX_BUF raw)"
proof -
  have "datagram_tame Gf2_8_field (build_start_frame 1 2 2 (replicate 32 0))"
    by (simp add: start_frame_bytes datagram_tame_def coded_overrun_def CodedPacket_parse_def CommonHeader_parse_def header_version_def)
  then show ?thesis using hostile_tame by (simp add: start_frame_bytes)
qed

theorem recv_survives_witness:
  "\<exists>saved r. recv_run (\<lambda>x. x) Scalar (\<lambda>_. replicate 32 1) (Inl ()) (\<lambda>_. Inl ()) hostile_events = Some (saved, r) \<and> r \<noteq> Panicked \<and>
    (saved \<noteq> None \<longrightarrow> r = Returned () \<or> r = Raised DigestMismatch)"
proof -
  have "Elapsed \<in> set hostile_events" by simp
  from recv_survives [OF this, of "\<lambda>x. x" Scalar "\<lambda>_. replicate 32 1" "\<lambda>_. Inl ()"] hostile_events_start hostile_events_tame
  show ?thesis by force
qed

end
