(* ===== verification/Cli_Tools.thy ===== *)
theory Cli_Tools
  imports File_Recv
begin

text \<open>
  \<^verbatim>\<open>delp-cli/src/bench.rs\<close> and \<^verbatim>\<open>delp-cli/src/demo.rs\<close>: the commands that run the encoder
  against the decoder in one process. What they compute is modelled: the counts they check or report;
  times and the text they print are left out.
\<close>

section \<open>The benchmark\<close>

text \<open>The deterministic payload, byte by byte.\<close>

fun xorshift_bytes :: "u64 \<Rightarrow> nat \<Rightarrow> bytes" where
  "xorshift_bytes x 0 = []"
| "xorshift_bytes x (Suc n) =
     (let x = x XOR drop_bit 12 x;
          x = x XOR push_bit 25 x;
          x = x XOR drop_bit 27 x
      in ucast (drop_bit 56 (x * 0x2545F4914F6CDD1D)) # xorshift_bytes x n)"

text \<open>The encode pass, \<open>for _ in 0..n_symbols\<close>.\<close>

fun bench_encode :: "Dispatch \<Rightarrow> (unit, unit, ConstantFec) Encoder \<Rightarrow> bytes \<Rightarrow> bytes list \<Rightarrow> nat \<Rightarrow>
    ((unit, unit, ConstantFec) Encoder \<times> bytes list) res" where
  "bench_encode disp e payload wire 0 = Ok (e, wire)"
| "bench_encode disp e payload wire (Suc n) =
     and_then (submit_source disp NoCongestionControl ConstantFecRate e payload) (\<lambda>(e, outputs).
       bench_encode disp e payload (wire @ map raw_of outputs) n)"

text \<open>The events that are \<open>SourceReady\<close>.\<close>

fun ready_count :: "DecoderEvent list \<Rightarrow> nat" where
  "ready_count [] = 0"
| "ready_count (ev # events) = (case ev of SourceReady i data \<Rightarrow> 1 | _ \<Rightarrow> 0) + ready_count events"

text \<open>The decode pass, which tells the packets apart by their fourth byte.\<close>

fun bench_decode :: "(rat \<Rightarrow> rat) \<Rightarrow> Dispatch \<Rightarrow> ConstantFeedback Decoder \<Rightarrow> nat \<Rightarrow> bytes list \<Rightarrow> nat res" where
  "bench_decode rnd disp d delivered [] = Ok delivered"
| "bench_decode rnd disp d delivered (raw # wire) =
     and_then (index raw 3) (\<lambda>t.
       if t = 0 then
         and_then (SourcePacket_parse raw) (\<lambda>sp.
         and_then (handle_source rnd disp ConstantFeedbackPolicy d sp) (\<lambda>(d, events).
           bench_decode rnd disp d (delivered + ready_count events) wire))
       else
         and_then (CodedPacket_parse raw) (\<lambda>cp.
         and_then (handle_coded rnd disp ConstantFeedbackPolicy d cp) (\<lambda>(d, events).
           bench_decode rnd disp d (delivered + ready_count events) wire)))"

text \<open>The command, with the two counts it reports: packets emitted and symbols delivered.\<close>

definition bench_run :: "(rat \<Rightarrow> rat) \<Rightarrow> Dispatch \<Rightarrow> nat \<Rightarrow> nat \<Rightarrow> nat \<Rightarrow> Strategy \<Rightarrow> (nat \<times> nat, 'io CliError) outcome" where
  "bench_run rnd disp symbol_size window n_symbols strategy =
     o_then (from_res
       (and_then (EncoderConfigBuilder_build (with_backpressure (with_matrix_strategy (with_fec_rate
           (with_window_capacity (EncoderConfigBuilder_new symbol_size) window) 1 1) (into_delp strategy)) EvictOldest)) (\<lambda>enc_cfg.
        and_then (Encoder_with_defaults enc_cfg) (\<lambda>encoder.
        and_then (DecoderConfigBuilder_build (dec_with_feedback_every (DecoderConfigBuilder_new symbol_size) (- 1))) (\<lambda>dec_cfg.
        and_then (Decoder_with_defaults dec_cfg) (\<lambda>decoder.
        let payload = xorshift_bytes 0x9E3779B97F4A7C15 symbol_size in
        and_then (bench_encode disp encoder payload [] n_symbols) (\<lambda>(encoder, wire).
        and_then (bench_decode rnd disp decoder 0 wire) (\<lambda>delivered.
          Ok (length wire, delivered))))))))) (\<lambda>(emitted, delivered).
     if delivered \<noteq> n_symbols then Raised Unsound else Returned (emitted, delivered))"

section \<open>The demo of targeted coded packets\<close>

fun submit_times :: "Dispatch \<Rightarrow> nat \<Rightarrow> (unit, unit, ConstantFec) Encoder \<Rightarrow> bytes \<Rightarrow> (unit, unit, ConstantFec) Encoder res" where
  "submit_times disp 0 e payload = Ok e"
| "submit_times disp (Suc n) e payload =
     and_then (submit_source disp NoCongestionControl ConstantFecRate e payload) (\<lambda>(e, _). submit_times disp n e payload)"

text \<open>\<open>unwrap\<close> and the branch that is \<open>unreachable!\<close>.\<close>

fun expect_coded :: "EncoderOutput option \<Rightarrow> bytes res" where
  "expect_coded None = Panic"
| "expect_coded (Some (CodedOut b)) = Ok b"
| "expect_coded (Some (SourceOut b)) = Panic"

text \<open>For one strategy: the identifiers in the encoding vector and the length in bytes of the packet over the
  whole window and of the packet over the most recent symbols.\<close>

definition altc_report :: "Dispatch \<Rightarrow> nat \<Rightarrow> nat \<Rightarrow> nat \<Rightarrow> MatrixStrategy \<Rightarrow> ((nat \<times> nat) \<times> (nat \<times> nat)) res" where
  "altc_report disp window symbol_size cover strategy =
     (let n = (case strategy of Cauchy \<Rightarrow> min window 128 | Vandermonde \<Rightarrow> window);
          cover = min cover n in
      and_then (EncoderConfigBuilder_build (with_matrix_strategy (with_fec_rate
          (with_window_capacity (EncoderConfigBuilder_new symbol_size) n) 0 1) strategy)) (\<lambda>cfg.
      and_then (Encoder_with_defaults cfg) (\<lambda>enc.
      and_then (submit_times disp n enc (replicate symbol_size 0xAB)) (\<lambda>enc.
      and_then (generate_coded disp NoCongestionControl enc) (\<lambda>(enc, r).
      and_then (expect_coded r) (\<lambda>full.
      and_then (generate_coded_recent disp NoCongestionControl enc cover) (\<lambda>(enc, r).
      and_then (expect_coded r) (\<lambda>recent.
      and_then (CodedPacket_parse full) (\<lambda>cp_full.
      and_then (CodedPacket_parse recent) (\<lambda>cp_recent.
        Ok ((length (ev_source_ids (cp_ev cp_full)), length full),
            (length (ev_source_ids (cp_ev cp_recent)), length recent))))))))))))"

definition demo_altc :: "Dispatch \<Rightarrow> nat \<Rightarrow> nat \<Rightarrow> nat \<Rightarrow> (((nat \<times> nat) \<times> (nat \<times> nat)) list, 'io CliError) outcome" where
  "demo_altc disp window symbol_size cover =
     from_res (and_then (altc_report disp window symbol_size cover Vandermonde) (\<lambda>a.
               and_then (altc_report disp window symbol_size cover Cauchy) (\<lambda>b. Ok [a, b])))"

section \<open>The demo of generation rotation\<close>

definition demo_payload :: "nat \<Rightarrow> bytes" where
  "demo_payload i = map (\<lambda>j. of_nat (i * 31 + j * 7)) [0..<64]"

text \<open>Source packets go straight to the decoder, other outputs nowhere.\<close>

fun feed_sources :: "(rat \<Rightarrow> rat) \<Rightarrow> Dispatch \<Rightarrow> ConstantFeedback Decoder \<Rightarrow> EncoderOutput list \<Rightarrow> ConstantFeedback Decoder res" where
  "feed_sources rnd disp d [] = Ok d"
| "feed_sources rnd disp d (out # outs) =
     (case out of
        SourceOut raw \<Rightarrow>
          and_then (SourcePacket_parse raw) (\<lambda>sp.
          and_then (handle_source rnd disp ConstantFeedbackPolicy d sp) (\<lambda>(d, _). feed_sources rnd disp d outs))
      | CodedOut raw \<Rightarrow> feed_sources rnd disp d outs)"

fun demo_submit :: "(rat \<Rightarrow> rat) \<Rightarrow> Dispatch \<Rightarrow> (unit, unit, ConstantFec) Encoder \<Rightarrow> ConstantFeedback Decoder \<Rightarrow> nat list \<Rightarrow>
    ((unit, unit, ConstantFec) Encoder \<times> ConstantFeedback Decoder) res" where
  "demo_submit rnd disp e d [] = Ok (e, d)"
| "demo_submit rnd disp e d (i # is) =
     and_then (submit_source disp NoCongestionControl ConstantFecRate e (demo_payload i)) (\<lambda>(e, outs).
     and_then (feed_sources rnd disp d outs) (\<lambda>d. demo_submit rnd disp e d is))"

text \<open>The loop over the coded packets keeps the largest generation seen and the number of symbols delivered.\<close>

fun demo_coded :: "(rat \<Rightarrow> rat) \<Rightarrow> Dispatch \<Rightarrow> (unit, unit, ConstantFec) Encoder \<Rightarrow> ConstantFeedback Decoder \<Rightarrow> u8 \<Rightarrow> nat \<Rightarrow>
    nat list \<Rightarrow> ((unit, unit, ConstantFec) Encoder \<times> ConstantFeedback Decoder \<times> u8 \<times> nat, 'io CliError) outcome" where
  "demo_coded rnd disp e d max_gen delivered_post [] = Returned (e, d, max_gen, delivered_post)"
| "demo_coded rnd disp e d max_gen delivered_post (i # is) =
     o_then (from_res (generate_coded disp NoCongestionControl e)) (\<lambda>(e, r).
     case r of
       None \<Rightarrow> Raised (WindowEmpty i)
     | Some (SourceOut raw) \<Rightarrow> Panicked
     | Some (CodedOut raw) \<Rightarrow>
         o_then (from_res (CodedPacket_parse raw)) (\<lambda>cp.
         o_then (from_res (handle_coded rnd disp ConstantFeedbackPolicy d cp)) (\<lambda>(d, events).
           demo_coded rnd disp e d (max max_gen (ev_generation (cp_ev cp))) (delivered_post + ready_count events) is)))"

text \<open>The figures reported: generation and number of coded identifiers of the encoder, largest generation seen,
  symbols delivered by coded packets, and the delivery pointer.\<close>

definition demo_generation :: "(rat \<Rightarrow> rat) \<Rightarrow> Dispatch \<Rightarrow> nat \<Rightarrow> u32 \<Rightarrow> (u8 \<times> u64 \<times> u8 \<times> nat \<times> u32, 'io CliError) outcome" where
  "demo_generation rnd disp n_symbols n_coded =
     o_then (from_res
       (and_then (EncoderConfigBuilder_build (with_fec_rate (with_window_capacity (with_matrix_strategy
           (EncoderConfigBuilder_new 64) Cauchy) (max n_symbols 1)) 0 1)) (\<lambda>cfg.
        and_then (Encoder_with_defaults cfg) (\<lambda>encoder.
        and_then (DecoderConfigBuilder_build (dec_with_feedback_every (DecoderConfigBuilder_new 64) (- 1))) (\<lambda>dec_cfg.
        and_then (Decoder_with_defaults dec_cfg) (\<lambda>decoder.
          demo_submit rnd disp encoder decoder [0..<n_symbols])))))) (\<lambda>(encoder, decoder).
     o_then (demo_coded rnd disp encoder decoder 0 0 [0..<unat n_coded]) (\<lambda>(encoder, decoder, max_gen, delivered_post).
       Returned (enc_generation encoder, coded_ids_used encoder, max_gen, delivered_post,
         next_delivery_id (dec_buffer decoder))))"

end
