(* ===== verification/Cli_Tools_Correct.thy ===== *)
theory Cli_Tools_Correct
  imports Cli_Tools File_Send_Correct File_Recv_Correct Coded_Ids
begin

text \<open>
  The benchmark and the demos do what they claim, or not: the benchmark never reports an unsound run; the
  demo of targeted packets covers what it says; the demo of generation rotation never learns anything from
  the coded packets it decodes.
\<close>

lemma ready_count_deliveries: "ready_count evs = length (deliveries evs)"
  by (induction evs) (auto split: DecoderEvent.split)

lemma xorshift_length [simp]: "length (xorshift_bytes x n) = n"
  by (induction n arbitrary: x) (simp_all add: Let_def)

section \<open>The benchmark\<close>

lemma bench_encode_ok:
  assumes "file_trace disp (Encoder_new config () () fec) outs ds e" "length ds + n \<le> 65535"
    and "encoder_config_ok config" "ec_window_capacity config \<le> 255" "ec_backpressure config = EvictOldest"
    and "length payload = ec_symbol_size config" "enc_fec e = \<lparr> fec_numer = 1, fec_denom = 1, fec_acc = 0 \<rparr>"
  shows "\<exists>e' new. bench_encode disp e payload (map raw_of outs) n = Ok (e', map raw_of (outs @ new)) \<and> length new = 2 * n \<and>
    file_trace disp (Encoder_new config () () fec) (outs @ new) (ds @ replicate n payload) e'"
  using assms
proof (induction n arbitrary: outs ds e)
  case 0
  then show ?case by (intro exI [of _ e] exI [of _ "[]"]) simp
next
  case (Suc n)
  have l: "length ds < 65535" and room: "is_full (enc_window e) \<longrightarrow> ec_backpressure config = EvictOldest"
    using Suc.prems(2,5) by simp_all
  obtain e1 pkt pkts where s: "submit_source disp NoCongestionControl ConstantFecRate e payload = Ok (e1, SourceOut pkt # map CodedOut pkts)"
    "file_trace disp (Encoder_new config () () fec) (outs @ SourceOut pkt # map CodedOut pkts) (ds @ [payload]) e1"
    "length pkts = (fec_acc (enc_fec e) + fec_numer (enc_fec e)) div fec_denom (enc_fec e)"
    "enc_fec e1 = enc_fec e\<lparr> fec_acc := (fec_acc (enc_fec e) + fec_numer (enc_fec e)) mod fec_denom (enc_fec e) \<rparr>"
    by (rule submit_extends [OF Suc.prems(1) l Suc.prems(3,4) room Suc.prems(6)])
  have one: "length pkts = 1" "enc_fec e1 = \<lparr> fec_numer = 1, fec_denom = 1, fec_acc = 0 \<rparr>"
    using s(3,4) Suc.prems(7) by simp_all
  let ?new = "SourceOut pkt # map CodedOut pkts"
  obtain e' new where r: "bench_encode disp e1 payload (map raw_of (outs @ ?new)) n = Ok (e', map raw_of ((outs @ ?new) @ new))"
    "length new = 2 * n" "file_trace disp (Encoder_new config () () fec) ((outs @ ?new) @ new) ((ds @ [payload]) @ replicate n payload) e'"
    using Suc.IH [OF s(2) _ Suc.prems(3-6) one(2)] Suc.prems(2) by auto
  show ?case
    by (rule exI [of _ e'], rule exI [of _ "?new @ new"]) (use s(1) one(1) r in simp)
qed

lemma bench_decode_run:
  assumes "list_all2 carries wire ps" "decoder_run rnd disp ConstantFeedbackPolicy d ps = Ok (d', evs)"
  shows "bench_decode rnd disp d k wire = Ok (k + length (deliveries evs))"
  using assms
proof (induction wire ps arbitrary: d k evs rule: list_all2_induct)
  case (Cons raw wire p ps)
  from Cons.prems obtain d1 a b where h: "handle_packet rnd disp ConstantFeedbackPolicy d p = Ok (d1, a)"
    "decoder_run rnd disp ConstantFeedbackPolicy d1 ps = Ok (d', b)" "evs = a @ b" by auto
  note IH = Cons.IH [OF h(2), of "k + length (deliveries a)"]
  show ?case
  proof (cases p)
    case (SourceP pkt)
    then have p: "SourcePacket_parse raw = Ok pkt" using Cons.hyps(1) by simp
    note t = parsed_type_byte [OF source_parse_type [OF p]]
    have "index raw 3 = Ok 0" using t by (simp add: index_def)
    then show ?thesis using p h(1,3) SourceP IH by (simp add: ready_count_deliveries add.assoc)
  next
    case (CodedP pkt)
    then have p: "CodedPacket_parse raw = Ok pkt" using Cons.hyps(1) by simp
    note t = parsed_type_byte [OF coded_parse_type [OF p]]
    have "index raw 3 = Ok 1" using t by (simp add: index_def)
    then show ?thesis using p h(1,3) CodedP IH by (simp add: ready_count_deliveries add.assoc)
  qed (use Cons.hyps(1) in simp)
qed simp

abbreviation bench_config :: "nat \<Rightarrow> nat \<Rightarrow> MatrixStrategy \<Rightarrow> EncoderConfig" where
  "bench_config sz window s \<equiv> \<lparr> ec_symbol_size = sz, ec_window_capacity = window, ec_field = Gf2_8_field, ec_fec_numer = 1,
     ec_fec_denom = 1, ec_backpressure = EvictOldest, ec_matrix_strategy = s \<rparr>"

text \<open>C33: the benchmark is sound: with a valid symbol size, a window of at most 255 symbols (128 for Cauchy) and at
  most 65535 symbols, on every instruction set, the encode pass emits exactly two packets per symbol, the decode
  pass never fails and delivers every symbol, so the command never ends with the report that it is unsound.\<close>

theorem bench_passes:
  assumes "0 < sz" "sz \<le> 65535" "0 < window" "window \<le> 255" "strategy = Strategy_Cauchy \<longrightarrow> window \<le> 128" "n \<le> 65535"
  shows "bench_run rnd disp sz window n strategy = Returned (2 * n, n)"
proof -
  let ?cfg = "bench_config sz window (into_delp strategy)" and ?fec = "\<lparr> fec_numer = 1, fec_denom = 1, fec_acc = 0 \<rparr>"
    and ?d = "\<lparr> dc_symbol_size = sz, dc_field = Gf2_8_field, dc_max_matrix_rows = 512, dc_feedback_every = - 1 \<rparr>"
    and ?policy = "\<lparr> fp_period = 16, fp_counter = 0 \<rparr> :: ConstantFeedback" and ?p = "xorshift_bytes 0x9E3779B97F4A7C15 sz"
  have cfg: "encoder_config_ok ?cfg" "ec_window_capacity ?cfg \<le> 255"
    using assms(1-5) by (cases strategy; simp add: encoder_config_ok_def)+
  have fec: "enc_fec (Encoder_new ?cfg () () ?fec) = ?fec" by (simp add: Encoder_new_def)
  have "\<exists>e' new. bench_encode disp (Encoder_new ?cfg () () ?fec) ?p (map raw_of []) n = Ok (e', map raw_of ([] @ new)) \<and>
      length new = 2 * n \<and> file_trace disp (Encoder_new ?cfg () () ?fec) ([] @ new) ([] @ replicate n ?p) e'"
    by (rule bench_encode_ok [OF encoder_trace.start _ cfg _ _ fec]) (use assms(6) in simp_all)
  then obtain e wire where b: "bench_encode disp (Encoder_new ?cfg () () ?fec) ?p (map raw_of []) n = Ok (e, map raw_of ([] @ wire))"
    "length wire = 2 * n" "file_trace disp (Encoder_new ?cfg () () ?fec) ([] @ wire) ([] @ replicate n ?p) e" by blast
  have dc: "dc_field ?d = ec_field ?cfg" "dc_symbol_size ?d = ec_symbol_size ?cfg" by simp_all
  have len: "length ([] @ replicate n ?p) \<le> 65535" using assms(6) by simp
  obtain ps d evs where r: "list_all2 carries (map raw_of ([] @ wire)) ps"
    "decoder_run rnd disp ConstantFeedbackPolicy (Decoder_new ?d ?policy) ps = Ok (d, evs)"
    "deliveries evs = map (\<lambda>k. (of_nat k, ([] @ replicate n ?p) ! k)) [0..<length ([] @ replicate n ?p)]"
    by (rule lossless_decoder [OF no_cc.congestion_control_axioms TrueI cfg b(3) len dc])
  have "bench_decode rnd disp (Decoder_new ?d ?policy) 0 (map raw_of ([] @ wire)) = Ok n"
    using bench_decode_run [OF r(1,2), of 0] r(3) by simp
  moreover have "EncoderConfigBuilder_build (with_backpressure (with_matrix_strategy (with_fec_rate
           (with_window_capacity (EncoderConfigBuilder_new sz) window) 1 1) (into_delp strategy)) EvictOldest) = Ok ?cfg"
    using cfg(1) unfolding EncoderConfigBuilder_build_Ok by (simp add: EncoderConfigBuilder_new_def)
  ultimately show ?thesis
    using b(1,2) assms(1,2) unfolding bench_run_def
    by (simp add: Encoder_with_defaults_def ConstantFecRate_new_def DecoderConfigBuilder_new_def Decoder_with_defaults_def
        ConstantFeedbackPolicy_new_def Let_def)
qed

theorem bench_passes_witness:
  "bench_run (\<lambda>x. x) Avx2 1024 64 10000 Strategy_Cauchy = (Returned (20000, 10000) :: (nat \<times> nat, unit CliError) outcome)"
  using bench_passes [of 1024 64 Strategy_Cauchy 10000 "\<lambda>x. x" Avx2] by simp

section \<open>The demo of targeted coded packets\<close>

text \<open>As long as the window has room, it keeps every symbol.\<close>

lemma submit_times_ok:
  assumes "file_trace disp (Encoder_new config () () fec) outs ds e" "length (win_symbols (enc_window e)) = length ds"
    and "length ds + n \<le> ec_window_capacity config" "encoder_config_ok config" "ec_window_capacity config \<le> 255"
    and "length payload = ec_symbol_size config"
  shows "\<exists>e' new. submit_times disp n e payload = Ok e' \<and>
    file_trace disp (Encoder_new config () () fec) (outs @ new) (ds @ replicate n payload) e' \<and>
    length (win_symbols (enc_window e')) = length ds + n"
  using assms
proof (induction n arbitrary: outs ds e)
  case 0
  then show ?case by (intro exI [of _ e] exI [of _ "[]"]) simp
next
  case (Suc n)
  have l: "length ds < 65535" "length ds \<le> 65535" using Suc.prems(3,5) by simp_all
  note st = trace_state [OF Suc.prems(4,5) l(2) Suc.prems(1)]
  have full: "\<not> is_full (enc_window e)" using st(1,2) Suc.prems(2,3) by (simp add: encoder_ok_def is_full_def)
  then have room: "is_full (enc_window e) \<longrightarrow> ec_backpressure config = EvictOldest" by simp
  obtain e1 pkt pkts where s: "submit_source disp NoCongestionControl ConstantFecRate e payload = Ok (e1, SourceOut pkt # map CodedOut pkts)"
    "file_trace disp (Encoder_new config () () fec) (outs @ SourceOut pkt # map CodedOut pkts) (ds @ [payload]) e1"
    "enc_window e1 = fst (window_push (make_room e) payload)"
    by (rule submit_extends [OF Suc.prems(1) l(1) Suc.prems(4,5) room Suc.prems(6)])
  have w1: "length (win_symbols (enc_window e1)) = length (ds @ [payload])"
    using full Suc.prems(2) by (simp add: s(3) make_room_def window_push_def Let_def split: option.split)
  obtain e' new where r: "submit_times disp n e1 payload = Ok e'"
    "file_trace disp (Encoder_new config () () fec) ((outs @ SourceOut pkt # map CodedOut pkts) @ new) ((ds @ [payload]) @ replicate n payload) e'"
    "length (win_symbols (enc_window e')) = length (ds @ [payload]) + n"
    using Suc.IH [OF s(2) w1 _ Suc.prems(4-6)] Suc.prems(3) by auto
  show ?case
    by (rule exI [of _ e'], rule exI [of _ "(SourceOut pkt # map CodedOut pkts) @ new"]) (use s(1) r in simp)
qed

text \<open>A packet over a selection of the window: it is made, parses, and covers the selection.\<close>

lemma selection_parses:
  assumes e: "sending (\<lambda>_. True) config S n e" "n \<le> 65535" "ec_window_capacity config \<le> 255" and cover: "selection e cover"
  obtains e' b cp where "generate_coded_inner disp NoCongestionControl e cover = Ok (e', Some (CodedOut b))"
    "sending (\<lambda>_. True) config S n e'" "enc_window e' = enc_window e"
    "CodedPacket_parse b = Ok cp" "ev_source_ids (cp_ev cp) = cover"
proof -
  have "encoder_ok e" using e(1) by (simp add: sending_def)
  from inner_total [OF this cover] obtain e' b where
    g: "generate_coded_inner disp NoCongestionControl e cover = Ok (e', Some (CodedOut b))" by blast
  obtain p where p: "sending (\<lambda>_. True) config S n e'" "enc_window e' = enc_window e"
    "outputs_true (ec_field config) (ec_symbol_size config) S n [CodedOut b] [p]" "covers cover p"
    using no_cc.inner_true [OF e cover g] by blast
  obtain cp where cp: "p = CodedP cp" "ev_source_ids (cp_ev cp) = cover" using p(4) by (cases p) auto
  then have "CodedPacket_parse b = Ok cp" using p(3) by (simp add: outputs_true_def)
  then show ?thesis by (rule that [OF g p(1,2) _ cp(2)])
qed

lemma altc_report_ok:
  assumes "0 < sz" "sz \<le> 65535" "0 < n" "n \<le> 255" "n = (case strategy of Cauchy \<Rightarrow> min window 128 | Vandermonde \<Rightarrow> window)" "0 < cover"
  shows "\<exists>l1 l2. altc_report disp window sz cover strategy = Ok ((n, l1), (min cover n, l2))"
proof -
  let ?cfg = "\<lparr> ec_symbol_size = sz, ec_window_capacity = n, ec_field = Gf2_8_field, ec_fec_numer = 0,
     ec_fec_denom = 1, ec_backpressure = Reject, ec_matrix_strategy = strategy \<rparr>" and ?fec = "\<lparr> fec_numer = 0, fec_denom = 1, fec_acc = 0 \<rparr>"
    and ?p = "replicate sz 0xAB :: bytes"
  have cfg: "encoder_config_ok ?cfg" "ec_window_capacity ?cfg \<le> 255"
    using assms(1-5) by (simp_all add: encoder_config_ok_def)
  have build: "EncoderConfigBuilder_build (with_matrix_strategy (with_fec_rate
      (with_window_capacity (EncoderConfigBuilder_new sz) n) 0 1) strategy) = Ok ?cfg"
    using cfg(1) unfolding EncoderConfigBuilder_build_Ok by (simp add: EncoderConfigBuilder_new_def)
  have w0: "length (win_symbols (enc_window (Encoder_new ?cfg () () ?fec))) = length ([] :: bytes list)"
    by (simp add: Encoder_new_def EncodingWindow_new_def)
  have "\<exists>e' new. submit_times disp n (Encoder_new ?cfg () () ?fec) ?p = Ok e' \<and>
      file_trace disp (Encoder_new ?cfg () () ?fec) ([] @ new) ([] @ replicate n ?p) e' \<and>
      length (win_symbols (enc_window e')) = length ([] :: bytes list) + n"
    by (rule submit_times_ok [OF encoder_trace.start w0 _ cfg]) simp_all
  then obtain e outs where s: "submit_times disp n (Encoder_new ?cfg () () ?fec) ?p = Ok e"
    "file_trace disp (Encoder_new ?cfg () () ?fec) outs (replicate n ?p) e" "length (win_symbols (enc_window e)) = n" by auto
  have n: "n \<le> 65535" "length (replicate n ?p) \<le> 65535" using assms(4) by simp_all
  have e: "sending (\<lambda>_. True) ?cfg (payloads sz 0 (replicate n ?p)) n e" using trace_sending [OF no_cc.congestion_control_axioms TrueI cfg s(2) n(2), of sz 0] by simp
  let ?ids = "id_slice (enc_window e)" and ?k = "min (min cover n) n"
  have ids: "sorted_wrt (<) ?ids" "length ?ids = n"
    using e encoder_ids(1) [of e] s(3) by (simp_all add: sending_def id_slice_def)
  have sel: "selection e ?ids" using ids assms(3) by (auto simp: selection_def)
  obtain e1 b1 cp1 where f: "generate_coded_inner disp NoCongestionControl e ?ids = Ok (e1, Some (CodedOut b1))"
    "sending (\<lambda>_. True) ?cfg (payloads sz 0 (replicate n ?p)) n e1" "enc_window e1 = enc_window e"
    "CodedPacket_parse b1 = Ok cp1" "ev_source_ids (cp_ev cp1) = ?ids"
    by (rule selection_parses [OF e n(1) cfg(2) sel])
  let ?recent = "drop (n - ?k) ?ids"
  have "set ?recent \<subseteq> set ?ids" by (rule set_drop_subset)
  then have sel2: "selection e1 ?recent"
    using ids assms(3,6) by (auto simp: selection_def f(3) sorted_wrt_drop)
  obtain e2 b2 cp2 where r: "generate_coded_inner disp NoCongestionControl e1 ?recent = Ok (e2, Some (CodedOut b2))"
    "CodedPacket_parse b2 = Ok cp2" "ev_source_ids (cp_ev cp2) = ?recent"
    by (rule selection_parses [OF f(2) n(1) cfg(2) sel2])
  have ne: "win_symbols (enc_window e) \<noteq> []" using s(3) assms(3) by auto
  have "generate_coded disp NoCongestionControl e = Ok (e1, Some (CodedOut b1))"
    using f(1) ne by (simp add: generate_coded_def window_is_empty_def id_slice_def)
  moreover have "generate_coded_recent disp NoCongestionControl e1 (min cover n) = Ok (e2, Some (CodedOut b2))"
    using r(1) ne s(3) assms(3,6) f(3)
    by (simp add: generate_coded_recent_def window_is_empty_def id_slice_def Let_def drop_map)
  moreover have "length ?recent = min cover n" using ids(2) by simp
  ultimately show ?thesis
    using build s(1) f(4,5) r(2,3) ids(2)
    by (simp add: altc_report_def assms(5) [symmetric] Let_def Encoder_with_defaults_def ConstantFecRate_new_def)
qed

text \<open>The demo of targeted coding reports what it promises: for both strategies the full packet covers every
  symbol of the window (at most 128 for Cauchy), and the targeted one exactly as many symbols as asked for, or
  the whole window when more are asked for; nothing fails on the way.\<close>

lemma demo_altc_covers:
  assumes "0 < sz" "sz \<le> 65535" "0 < window" "window \<le> 255" "0 < cover"
  shows "\<exists>a b c d. demo_altc disp window sz cover =
    Returned [((window, a), (min cover window, b)), ((min window 128, c), (min cover (min window 128), d))]"
proof -
  have v: "0 < window" "window \<le> 255" "window = (case Vandermonde of Cauchy \<Rightarrow> min window 128 | Vandermonde \<Rightarrow> window)"
    and c: "0 < min window 128" "min window 128 \<le> 255" "min window 128 = (case Cauchy of Cauchy \<Rightarrow> min window 128 | Vandermonde \<Rightarrow> window)"
    using assms(3,4) by simp_all
  show ?thesis
    using altc_report_ok [OF assms(1,2) v assms(5), of disp] altc_report_ok [OF assms(1,2) c assms(5), of disp]
    by (auto simp: demo_altc_def)
qed

section \<open>The demo of generation rotation\<close>

lemma feed_sources_append:
  "feed_sources rnd disp d (a @ b) = and_then (feed_sources rnd disp d a) (\<lambda>d. feed_sources rnd disp d b)"
proof (induction a arbitrary: d)
  case (Cons t a)
  show ?case
  proof (cases t)
    case (SourceOut raw)
    show ?thesis
    proof (cases "SourcePacket_parse raw")
      case (Ok sp)
      with Cons show ?thesis by (cases "handle_source rnd disp ConstantFeedbackPolicy d sp") (auto simp: SourceOut)
    qed (simp_all add: SourceOut)
  qed (simp add: Cons)
qed simp

lemma demo_submit_run:
  assumes "file_trace disp (Encoder_new config () () fec) outs ds e" "length (win_symbols (enc_window e)) = length ds"
    and "length ds + length is \<le> ec_window_capacity config" "encoder_config_ok config" "ec_window_capacity config \<le> 255"
    and "ec_symbol_size config = 64" "enc_fec e = \<lparr> fec_numer = 0, fec_denom = 1, fec_acc = 0 \<rparr>"
  shows "\<exists>e' pkts. (\<forall>d. demo_submit rnd disp e d is = and_then (feed_sources rnd disp d (map SourceOut pkts)) (\<lambda>d. Ok (e', d))) \<and>
    length pkts = length is \<and> length (win_symbols (enc_window e')) = length ds + length is \<and>
    file_trace disp (Encoder_new config () () fec) (outs @ map SourceOut pkts) (ds @ map demo_payload is) e'"
  using assms
proof (induction "is" arbitrary: outs ds e)
  case Nil
  then show ?case by (intro exI [of _ e] exI [of _ "[]"]) simp
next
  case (Cons i "is")
  have l: "length ds < 65535" "length ds \<le> 65535" using Cons.prems(3,5) by simp_all
  note st = trace_state [OF Cons.prems(4,5) l(2) Cons.prems(1)]
  have full: "\<not> is_full (enc_window e)" using st(1,2) Cons.prems(2,3) by (simp add: encoder_ok_def is_full_def)
  then have room: "is_full (enc_window e) \<longrightarrow> ec_backpressure config = EvictOldest" by simp
  have size: "length (demo_payload i) = ec_symbol_size config" using Cons.prems(6) by (simp add: demo_payload_def)
  obtain e1 pkt pkts where s: "submit_source disp NoCongestionControl ConstantFecRate e (demo_payload i) = Ok (e1, SourceOut pkt # map CodedOut pkts)"
    "file_trace disp (Encoder_new config () () fec) (outs @ SourceOut pkt # map CodedOut pkts) (ds @ [demo_payload i]) e1"
    "enc_window e1 = fst (window_push (make_room e) (demo_payload i))"
    "length pkts = (fec_acc (enc_fec e) + fec_numer (enc_fec e)) div fec_denom (enc_fec e)"
    "enc_fec e1 = enc_fec e\<lparr> fec_acc := (fec_acc (enc_fec e) + fec_numer (enc_fec e)) mod fec_denom (enc_fec e) \<rparr>"
    by (rule submit_extends [OF Cons.prems(1) l(1) Cons.prems(4,5) room size])
  have none: "pkts = []" "enc_fec e1 = \<lparr> fec_numer = 0, fec_denom = 1, fec_acc = 0 \<rparr>" using s(4,5) Cons.prems(7) by simp_all
  have w1: "length (win_symbols (enc_window e1)) = length (ds @ [demo_payload i])"
    using full Cons.prems(2) by (simp add: s(3) make_room_def window_push_def Let_def split: option.split)
  obtain e' new where r: "\<And>d. demo_submit rnd disp e1 d is = and_then (feed_sources rnd disp d (map SourceOut new)) (\<lambda>d. Ok (e', d))"
    "length new = length is" "length (win_symbols (enc_window e')) = length (ds @ [demo_payload i]) + length is"
    "file_trace disp (Encoder_new config () () fec) ((outs @ [SourceOut pkt]) @ map SourceOut new) ((ds @ [demo_payload i]) @ map demo_payload is) e'"
    using Cons.IH [OF s(2) w1 _ Cons.prems(4-6) none(2)] Cons.prems(3) none(1) by auto
  have "demo_submit rnd disp e d (i # is) = and_then (feed_sources rnd disp d (map SourceOut (pkt # new))) (\<lambda>d. Ok (e', d))" for d
  proof -
    have split: "feed_sources rnd disp d (map SourceOut (pkt # new)) =
        and_then (feed_sources rnd disp d [SourceOut pkt]) (\<lambda>d. feed_sources rnd disp d (map SourceOut new))"
      using feed_sources_append [of rnd disp d "[SourceOut pkt]" "map SourceOut new"] by (simp only: list.map append_Cons append_Nil)
    have "demo_submit rnd disp e d (i # is) = and_then (feed_sources rnd disp d [SourceOut pkt]) (\<lambda>d. demo_submit rnd disp e1 d is)"
      using s(1) none(1) by (simp del: feed_sources.simps)
    then show ?thesis unfolding split r(1) by (cases "feed_sources rnd disp d [SourceOut pkt]") (simp_all del: feed_sources.simps)
  qed
  then show ?case
    by (intro exI [of _ e'] exI [of _ "pkt # new"]) (use r(2-4) in simp)
qed

text \<open>Feeding the source packets is running the decoder on them.\<close>

lemma source_count_le: "source_count ps \<le> length ps"
  by (induction ps rule: source_count.induct) simp_all

lemma feed_sources_run:
  assumes "list_all2 carries pkts ps" "source_count ps = length pkts" "decoder_run rnd disp ConstantFeedbackPolicy d ps = Ok (d', evs)"
  shows "feed_sources rnd disp d (map SourceOut pkts) = Ok d'"
  using assms
proof (induction pkts ps arbitrary: d evs rule: list_all2_induct)
  case (Cons raw pkts p ps)
  have len: "length ps = length pkts" using Cons.hyps(2) by (simp add: list_all2_lengthD)
  from Cons.prems obtain d1 a b where h: "handle_packet rnd disp ConstantFeedbackPolicy d p = Ok (d1, a)"
    "decoder_run rnd disp ConstantFeedbackPolicy d1 ps = Ok (d', b)" by auto
  obtain pkt where p: "p = SourceP pkt" "source_count ps = length pkts"
    using Cons.prems(1) source_count_le [of ps] len by (cases p) auto
  show ?case using Cons.IH [OF p(2) h(2)] Cons.hyps(1) h(1) p(1) by simp
qed simp

lemma demo_coded_run:
  assumes "coded_loop disp NoCongestionControl (length is) e out = Ok (e', out @ map CodedOut raws)" "length raws = length is"
    and "list_all2 carries raws ps" "\<forall>p \<in> set ps. is_coded p"
    and "decoder_run rnd disp ConstantFeedbackPolicy d ps = Ok (d', evs)"
  shows "\<exists>g. (demo_coded rnd disp e d max_gen k is :: (_, 'io CliError) outcome) = Returned (e', d', g, k + length (deliveries evs))"
  using assms
proof (induction "is" arbitrary: e out raws ps d evs max_gen k)
  case (Cons i "is")
  from Cons.prems(1) obtain e1 r where g: "generate_coded disp NoCongestionControl e = Ok (e1, r)"
    "(case r of Some coded \<Rightarrow> coded_loop disp NoCongestionControl (length is) e1 (out @ [coded]) | None \<Rightarrow> Ok (e1, out)) =
       Ok (e', out @ map CodedOut raws)" by auto
  obtain raw raws' where raws: "raws = raw # raws'" "length raws' = length is" using Cons.prems(2) by (cases raws) auto
  from g(2) raws obtain t where t: "r = Some t" "coded_loop disp NoCongestionControl (length is) e1 (out @ [t]) = Ok (e', out @ map CodedOut raws)"
    by (cases r) auto
  from coded_loop_trace [OF t(2) encoder_trace.start] raws(1) have "t = CodedOut raw" by auto
  note t = t [unfolded this]
  obtain p qs where ps: "ps = p # qs" "carries raw p" "list_all2 carries raws' qs" using Cons.prems(3) raws(1) by (auto simp: list_all2_Cons1)
  obtain pkt where p: "p = CodedP pkt" "CodedPacket_parse raw = Ok pkt" using Cons.prems(4) ps(1,2) by (cases p) auto
  from Cons.prems(5) ps(1) p(1) obtain d1 a b where h: "handle_coded rnd disp ConstantFeedbackPolicy d pkt = Ok (d1, a)"
    "decoder_run rnd disp ConstantFeedbackPolicy d1 qs = Ok (d', b)" "evs = a @ b" by auto
  have "coded_loop disp NoCongestionControl (length is) e1 (out @ [CodedOut raw]) = Ok (e', (out @ [CodedOut raw]) @ map CodedOut raws')"
    using t(2) raws(1) by simp
  from Cons.IH [OF this raws(2) ps(3) _ h(2), of "max max_gen (ev_generation (cp_ev pkt))" "k + ready_count a"] Cons.prems(4) ps(1)
  show ?case using g(1) t(1) p(2) h(1,3) by (simp add: ready_count_deliveries add.assoc)
qed auto

text \<open>The coded packets after the whole window was delivered.\<close>

lemma coded_after_sources:
  assumes cfg: "encoder_config_ok config" "ec_window_capacity config \<le> 255" "length ds \<le> 65535" "ds \<noteq> []"
    and tr: "file_trace disp (Encoder_new config () () fec) (map SourceOut pkts) ds e" "length pkts = length ds"
      "length (win_symbols (enc_window e)) = length ds"
    and dc: "dc_field dconfig = ec_field config" "dc_symbol_size dconfig = ec_symbol_size config"
    and cnt: "ec_matrix_strategy config = Cauchy" "ec_field config = Gf2_8_field"
  obtains e' d d' where "feed_sources rnd disp (Decoder_new dconfig policy) (map SourceOut pkts) = Ok d"
    "next_of d' = of_nat (length ds)" "enc_generation e' = of_nat (length ks div 128)" "coded_ids_used e' = of_nat (length ks)"
    "\<And>g0. \<exists>g. (demo_coded rnd disp e d g0 0 ks :: (_, 'io CliError) outcome) = Returned (e', d', g, 0)"
proof -
  let ?d0 = "Decoder_new dconfig policy" and ?S = "payloads (ec_symbol_size config) 0 ds" and ?f = "ec_field config"
    and ?L = "ec_symbol_size config" and ?all = "map (\<lambda>k. (of_nat k :: u32, ds ! k)) [0..<length ds]"
  have e: "sending (\<lambda>_. True) config ?S (length ds) e" by (rule trace_sending [OF no_cc.congestion_control_axioms TrueI cfg(1,2) tr(1) cfg(3)])
  then have ok: "encoder_ok e" "enc_config e = config" by (simp_all add: sending_def)
  have ne: "win_symbols (enc_window e) \<noteq> []" using tr(3) cfg(4) by auto
  obtain e' raws where l: "coded_loop disp NoCongestionControl (length ks) e [] = Ok (e', [] @ map CodedOut raws)" "length raws = length ks"
    using no_cc.coded_loop_ok [OF ok(1) TrueI ne, of disp "length ks" "[]"] by blast
  obtain new ps2 where p2: "[] @ map CodedOut raws = [] @ new" "\<forall>p \<in> set ps2. covers (id_slice (enc_window e)) p"
    "outputs_true ?f ?L ?S (length ds) new ps2"
    using no_cc.coded_loop_true [OF e cfg(3,2) l(1)] by blast
  have c2: "list_all2 carries raws ps2" using p2(1,3) by (auto simp: outputs_true_def list_all2_map1)
  have coded: "\<forall>p \<in> set ps2. is_coded p" using p2(2) covers_is_coded by blast
  have tr2: "file_trace disp (Encoder_new config () () fec) (map SourceOut pkts @ map CodedOut raws) ds e'"
    using coded_loop_trace [OF l(1) tr(1)] by auto
  have pre: "\<forall>k < length ds. ?S (of_nat k) = ds ! k" using cfg(3) by (simp add: payloads_def unat_of_nat)
  obtain ps1 where p1: "outputs_true ?f ?L ?S (length ds) (map SourceOut pkts) ps1" "source_count ps1 = length ds"
    using no_cc.trace_invariant [OF tr(1) sending_new [OF cfg(1), where cinv = "\<lambda>_. True", OF TrueI] cfg(2,3) pre] by auto
  then have c1: "list_all2 carries pkts ps1" by (simp add: outputs_true_def list_all2_map1)
  obtain qs d evs where q: "list_all2 carries (map raw_of (map SourceOut pkts)) qs"
    "decoder_run rnd disp ConstantFeedbackPolicy ?d0 qs = Ok (d, evs)" "deliveries evs = ?all"
    by (rule lossless_decoder [OF no_cc.congestion_control_axioms TrueI cfg(1,2) tr(1) cfg(3) dc])
  have "qs = ps1" by (rule carries_list_unique [where raws = pkts]) (use q(1) c1 in \<open>simp_all add: comp_def\<close>)
  note q = q(2,3) [unfolded this]
  obtain qs d' evs' where r: "list_all2 carries (map raw_of (map SourceOut pkts @ map CodedOut raws)) qs"
    "decoder_run rnd disp ConstantFeedbackPolicy ?d0 qs = Ok (d', evs')" "deliveries evs' = ?all" "next_of d' = of_nat (length ds)"
    by (rule lossless_decoder [OF no_cc.congestion_control_axioms TrueI cfg(1,2) tr2 cfg(3) dc])
  have "qs = ps1 @ ps2"
    by (rule carries_list_unique [where raws = "pkts @ raws"])
      (use r(1) c1 c2 in \<open>simp_all add: comp_def list_all2_appendI\<close>)
  note r = r(2-4) [unfolded this]
  then obtain evs2 where d2: "decoder_run rnd disp ConstantFeedbackPolicy d ps2 = Ok (d', evs2)" "evs' = evs @ evs2"
    using q(1) by (auto simp: decoder_run_append)
  have "length (deliveries evs) + length (deliveries evs2) = length (deliveries evs')" using d2(2) by simp
  then have z: "length (deliveries evs2) = 0" using q(2) r(2) by simp
  have feed: "feed_sources rnd disp ?d0 (map SourceOut pkts) = Ok d"
    by (rule feed_sources_run [OF c1 _ q(1)]) (use p1(2) tr(2) in simp)
  have "filter is_coded_out (map SourceOut pkts @ map CodedOut raws) = map CodedOut raws" by (simp add: filter_map comp_def)
  with trace_counts [OF tr2] have "counts (length ks) e'" using l(2) by simp
  moreover have "enc_config e' = config" using trace_sizes [OF tr2] by (simp add: Encoder_new_def Let_def)
  ultimately have cnt': "enc_generation e' = of_nat (length ks div 128)" "coded_ids_used e' = of_nat (length ks)"
    using cnt by (simp_all add: counts_def coded_id_cycle_def)
  have "\<exists>g. (demo_coded rnd disp e d g0 0 ks :: (_, 'io CliError) outcome) = Returned (e', d', g, 0)" for g0
    using demo_coded_run [OF l(1,2) c2 coded d2(1), of g0 0] z by simp
  then show ?thesis by (rule that [OF feed r(3) cnt'])
qed

text \<open>C34: the demo of generation rotation succeeds without learning anything. With 1 to 128 symbols and any number
  of coded packets it ends without error; the generation it reports is the number of complete cycles of 128
  identifiers (modulo 256) and the count is the number of packets; the decoder, which had every symbol before the
  first coded packet, delivers none from them, so the demo cannot tell independent packets from repeated ones.\<close>

theorem demo_generation_redundant:
  assumes "0 < n" "n \<le> 128"
  shows "\<exists>g. demo_generation rnd disp n c = Returned (of_nat (unat c div 128), of_nat (unat c), g, 0, of_nat n)"
proof -
  let ?cfg = "\<lparr> ec_symbol_size = 64, ec_window_capacity = n, ec_field = Gf2_8_field, ec_fec_numer = 0,
     ec_fec_denom = 1, ec_backpressure = Reject, ec_matrix_strategy = Cauchy \<rparr>" and ?fec = "\<lparr> fec_numer = 0, fec_denom = 1, fec_acc = 0 \<rparr>"
    and ?d = "\<lparr> dc_symbol_size = 64, dc_field = Gf2_8_field, dc_max_matrix_rows = 512, dc_feedback_every = - 1 \<rparr>"
    and ?policy = "\<lparr> fp_period = 16, fp_counter = 0 \<rparr> :: ConstantFeedback"
  let ?ds = "map demo_payload [0..<n]"
  have cfg: "encoder_config_ok ?cfg" "ec_window_capacity ?cfg \<le> 255" using assms by (simp_all add: encoder_config_ok_def)
  have build: "EncoderConfigBuilder_build (with_fec_rate (with_window_capacity (with_matrix_strategy
      (EncoderConfigBuilder_new 64) Cauchy) (max n 1)) 0 1) = Ok ?cfg"
    using cfg(1) assms(1) unfolding EncoderConfigBuilder_build_Ok by (simp add: EncoderConfigBuilder_new_def)
  have w0: "length (win_symbols (enc_window (Encoder_new ?cfg () () ?fec))) = length ([] :: bytes list)"
    by (simp add: Encoder_new_def EncodingWindow_new_def)
  have "\<exists>e' pkts. (\<forall>d. demo_submit rnd disp (Encoder_new ?cfg () () ?fec) d [0..<n] =
        and_then (feed_sources rnd disp d (map SourceOut pkts)) (\<lambda>d. Ok (e', d))) \<and>
      length pkts = length [0..<n] \<and> length (win_symbols (enc_window e')) = length ([] :: bytes list) + length [0..<n] \<and>
      file_trace disp (Encoder_new ?cfg () () ?fec) ([] @ map SourceOut pkts) ([] @ ?ds) e'"
    by (rule demo_submit_run [OF encoder_trace.start w0 _ cfg]) (simp_all add: Encoder_new_def)
  then obtain e pkts where s: "\<And>d. demo_submit rnd disp (Encoder_new ?cfg () () ?fec) d [0..<n] =
        and_then (feed_sources rnd disp d (map SourceOut pkts)) (\<lambda>d. Ok (e, d))"
    "length pkts = length ?ds" "length (win_symbols (enc_window e)) = length ?ds"
    "file_trace disp (Encoder_new ?cfg () () ?fec) (map SourceOut pkts) ?ds e" by auto
  have ds: "length ?ds \<le> 65535" "?ds \<noteq> []" using assms by simp_all
  have dc: "dc_field ?d = ec_field ?cfg" "dc_symbol_size ?d = ec_symbol_size ?cfg" "ec_matrix_strategy ?cfg = Cauchy"
    "ec_field ?cfg = Gf2_8_field" by simp_all
  obtain e' d d' where r: "feed_sources rnd disp (Decoder_new ?d ?policy) (map SourceOut pkts) = Ok d"
    "next_of d' = of_nat (length ?ds)" "enc_generation e' = of_nat (length [0..<unat c] div 128)" "coded_ids_used e' = of_nat (length [0..<unat c])"
    "\<And>g0. \<exists>g. (demo_coded rnd disp e d g0 0 [0..<unat c] :: (_, 'a CliError) outcome) = Returned (e', d', g, 0)"
    by (rule coded_after_sources [OF cfg ds s(4,2,3) dc, where rnd = rnd and policy = ?policy and ks = "[0..<unat c]"]) (rule that)
  obtain g where g: "(demo_coded rnd disp e d 0 0 [0..<unat c] :: (_, 'a CliError) outcome) = Returned (e', d', g, 0)"
    using r(5) by blast
  show ?thesis
    using build s(1) r(1-4) g
    by (simp add: demo_generation_def Encoder_with_defaults_def ConstantFecRate_new_def DecoderConfigBuilder_new_def
        Decoder_with_defaults_def ConstantFeedbackPolicy_new_def next_of_def)
qed

theorem demo_generation_redundant_witness:
  "\<exists>g. demo_generation (\<lambda>x. x) Neon 12 1200 = (Returned (9, 1200, g, 0, 12) :: (u8 \<times> u64 \<times> u8 \<times> nat \<times> u32, unit CliError) outcome)"
  using demo_generation_redundant [of 12 "\<lambda>x. x" Neon 1200] by simp

end
