(* ===== verification/Cli_Main.thy ===== *)
theory Cli_Main
  imports Cli_Tools
begin

text \<open>
  \<^verbatim>\<open>delp-cli/src/main.rs\<close>: the subcommands and their dispatch, after the arguments have been parsed,
  and what the parser of the FEC ratio accepts. Further parameters are the results of binding an address,
  the datagrams that arrive there within a timeout in seconds, and the result of saving a file under a
  path. Set-up of the log and the values that a command only prints are left out.
\<close>

section \<open>The commands\<close>

datatype DemoCmd = Altc nat nat nat | Generation nat u32

datatype ('path, 'addr) Command =
    Send 'path 'addr nat nat string Strategy AltcMode nat rat
  | Recv 'addr 'path nat
  | Bench nat nat nat Strategy
  | Demo DemoCmd

text \<open>The result: the network after the calls, the file written, and the outcome.\<close>

fun main_run :: "('n, 'addr, 'io) UdpSocket \<Rightarrow> (rat \<Rightarrow> rat) \<Rightarrow> Dispatch \<Rightarrow> (bytes \<Rightarrow> bytes) \<Rightarrow> ('addr \<Rightarrow> ReceiverId) \<Rightarrow>
    ('path \<Rightarrow> bytes + 'io) \<Rightarrow> ('path \<Rightarrow> bytes \<Rightarrow> unit + bytes option \<times> 'io) \<Rightarrow> ('addr option \<Rightarrow> unit + 'io) \<Rightarrow> ('addr \<Rightarrow> nat \<Rightarrow> 'io rx_event list) \<Rightarrow>
    nat option \<Rightarrow> ('path, 'addr) Command \<Rightarrow> 'n \<Rightarrow> ('n \<times> bytes option \<times> (unit, 'io CliError) outcome) option" where
  "main_run U rnd disp sha rid read_file save bound arrivals clock
     (Send path dest symbol_size window fec strategy altc altc_recent loss_rate) net =
     (let (net, r) = s_then (net, parse_fec_ratio fec) (\<lambda>net (fec_n, fec_d).
        send_run U rnd disp sha rid read_file (bound None) clock
          \<lparr> cfg_file = path, cfg_dest = dest, cfg_symbol_size = symbol_size, cfg_window = window, cfg_fec_n = fec_n,
            cfg_fec_d = fec_d, cfg_strategy = strategy, cfg_altc = altc, cfg_altc_recent = altc_recent,
            cfg_loss_rate = loss_rate \<rparr> net)
      in Some (net, None, r))"
| "main_run U rnd disp sha rid read_file save bound arrivals clock (Recv bind_addr output timeout_secs) net =
     map_option (\<lambda>(saved, r). (net, saved, r))
       (recv_run rnd disp sha (bound (Some bind_addr)) (save output) (arrivals bind_addr timeout_secs))"
| "main_run U rnd disp sha rid read_file save bound arrivals clock (Bench symbol_size window n_symbols strategy) net =
     Some (net, None, o_then (bench_run rnd disp symbol_size window n_symbols strategy) (\<lambda>_. Returned ()))"
| "main_run U rnd disp sha rid read_file save bound arrivals clock (Demo what) net =
     Some (net, None,
       (case what of
          Altc window symbol_size cover \<Rightarrow> o_then (demo_altc disp window symbol_size cover) (\<lambda>_. Returned ())
        | Generation n_symbols coded \<Rightarrow> o_then (demo_generation rnd disp n_symbols coded) (\<lambda>_. Returned ())))"

section \<open>The FEC ratio\<close>

text \<open>A reference: the decimal numeral of a number.\<close>

fun decimal :: "nat \<Rightarrow> string" where
  "decimal n = (if n < 10 then [char_of (48 + n)] else decimal (n div 10) @ [char_of (48 + n mod 10)])"

declare decimal.simps [simp del]

lemma digit_code: "d < 10 \<Longrightarrow> (of_char (char_of (48 + d :: nat)) :: nat) = 48 + d"
  by (simp add: of_char_of)

lemma decimal_digits: "c \<in> set (decimal n) \<Longrightarrow> \<exists>d < 10. c = char_of (48 + d :: nat)"
proof (induction n rule: decimal.induct)
  case (1 n)
  show ?case
  proof (cases "n < 10")
    case True
    then show ?thesis using "1.prems" by (subst (asm) decimal.simps) auto
  next
    case False
    then have "c \<in> set (decimal (n div 10)) \<or> c = char_of (48 + n mod 10)"
      using "1.prems" by (subst (asm) decimal.simps) auto
    then show ?thesis using "1.IH" [OF False] by (auto intro: exI [of _ "n mod 10"])
  qed
qed

lemma decimal_nonempty: "decimal n \<noteq> []"
  by (subst decimal.simps) simp

lemma parse_digits_snoc:
  "parse_digits acc (xs @ [char_of (48 + d :: nat)]) =
     (case parse_digits acc xs of None \<Rightarrow> None | Some a \<Rightarrow> if a * 10 + d \<ge> 2 ^ 64 then None else Some (a * 10 + d))"
  if "d < 10"
  by (induction xs arbitrary: acc) (use that in \<open>auto simp: digit_code Let_def\<close>)

lemma parse_decimal: "n < 2 ^ 64 \<Longrightarrow> parse_digits 0 (decimal n) = Some n"
proof (induction n rule: decimal.induct)
  case (1 n)
  show ?case
  proof (cases "n < 10")
    case True
    then show ?thesis using parse_digits_snoc [OF True, of 0 "[]"] by (subst decimal.simps) simp
  next
    case False
    have "n div 10 * 10 + n mod 10 = n" by simp
    moreover have "n div 10 < 2 ^ 64" using "1.prems" by simp
    ultimately show ?thesis
      using False "1.IH" [OF False] parse_digits_snoc [of "n mod 10" 0 "decimal (n div 10)"] "1.prems"
      by (subst decimal.simps) simp
  qed
qed

lemma digit_plain:
  assumes "d < 10"
  shows "\<not> is_space (char_of (48 + d :: nat))" "char_of (48 + d :: nat) \<noteq> CHR ''+''" "char_of (48 + d :: nat) \<noteq> CHR '':''"
proof -
  have c: "(of_char (char_of (48 + d :: nat)) :: nat) = 48 + d" by (rule digit_code [OF assms])
  then show "\<not> is_space (char_of (48 + d :: nat))" using assms by (simp add: is_space_def)
  have "char_of (48 + d :: nat) \<noteq> k" if "(of_char k :: nat) \<noteq> 48 + d" for k using that c by metis
  then show "char_of (48 + d :: nat) \<noteq> CHR ''+''" "char_of (48 + d :: nat) \<noteq> CHR '':''" using assms by simp_all
qed

lemma trim_plain: "\<forall>c \<in> set s. \<not> is_space c \<Longrightarrow> trim s = s"
proof -
  assume plain: "\<forall>c \<in> set s. \<not> is_space c"
  have "dropWhile is_space t = t" if "\<forall>c \<in> set t. \<not> is_space c" for t using that by (cases t) simp_all
  from this [of s] this [of "rev s"] plain show ?thesis by (simp add: trim_def)
qed

lemma parse_usize_decimal:
  assumes "n < 2 ^ 64"
  shows "parse_usize (trim (decimal n)) = Some n"
proof -
  have t: "trim (decimal n) = decimal n" by (rule trim_plain) (use decimal_digits digit_plain(1) in blast)
  obtain c cs where d: "decimal n = c # cs" using decimal_nonempty [of n] by (cases "decimal n") auto
  have "c \<noteq> CHR ''+''" using decimal_digits [of c n] digit_plain(2) by (auto simp: d)
  then have "parse_usize (decimal n) = parse_digits 0 (decimal n)" unfolding parse_usize_def d by (simp del: parse_digits.simps)
  then show ?thesis by (simp only: t parse_decimal [OF assms])
qed

lemma split_once_append: "sep \<notin> set xs \<Longrightarrow> split_once sep (xs @ sep # ys) = (xs, Some ys)"
  by (induction xs) auto

text \<open>The parser reads back every ratio written as two decimal numbers, refuses the denominator 0, and
  whatever it accepts has a positive denominator and fits the machine word.\<close>

lemma fec_ratio_roundtrip:
  assumes "n < 2 ^ 64" "d < 2 ^ 64"
  shows "parse_fec_ratio (decimal n @ CHR '':'' # decimal d) = (if d = 0 then Raised FecRatio else Returned (n, d))"
proof -
  have "CHR '':'' \<notin> set (decimal n)" using decimal_digits [of "CHR '':''" n] digit_plain(3) by metis
  then show ?thesis
    using parse_usize_decimal [OF assms(1)] parse_usize_decimal [OF assms(2)] by (simp add: parse_fec_ratio_def split_once_append)
qed

lemma parse_digits_bound: "parse_digits acc s = Some n \<Longrightarrow> acc < 2 ^ 64 \<Longrightarrow> n < 2 ^ 64"
  by (induction s arbitrary: acc) (auto simp: Let_def split: if_splits)

lemma parse_usize_bound: "parse_usize s = Some n \<Longrightarrow> n < 2 ^ 64"
  using parse_digits_bound [of 0 _ n] by (auto simp: parse_usize_def Let_def split: if_splits)

lemma fec_ratio_accepted:
  "parse_fec_ratio s = Returned (n, d) \<Longrightarrow> 0 < d \<and> n < 2 ^ 64 \<and> d < 2 ^ 64"
  using parse_usize_bound by (auto simp: parse_fec_ratio_def split: prod.splits option.splits if_splits)

text \<open>A ratio that is refused ends the command before anything is sent.\<close>

lemma send_refused:
  assumes "parse_fec_ratio fec = Raised e"
  shows "main_run U rnd disp sha rid read_file save bound arrivals clock
    (Send path dest symbol_size window fec strategy altc altc_recent loss_rate) net = Some (net, None, Raised e)"
  by (simp add: assms)

end
