(* ===== verification/Recv_Stream.thy ===== *)
theory Recv_Stream
  imports Lossless
begin

text \<open>
  The receiver's calls. \<open>recv_source\<close> takes datagrams from the socket until a payload is ready; a sequence
  of calls returns the payloads one by one, exactly those that become ready when all datagrams are processed.
\<close>

section \<open>An inbox\<close>

text \<open>A socket with a list of datagrams to receive; what sending does and reports is arbitrary, but it does not change
  the inbox.\<close>

definition inbox_socket :: "(bytes \<Rightarrow> 'addr \<Rightarrow> unit + 'io) \<Rightarrow> 'addr \<Rightarrow> (bytes list, 'addr, 'io) UdpSocket" where
  "inbox_socket tx src =
     \<lparr> send_to = (\<lambda>n b a. (n, tx b a)), try_send_to = (\<lambda>n b a. (n, WouldBlock)),
       recv_from = (\<lambda>n. case n of [] \<Rightarrow> None | raw # n \<Rightarrow> Some (n, Inl (raw, src))),
       try_recv_from = (\<lambda>n. case n of [] \<Rightarrow> (n, WouldBlock) | raw # n \<Rightarrow> (n, Done (raw, src))) \<rparr>"

text \<open>Several calls; \<open>None\<close> when one of them keeps waiting.\<close>

fun recv_calls :: "('n, 'addr, 'io) UdpSocket \<Rightarrow> (rat \<Rightarrow> rat) \<Rightarrow> Dispatch \<Rightarrow> 'p FeedbackPolicy \<Rightarrow> ('p, 'addr) FecReceiver \<Rightarrow> 'n \<Rightarrow>
    nat \<Rightarrow> (('p, 'addr) FecReceiver \<times> 'n \<times> (SourceSymbolId \<times> bytes, 'io) tres list) option" where
  "recv_calls U rnd disp P r net 0 = Some (r, net, [])"
| "recv_calls U rnd disp P r net (Suc k) =
     (case recv_source U rnd disp P r net of
        None \<Rightarrow> None
      | Some (r, net, x) \<Rightarrow> map_option (\<lambda>(r, net, xs). (r, net, x # xs)) (recv_calls U rnd disp P r net k))"

section \<open>What is still to come\<close>

fun arrivals :: "(rat \<Rightarrow> rat) \<Rightarrow> Dispatch \<Rightarrow> 'p FeedbackPolicy \<Rightarrow> 'p Decoder \<Rightarrow> bytes list \<Rightarrow> (SourceSymbolId \<times> bytes) list option" where
  "arrivals rnd disp P d [] = Some []"
| "arrivals rnd disp P d (raw # raws) =
     (case decode_datagram rnd disp P d raw of
        Ok None \<Rightarrow> arrivals rnd disp P d raws
      | Ok (Some (d, evs)) \<Rightarrow> map_option (\<lambda>new. deliveries evs @ new) (arrivals rnd disp P d raws)
      | _ \<Rightarrow> None)"

lemma process_datagram_result:
  "decode_datagram rnd disp P (rx_decoder r) raw = Ok None \<Longrightarrow> process_datagram U rnd disp P r net raw = (r, net, TOk False)"
  "decode_datagram rnd disp P (rx_decoder r) raw = Ok (Some (d, evs)) \<Longrightarrow>
     \<exists>net' b. process_datagram U rnd disp P r net raw = (r\<lparr> rx_decoder := d, ready := ready r @ deliveries evs \<rparr>, net', TOk b)"
proof -
  assume "decode_datagram rnd disp P (rx_decoder r) raw = Ok (Some (d, evs))"
  moreover obtain net' b where "event_loop (send_to U) (r\<lparr> rx_decoder := d \<rparr>) net False evs =
      ((r\<lparr> rx_decoder := d \<rparr>)\<lparr> ready := ready (r\<lparr> rx_decoder := d \<rparr>) @ deliveries evs \<rparr>, net', b)"
    using event_loop_ready [of "send_to U" "r\<lparr> rx_decoder := d \<rparr>" net False evs] by (elim exE) (rule that)
  ultimately show "\<exists>net' b. process_datagram U rnd disp P r net raw =
      (r\<lparr> rx_decoder := d, ready := ready r @ deliveries evs \<rparr>, net', TOk b)"
    by (simp add: process_datagram_def)
qed (simp add: process_datagram_def)

lemma process_datagram_ok:
  assumes "process_datagram U rnd disp P r net raw = (r', net', TOk b)"
  obtains "decode_datagram rnd disp P (rx_decoder r) raw = Ok None" "r' = r"
  | d evs where "decode_datagram rnd disp P (rx_decoder r) raw = Ok (Some (d, evs))"
      "r' = r\<lparr> rx_decoder := d, ready := ready r @ deliveries evs \<rparr>"
proof (cases "decode_datagram rnd disp P (rx_decoder r) raw")
  case (Ok o')
  show ?thesis
  proof (cases o')
    case None
    with Ok assms show ?thesis by (intro that(1)) (simp_all add: process_datagram_def)
  next
    case (Some p)
    then obtain d evs where e: "decode_datagram rnd disp P (rx_decoder r) raw = Ok (Some (d, evs))" using Ok by (cases p) simp
    then obtain net1 c where
      "process_datagram U rnd disp P r net raw = (r\<lparr> rx_decoder := d, ready := ready r @ deliveries evs \<rparr>, net1, TOk c)"
      using process_datagram_result(2) [OF e, of U net] by blast
    with assms show ?thesis by (intro that(2) [OF e]) simp
  qed
qed (use assms in \<open>simp_all add: process_datagram_def\<close>)

lemma receive_all_arrivals:
  assumes "receive_all U rnd disp P r net raws = (r', net', xs)" "\<forall>x \<in> set xs. \<exists>b. x = TOk b"
  shows "\<exists>new. arrivals rnd disp P (rx_decoder r) raws = Some new \<and> ready r' = ready r @ new"
  using assms
proof (induction raws arbitrary: r r' net net' xs)
  case (Cons raw raws)
  obtain r1 net1 x where p: "process_datagram U rnd disp P r net raw = (r1, net1, x)" by (metis prod_cases3)
  obtain r2 net2 ys where q: "receive_all U rnd disp P r1 net1 raws = (r2, net2, ys)" by (metis prod_cases3)
  have e: "r2 = r'" "xs = x # ys" using Cons.prems(1) by (simp_all add: p q)
  then obtain b where "process_datagram U rnd disp P r net raw = (r1, net1, TOk b)" using p Cons.prems(2) by auto
  moreover obtain new where "arrivals rnd disp P (rx_decoder r1) raws = Some new" "ready r' = ready r1 @ new"
    using Cons.IH [OF q] Cons.prems(2) e by auto
  ultimately show ?case by (cases rule: process_datagram_ok) auto
qed simp

section \<open>One call\<close>

lemma event_loop_net: "event_loop tx r net b0 evs = (r', net', b) \<Longrightarrow> (\<And>b a. fst (tx net b a) = net) \<Longrightarrow> net' = net"
proof (induction evs arbitrary: r b0)
  case (Cons ev evs)
  then show ?case by (cases ev) auto
qed simp

lemma process_datagram_inbox:
  assumes "process_datagram (inbox_socket tx src) rnd disp P r net raw = (r', net', TOk b)"
  shows "net' = net"
  using assms
proof (cases rule: process_datagram_ok)
  case 1
  with assms show ?thesis by (simp add: process_datagram_def)
next
  case (2 d evs)
  obtain r2 n2 b2 where e: "event_loop (send_to (inbox_socket tx src)) (r\<lparr> rx_decoder := d \<rparr>) net False evs = (r2, n2, b2)"
    by (metis prod_cases3)
  have "n2 = net" by (rule event_loop_net [OF e]) (simp add: inbox_socket_def)
  with assms 2(1) e show ?thesis by (simp add: process_datagram_def)
qed

lemma recv_source_next:
  assumes "arrivals rnd disp P (rx_decoder r) raws = Some new" "\<forall>raw \<in> set raws. length raw \<le> 65536"
  shows "case ready r @ new of [] \<Rightarrow> recv_source (inbox_socket tx src) rnd disp P r raws = None
    | s # rest \<Rightarrow> \<exists>r1 raws1 new1. recv_source (inbox_socket tx src) rnd disp P r raws = Some (r1, raws1, TOk s) \<and>
        arrivals rnd disp P (rx_decoder r1) raws1 = Some new1 \<and> ready r1 @ new1 = rest \<and> set raws1 \<subseteq> set raws"
  using assms
proof (induction raws arbitrary: r new)
  case Nil
  then show ?case
    by (cases "ready r") (simp_all add: recv_source.simps [of _ _ _ _ r] process_one_def inbox_socket_def)
next
  case (Cons raw raws)
  let ?U = "inbox_socket tx src"
  show ?case
  proof (cases "ready r")
    case (Cons s rest)
    with Cons.prems(1) show ?thesis by (simp add: recv_source.simps [of ?U rnd disp P r] del: arrivals.simps)
  next
    case Nil
    have one: "process_one ?U rnd disp P r (raw # raws) = Some (process_datagram ?U rnd disp P r raws raw)"
      using Cons.prems(2) by (simp add: process_one_def inbox_socket_def)
    obtain r1 b where p: "process_datagram ?U rnd disp P r raws raw = (r1, raws, TOk b)"
      and a: "\<exists>new1. arrivals rnd disp P (rx_decoder r1) raws = Some new1 \<and> ready r1 @ new1 = ready r @ new"
    proof (cases "decode_datagram rnd disp P (rx_decoder r) raw")
      case (Ok o')
      show ?thesis
      proof (cases o')
        case None
        with Ok Cons.prems(1) process_datagram_result(1) [of rnd disp P r raw ?U raws] that [of r False] show ?thesis by simp
      next
        case (Some t)
        then obtain d evs where e: "decode_datagram rnd disp P (rx_decoder r) raw = Ok (Some (d, evs))" using Ok by (cases t) simp
        then obtain new1 where n: "arrivals rnd disp P d raws = Some new1" "new = deliveries evs @ new1" using Cons.prems(1) by auto
        obtain net' b where "process_datagram ?U rnd disp P r raws raw =
            (r\<lparr> rx_decoder := d, ready := ready r @ deliveries evs \<rparr>, net', TOk b)"
          using process_datagram_result(2) [OF e, of ?U raws] by blast
        moreover from this have "net' = raws" by (rule process_datagram_inbox)
        ultimately show ?thesis using that n by auto
      qed
    qed (use Cons.prems(1) in simp_all)
    have step: "recv_source ?U rnd disp P r (raw # raws) = recv_source ?U rnd disp P r1 raws"
      by (subst recv_source.simps) (simp add: Nil one p)
    from a obtain new1 where "arrivals rnd disp P (rx_decoder r1) raws = Some new1" "ready r1 @ new1 = ready r @ new" by blast
    with Cons.IH [of r1 new1] Cons.prems(2) show ?thesis by (auto simp: step split: list.splits)
  qed
qed

section \<open>Many calls\<close>

lemma recv_calls_arrivals:
  assumes "arrivals rnd disp P (rx_decoder r) raws = Some new" "\<forall>raw \<in> set raws. length raw \<le> 65536"
  shows "if k \<le> length (ready r @ new)
    then \<exists>r1 raws1. recv_calls (inbox_socket tx src) rnd disp P r raws k = Some (r1, raws1, map TOk (take k (ready r @ new)))
    else recv_calls (inbox_socket tx src) rnd disp P r raws k = None"
  using assms
proof (induction k arbitrary: r raws new)
  case (Suc k)
  note one = recv_source_next [OF Suc.prems, of tx src]
  show ?case
  proof (cases "ready r @ new")
    case Nil
    with one show ?thesis by simp
  next
    case (Cons s rest)
    then obtain r1 raws1 new1 where c: "recv_source (inbox_socket tx src) rnd disp P r raws = Some (r1, raws1, TOk s)"
      "arrivals rnd disp P (rx_decoder r1) raws1 = Some new1" "ready r1 @ new1 = rest" "set raws1 \<subseteq> set raws"
      using one by auto
    have "\<forall>raw \<in> set raws1. length raw \<le> 65536" using c(4) Suc.prems(2) by blast
    from Suc.IH [OF c(2) this] c(1,3) Cons show ?thesis by auto
  qed
qed simp

text \<open>C14: \<open>recv_source\<close> hands out the payloads. A receiver that has nothing ready is given a list of
  datagrams on which no call fails when they are all processed at once. Then as many calls of \<open>recv_source\<close>
  as payloads become ready return these payloads, in order, whatever happens to the feedback the receiver
  sends; and one more call keeps waiting.\<close>

theorem recv_source_streams:
  assumes "receive_all U rnd disp P r net raws = (r', net', xs)" "\<forall>x \<in> set xs. \<exists>b. x = TOk b"
    and "\<forall>raw \<in> set raws. length raw \<le> 65536" "ready r = []"
  shows "if k \<le> length (ready r')
    then \<exists>r1 rest. recv_calls (inbox_socket tx src) rnd disp P r raws k = Some (r1, rest, map TOk (take k (ready r')))
    else recv_calls (inbox_socket tx src) rnd disp P r raws k = None"
proof -
  obtain new where a: "arrivals rnd disp P (rx_decoder r) raws = Some new" "ready r' = new"
    using receive_all_arrivals [OF assms(1,2)] assms(4) by auto
  show ?thesis using recv_calls_arrivals [OF a(1) assms(3), of k tx src] unfolding assms(4) a(2) append_Nil .
qed

text \<open>The witness: the datagrams of one symbol.\<close>

theorem recv_source_streams_witness:
  "\<exists>outs e r1 rest. encoder_trace AnyAckPolicy NoCongestionControl ConstantFecRate Ssse3
      (Encoder_new small_config () () \<lparr> fec_numer = 1, fec_denom = 4, fec_acc = 0 \<rparr>) outs [[5]] e \<and>
    recv_calls (inbox_socket (\<lambda>_ _. Inr ()) (7 :: nat)) (\<lambda>x. x) Scalar ImmediateFeedbackPolicy
      (FecReceiver_new (Decoder_new small_decoder_config ()) 7) (map raw_of outs) 1 = Some (r1, rest, [TOk (0, [5])])"
proof -
  have cfg: "encoder_config_ok small_config" "ec_window_capacity small_config \<le> 255" by (simp_all add: encoder_config_ok_def)
  have d: "dc_field small_decoder_config = ec_field small_config" "dc_symbol_size small_decoder_config = ec_symbol_size small_config"
    by simp_all
  have l: "length [[5 :: u8]] \<le> 65535" by simp
  obtain outs e where tr: "encoder_trace AnyAckPolicy NoCongestionControl ConstantFecRate Ssse3
      (Encoder_new small_config () () \<lparr> fec_numer = 1, fec_denom = 4, fec_acc = 0 \<rparr>) outs [[5]] e"
    by (rule small_trace)
  let ?r = "FecReceiver_new (Decoder_new small_decoder_config ()) (7 :: nat)"
  obtain ps x evs where q: "list_all2 carries (map raw_of outs) ps"
    "decoder_run (\<lambda>x. x) Scalar ImmediateFeedbackPolicy (Decoder_new small_decoder_config ()) ps = Ok (x, evs)"
    "deliveries evs = map (\<lambda>k. (of_nat k, [[5]] ! k)) [0..<length [[5 :: u8]]]"
    by (rule lossless_decoder [OF no_cc.congestion_control_axioms TrueI cfg tr l d])
  have "decoder_run (\<lambda>x. x) Scalar ImmediateFeedbackPolicy (rx_decoder ?r) ps = Ok (x, evs)" using q(2) by (simp add: FecReceiver_new_def)
  from receive_all_run [OF q(1) this, of silent_socket "()"] obtain r' net' xs where
    all: "receive_all silent_socket (\<lambda>x. x) Scalar ImmediateFeedbackPolicy ?r () (map raw_of outs) = (r', net', xs)"
      "\<forall>x \<in> set xs. \<exists>b. x = TOk b" "ready r' = [(0, [5])]"
    using q(3) by (auto simp: FecReceiver_new_def)
  have "\<forall>raw \<in> set (map raw_of outs). length raw \<le> 65536"
    using trace_lengths [OF no_cc.congestion_control_axioms TrueI cfg tr l] by fastforce
  from recv_source_streams [OF all(1,2) this, of 1 "\<lambda>_ _. Inr ()" "7 :: nat"] all(3) tr show ?thesis
    by (auto simp: FecReceiver_new_def)
qed

end
