(* ===== verification/Per_Symbol.thy ===== *)
theory Per_Symbol
  imports Loss_Repair
begin

text \<open>
  Repair on the fly. When coded packets follow each symbol at once, as the rate controllers ask for, one
  packet of those that belong to a symbol is enough to deliver it: the newest symbol is the one unknown
  of every equation over the window, and no coefficient is zero.
\<close>

section \<open>One unknown\<close>

lemma coef_of_nonzero: "coef_of config g c s \<noteq> 0 \<and> coef_ok (ec_field config) (coef_of config g c s)"
proof (cases "ec_matrix_strategy config")
  case Vandermonde
  then show ?thesis using vandermonde_coef_range by (simp add: coef_of_def coef_ok_def)
next
  case Cauchy
  show ?thesis
    using cauchy_coef_8_nonzero [OF cauchy_coef_gf2_8_eq, of s g c] cauchy_coef_4_nonzero [OF cauchy_coef_gf2_4_eq, of s g c]
    by (cases "ec_field config") (simp_all add: coef_of_def Cauchy coef_ok_def)
qed

text \<open>Whoever knows all but one of the symbols a packet covers can compute this one.\<close>

lemma encoder_vector_teaches:
  assumes ev: "encoder_vector ev" "distinct (ev_source_ids ev)" "i \<in> set (ev_source_ids ev)" "ev_field ev = f" "length payload = L"
    and X: "ev_sat f X ev payload" "sized L X" and Y: "ev_sat f Y ev payload" "sized L Y"
    and eq: "\<forall>j \<in> set (ev_source_ids ev) - {i}. X j = Y j"
  shows "X i = Y i"
proof -
  let ?ids = "ev_source_ids ev"
  obtain config c g cs where ce: "coefs_and_ev config ?ids c g = Ok (cs, ev)" using ev(1) by (auto simp: encoder_vector_def)
  have f: "ec_field config = f" using coefs_and_ev_ok [of config ?ids c g] ce ev(4) by (metis prod.inject res.inject(1))
  let ?c = "coef_of config g c"
  have "coef_ok f (?c i)" "?c i \<noteq> 0" using coef_of_nonzero f by blast+
  then obtain w where w: "byte_mul f (?c i) w = 1" by (metis gf_inv_Ok)
  have "X i ! k = Y i ! k" if k: "k < L" for k
  proof -
    let ?t = "\<lambda>X s. byte_mul f (X s ! k) (?c s)"
    have split: "xor_sum (?t Z) (set ?ids) = ?t Z i XOR xor_sum (?t Z) (set ?ids - {i})" for Z
      by (rule xsum.remove) (simp_all add: ev(3))
    have "xor_sum (?t Z) (set ?ids) = payload ! k" if "ev_sat f Z ev payload" for Z
      using batch_equation [OF ce ev(2), of Z payload k] that k ev(5) f by simp
    then have "xor_sum (?t X) (set ?ids) = xor_sum (?t Y) (set ?ids)" using X(1) Y(1) by simp
    moreover have "xor_sum (?t X) (set ?ids - {i}) = xor_sum (?t Y) (set ?ids - {i})"
      by (rule xsum.cong) (use eq in auto)
    ultimately have "?t X i = ?t Y i" unfolding split by simp
    then show ?thesis using byte_mul_cancel [OF w] by simp
  qed
  then show ?thesis using X(2) Y(2) by (intro nth_equalityI) (auto simp: sized_def)
qed

section \<open>One packet for the newest symbol\<close>

lemma clear_matrix:
  assumes "run_inv f L S C R d" "C \<subseteq> set (bt_keys (known d))"
  shows "dm_rows (dec_matrix d) = []"
proof -
  have "decoder_ok f L S d" "\<forall>i. i \<notin> C \<longrightarrow> col_clear i (dm_rows (dec_matrix d))" using assms(1) by (simp_all add: run_inv_def)
  then have m: "rows_ok f L (dm_rows (dec_matrix d))" "\<forall>i. col_clear i (dm_rows (dec_matrix d))"
    using assms(2) by (auto simp: decoder_ok_def system_ok_def matrix_ok_def)
  then have "\<forall>i. bt_get (dm_rows (dec_matrix d)) i = None" using clear_not_pivot by blast
  then show ?thesis by (cases "dm_rows (dec_matrix d)") (auto split: if_splits)
qed

text \<open>A coded packet over a window that ends with the symbol \<open>n\<close>, the first one the decoder does not know.\<close>

lemma keeps_up_coded:
  assumes inv: "keeps_up f L S n d" and S: "sized L S" "0 < L" and p: "usable f L p" "says f S p"
    and ids: "covers ids p" "distinct ids" "of_nat n \<in> set ids" "set ids \<subseteq> ids_below (Suc n)"
    and n: "n < 65535" and rows: "0 < dm_max_rows (dec_matrix d)"
  obtains d' evs where "handle_packet rnd disp P d p = Ok (d', evs)" "keeps_up f L S (Suc n) d'"
    "run_events S d d' evs" "no_gap evs" "dm_max_rows (dec_matrix d') = dm_max_rows (dec_matrix d)"
proof -
  obtain pkt where pkt: "p = CodedP pkt" "ev_source_ids (cp_ev pkt) = ids" "encoder_vector (cp_ev pkt)"
    using ids(1) by (cases p) auto
  have i: "run_inv f L S (ids_below n) (ids_below n) d" "unat (encoder_win_min d) \<le> n"
    using inv by (simp_all add: keeps_up_def)
  then have known: "ids_below n \<subseteq> set (bt_keys (known d))" by (simp add: run_inv_def)
  note empty = clear_matrix [OF i(1) known]
  have sets: "carried p \<inter> ids_below n \<subseteq> ids_below n" "ids_below n \<union> covered p \<subseteq> ids_below (Suc n)"
    using ids(4) pkt(1,2) ids_below_mono [of n "Suc n"] by auto
  have rc: "row_count (dec_matrix d) + coded_count [p] \<le> dm_max_rows (dec_matrix d)"
    using rows empty by (simp add: row_count_def pkt(1))
  obtain d' evs where h: "handle_packet rnd disp P d p = Ok (d', evs)"
    "run_inv f L S (ids_below n \<union> covered p) (ids_below n) d'" "events_ok S d d' evs \<or> d' = d \<and> evs = []"
    "learns f L d d' (\<lambda>X. says f X p)" "dm_max_rows (dec_matrix d') = dm_max_rows (dec_matrix d)"
    by (rule handle_packet_ok [OF i(1) S p sets(1), of rnd disp P]) (use rc pkt(1) in auto)
  have ok: "decoder_ok f L S d" "decoder_ok f L S d'" using i(1) h(2) by (simp_all add: run_inv_def)
  have "of_nat n \<in> set (bt_keys (known d'))"
  proof (rule known_iff_learned [OF ok(2) S h(4), THEN iffD2], intro allI impI)
    fix X assume X: "sized L X" "agrees X (known d)" "says f X p"
    have "\<forall>i \<in> set (bt_keys (known d)). X i = S i" using X(2) agrees_all [OF agrees_known [OF ok(1)]] by blast
    then have eq: "\<forall>j \<in> set ids - {of_nat n}. X j = S j"
      using known ids(4) n by (auto simp: ids_below_Suc)
    have "ev_field (cp_ev pkt) = f" "length (cp_payload pkt) = L" using p(1) by (simp_all add: pkt(1) ev_ok_def)
    from encoder_vector_teaches [OF pkt(3) _ _ this, of "of_nat n" X S] X S(1) p(2) ids(2,3) eq
    show "X (of_nat n) = S (of_nat n)" by (simp add: pkt(1,2))
  qed
  moreover have "ids_below (Suc n) = insert (of_nat n) (ids_below n)" by (rule ids_below_Suc) (use n in simp)
  ultimately have inv': "run_inv f L S (ids_below (Suc n)) (ids_below (Suc n)) d'"
    using h(2) sets(2) by (auto simp: run_inv_def)
  have "unat (encoder_win_min d') \<le> Suc n"
    using handle_packet_win_min [OF h(1)] i(2) sets(2) by (auto simp: ids_below_def)
  from that [OF h(1) keeps_up_after [OF inv inv' h(3) this] h(5)] show ?thesis .
qed

section \<open>Rounds\<close>

text \<open>The packets of one submission are the source packet of the symbol \<open>n\<close> and coded packets over a window that
  ends with it; others, over any part of the window, may follow before the next submission.\<close>

definition round_true :: "Field \<Rightarrow> nat \<Rightarrow> (SourceSymbolId \<Rightarrow> bytes) \<Rightarrow> nat \<Rightarrow> EncoderOutput list \<times> EncoderOutput list \<Rightarrow> bool" where
  "round_true f L S n r = (\<exists>p qs xs ids. source_symbol_id p = of_nat n \<and> (\<forall>q \<in> set qs. covers ids q) \<and> distinct ids \<and>
     of_nat n \<in> set ids \<and> set ids \<subseteq> ids_below (Suc n) \<and> outputs_true f L S (Suc n) (fst r) (SourceP p # qs) \<and>
     outputs_true f L S (Suc n) (snd r) xs \<and> in_sequence (Suc n) xs \<and> source_count xs = 0)"

inductive round_trace :: "'w WindowPolicy \<Rightarrow> 'c CongestionControl \<Rightarrow> 'f FecRateController \<Rightarrow> Dispatch \<Rightarrow>
    ('w, 'c, 'f) Encoder \<Rightarrow> (EncoderOutput list \<times> EncoderOutput list) list \<Rightarrow> bytes list \<Rightarrow> ('w, 'c, 'f) Encoder \<Rightarrow> bool"
  for W C F disp e0 where
  start: "encoder_trace W C F disp e0 [] [] e \<Longrightarrow> round_trace W C F disp e0 [] [] e"
| round: "round_trace W C F disp e0 rounds ds e \<Longrightarrow> submit_source disp C F e data = Ok (e1, new) \<Longrightarrow>
     encoder_trace W C F disp e1 extra [] e2 \<Longrightarrow> round_trace W C F disp e0 (rounds @ [(new, extra)]) (ds @ [data]) e2"

abbreviation all_outputs :: "(EncoderOutput list \<times> EncoderOutput list) list \<Rightarrow> EncoderOutput list" where
  "all_outputs rounds \<equiv> concat (map (\<lambda>(core, extra). core @ extra) rounds)"

lemma encoder_trace_append:
  "encoder_trace W C F disp e1 outs' ds' e2 \<Longrightarrow> encoder_trace W C F disp e0 outs ds e1 \<Longrightarrow>
     encoder_trace W C F disp e0 (outs @ outs') (ds @ ds') e2"
proof (induction rule: encoder_trace.induct)
  case (submit outs ds e data e' new)
  then show ?case using encoder_trace.submit by (metis append_assoc)
qed (auto simp flip: append_assoc intro: encoder_trace.intros)

lemma round_trace_encoder:
  "round_trace W C F disp e0 rounds ds e \<Longrightarrow> encoder_trace W C F disp e0 (all_outputs rounds) ds e \<and> length rounds = length ds"
proof (induction rule: round_trace.induct)
  case (round rounds ds e data e1 new extra e2)
  have "encoder_trace W C F disp e0 (all_outputs rounds @ new) (ds @ [data]) e1"
    using round.IH round.hyps(2) by (blast intro: encoder_trace.submit)
  from encoder_trace_append [OF round.hyps(3) this] round.IH show ?case by simp
qed simp

context congestion_control
begin

lemma rounds_true:
  assumes "round_trace W C F disp e0 rounds ds e" "sending cinv config S 0 e0" "ec_window_capacity config \<le> 255"
    and "length ds \<le> 65535" "\<forall>k < length ds. S (of_nat k) = ds ! k"
  shows "sending cinv config S (length ds) e \<and> length rounds = length ds \<and>
    (\<forall>k < length rounds. round_true (ec_field config) (ec_symbol_size config) S k (rounds ! k))"
  using assms
proof (induction rule: round_trace.induct)
  case (start e)
  from trace_continues [OF start.hyps start.prems(1,2)] show ?case by simp
next
  case (round rounds ds e data e1 new extra e2)
  let ?n = "length ds"
  have S: "\<forall>k < ?n. S (of_nat k) = ds ! k" "S (of_nat ?n) = data"
    using round.prems(4) by (auto simp: nth_append dest: spec [of _ ?n])
  have n: "?n < 65535" "Suc ?n \<le> 65535" using round.prems(3) by simp_all
  have ih: "sending cinv config S ?n e" "length rounds = ?n"
    "\<forall>k < length rounds. round_true (ec_field config) (ec_symbol_size config) S k (rounds ! k)"
    using round.IH [OF round.prems(1,2) _ S(1)] n by simp_all
  obtain p qs where t: "sending cinv config S (Suc ?n) e1" "enc_window e1 = fst (window_push (make_room e) data)"
    "source_symbol_id p = of_nat ?n" "\<forall>q \<in> set qs. covers (id_slice (enc_window e1)) q"
    "outputs_true (ec_field config) (ec_symbol_size config) S (Suc ?n) new (SourceP p # qs)"
    using submitted_true [OF ih(1) n(1) round.prems(2) round.hyps(2) S(2)] by blast
  obtain xs where x: "sending cinv config S (Suc ?n) e2"
    "outputs_true (ec_field config) (ec_symbol_size config) S (Suc ?n) extra xs" "in_sequence (Suc ?n) xs" "source_count xs = 0"
    using trace_continues [OF round.hyps(3) t(1) round.prems(2)] n by auto
  have "encoder_ok e" "next_id (enc_window e) = of_nat ?n" using ih(1) by (simp_all add: sending_def)
  then have "of_nat ?n \<in> set (id_slice (enc_window e1))" using make_room_ok(4) [of e] by (simp add: t(2))
  moreover have "distinct (id_slice (enc_window e1))"
    using encoder_ids(1) [of e1] t(1) by (auto simp: sending_def strict_sorted_iff)
  moreover have "set (id_slice (enc_window e1)) \<subseteq> ids_below (Suc ?n)" using window_ids_below(1) [OF t(1) n(2)] .
  ultimately have "round_true (ec_field config) (ec_symbol_size config) S ?n (new, extra)"
    using t(3-5) x(2-4) unfolding round_true_def fst_conv snd_conv by blast
  with ih x(1) show ?case by (auto simp: nth_append less_Suc_eq)
qed

end

section \<open>The decoder on a round\<close>

text \<open>What arrives of a round: some packet of the submission, and any of the others.\<close>

definition heard :: "bytes list \<times> bytes list \<Rightarrow> EncoderOutput list \<times> EncoderOutput list \<Rightarrow> bool" where
  "heard a r = (fst a \<noteq> [] \<and> subseq (fst a) (map raw_of (fst r)) \<and> subseq (snd a) (map raw_of (snd r)))"

lemma keeps_up_first:
  assumes inv: "keeps_up f L S n d" "0 < dm_max_rows (dec_matrix d)" and S: "sized L S" "0 < L" and n: "n < 65535"
    and ps: "source_symbol_id p = of_nat n" "\<forall>q \<in> set qs. covers ids q" "distinct ids" "of_nat n \<in> set ids"
      "set ids \<subseteq> ids_below (Suc n)" "\<forall>q \<in> set (SourceP p # qs). usable f L q \<and> says f S q"
    and rs: "subseq (r # rs) (SourceP p # qs)"
  obtains d' evs where "handle_packet rnd disp P d r = Ok (d', evs)" "keeps_up f L S (Suc n) d'"
    "run_events S d d' evs" "no_gap evs" "dm_max_rows (dec_matrix d') = dm_max_rows (dec_matrix d)" "subseq rs qs"
proof (cases "r = SourceP p")
  case True
  have sub: "subseq rs qs" using rs True by simp
  have "in_sequence n [r]" "n + source_count [r] \<le> 65535" "usable f L r" "says f S r" using True ps(1,6) n by simp_all
  from keeps_up_step [OF inv(1) S this(3,4) this(1,2)]
  obtain d' evs where "handle_packet rnd disp P d r = Ok (d', evs)" "keeps_up f L S (n + source_count [r]) d'"
    "run_events S d d' evs" "no_gap evs" "dm_max_rows (dec_matrix d') = dm_max_rows (dec_matrix d)" by blast
  then show ?thesis using that sub True by simp
next
  case False
  then have sub: "subseq (r # rs) qs" using rs by simp
  then have r: "r \<in> set qs" by (auto dest: list_emb_set)
  then have "usable f L r" "says f S r" "covers ids r" using ps(2,6) by auto
  from keeps_up_coded [OF inv(1) S this ps(3-5) n inv(2)]
  obtain d' evs where "handle_packet rnd disp P d r = Ok (d', evs)" "keeps_up f L S (Suc n) d'"
    "run_events S d d' evs" "no_gap evs" "dm_max_rows (dec_matrix d') = dm_max_rows (dec_matrix d)" by blast
  then show ?thesis using that subseq_Cons' [OF sub] by blast
qed

lemma subseq_coded: "subseq rs qs \<Longrightarrow> \<forall>q \<in> set qs. covers ids q \<Longrightarrow> set ids \<subseteq> ids_below n \<Longrightarrow> in_sequence n rs \<and> source_count rs = 0"
proof (rule in_sequence_coded, rule ballI)
  fix q assume "subseq rs qs" "\<forall>q \<in> set qs. covers ids q" "set ids \<subseteq> ids_below n" "q \<in> set rs"
  then have "covers ids q" "set ids \<subseteq> ids_below n" by (auto dest: list_emb_set)
  then show "is_coded q \<and> covered q \<subseteq> ids_below n" by (cases q) (auto simp: covers_is_coded)
qed

lemma subseq_in_sequence_coded:
  "subseq ys xs \<Longrightarrow> in_sequence n xs \<Longrightarrow> source_count xs = 0 \<Longrightarrow> in_sequence n ys \<and> source_count ys = 0"
proof (induction ys xs rule: list_emb.induct)
  case (list_emb_Cons xs ys y)
  then show ?case by (cases y) auto
next
  case (list_emb_Cons2 x y xs ys)
  then show ?case by (cases y) auto
qed simp

lemma keeps_up_round:
  assumes inv: "keeps_up f L S n d" "0 < dm_max_rows (dec_matrix d)" and S: "sized L S" "0 < L" and n: "n < 65535"
    and r: "round_true f L S n r" "heard a r"
  shows "\<exists>ps d' evs. list_all2 carries (fst a @ snd a) ps \<and> decoder_run rnd disp P d ps = Ok (d', evs) \<and>
    keeps_up f L S (Suc n) d' \<and> run_events S d d' evs \<and> no_gap evs \<and> dm_max_rows (dec_matrix d') = dm_max_rows (dec_matrix d)"
proof -
  obtain p qs xs ids where c: "source_symbol_id p = of_nat n" "\<forall>q \<in> set qs. covers ids q" "distinct ids"
    "of_nat n \<in> set ids" "set ids \<subseteq> ids_below (Suc n)"
    and o: "outputs_true f L S (Suc n) (fst r) (SourceP p # qs)" "outputs_true f L S (Suc n) (snd r) xs"
      "in_sequence (Suc n) xs" "source_count xs = 0"
    using r(1) unfolding round_true_def by blast
  have car: "list_all2 carries (map raw_of (fst r)) (SourceP p # qs)" "list_all2 carries (map raw_of (snd r)) xs"
    and true: "\<forall>q \<in> set (SourceP p # qs). usable f L q \<and> says f S q" "\<forall>q \<in> set xs. usable f L q \<and> says f S q"
    using o(1,2) by (simp_all add: outputs_true_def list_all2_map1)
  obtain rs ys where s: "subseq rs (SourceP p # qs)" "list_all2 carries (fst a) rs" "subseq ys xs" "list_all2 carries (snd a) ys"
    using subseq_list_all2 [OF _ car(1)] subseq_list_all2 [OF _ car(2)] r(2) unfolding heard_def by meson
  have "rs \<noteq> []" using s(2) r(2) by (auto simp: heard_def)
  then obtain q rs' where rs: "rs = q # rs'" by (cases rs) auto
  obtain d1 b where h: "handle_packet rnd disp P d q = Ok (d1, b)" "keeps_up f L S (Suc n) d1" "run_events S d d1 b" "no_gap b"
    "dm_max_rows (dec_matrix d1) = dm_max_rows (dec_matrix d)" "subseq rs' qs"
    by (rule keeps_up_first [OF inv S n c true(1) s(1) [unfolded rs]])
  have seq: "in_sequence (Suc n) (rs' @ ys)" "source_count (rs' @ ys) = 0"
    using subseq_coded [OF h(6) c(2,5)] subseq_in_sequence_coded [OF s(3) o(3,4)] by simp_all
  have true': "\<forall>q \<in> set (rs' @ ys). usable f L q \<and> says f S q"
    using true list_emb_set [OF h(6)] list_emb_set [OF s(3)] by fastforce
  have "Suc n + source_count (rs' @ ys) \<le> 65535" using seq(2) n by simp
  from keeps_up_run [OF h(2) S true' seq(1) this, of rnd disp P] obtain d' e where k:
    "decoder_run rnd disp P d1 (rs' @ ys) = Ok (d', e)" "keeps_up f L S (Suc n) d'" "run_events S d1 d' e" "no_gap e"
    "dm_max_rows (dec_matrix d') = dm_max_rows (dec_matrix d1)"
    unfolding seq(2) add_0_right by blast
  have "list_all2 carries (fst a @ snd a) (q # rs' @ ys)" using list_all2_appendI [OF s(2,4)] by (simp add: rs)
  moreover have "decoder_run rnd disp P d (q # rs' @ ys) = Ok (d', b @ e)" using h(1) k(1) by simp
  moreover have "run_events S d d' (b @ e)" by (rule run_events_trans [OF h(3) k(3)])
  ultimately show ?thesis using k(2,4,5) h(4,5) no_gap_append [of b e] by metis
qed

abbreviation all_arrived :: "(bytes list \<times> bytes list) list \<Rightarrow> bytes list" where
  "all_arrived arrived \<equiv> concat (map (\<lambda>(a, b). a @ b) arrived)"

lemma keeps_up_rounds:
  assumes "keeps_up f L S n d" "0 < dm_max_rows (dec_matrix d)" "sized L S" "0 < L"
    and "\<forall>k < length rounds. round_true f L S (n + k) (rounds ! k)" "list_all2 heard arrived rounds" "n + length rounds \<le> 65535"
  shows "\<exists>ps d' evs. list_all2 carries (all_arrived arrived) ps \<and> decoder_run rnd disp P d ps = Ok (d', evs) \<and>
    keeps_up f L S (n + length rounds) d' \<and> run_events S d d' evs \<and> no_gap evs"
  using assms(6,1-5,7)
proof (induction arrived rounds arbitrary: n d rule: list_all2_induct)
  case Nil
  then show ?case by (intro exI [of _ "[]"] exI [of _ d]) (simp add: run_events_refl no_gap_def)
next
  case (Cons a arrived r rounds)
  have r: "round_true f L S n r" using spec [OF Cons.prems(5), of 0] by simp
  have n: "n < 65535" "Suc n + length rounds \<le> 65535" using Cons.prems(6) by simp_all
  have rest: "\<forall>k < length rounds. round_true f L S (Suc n + k) (rounds ! k)"
  proof (intro allI impI)
    fix k assume "k < length rounds"
    then show "round_true f L S (Suc n + k) (rounds ! k)" using spec [OF Cons.prems(5), of "Suc k"] by simp
  qed
  obtain ps d1 b where h: "list_all2 carries (fst a @ snd a) ps" "decoder_run rnd disp P d ps = Ok (d1, b)" "keeps_up f L S (Suc n) d1"
    "run_events S d d1 b" "no_gap b" "dm_max_rows (dec_matrix d1) = dm_max_rows (dec_matrix d)"
    using keeps_up_round [OF Cons.prems(1-4) n(1) r Cons.hyps(1), of rnd disp P] by blast
  obtain qs d' e where k: "list_all2 carries (all_arrived arrived) qs" "decoder_run rnd disp P d1 qs = Ok (d', e)"
    "keeps_up f L S (Suc n + length rounds) d'" "run_events S d1 d' e" "no_gap e"
    using Cons.IH [OF h(3) _ Cons.prems(3,4) rest n(2)] Cons.prems(2) h(6) by auto
  have "list_all2 carries (all_arrived (a # arrived)) (ps @ qs)"
    using list_all2_appendI [OF h(1) k(1)] by (simp add: split_beta)
  moreover have "decoder_run rnd disp P d (ps @ qs) = Ok (d', b @ e)" by (simp add: decoder_run_append h(2) k(2))
  moreover have "run_events S d d' (b @ e)" by (rule run_events_trans [OF h(4) k(4)])
  ultimately show ?case using k(3,5) h(5) no_gap_append [of b e] by (metis add_Suc_shift length_Cons)
qed

lemma heard_subseq: "list_all2 heard arrived rounds \<Longrightarrow> subseq (all_arrived arrived) (map raw_of (all_outputs rounds))"
proof (induction arrived rounds rule: list_all2_induct)
  case (Cons a arrived r rounds)
  then show ?case unfolding heard_def by (cases a; cases r) (auto intro: list_emb_append_mono)
qed simp

section \<open>The promise\<close>

lemma one_packet_decoder:
  assumes "congestion_control C cinv" "cinv c" "encoder_config_ok config" "ec_window_capacity config \<le> 255"
    and "dc_field dconfig = ec_field config" "dc_symbol_size dconfig = ec_symbol_size config" "0 < dc_max_matrix_rows dconfig"
    and "round_trace W C F disp (Encoder_new config w c fec) rounds ds e" "length ds \<le> 65535"
    and "list_all2 heard arrived rounds"
  obtains ps d evs where "list_all2 carries (all_arrived arrived) ps" "decoder_run rnd disp' P (Decoder_new dconfig policy) ps = Ok (d, evs)"
    "deliveries evs = map (\<lambda>k. (of_nat k, ds ! k)) [0..<length ds]"
proof -
  let ?L = "ec_symbol_size config" and ?S = "payloads (ec_symbol_size config) 0 ds" and ?d0 = "Decoder_new dconfig policy"
  have pre: "\<forall>k < length ds. ?S (of_nat k) = ds ! k" using assms(9) by (simp add: payloads_def unat_of_nat)
  have tr: "encoder_trace W C F disp (Encoder_new config w c fec) (all_outputs rounds) ds e"
    using round_trace_encoder [OF assms(8)] by blast
  have "\<forall>d \<in> set ds. length d = ?L" using trace_sizes [OF tr] by (simp add: Encoder_new_def Let_def)
  then have S: "sized ?L ?S" "0 < ?L" using assms(3) by (auto simp: sized_def payloads_def encoder_config_ok_def)
  have rt: "length rounds = length ds" "\<forall>k < length rounds. round_true (ec_field config) ?L ?S (0 + k) (rounds ! k)"
    using congestion_control.rounds_true [OF assms(1,8) sending_new [OF assms(3), where cinv = cinv, OF assms(2)] assms(4,9) pre]
    by simp_all
  have rows: "0 < dm_max_rows (dec_matrix ?d0)" using assms(7) by (simp add: Decoder_new_def DecodingMatrix_new_def)
  have len: "0 + length rounds \<le> 65535" using rt(1) assms(9) by simp
  obtain ps d evs where k: "list_all2 carries (all_arrived arrived) ps" "decoder_run rnd disp' P ?d0 ps = Ok (d, evs)"
    "keeps_up (ec_field config) ?L ?S (length ds) d" "run_events ?S ?d0 d evs" "no_gap evs"
    using keeps_up_rounds [OF keeps_up_new [OF assms(5,6)] rows S rt(2) assms(10) len, of rnd disp' P] rt(1) by auto
  have n0: "next_of ?d0 = 0" by (simp add: next_of_def Decoder_new_def SymbolBuffer_new_def)
  have run: "run_from 0 (deliveries evs)" "next_of d = of_nat (length (deliveries evs))"
    using k(4,5) by (simp_all add: run_events_def n0)
  have out: "of_nat (length (deliveries evs)) \<notin> set (bt_keys (known d))" "ids_below (length ds) \<subseteq> set (bt_keys (known d))"
    using k(3) run(2) by (simp_all add: keeps_up_def caught_up_def run_inv_def)
  from decoded_sound [OF assms(1-4) tr assms(9) heard_subseq [OF assms(10)] assms(5,6) k(1,2)]
  have "deliveries evs = map (\<lambda>k. (of_nat k, ds ! k)) [0..<length ds]" by (intro all_ready [OF _ _ run(1) out assms(9)]) auto
  then show ?thesis by (rule that [OF k(1,2)])
qed

text \<open>C5: one packet per symbol is enough. The symbols are submitted one after the other, with feedback and
  extra coded packets of every kind in between, and of the datagrams of each submission at least one
  arrives, the source packet or any of its coded packets; everything else may be lost. Then the receiver,
  which needs a matrix of one row only, has ready exactly the payloads submitted, all of them, in order, and
  no call fails. This holds for every number of submissions, so each symbol is there before the next one is
  submitted, for both coefficient strategies and both fields and beyond the number of coded identifiers.\<close>

theorem one_packet_per_symbol:
  assumes "congestion_control C cinv" "cinv c" "encoder_config_ok config" "ec_window_capacity config \<le> 255"
    and "dc_field dconfig = ec_field config" "dc_symbol_size dconfig = ec_symbol_size config" "0 < dc_max_matrix_rows dconfig"
    and "round_trace W C F disp (Encoder_new config w c fec) rounds ds e" "length ds \<le> 65535"
    and "list_all2 heard arrived rounds"
  shows "\<exists>r net' xs. receive_all U rnd disp' P (FecReceiver_new (Decoder_new dconfig policy) addr) net (all_arrived arrived) =
      (r, net', xs) \<and> (\<forall>x \<in> set xs. \<exists>b. x = TOk b) \<and> ready r = map (\<lambda>k. (of_nat k, ds ! k)) [0..<length ds]"
proof -
  obtain ps d evs where k: "list_all2 carries (all_arrived arrived) ps" "decoder_run rnd disp' P (Decoder_new dconfig policy) ps = Ok (d, evs)"
    "deliveries evs = map (\<lambda>k. (of_nat k, ds ! k)) [0..<length ds]"
    by (rule one_packet_decoder [OF assms])
  have "decoder_run rnd disp' P (rx_decoder (FecReceiver_new (Decoder_new dconfig policy) addr)) ps = Ok (d, evs)"
    using k(2) by (simp add: FecReceiver_new_def)
  from receive_all_run [OF k(1) this, of U net] k(3) show ?thesis by (auto simp: FecReceiver_new_def)
qed

text \<open>The witness: a submission at the rate of one coded packet per symbol, of which only the last packet arrives.\<close>

abbreviation full_rate_encoder :: "(unit, unit, ConstantFec) Encoder" where
  "full_rate_encoder \<equiv> Encoder_new small_config () () \<lparr> fec_numer = 1, fec_denom = 1, fec_acc = 0 \<rparr>"

lemma full_rate_round:
  obtains e new where "round_trace AnyAckPolicy NoCongestionControl ConstantFecRate Ssse3 full_rate_encoder [(new, [])] [[5]] e"
    "submit_source Ssse3 NoCongestionControl ConstantFecRate full_rate_encoder [5] = Ok (e, new)" "heard ([raw_of (last new)], []) (new, [])"
proof -
  let ?e = full_rate_encoder
  have cfg: "encoder_config_ok small_config" "ec_window_capacity small_config \<le> 255" by (simp_all add: encoder_config_ok_def)
  have ok: "encoder_ok ?e" by (rule encoder_ok_new [OF cfg(1)])
  have pre: "length [5 :: u8] = ec_symbol_size (enc_config ?e)" "next_id (enc_window ?e) \<noteq> - 1"
    "is_full (enc_window ?e) \<longrightarrow> ec_backpressure (enc_config ?e) = EvictOldest"
    by (simp_all add: Encoder_new_def EncodingWindow_new_def is_full_def)
  obtain e' new where sub: "submit_source Ssse3 NoCongestionControl ConstantFecRate ?e [5] = Ok (e', new)"
    using congestion_control.submit_ok [OF no_cc.congestion_control_axioms ok TrueI pre(1,3,2)] by metis
  have snd: "sending (\<lambda>_. True) small_config (\<lambda>_. [5]) 0 ?e" by (rule sending_new [OF cfg(1), where cinv = "\<lambda>_. True", OF TrueI])
  have n: "(0 :: nat) < 65535" by simp
  obtain p ps where "outputs_true (ec_field small_config) (ec_symbol_size small_config) (\<lambda>_. [5]) (Suc 0) new (SourceP p # ps)"
    using congestion_control.submitted_true [OF no_cc.congestion_control_axioms snd n cfg(2) sub refl] by blast
  then have ne: "new \<noteq> []" by (auto simp: outputs_true_def)
  have "map raw_of new = map raw_of (butlast new) @ [raw_of (last new)]" using ne by (metis append_butlast_last_id list.simps(8,9) map_append)
  then have "subseq [raw_of (last new)] (map raw_of new)" by (metis list_emb_append2 subseq_order.order_refl)
  then have heard: "heard ([raw_of (last new)], []) (new, [])" by (simp add: heard_def)
  have "round_trace AnyAckPolicy NoCongestionControl ConstantFecRate Ssse3 ?e ([] @ [(new, [])]) ([] @ [[5]]) e'"
    by (rule round_trace.round [OF round_trace.start [OF encoder_trace.start] sub encoder_trace.start])
  with heard sub show ?thesis by (intro that) simp_all
qed

theorem one_packet_per_symbol_witness:
  "\<exists>new r net' xs. receive_all silent_socket (\<lambda>x. x) Scalar ImmediateFeedbackPolicy
      (FecReceiver_new (Decoder_new small_decoder_config ()) 7) () [raw_of (last new)] = (r, net', xs) \<and>
    (\<exists>e. submit_source Ssse3 NoCongestionControl ConstantFecRate full_rate_encoder [5] = Ok (e, new)) \<and> ready r = [(0, [5])]"
proof -
  have cfg: "encoder_config_ok small_config" "ec_window_capacity small_config \<le> 255" by (simp_all add: encoder_config_ok_def)
  have d: "dc_field small_decoder_config = ec_field small_config" "dc_symbol_size small_decoder_config = ec_symbol_size small_config"
    "0 < dc_max_matrix_rows small_decoder_config" by simp_all
  have l: "length [[5 :: u8]] \<le> 65535" by simp
  obtain e new where t: "round_trace AnyAckPolicy NoCongestionControl ConstantFecRate Ssse3 full_rate_encoder [(new, [])] [[5]] e"
    "submit_source Ssse3 NoCongestionControl ConstantFecRate full_rate_encoder [5] = Ok (e, new)"
    "heard ([raw_of (last new)], []) (new, [])" by (rule full_rate_round)
  have h: "list_all2 heard [([raw_of (last new)], [])] [(new, [])]" using t(3) by simp
  from one_packet_per_symbol [OF no_cc.congestion_control_axioms TrueI cfg d t(1) l h,
      of silent_socket "\<lambda>x. x" Scalar ImmediateFeedbackPolicy "()" 7 "()"] t(2) show ?thesis by auto
qed

end
