(* ===== verification/Example_Links.thy ===== *)
theory Example_Links
  imports Recv_Stream Per_Symbol Cli_Tools
begin

text \<open>
  \<^verbatim>\<open>examples/udp_fec.rs\<close> and \<^verbatim>\<open>examples/file_transfer.rs\<close>: a sender and a receiver over a
  proxy that drops source packets at random. The tasks of an example are joined by loopback sockets, taken
  as lossless queues: the sender's datagrams go through the proxy to the receiver in the order sent. The
  feedback the sender finds when it asks for it is any list of results of \<open>try_recv_from\<close>.
\<close>

section \<open>The generators\<close>

definition xorshift :: "u64 \<Rightarrow> u64 \<times> u8" where
  "xorshift x =
     (let x = x XOR drop_bit 12 x;
          x = x XOR push_bit 25 x;
          x = x XOR drop_bit 27 x
      in (x, ucast (drop_bit 56 (x * 0x2545F4914F6CDD1D))))"

text \<open>\<open>clock\<close> is the time since the epoch in nanoseconds, if there is one.\<close>

definition rand_u8 :: "u64 option \<Rightarrow> u64 \<Rightarrow> u64 \<times> u8" where
  "rand_u8 clock s =
     xorshift (if s = 0
       then (let x = (case clock of Some t \<Rightarrow> t | None \<Rightarrow> 0x853C49E6748FEA9B) in if x = 0 then 0x853C49E6748FEA9B else x)
       else s)"

section \<open>The proxies\<close>

datatype Fate = ToSender | ToReceiver | Dropped

definition udp_fec_proxy :: "u64 option \<Rightarrow> u64 \<Rightarrow> bytes \<Rightarrow> (u64 \<times> Fate) res" where
  "udp_fec_proxy clock s raw =
     (if length raw \<ge> 4 \<and> raw ! 3 = 2 then Ok (s, ToSender)
      else and_then (index raw 3) (\<lambda>t.
        if t = 0
        then let (s, r) = rand_u8 clock s in Ok (s, if r mod 100 < 30 then Dropped else ToReceiver)
        else Ok (s, ToReceiver)))"

definition file_proxy :: "u64 \<Rightarrow> bytes \<Rightarrow> (u64 \<times> Fate) res" where
  "file_proxy s raw =
     (if length raw \<ge> 4 \<and> raw ! 3 = 2 then Ok (s, ToSender)
      else
        let (s, r) = xorshift s; r = r mod 100
        in and_then (index raw 3) (\<lambda>t. Ok (s, if t = 0 \<and> r < 25 then Dropped else ToReceiver)))"

text \<open>The loop of a proxy, on what the sender sends: what goes to the receiver and back to the sender.\<close>

fun proxy_loop :: "('s \<Rightarrow> bytes \<Rightarrow> ('s \<times> Fate) res) \<Rightarrow> 's \<Rightarrow> bytes list \<Rightarrow> ('s \<times> bytes list \<times> bytes list) res" where
  "proxy_loop step s [] = Ok (s, [], [])"
| "proxy_loop step s (raw # raws) =
     (let raw = take 65536 raw
      in and_then (step s raw) (\<lambda>(s, fate).
         and_then (proxy_loop step s raws) (\<lambda>(s, rx, tx).
           Ok (s, case fate of ToReceiver \<Rightarrow> (raw # rx, tx) | ToSender \<Rightarrow> (rx, raw # tx) | Dropped \<Rightarrow> (rx, tx)))))"

section \<open>The sender's socket\<close>

text \<open>Its state: the results the next calls of \<open>try_recv_from\<close> will have, and what was sent.\<close>

definition link_socket :: "((bytes \<times> 'addr, 'io) io_result list \<times> bytes list, 'addr, 'io) UdpSocket" where
  "link_socket =
     \<lparr> send_to = (\<lambda>(fb, wire) b a. ((fb, wire @ [b]), Inl ())),
       try_send_to = (\<lambda>(fb, wire) b a. ((fb, wire @ [b]), Done ())),
       recv_from = (\<lambda>net. None),
       try_recv_from = (\<lambda>(fb, wire). case fb of [] \<Rightarrow> (([], wire), WouldBlock) | x # fb \<Rightarrow> ((fb, wire), x)) \<rparr>"

type_synonym 'addr ExampleSender = "(unit, unit, ConstantFec, 'addr) FecSender"
type_synonym ('addr, 'io) link = "(bytes \<times> 'addr, 'io) io_result list \<times> bytes list"

section \<open>udp\_fec\<close>

text \<open>The payload \<open>symbol-0000\<close> and so on, repeated; \<open>i\<close> has at most four digits.\<close>

definition numbered_symbol :: "nat \<Rightarrow> bytes" where
  "numbered_symbol i =
     (let text = [0x73, 0x79, 0x6D, 0x62, 0x6F, 0x6C, 0x2D] @ map (\<lambda>k. 48 + of_nat (i div k mod 10)) [1000, 100, 10, 1]
      in map (\<lambda>k. text ! (k mod length text)) [0..<1024])"

text \<open>The sender task: every \<open>unwrap\<close> of an error is a panic.\<close>

fun send_each :: "Dispatch \<Rightarrow> 'addr ExampleSender \<Rightarrow> ('addr, 'io) link \<Rightarrow> bytes list \<Rightarrow>
    ('addr ExampleSender \<times> ('addr, 'io) link) res" where
  "send_each disp s net [] = Ok (s, net)"
| "send_each disp s net (data # ds) =
     (case send_source link_socket disp NoCongestionControl ConstantFecRate s net data of
        (s, net, TOk _) \<Rightarrow> send_each disp s net ds
      | _ \<Rightarrow> Panic)"

definition udp_fec_sender :: "Dispatch \<Rightarrow> ('addr \<Rightarrow> ReceiverId) \<Rightarrow> 'addr ExampleSender \<Rightarrow>
    (bytes \<times> 'addr, 'io) io_result list \<Rightarrow> bytes list res" where
  "udp_fec_sender disp addr_to_receiver_id s fb =
     and_then (send_each disp s (fb, []) (map numbered_symbol [0..<12])) (\<lambda>(s, net).
       case recv_feedback link_socket addr_to_receiver_id AnyAckPolicy NoCongestionControl ConstantFecRate s net of
         Some (s, net, TOk _) \<Rightarrow> Ok (snd net)
       | _ \<Rightarrow> Panic)"

text \<open>The receiver task: a timeout, an error or another identifier than the expected one is a panic.\<close>

fun recv_expected :: "('n, 'addr, 'io) UdpSocket \<Rightarrow> (rat \<Rightarrow> rat) \<Rightarrow> Dispatch \<Rightarrow> (ConstantFeedback, 'addr) FecReceiver \<Rightarrow> 'n \<Rightarrow>
    nat list \<Rightarrow> unit res" where
  "recv_expected U rnd disp r net [] = Ok ()"
| "recv_expected U rnd disp r net (expected_id # ids) =
     (case recv_source U rnd disp ConstantFeedbackPolicy r net of
        Some (r, net, TOk (i, data)) \<Rightarrow> if unat i = expected_id then recv_expected U rnd disp r net ids else Panic
      | _ \<Rightarrow> Panic)"

definition udp_fec :: "Dispatch \<Rightarrow> Dispatch \<Rightarrow> (rat \<Rightarrow> rat) \<Rightarrow> ('addr \<Rightarrow> ReceiverId) \<Rightarrow> u64 option \<Rightarrow> 'addr \<Rightarrow> 'addr \<Rightarrow>
    (bytes \<Rightarrow> 'addr \<Rightarrow> unit + 'io) \<Rightarrow> (bytes \<times> 'addr, 'io) io_result list \<Rightarrow> unit res" where
  "udp_fec disp disp' rnd addr_to_receiver_id clock proxy_addr sender_addr tx fb =
     and_then (EncoderConfigBuilder_build (with_matrix_strategy (with_fec_rate (with_window_capacity
         (EncoderConfigBuilder_new 1024) 16) 1 1) Vandermonde)) (\<lambda>enc_cfg.
     and_then (DecoderConfigBuilder_build (DecoderConfigBuilder_new 1024)) (\<lambda>dec_cfg.
     and_then (Encoder_with_defaults enc_cfg) (\<lambda>encoder.
     and_then (Decoder_with_defaults dec_cfg) (\<lambda>decoder.
     and_then (udp_fec_sender disp addr_to_receiver_id (FecSender_new addr_to_receiver_id encoder proxy_addr) fb) (\<lambda>wire.
     and_then (proxy_loop (udp_fec_proxy clock) 0 wire) (\<lambda>(_, rx, _).
       recv_expected (inbox_socket tx proxy_addr) rnd disp' (FecReceiver_new decoder sender_addr) rx [0..<12]))))))"

section \<open>file\_transfer\<close>

definition example_blob :: bytes where
  "example_blob = xorshift_bytes 0xABCDEF1234567890 (128 * 1024)"

text \<open>The sender's inner loop. It ends only when there is room in the window; \<open>patience\<close> is the number of rounds,
  two milliseconds apart, that it makes at one symbol before the ten seconds are over in which the receiver has got
  nothing. The result says whether the symbol was sent by then.\<close>

fun send_retrying :: "Dispatch \<Rightarrow> ('addr \<Rightarrow> ReceiverId) \<Rightarrow> nat \<Rightarrow> 'addr ExampleSender \<Rightarrow> ('addr, 'io) link \<Rightarrow> bytes \<Rightarrow>
    (bool \<times> 'addr ExampleSender \<times> ('addr, 'io) link) res" where
  "send_retrying disp addr_to_receiver_id 0 s net chunk = Ok (False, s, net)"
| "send_retrying disp addr_to_receiver_id (Suc patience) s net chunk =
     (case recv_feedback link_socket addr_to_receiver_id AnyAckPolicy NoCongestionControl ConstantFecRate s net of
        None \<Rightarrow> Ok (False, s, net)
      | Some (s, net, TPanic) \<Rightarrow> Panic
      | Some (s, net, _) \<Rightarrow>
          (case send_source link_socket disp NoCongestionControl ConstantFecRate s net chunk of
             (s, net, TOk _) \<Rightarrow> Ok (True, s, net)
           | (s, net, TErr (Codec (WindowFull _))) \<Rightarrow> send_retrying disp addr_to_receiver_id patience s net chunk
           | _ \<Rightarrow> Panic))"

fun send_chunks :: "Dispatch \<Rightarrow> ('addr \<Rightarrow> ReceiverId) \<Rightarrow> nat \<Rightarrow> 'addr ExampleSender \<Rightarrow> ('addr, 'io) link \<Rightarrow> bytes list \<Rightarrow>
    (bool \<times> 'addr ExampleSender \<times> ('addr, 'io) link) res" where
  "send_chunks disp addr_to_receiver_id patience s net [] = Ok (True, s, net)"
| "send_chunks disp addr_to_receiver_id patience s net (chunk # cs) =
     and_then (send_retrying disp addr_to_receiver_id patience s net chunk) (\<lambda>(sent, s, net).
       if sent then send_chunks disp addr_to_receiver_id patience s net cs else Ok (False, s, net))"

text \<open>The sender task up to then: whether it has ended, and what it has sent.\<close>

definition file_sender :: "Dispatch \<Rightarrow> ('addr \<Rightarrow> ReceiverId) \<Rightarrow> nat \<Rightarrow> 'addr ExampleSender \<Rightarrow> (bytes \<times> 'addr, 'io) io_result list \<Rightarrow>
    bytes \<Rightarrow> (bool \<times> bytes list) res" where
  "file_sender disp addr_to_receiver_id patience s fb blob =
     and_then (send_chunks disp addr_to_receiver_id patience s (fb, []) (map (\<lambda>i. take 1024 (drop (i * 1024) blob)) [0..<128]))
       (\<lambda>(sent, s, net).
          if \<not> sent then Ok (False, snd net)
          else case recv_feedback link_socket addr_to_receiver_id AnyAckPolicy NoCongestionControl ConstantFecRate s net of
                 None \<Rightarrow> Ok (False, snd net)
               | Some (s, net, TPanic) \<Rightarrow> Panic
               | Some (s, net, _) \<Rightarrow> Ok (True, snd net))"

text \<open>The receiver task, \<open>while received < n_symbols\<close>, with the number still to receive. When nothing more arrives
  the timeout ends it with a panic.\<close>

fun recv_blob :: "('n, 'addr, 'io) UdpSocket \<Rightarrow> (rat \<Rightarrow> rat) \<Rightarrow> Dispatch \<Rightarrow> (ConstantFeedback, 'addr) FecReceiver \<Rightarrow> 'n \<Rightarrow>
    bytes \<Rightarrow> nat \<Rightarrow> bytes res" where
  "recv_blob U rnd disp r net reconstructed 0 = Ok reconstructed"
| "recv_blob U rnd disp r net reconstructed (Suc k) =
     (case recv_source U rnd disp ConstantFeedbackPolicy r net of
        Some (r, net, TOk (i, data)) \<Rightarrow>
          let off = unat i * 1024
          in if off + 1024 \<le> length reconstructed \<and> length data = 1024
             then recv_blob U rnd disp r net (take off reconstructed @ data @ drop (off + 1024) reconstructed) k
             else Panic
      | _ \<Rightarrow> Panic)"

text \<open>The two tasks of the example: whether the sender has ended, and the outcome of the receiver, which is the
  comparison of the blobs or a panic. The receiver gets what the sender has sent, through the proxy; when the sender has
  run out of patience no more comes, and the receiver's timeout strikes. A panic of the sender or of the proxy is the panic of the whole.\<close>

definition file_transfer :: "Dispatch \<Rightarrow> Dispatch \<Rightarrow> (rat \<Rightarrow> rat) \<Rightarrow> ('addr \<Rightarrow> ReceiverId) \<Rightarrow> 'addr \<Rightarrow> 'addr \<Rightarrow>
    (bytes \<Rightarrow> 'addr \<Rightarrow> unit + 'io) \<Rightarrow> nat \<Rightarrow> (bytes \<times> 'addr, 'io) io_result list \<Rightarrow> (bool \<times> bool res) res" where
  "file_transfer disp disp' rnd addr_to_receiver_id proxy_addr sender_addr tx patience fb =
     and_then (EncoderConfigBuilder_build (with_matrix_strategy (with_fec_rate (with_window_capacity
         (EncoderConfigBuilder_new 1024) 32) 1 1) Vandermonde)) (\<lambda>enc_cfg.
     and_then (DecoderConfigBuilder_build (dec_with_feedback_every (DecoderConfigBuilder_new 1024) 8)) (\<lambda>dec_cfg.
     and_then (Encoder_with_defaults enc_cfg) (\<lambda>encoder.
     and_then (Decoder_with_defaults dec_cfg) (\<lambda>decoder.
     and_then (file_sender disp addr_to_receiver_id patience (FecSender_new addr_to_receiver_id encoder proxy_addr) fb example_blob)
       (\<lambda>(ended, wire).
     and_then (proxy_loop file_proxy 0xC0FFEE wire) (\<lambda>(_, rx, _).
       Ok (ended, and_then (recv_blob (inbox_socket tx proxy_addr) rnd disp' (FecReceiver_new decoder sender_addr) rx
           (replicate (128 * 1024) 0) 128) (\<lambda>reconstructed. Ok (reconstructed = example_blob)))))))))"

end
