(* ===== verification/Window_Feedback.thy ===== *)
theory Window_Feedback
  imports End_To_End
begin

text \<open>
  What feedback leaves in the encoding window, for each of the window policies: the acknowledgement tracker,
  the policy and the removal taken together.
\<close>

section \<open>Who changes the acknowledgements\<close>

lemma inner_acks:
  "generate_coded_inner disp C e cover = Ok (e', r) \<Longrightarrow> ack_state e' = ack_state e \<and> enc_policy e' = enc_policy e"
  by (auto simp: generate_coded_inner_def compute_coded_payload_targeted_def Let_def advance_coded_id_def
      split: MatrixStrategy.splits if_splits)

lemma coded_acks:
  "generate_coded disp C e = Ok (e', r) \<Longrightarrow> ack_state e' = ack_state e \<and> enc_policy e' = enc_policy e"
  "generate_coded_recent disp C e k = Ok (e', r) \<Longrightarrow> ack_state e' = ack_state e \<and> enc_policy e' = enc_policy e"
  "generate_coded_for_receiver disp C e rid = Ok (e', r) \<Longrightarrow> ack_state e' = ack_state e \<and> enc_policy e' = enc_policy e"
  "generate_coded_targeted disp C e cover = Ok (e', r) \<Longrightarrow> ack_state e' = ack_state e \<and> enc_policy e' = enc_policy e"
  by (auto simp: generate_coded_def generate_coded_recent_def generate_coded_for_receiver_def generate_coded_targeted_def Let_def
      dest: inner_acks split: if_splits)

lemma coded_loop_acks:
  "coded_loop disp C n e out = Ok (e', outs) \<Longrightarrow> ack_state e' = ack_state e \<and> enc_policy e' = enc_policy e"
proof (induction n arbitrary: e out)
  case (Suc n)
  then obtain e1 r where "generate_coded disp C e = Ok (e1, r)"
    "(case r of Some coded \<Rightarrow> coded_loop disp C n e1 (out @ [coded]) | None \<Rightarrow> Ok (e1, out)) = Ok (e', outs)" by auto
  with Suc.IH coded_acks(1) show ?case by (cases r) fastforce+
qed simp

lemma submit_acks:
  "submit_source disp C F e data = Ok (e', outs) \<Longrightarrow> ack_state e' = ack_state e \<and> enc_policy e' = enc_policy e"
  by (auto simp: submit_source_def Let_def split_beta split: if_splits BackpressureMode.splits dest!: coded_loop_acks)

text \<open>Along a run the tracker stays an ordered map and a policy without a state of its own stays the same.\<close>

lemma trace_acks:
  assumes "encoder_trace W C F disp (Encoder_new config w c f) outs ds e" "\<And>p s ids. fst (symbols_to_remove W p s ids) = p"
  shows "bt_ok (receivers (ack_state e)) \<and> enc_policy e = w"
  using assms(1)
proof (induction rule: encoder_trace.induct)
  case start
  show ?case by (simp add: Encoder_new_def ReceiverAckState_default_def Let_def)
next
  case (feedback outs ds e rid pkt)
  with assms(2) show ?case by (simp add: handle_feedback_def ack_update_def Let_def split_beta bt_ok_insert)
qed (auto dest: submit_acks coded_acks)

section \<open>The window after feedback\<close>

lemma acked_by_known: "{r. ack_is_acked s r i} = {r \<in> set (receiver_ids s). ack_is_acked s r i}"
  using bt_get_None_iff [of "receivers s"] by (auto simp: ack_is_acked_def receiver_ids_def split: option.splits)

lemma acked_count:
  assumes "bt_ok (receivers s)"
  shows "length (filter (\<lambda>r. ack_is_acked s r i) (receiver_ids s)) = card {r. ack_is_acked s r i}"
proof -
  have "distinct (receiver_ids s)" using bt.keys_distinct [OF assms] by (simp add: receiver_ids_def)
  then have "length (filter (\<lambda>r. ack_is_acked s r i) (receiver_ids s)) = card (set (filter (\<lambda>r. ack_is_acked s r i) (receiver_ids s)))"
    by (intro distinct_card [symmetric] distinct_filter)
  also have "set (filter (\<lambda>r. ack_is_acked s r i) (receiver_ids s)) = {r. ack_is_acked s r i}"
    unfolding acked_by_known [of s i] by simp
  finally show ?thesis .
qed

lemma remove_chosen:
  "win_symbols (remove_ids w (filter P (id_slice w))) = filter (\<lambda>s. \<not> P (ws_id s)) (win_symbols w)"
  by (auto simp: remove_ids_def Let_def id_slice_def filter_empty_conv intro!: filter_cong)

text \<open>C31: feedback removes from the window exactly the symbols that the policy may give up, counting the new packet.
  Under the any-receiver policy the symbols that nobody has acknowledged stay; under the all-receivers policy
  those that some receiver heard of, the one of this packet included, has not acknowledged; under the quorum
  policy, after any run of the encoder, those that fewer receivers than the quorum have acknowledged. The others
  go, and what stays keeps its payload and its order.\<close>

theorem window_after_feedback:
  assumes "encoder_trace QuorumAckPolicy C F disp (Encoder_new config q c f) outs ds e'"
  shows "win_symbols (enc_window (handle_feedback AnyAckPolicy C F e rid pkt)) =
      filter (\<lambda>s. \<forall>r. \<not> ack_is_acked (ack_update (ack_state e) rid pkt) r (ws_id s)) (win_symbols (enc_window e)) \<and>
    win_symbols (enc_window (handle_feedback AllAckPolicy C F e rid pkt)) =
      filter (\<lambda>s. \<exists>r \<in> insert rid (set (receiver_ids (ack_state e))).
        \<not> ack_is_acked (ack_update (ack_state e) rid pkt) r (ws_id s)) (win_symbols (enc_window e)) \<and>
    win_symbols (enc_window (handle_feedback QuorumAckPolicy C F e' rid pkt)) =
      filter (\<lambda>s. card {r. ack_is_acked (ack_update (ack_state e') rid pkt) r (ws_id s)} < quorum q) (win_symbols (enc_window e'))"
proof (intro conjI)
  let ?s = "ack_update (ack_state e) rid pkt" and ?s' = "ack_update (ack_state e') rid pkt"
  have known: "set (receiver_ids ?s) = insert rid (set (receiver_ids (ack_state e)))"
    by (simp add: ack_update_def receiver_ids_def Let_def set_bt_keys_insert)
  then have some: "num_receivers ?s \<noteq> 0" by (auto simp: num_receivers_def receiver_ids_def)
  have "list_ex (\<lambda>r. ack_is_acked ?s r i) (receiver_ids ?s) = (\<exists>r. ack_is_acked ?s r i)" for i
    using acked_by_known [of ?s i] by (auto simp: list_ex_iff)
  then show "win_symbols (enc_window (handle_feedback AnyAckPolicy C F e rid pkt)) =
      filter (\<lambda>s. \<forall>r. \<not> ack_is_acked ?s r (ws_id s)) (win_symbols (enc_window e))"
    unfolding handle_feedback_window by (simp add: AnyAckPolicy_def remove_chosen)
  show "win_symbols (enc_window (handle_feedback AllAckPolicy C F e rid pkt)) =
      filter (\<lambda>s. \<exists>r \<in> insert rid (set (receiver_ids (ack_state e))). \<not> ack_is_acked ?s r (ws_id s)) (win_symbols (enc_window e))"
    unfolding handle_feedback_window by (simp add: AllAckPolicy_def some remove_chosen list_all_iff flip: known)
  have run: "bt_ok (receivers (ack_state e')) \<and> enc_policy e' = q"
    by (rule trace_acks [OF assms]) (simp add: QuorumAckPolicy_def)
  then have "bt_ok (receivers ?s')" by (simp add: ack_update_def Let_def bt_ok_insert)
  from acked_count [OF this] run
  show "win_symbols (enc_window (handle_feedback QuorumAckPolicy C F e' rid pkt)) =
      filter (\<lambda>s. card {r. ack_is_acked ?s' r (ws_id s)} < quorum q) (win_symbols (enc_window e'))"
    unfolding handle_feedback_window by (simp add: QuorumAckPolicy_def remove_chosen not_le)
qed

text \<open>The witness: a quorum of two receivers, after one symbol and the feedback of one of them.\<close>

theorem window_after_feedback_witness:
  "\<exists>outs e. let pkt = \<lparr> fb_tsi = None, nb_missing_src = 0, nb_not_used_coded = 0, first_src_id = 1, plr_raw = 0, sack = [] \<rparr> in
    encoder_trace QuorumAckPolicy NoCongestionControl ConstantFecRate Ssse3
      (Encoder_new small_config (QuorumAckPolicy_new 2) () \<lparr> fec_numer = 1, fec_denom = 4, fec_acc = 0 \<rparr>) outs [[5]] e \<and>
    win_symbols (enc_window (handle_feedback QuorumAckPolicy NoCongestionControl ConstantFecRate e 1 pkt)) =
      filter (\<lambda>s. card {r. ack_is_acked (ack_update (ack_state e) 1 pkt) r (ws_id s)} < 2) (win_symbols (enc_window e))"
proof -
  let ?p = "\<lparr> fb_tsi = None, nb_missing_src = 0, nb_not_used_coded = 0, first_src_id = 1, plr_raw = 0, sack = [] \<rparr> :: FeedbackPacket"
  obtain outs e where tr: "encoder_trace QuorumAckPolicy NoCongestionControl ConstantFecRate Ssse3
      (Encoder_new small_config (QuorumAckPolicy_new 2) () \<lparr> fec_numer = 1, fec_denom = 4, fec_acc = 0 \<rparr>) outs [[5]] e"
    by (rule small_trace)
  with window_after_feedback [OF tr, of _ 1 ?p] show ?thesis by (auto simp: QuorumAckPolicy_new_def Let_def)
qed

end
