(* ===== verification/Example_Links_Correct.thy ===== *)
theory Example_Links_Correct
  imports Example_Links Window_Feedback File_Send_Correct File_Recv_Correct Cli_Tools_Correct
begin

text \<open>
  The examples do what they say: whatever the generators yield and whatever feedback arrives, the receiver gets
  every symbol that is sent, since a proxy never drops a coded packet and one coded packet follows each source
  packet.
\<close>

section \<open>Proxies\<close>

text \<open>A pair of a source and a coded packet, as one submission makes it.\<close>

definition pair_ok :: "EncoderOutput list \<times> EncoderOutput list \<Rightarrow> bool" where
  "pair_ok r = (\<exists>a b. r = ([SourceOut a, CodedOut b], []) \<and> 4 \<le> length a \<and> a ! 3 = 0 \<and> 4 \<le> length b \<and> b ! 3 = 1 \<and>
     length a \<le> 65536 \<and> length b \<le> 65536)"

locale lossy_proxy =
  fixes step :: "'s \<Rightarrow> bytes \<Rightarrow> ('s \<times> Fate) res"
  assumes step_source: "4 \<le> length raw \<Longrightarrow> raw ! 3 = 0 \<Longrightarrow> \<exists>s'. step s raw = Ok (s', ToReceiver) \<or> step s raw = Ok (s', Dropped)"
    and step_coded: "4 \<le> length raw \<Longrightarrow> raw ! 3 = 1 \<Longrightarrow> \<exists>s'. step s raw = Ok (s', ToReceiver)"
begin

lemma proxy_rounds:
  "\<forall>r \<in> set rounds. pair_ok r \<Longrightarrow>
     \<exists>s' arrived. proxy_loop step s (map raw_of (all_outputs rounds)) = Ok (s', all_arrived arrived, []) \<and> list_all2 heard arrived rounds"
proof (induction rounds arbitrary: s)
  case Nil
  show ?case by (intro exI [of _ s] exI [of _ "[]"]) simp
next
  case (Cons r rounds)
  obtain a b where r: "r = ([SourceOut a, CodedOut b], [])" "4 \<le> length a" "a ! 3 = 0" "4 \<le> length b" "b ! 3 = 1"
    "length a \<le> 65536" "length b \<le> 65536" using Cons.prems by (auto simp: pair_ok_def)
  obtain s1 fate where 1: "step s a = Ok (s1, fate)" "fate = ToReceiver \<or> fate = Dropped" using step_source [OF r(2,3), of s] by blast
  obtain s2 where 2: "step s1 b = Ok (s2, ToReceiver)" using step_coded [OF r(4,5), of s1] by blast
  obtain s3 arrived where 3: "proxy_loop step s2 (map raw_of (all_outputs rounds)) = Ok (s3, all_arrived arrived, [])"
    "list_all2 heard arrived rounds" using Cons.IH [of s2] Cons.prems by auto
  let ?a = "if fate = ToReceiver then [a, b] else [b]"
  have "proxy_loop step s (map raw_of (all_outputs (r # rounds))) = Ok (s3, all_arrived ((?a, []) # arrived), [])"
    using 1 2 3(1) r(1,6,7) by auto
  moreover have "heard (?a, []) r" by (simp add: heard_def r(1))
  ultimately show ?case using 3(2) by (intro exI [of _ s3] exI [of _ "(?a, []) # arrived"]) simp
qed

end

interpretation udp_proxy: lossy_proxy "udp_fec_proxy clock" for clock
  by unfold_locales (auto simp: udp_fec_proxy_def index_def split: prod.split)

interpretation file_link: lossy_proxy file_proxy
  by unfold_locales (auto simp: file_proxy_def index_def Let_def split: prod.split)

section \<open>The sender\<close>

text \<open>Where the sender of an example is after the symbols \<open>ds\<close>.\<close>

abbreviation full_rate :: ConstantFec where
  "full_rate \<equiv> \<lparr> fec_numer = 1, fec_denom = 1, fec_acc = 0 \<rparr>"

definition link_inv :: "Dispatch \<Rightarrow> EncoderConfig \<Rightarrow> (EncoderOutput list \<times> EncoderOutput list) list \<Rightarrow> bytes list \<Rightarrow>
    'addr ExampleSender \<Rightarrow> ('addr, 'io) link \<Rightarrow> bool" where
  "link_inv disp config rounds ds s net =
     (round_trace AnyAckPolicy NoCongestionControl ConstantFecRate disp (Encoder_new config () () full_rate) rounds ds (tx_encoder s) \<and>
      enc_fec (tx_encoder s) = full_rate \<and> snd net = map raw_of (all_outputs rounds) \<and>
      (\<forall>r \<in> set rounds. \<exists>a b. r = ([SourceOut a, CodedOut b], [])))"

lemma link_traces:
  assumes "link_inv disp config rounds ds s net"
  shows "round_trace AnyAckPolicy NoCongestionControl ConstantFecRate disp (Encoder_new config () () full_rate) rounds ds (tx_encoder s)"
    "file_trace disp (Encoder_new config () () full_rate) (all_outputs rounds) ds (tx_encoder s)"
proof -
  show t: "round_trace AnyAckPolicy NoCongestionControl ConstantFecRate disp (Encoder_new config () () full_rate) rounds ds (tx_encoder s)"
    using assms unfolding link_inv_def by (rule conjunct1)
  show "file_trace disp (Encoder_new config () () full_rate) (all_outputs rounds) ds (tx_encoder s)"
    using round_trace_encoder [OF t] by (rule conjunct1)
qed

lemma round_trace_feedback:
  assumes "round_trace W C F disp e0 rounds ds e"
  shows "round_trace W C F disp e0 rounds ds (handle_feedback W C F e rid pkt)"
  using assms
proof (cases rule: round_trace.cases)
  case start
  then show ?thesis by (auto intro: round_trace.start encoder_trace.feedback)
next
  case (round rounds' ds' e' data e1 new extra)
  from round_trace.round [OF round(3,4) encoder_trace.feedback [OF round(5), of rid pkt]] round(1,2) show ?thesis by simp
qed

lemma link_inv_feedback:
  assumes "link_inv disp config rounds ds s net" "snd net' = snd net"
  shows "link_inv disp config rounds ds
    (s\<lparr> tx_encoder := handle_feedback AnyAckPolicy NoCongestionControl ConstantFecRate (tx_encoder s) rid pkt \<rparr>) net'"
proof -
  have "enc_fec (handle_feedback AnyAckPolicy NoCongestionControl ConstantFecRate (tx_encoder s) rid pkt) = enc_fec (tx_encoder s)"
    by (simp add: handle_feedback_def Let_def ConstantFecRate_def split_beta)
  moreover note round_trace_feedback [OF link_traces(1) [OF assms(1)], of rid pkt]
  ultimately show ?thesis using assms unfolding link_inv_def by (simp only: FecSender.simps) simp
qed

text \<open>Draining feedback ends, without a panic; it fails only where the socket does.\<close>

lemma drain_link:
  assumes "link_inv disp config rounds ds s (fb, wire)"
  shows "\<exists>s' fb' x. recv_feedback_loop link_socket addr_to_rid AnyAckPolicy NoCongestionControl ConstantFecRate s (fb, wire) n =
      Some (s', (fb', wire), x) \<and> link_inv disp config rounds ds s' (fb', wire) \<and> x \<noteq> TPanic \<and>
      ((\<forall>e. Failed e \<notin> set fb) \<longrightarrow> (\<exists>k. x = TOk k) \<and> (\<forall>e. Failed e \<notin> set fb'))"
  using assms
proof (induction fb arbitrary: s n)
  case Nil
  then show ?case by (subst recv_feedback_loop.simps) (simp add: link_socket_def)
next
  case (Cons t fb)
  have rest: "link_inv disp config rounds ds s (fb, wire)" using Cons.prems by (simp add: link_inv_def)
  show ?case
  proof (cases t)
    case (Done p)
    obtain raw src where p: "p = (raw, src)" by fastforce
    obtain s1 k where f: "take_feedback addr_to_rid AnyAckPolicy NoCongestionControl ConstantFecRate s (take 65536 raw) src = Some (s1, k)"
      "link_inv disp config rounds ds s1 (fb, wire)"
    proof (cases "FeedbackPacket_parse (take 65536 raw)")
      case (Ok fp)
      show ?thesis
        by (rule that [of "s\<lparr> tx_encoder := handle_feedback AnyAckPolicy NoCongestionControl ConstantFecRate (tx_encoder s) (addr_to_rid src) fp \<rparr>" 1])
          (simp add: take_feedback_def Ok, rule link_inv_feedback [OF rest], simp)
    next
      case (Err e)
      with that rest show ?thesis by (simp add: take_feedback_def)
    qed (use feedback_parse_total in simp)
    from Cons.IH [OF f(2), of "n + k"] show ?thesis
      by (subst recv_feedback_loop.simps) (simp add: link_socket_def Done p f(1))
  next
    case WouldBlock
    with rest show ?thesis by (subst recv_feedback_loop.simps) (simp add: link_socket_def)
  next
    case (Failed e)
    with rest show ?thesis by (subst recv_feedback_loop.simps) (auto simp: link_socket_def)
  qed
qed

text \<open>Sending one symbol: a source and a coded packet, or no room.\<close>

lemma send_link:
  fixes s :: "'addr ExampleSender" and net :: "('addr, 'io) link"
  assumes inv: "link_inv disp config rounds ds s net" and cfg: "encoder_config_ok config" "ec_window_capacity config \<le> 255"
    and n: "length ds < 65535" "length data = ec_symbol_size config"
  obtains s' net' a b where "send_source link_socket disp NoCongestionControl ConstantFecRate s net data = (s', net', TOk ())"
      "link_inv disp config (rounds @ [([SourceOut a, CodedOut b], [])]) (ds @ [data]) s' net'" "fst net' = fst net"
  | "is_full (enc_window (tx_encoder s))" "ec_backpressure config = Reject"
    "send_source link_socket disp NoCongestionControl ConstantFecRate s net data = (s, net, TErr (Codec (WindowFull (ec_window_capacity config))))"
proof -
  let ?e = "tx_encoder s" and ?init = "Encoder_new config () () full_rate"
  note rt = link_traces(1) [OF inv] and tr = link_traces(2) [OF inv]
  have cf: "enc_config ?e = config" using trace_state(2) [OF cfg _ tr] n(1) by simp
  show ?thesis
  proof (cases "is_full (enc_window ?e) \<and> ec_backpressure config = Reject")
    case True
    with n(2) cf show ?thesis by (intro that(2)) (simp_all add: send_source_def submit_source_def)
  next
    case False
    then have room: "is_full (enc_window ?e) \<longrightarrow> ec_backpressure config = EvictOldest" by (cases "ec_backpressure config") auto
    obtain e' pkt pkts where sub: "submit_source disp NoCongestionControl ConstantFecRate ?e data = Ok (e', SourceOut pkt # map CodedOut pkts)"
      "length pkts = (fec_acc (enc_fec ?e) + fec_numer (enc_fec ?e)) div fec_denom (enc_fec ?e)"
      "enc_fec e' = enc_fec ?e\<lparr> fec_acc := (fec_acc (enc_fec ?e) + fec_numer (enc_fec ?e)) mod fec_denom (enc_fec ?e) \<rparr>"
      by (rule submit_extends [OF tr n(1) cfg room n(2)]) blast
    have fec: "enc_fec ?e = full_rate" using inv by (simp add: link_inv_def)
    then obtain b where b: "pkts = [b]" using sub(2) by (cases pkts) auto
    obtain fb wire where net: "net = (fb, wire)" by fastforce
    have "send_source link_socket disp NoCongestionControl ConstantFecRate s net data = (s\<lparr> tx_encoder := e' \<rparr>, (fb, wire @ [pkt, b]), TOk ())"
      using sub(1) by (simp add: send_source_def b net link_socket_def)
    moreover have "round_trace AnyAckPolicy NoCongestionControl ConstantFecRate disp ?init (rounds @ [([SourceOut pkt, CodedOut b], [])]) (ds @ [data]) e'"
      using round_trace.round [OF rt sub(1) encoder_trace.start] by (simp add: b)
    then have "link_inv disp config (rounds @ [([SourceOut pkt, CodedOut b], [])]) (ds @ [data]) (s\<lparr> tx_encoder := e' \<rparr>) (fb, wire @ [pkt, b])"
      using inv sub(3) by (auto simp: link_inv_def fec net)
    ultimately show ?thesis using that(1) by (simp add: net)
  qed
qed

section \<open>From the sender to the receiver\<close>

lemma link_fits:
  assumes "link_inv disp config rounds ds s net" "encoder_config_ok config" "ec_window_capacity config \<le> 255"
    and "length ds \<le> 65535" "length ds < ec_window_capacity config"
  shows "\<not> is_full (enc_window (tx_encoder s))"
proof -
  note tr = link_traces(2) [OF assms(1)]
  note s = trace_sending [OF no_cc.congestion_control_axioms TrueI assms(2,3) tr assms(4), of 0 0]
  then have ok: "encoder_ok (tx_encoder s)" "enc_config (tx_encoder s) = config" by (simp_all add: sending_def)
  have "length (id_slice (enc_window (tx_encoder s))) \<le> length ds"
    by (rule sorted_below_length [OF encoder_ids(1) [OF ok(1)] window_ids_below(1) [OF s assms(4)]])
  with assms(5) ok show ?thesis by (simp add: is_full_def id_slice_def encoder_ok_def)
qed

lemma send_each_link:
  assumes "link_inv disp config rounds ds s net" "encoder_config_ok config" "ec_window_capacity config \<le> 255"
    and "length ds + length new \<le> ec_window_capacity config" "\<forall>d \<in> set new. length d = ec_symbol_size config"
  shows "\<exists>s' net' rounds'. send_each disp s net new = Ok (s', net') \<and> link_inv disp config rounds' (ds @ new) s' net' \<and> fst net' = fst net"
  using assms
proof (induction new arbitrary: rounds ds s net)
  case Nil
  then show ?case by auto
next
  case (Cons d new)
  have n: "length ds < 65535" "length ds \<le> 65535" "length ds < ec_window_capacity config" "length d = ec_symbol_size config"
    using Cons.prems by simp_all
  note full = link_fits [OF Cons.prems(1-3) n(2,3)]
  show ?case
  proof (rule send_link [OF Cons.prems(1-3) n(1,4)])
    fix s' net' a b
    assume step: "send_source link_socket disp NoCongestionControl ConstantFecRate s net d = (s', net', TOk ())"
      "link_inv disp config (rounds @ [([SourceOut a, CodedOut b], [])]) (ds @ [d]) s' net'" "fst net' = fst net"
    from Cons.IH [OF step(2) Cons.prems(2,3)] Cons.prems(4,5) step(1,3) show ?thesis by auto
  qed (use full in simp)
qed

lemma link_pairs:
  assumes inv: "link_inv disp config rounds ds s net" and cfg: "encoder_config_ok config" "ec_window_capacity config \<le> 255"
    and n: "length ds \<le> 65535" "ec_symbol_size config \<le> 60000"
  shows "\<forall>r \<in> set rounds. pair_ok r"
proof
  fix r assume r: "r \<in> set rounds"
  let ?S = "payloads (ec_symbol_size config) 0 ds"
  note rt = link_traces(1) [OF inv] and tr = link_traces(2) [OF inv]
  have "\<forall>k < length ds. ?S (of_nat k) = ds ! k" using n(1) by (simp add: payloads_def unat_of_nat)
  from no_cc.rounds_true [OF rt sending_new [OF cfg(1), where cinv = "\<lambda>_. True", OF TrueI] cfg(2) n(1) this] r
  obtain k where "round_true (ec_field config) (ec_symbol_size config) ?S k r" by (metis in_set_conv_nth)
  moreover obtain a b where ab: "r = ([SourceOut a, CodedOut b], [])" using inv r by (auto simp: link_inv_def)
  ultimately obtain p qs ids where o: "outputs_true (ec_field config) (ec_symbol_size config) ?S (Suc k) [SourceOut a, CodedOut b] (SourceP p # qs)"
    "\<forall>q \<in> set qs. covers ids q" unfolding round_true_def by auto
  then obtain q where "carries a (SourceP p)" "carries b q" "covers ids q" by (auto simp: outputs_true_def list_all2_Cons1)
  then obtain pkt where pk: "SourcePacket_parse a = Ok p" "CodedPacket_parse b = Ok pkt" by (cases q) auto
  note ta = parsed_type_byte [OF source_parse_type [OF pk(1)]] and tb = parsed_type_byte [OF coded_parse_type [OF pk(2)]]
  have "SourceOut a \<in> set (all_outputs rounds)" "CodedOut b \<in> set (all_outputs rounds)" using r ab by force+
  from this [THEN trace_lengths [OF no_cc.congestion_control_axioms TrueI cfg tr n(1)]] n(2)
  have "length a \<le> 65536" "length b \<le> 65536" by simp_all
  with ta tb ab show "pair_ok r" by (simp add: pair_ok_def)
qed

lemma arrivals_run:
  "list_all2 carries raws ps \<Longrightarrow> decoder_run rnd disp P d ps = Ok (d', evs) \<Longrightarrow> arrivals rnd disp P d raws = Some (deliveries evs)"
proof (induction raws ps arbitrary: d evs rule: list_all2_induct)
  case (Cons raw raws p ps)
  then show ?case by (auto simp: decode_carried)
qed simp

text \<open>What the receiver of an example gets.\<close>

lemma link_arrivals:
  assumes proxy: "lossy_proxy step" and inv: "link_inv disp config rounds ds s net"
    and cfg: "encoder_config_ok config" "ec_window_capacity config \<le> 255" "ec_symbol_size config \<le> 60000" "length ds \<le> 65535"
    and dc: "dc_field dconfig = ec_field config" "dc_symbol_size dconfig = ec_symbol_size config" "0 < dc_max_matrix_rows dconfig"
  obtains st rx where "proxy_loop step st0 (snd net) = Ok (st, rx, [])" "\<forall>raw \<in> set rx. length raw \<le> 65536"
    "arrivals rnd disp' P (Decoder_new dconfig policy) rx = Some (map (\<lambda>k. (of_nat k, ds ! k)) [0..<length ds])"
proof -
  note rt = link_traces(1) [OF inv]
  have wire: "snd net = map raw_of (all_outputs rounds)" using inv by (simp add: link_inv_def)
  note pairs = link_pairs [OF inv cfg(1,2,4,3)]
  from lossy_proxy.proxy_rounds [OF proxy pairs] obtain st arrived where
    l: "proxy_loop step st0 (snd net) = Ok (st, all_arrived arrived, [])" "list_all2 heard arrived rounds" unfolding wire by blast
  have "\<forall>raw \<in> set (map raw_of (all_outputs rounds)). length raw \<le> 65536" using pairs by (fastforce simp: pair_ok_def)
  then have len: "\<forall>raw \<in> set (all_arrived arrived). length raw \<le> 65536" using list_emb_set [OF heard_subseq [OF l(2)]] by metis
  obtain ps d evs where "list_all2 carries (all_arrived arrived) ps" "decoder_run rnd disp' P (Decoder_new dconfig policy) ps = Ok (d, evs)"
    "deliveries evs = map (\<lambda>k. (of_nat k, ds ! k)) [0..<length ds]"
    by (rule one_packet_decoder [OF no_cc.congestion_control_axioms TrueI cfg(1,2) dc rt cfg(4) l(2)])
  with arrivals_run that [OF l(1) len] show ?thesis by metis
qed

section \<open>udp\_fec\<close>

lemma recv_expected_ok:
  assumes "arrivals rnd disp ConstantFeedbackPolicy (rx_decoder r) raws = Some new" "\<forall>raw \<in> set raws. length raw \<le> 65536"
    and "map (\<lambda>x. unat (fst x)) (ready r @ new) = ids"
  shows "recv_expected (inbox_socket tx src) rnd disp r raws ids = Ok ()"
  using assms
proof (induction ids arbitrary: r raws new)
  case (Cons k ids)
  then obtain x out where out: "ready r @ new = x # out" "unat (fst x) = k" "map (\<lambda>x. unat (fst x)) out = ids"
    by (cases "ready r @ new") auto
  from recv_source_next [OF Cons.prems(1,2), of tx src] obtain r1 raws1 new1 where c:
    "recv_source (inbox_socket tx src) rnd disp ConstantFeedbackPolicy r raws = Some (r1, raws1, TOk x)"
    "arrivals rnd disp ConstantFeedbackPolicy (rx_decoder r1) raws1 = Some new1" "ready r1 @ new1 = out" "set raws1 \<subseteq> set raws"
    unfolding out(1) by auto
  have "\<forall>raw \<in> set raws1. length raw \<le> 65536" using c(4) Cons.prems(2) by blast
  from Cons.IH [OF c(2) this] c(1,3) out(2,3) show ?case by (cases x) simp
qed simp

lemma length_numbered_symbol: "length (numbered_symbol i) = 1024"
  by (simp add: numbered_symbol_def Let_def)

abbreviation link_config :: "nat \<Rightarrow> EncoderConfig" where
  "link_config w \<equiv> \<lparr> ec_symbol_size = 1024, ec_window_capacity = w, ec_field = Gf2_8_field, ec_fec_numer = 1, ec_fec_denom = 1,
     ec_backpressure = Reject, ec_matrix_strategy = Vandermonde \<rparr>"

lemma link_inv_new: "link_inv disp config [] [] (FecSender_new rid (Encoder_new config () () full_rate) a) (fb, [])"
  using round_trace.start [OF encoder_trace.start] by (simp add: link_inv_def FecSender_new_def) (simp add: Encoder_new_def Let_def)

text \<open>C13: the first example does what it claims: for every seed of the proxy's generator, whatever becomes of the
  receiver's feedback and whatever datagrams the sender finds for feedback, as long as its socket does not fail,
  the receiver gets the twelve symbols in order: no timeout, no assertion, no \<open>unwrap\<close> fails.\<close>

theorem udp_fec_delivers:
  assumes "\<forall>e. Failed e \<notin> set fb"
  shows "udp_fec disp disp' rnd addr_to_rid clock proxy_addr sender_addr tx fb = Ok ()"
proof -
  let ?config = "link_config 16" and ?ds = "map numbered_symbol [0..<12]"
    and ?dconfig = "\<lparr> dc_symbol_size = 1024, dc_field = Gf2_8_field, dc_max_matrix_rows = 512, dc_feedback_every = 16 \<rparr>"
    and ?policy = "\<lparr> fp_period = 16, fp_counter = 0 \<rparr> :: ConstantFeedback"
  let ?s = "FecSender_new addr_to_rid (Encoder_new ?config () () full_rate) proxy_addr"
  have cfg: "encoder_config_ok ?config" "ec_window_capacity ?config \<le> 255" "ec_symbol_size ?config \<le> 60000"
    by (simp_all add: encoder_config_ok_def)
  have ds: "length [] + length ?ds \<le> ec_window_capacity ?config" "\<forall>d \<in> set ?ds. length d = ec_symbol_size ?config" "length ?ds \<le> 65535"
    by (simp_all add: length_numbered_symbol)
  obtain s1 net rounds where s1: "send_each disp ?s (fb, []) ?ds = Ok (s1, net)" "link_inv disp ?config rounds ?ds s1 net" "fst net = fb"
    using send_each_link [OF link_inv_new cfg(1,2) ds(1,2), of disp addr_to_rid proxy_addr fb] by auto
  obtain wire where net: "net = (fb, wire)" using s1(3) by (cases net) auto
  obtain s2 fb2 k where s2: "recv_feedback_loop link_socket addr_to_rid AnyAckPolicy NoCongestionControl ConstantFecRate s1 (fb, wire) 0 =
      Some (s2, (fb2, wire), TOk k)" "link_inv disp ?config rounds ?ds s2 (fb2, wire)"
    using drain_link [OF s1(2) [unfolded net], of addr_to_rid 0] assms by blast
  have sender: "udp_fec_sender disp addr_to_rid ?s fb = Ok wire"
    using s1(1) s2(1) by (simp add: udp_fec_sender_def recv_feedback_def net del: upt_rec_numeral upt.simps)
  have d: "dc_field ?dconfig = ec_field ?config" "dc_symbol_size ?dconfig = ec_symbol_size ?config" "0 < dc_max_matrix_rows ?dconfig" by simp_all
  obtain st rx where p: "proxy_loop (udp_fec_proxy clock) 0 wire = Ok (st, rx, [])" "\<forall>raw \<in> set rx. length raw \<le> 65536"
    "arrivals rnd disp' ConstantFeedbackPolicy (Decoder_new ?dconfig ?policy) rx = Some (map (\<lambda>k. (of_nat k, ?ds ! k)) [0..<length ?ds])"
    by (rule link_arrivals [OF udp_proxy.lossy_proxy_axioms s2(2) cfg ds(3) d]) (simp only: snd_conv, blast)
  let ?r = "FecReceiver_new (Decoder_new ?dconfig ?policy) sender_addr"
  have "map (\<lambda>x. unat (fst x)) (ready ?r @ map (\<lambda>k. (of_nat k :: u32, ?ds ! k)) [0..<length ?ds]) = [0..<12]"
    by (rule nth_equalityI) (simp_all add: FecReceiver_new_def unat_of_nat)
  from recv_expected_ok [OF _ p(2) this, of rnd disp' tx proxy_addr] p(3)
  have recv: "recv_expected (inbox_socket tx proxy_addr) rnd disp' ?r rx [0..<12] = Ok ()"
    by (simp add: FecReceiver_new_def del: upt_rec_numeral upt.simps)
  show ?thesis
    using sender p(1) recv
    by (simp add: udp_fec_def Encoder_with_defaults_def Decoder_with_defaults_def ConstantFecRate_new_def ConstantFeedbackPolicy_new_def
        EncoderConfigBuilder_new_def DecoderConfigBuilder_new_def del: upt_rec_numeral upt.simps)
qed

text \<open>The witness: no feedback is there.\<close>

theorem udp_fec_delivers_witness:
  "udp_fec Scalar Avx2 (\<lambda>x. x) (\<lambda>_. 1) (Some 5) (1 :: nat) 2 (\<lambda>_ _. Inr ()) [] = Ok ()"
  using udp_fec_delivers [of "[]"] by simp

section \<open>file\_transfer\<close>

lemma send_retrying_ok:
  assumes "link_inv disp config rounds ds s net" "encoder_config_ok config" "ec_window_capacity config \<le> 255" "length ds < 65535"
    and "length data = ec_symbol_size config"
  obtains sent s' net' rounds' where "send_retrying disp addr_to_rid patience s net data = Ok (sent, s', net')"
    "link_inv disp config rounds' (if sent then ds @ [data] else ds) s' net'"
  using assms(1)
proof (induction patience arbitrary: s net thesis)
  case 0
  show ?case by (rule "0.prems"(1) [of False s net rounds]) (simp_all add: "0.prems"(2))
next
  case (Suc patience)
  obtain fb wire where net: "net = (fb, wire)" by fastforce
  obtain s1 fb1 x where f: "recv_feedback link_socket addr_to_rid AnyAckPolicy NoCongestionControl ConstantFecRate s net = Some (s1, (fb1, wire), x)"
    "link_inv disp config rounds ds s1 (fb1, wire)" "x \<noteq> TPanic"
    using drain_link [OF Suc.prems(2) [unfolded net], of addr_to_rid 0] unfolding net recv_feedback_def by blast
  show ?case
  proof (rule send_link [OF f(2) assms(2-5)])
    fix s' net' a b
    assume step: "send_source link_socket disp NoCongestionControl ConstantFecRate s1 (fb1, wire) data = (s', net', TOk ())"
      "link_inv disp config (rounds @ [([SourceOut a, CodedOut b], [])]) (ds @ [data]) s' net'" "fst net' = fst (fb1, wire)"
    then have "send_retrying disp addr_to_rid (Suc patience) s net data = Ok (True, s', net')" using f(1,3) by (cases x) auto
    with step(2) Suc.prems(1) show ?thesis by simp
  next
    assume step: "send_source link_socket disp NoCongestionControl ConstantFecRate s1 (fb1, wire) data =
      (s1, (fb1, wire), TErr (Codec (WindowFull (ec_window_capacity config))))"
    have "send_retrying disp addr_to_rid (Suc patience) s net data = send_retrying disp addr_to_rid patience s1 (fb1, wire) data"
      using f(1,3) step by (cases x) auto
    with Suc.IH [OF _ f(2)] Suc.prems(1) show ?thesis by metis
  qed
qed

lemma send_chunks_ok:
  assumes "link_inv disp config rounds ds s net" "encoder_config_ok config" "ec_window_capacity config \<le> 255"
    and "length ds + length cs \<le> 65535" "\<forall>c \<in> set cs. length c = ec_symbol_size config"
  shows "\<exists>k s' net' rounds'. send_chunks disp addr_to_rid patience s net cs = Ok (k = length cs, s', net') \<and> k \<le> length cs \<and>
    link_inv disp config rounds' (ds @ take k cs) s' net'"
  using assms
proof (induction cs arbitrary: rounds ds s net)
  case Nil
  then show ?case by auto
next
  case (Cons c cs)
  have n: "length ds < 65535" "length c = ec_symbol_size config" using Cons.prems(4,5) by simp_all
  obtain sent s1 net1 rounds1 where 1: "send_retrying disp addr_to_rid patience s net c = Ok (sent, s1, net1)"
    "link_inv disp config rounds1 (if sent then ds @ [c] else ds) s1 net1"
    by (rule send_retrying_ok [OF Cons.prems(1-3) n])
  show ?case
  proof (cases sent)
    case True
    with 1 have "link_inv disp config rounds1 (ds @ [c]) s1 net1" by simp
    from Cons.IH [OF this Cons.prems(2,3)] Cons.prems(4,5) obtain k s' net' rounds' where
      "send_chunks disp addr_to_rid patience s1 net1 cs = Ok (k = length cs, s', net')" "k \<le> length cs"
      "link_inv disp config rounds' (ds @ [c] @ take k cs) s' net'" by auto
    with 1(1) True show ?thesis by (intro exI [of _ "Suc k"] exI [of _ s'] exI [of _ net'] exI [of _ rounds']) simp
  next
    case False
    with 1 show ?thesis by (intro exI [of _ 0] exI [of _ s1] exI [of _ net1] exI [of _ rounds1]) simp
  qed
qed

text \<open>The receiver writes each symbol to its place; when fewer symbols arrive than it waits for, it times out.\<close>

lemma recv_blob_ok:
  assumes "arrivals rnd disp ConstantFeedbackPolicy (rx_decoder r) raws = Some new" "\<forall>raw \<in> set raws. length raw \<le> 65536"
    and "ready r @ new = map (\<lambda>k. (of_nat k, ds ! k)) [j..<j + n]" "j + n \<le> 65535" "(j + n) * 1024 \<le> length buf"
    and "\<forall>k < j + n. length (ds ! k) = 1024"
  shows "recv_blob (inbox_socket tx src) rnd disp r raws buf (n + m) =
    (if m = 0 then Ok (take (j * 1024) buf @ concat (map ((!) ds) [j..<j + n]) @ drop ((j + n) * 1024) buf) else Panic)"
  using assms
proof (induction n arbitrary: r raws new j buf)
  case 0
  then have "recv_source (inbox_socket tx src) rnd disp ConstantFeedbackPolicy r raws = None"
    using recv_source_next [OF 0(1,2), of tx src] by simp
  then show ?case by (cases m) simp_all
next
  case (Suc n)
  have ids: "[j..<j + Suc n] = j # [Suc j..<Suc j + n]" using upt_conv_Cons [of j "j + Suc n"] by simp
  have out: "ready r @ new = (of_nat j, ds ! j) # map (\<lambda>k. (of_nat k, ds ! k)) [Suc j..<Suc j + n]"
    unfolding Suc.prems(3) ids by simp
  from recv_source_next [OF Suc.prems(1,2), of tx src] obtain r1 raws1 new1 where c:
    "recv_source (inbox_socket tx src) rnd disp ConstantFeedbackPolicy r raws = Some (r1, raws1, TOk (of_nat j, ds ! j))"
    "arrivals rnd disp ConstantFeedbackPolicy (rx_decoder r1) raws1 = Some new1"
    "ready r1 @ new1 = map (\<lambda>k. (of_nat k, ds ! k)) [Suc j..<Suc j + n]" "set raws1 \<subseteq> set raws"
    unfolding out by auto
  have u: "unat (of_nat j :: u32) = j" using Suc.prems(4) by (simp add: unat_of_nat)
  have l: "length (ds ! j) = 1024" "j * 1024 + 1024 \<le> length buf" using Suc.prems(5,6) by simp_all
  let ?buf = "take (j * 1024) buf @ ds ! j @ drop (j * 1024 + 1024) buf"
  have "\<forall>raw \<in> set raws1. length raw \<le> 65536" using c(4) Suc.prems(2) by blast
  from Suc.IH [OF c(2) this c(3), of ?buf] Suc.prems(4-6) l
  have "recv_blob (inbox_socket tx src) rnd disp r1 raws1 ?buf (n + m) = (if m = 0
      then Ok (take (Suc j * 1024) ?buf @ concat (map ((!) ds) [Suc j..<Suc j + n]) @ drop ((Suc j + n) * 1024) ?buf) else Panic)" by simp
  moreover have "take (Suc j * 1024) ?buf = take (j * 1024) buf @ ds ! j" using l by simp
  moreover have "drop ((Suc j + n) * 1024) ?buf = drop ((j + Suc n) * 1024) buf" using l by (simp add: algebra_simps)
  ultimately show ?case using c(1) l unfolding ids by (simp add: u Let_def)
qed

text \<open>The example with its configurations built.\<close>

abbreviation file_decoder :: "ConstantFeedback Decoder" where
  "file_decoder \<equiv> Decoder_new \<lparr> dc_symbol_size = 1024, dc_field = Gf2_8_field, dc_max_matrix_rows = 512, dc_feedback_every = 8 \<rparr>
     \<lparr> fp_period = 16, fp_counter = 0 \<rparr>"

abbreviation file_link_sender :: "('addr \<Rightarrow> ReceiverId) \<Rightarrow> 'addr \<Rightarrow> 'addr ExampleSender" where
  "file_link_sender rid a \<equiv> FecSender_new rid (Encoder_new (link_config 32) () () full_rate) a"

abbreviation file_chunks :: "bytes list" where
  "file_chunks \<equiv> map (chunk 1024 example_blob) [0..<128]"

lemma blob_length: "length example_blob = 128 * 1024"
  unfolding example_blob_def by (rule xorshift_length)

lemma file_chunks_size: "\<forall>d \<in> set file_chunks. length d = ec_symbol_size (link_config 32)"
  using blob_length by (auto simp: chunk_def)

lemma file_transfer_run:
  "file_transfer disp disp' rnd rid proxy_addr sender_addr tx patience fb =
     and_then (file_sender disp rid patience (file_link_sender rid proxy_addr) fb example_blob) (\<lambda>(ended, wire).
     and_then (proxy_loop file_proxy 0xC0FFEE wire) (\<lambda>(_, rx, _).
       Ok (ended, and_then (recv_blob (inbox_socket tx proxy_addr) rnd disp' (FecReceiver_new file_decoder sender_addr) rx
           (replicate (128 * 1024) 0) 128) (\<lambda>reconstructed. Ok (reconstructed = example_blob)))))"
  unfolding file_transfer_def
  by (simp add: Encoder_with_defaults_def Decoder_with_defaults_def ConstantFecRate_new_def ConstantFeedbackPolicy_new_def
      EncoderConfigBuilder_new_def DecoderConfigBuilder_new_def)

text \<open>The sender does not panic, and has sent the first \<open>k\<close> symbols when the receiver gives up.\<close>

lemma file_sender_ok:
  fixes fb :: "(bytes \<times> 'addr, 'io) io_result list"
  obtains k rounds s and net :: "('addr, 'io) link" where "k \<le> 128" "link_inv disp (link_config 32) rounds (take k file_chunks) s net"
    "file_sender disp rid patience (file_link_sender rid a) fb example_blob = Ok (k = 128, snd net)"
    "\<exists>s. send_chunks disp rid patience (file_link_sender rid a) (fb, []) file_chunks = Ok (k = 128, s)"
proof -
  have cfg: "encoder_config_ok (link_config 32)" "ec_window_capacity (link_config 32) \<le> 255" "length [] + length file_chunks \<le> 65535"
    by (simp_all add: encoder_config_ok_def)
  from send_chunks_ok [OF link_inv_new cfg file_chunks_size, of disp rid patience rid a fb] obtain k s1 fb1 wire rounds where
    s1: "send_chunks disp rid patience (file_link_sender rid a) (fb, []) file_chunks = Ok (k = 128, s1, (fb1, wire))" "k \<le> 128"
      "link_inv disp (link_config 32) rounds (take k file_chunks) s1 (fb1, wire)" by auto
  obtain s2 fb2 x where s2: "recv_feedback link_socket rid AnyAckPolicy NoCongestionControl ConstantFecRate s1 (fb1, wire) =
      Some (s2, (fb2, wire), x)" "x \<noteq> TPanic"
    using drain_link [OF s1(3), of rid 0] unfolding recv_feedback_def by blast
  have "map (\<lambda>i. take 1024 (drop (i * 1024) example_blob)) [0..<128] = file_chunks" by (simp add: chunk_def)
  note send = file_sender_def [of disp rid patience "file_link_sender rid a" fb example_blob, unfolded this]
  have "file_sender disp rid patience (file_link_sender rid a) fb example_blob = Ok (k = 128, snd (fb1, wire))"
    using s2 unfolding send s1(1) by (cases x) simp_all
  with s1 that show ?thesis by blast
qed

text \<open>The receiver reconstructs the blob from all symbols, and times out when it gets fewer.\<close>

lemma file_example_result:
  fixes fb :: "(bytes \<times> 'addr, 'io) io_result list"
  shows "\<exists>ended. file_transfer disp disp' rnd rid proxy_addr sender_addr tx patience fb = Ok (ended, if ended then Ok True else Panic) \<and>
    (\<exists>s. send_chunks disp rid patience (file_link_sender rid proxy_addr) (fb, []) file_chunks = Ok (ended, s))"
proof -
  obtain k rounds s and net :: "('addr, 'io) link" where s: "k \<le> 128" "link_inv disp (link_config 32) rounds (take k file_chunks) s net"
    "file_sender disp rid patience (file_link_sender rid proxy_addr) fb example_blob = Ok (k = 128, snd net)"
    "\<exists>s. send_chunks disp rid patience (file_link_sender rid proxy_addr) (fb, []) file_chunks = Ok (k = 128, s)"
    by (rule file_sender_ok)
  let ?dconfig = "\<lparr> dc_symbol_size = 1024, dc_field = Gf2_8_field, dc_max_matrix_rows = 512, dc_feedback_every = 8 \<rparr>"
    and ?r = "FecReceiver_new file_decoder sender_addr" and ?buf = "replicate (128 * 1024) 0 :: bytes" and ?ds = "take k file_chunks"
  have k: "length ?ds = k" using s(1) by simp
  have cfg: "encoder_config_ok (link_config 32)" "ec_window_capacity (link_config 32) \<le> 255" "ec_symbol_size (link_config 32) \<le> 60000"
    "length ?ds \<le> 65535" using s(1) by (simp_all add: encoder_config_ok_def)
  have d: "dc_field ?dconfig = ec_field (link_config 32)" "dc_symbol_size ?dconfig = ec_symbol_size (link_config 32)"
    "0 < dc_max_matrix_rows ?dconfig" by simp_all
  obtain st rx where p: "proxy_loop file_proxy 0xC0FFEE (snd net) = Ok (st, rx, [])" "\<forall>raw \<in> set rx. length raw \<le> 65536"
    "arrivals rnd disp' ConstantFeedbackPolicy file_decoder rx = Some (map (\<lambda>k. (of_nat k, ?ds ! k)) [0..<length ?ds])"
    by (rule link_arrivals [OF file_link.lossy_proxy_axioms s(2) cfg d])
  have out: "ready ?r @ map (\<lambda>k. (of_nat k, ?ds ! k)) [0..<length ?ds] = map (\<lambda>k. (of_nat k, ?ds ! k)) [0..<0 + k]"
    by (simp only: k FecReceiver_new_def) simp
  have size: "\<forall>j < 0 + k. length (?ds ! j) = 1024" using file_chunks_size s(1) by simp
  have "recv_blob (inbox_socket tx proxy_addr) rnd disp' ?r rx ?buf (k + (128 - k)) = (if 128 - k = 0
      then Ok (take (0 * 1024) ?buf @ concat (map ((!) ?ds) [0..<0 + k]) @ drop ((0 + k) * 1024) ?buf) else Panic)"
    by (rule recv_blob_ok [OF _ p(2) out _ _ size]) (use p(3) s(1) in \<open>simp_all add: FecReceiver_new_def\<close>)
  then have recv: "recv_blob (inbox_socket tx proxy_addr) rnd disp' ?r rx ?buf 128 =
      (if k = 128 then Ok (concat (map ((!) file_chunks) [0..<128])) else Panic)" using s(1) by auto
  have all: "map ((!) file_chunks) [0..<128] = file_chunks" by (rule nth_equalityI) simp_all
  have cat: "concat file_chunks = example_blob" by (rule concat_chunks) (use blob_length in simp)
  have "recv_blob (inbox_socket tx proxy_addr) rnd disp' ?r rx ?buf 128 = (if k = 128 then Ok example_blob else Panic)"
    by (simp only: recv all cat)
  then have "file_transfer disp disp' rnd rid proxy_addr sender_addr tx patience fb = Ok (k = 128, if k = 128 then Ok True else Panic)"
    unfolding file_transfer_run s(3) using p(1) by simp
  with s(4) show ?thesis by blast
qed

section \<open>Prompt feedback\<close>

text \<open>Acknowledgements from which the tracker's counter cannot wrap.\<close>

definition clean_acks :: "ReceiverAckState \<Rightarrow> bool" where
  "clean_acks s = (bt_ok (receivers s) \<and> (\<forall>rid en. bt_get (receivers s) rid = Some en \<longrightarrow> - 1 \<notin> entry_sack en))"

lemma advance_sack: "entry_sack (advance e) \<subseteq> entry_sack e"
proof (induction e rule: advance.induct)
  case (1 e)
  then show ?case by (cases "cumulative_ack e \<in> entry_sack e") (auto simp: advance.simps [of e])
qed

lemma clean_update:
  assumes "clean_acks s" "acked_ids pkt = []"
  shows "clean_acks (ack_update s rid pkt)" "\<forall>i < first_src_id pkt. ack_is_acked (ack_update s rid pkt) rid i"
    "rid \<in> set (receiver_ids (ack_update s rid pkt))"
proof -
  define en where "en = (case bt_get (receivers s) rid of Some e \<Rightarrow> e | None \<Rightarrow> ReceiverEntry_default)"
  have en: "- 1 \<notin> entry_sack en" using assms(1) by (auto simp: en_def clean_acks_def ReceiverEntry_default_def split: option.split)
  have up: "receivers (ack_update s rid pkt) = bt_insert (receivers s) rid (entry_update en pkt)"
    by (simp add: ack_update_def en_def Let_def)
  have "entry_sack (entry_update en pkt) \<subseteq> entry_sack en"
    unfolding entry_update_def Let_def using assms(2) by (intro subset_trans [OF advance_sack]) auto
  with en have "- 1 \<notin> entry_sack (entry_update en pkt)" by blast
  with assms(1) show "clean_acks (ack_update s rid pkt)" by (auto simp: clean_acks_def up bt_get_insert bt_ok_insert)
  have "bt_get (receivers (ack_update s rid pkt)) rid = Some (entry_update en pkt)"
    using assms(1) by (simp add: up clean_acks_def bt_get_insert)
  with entry_update_acked [OF en, of pkt] assms(2)
  show "\<forall>i < first_src_id pkt. ack_is_acked (ack_update s rid pkt) rid i" by (auto simp: ack_is_acked_entry)
  show "rid \<in> set (receiver_ids (ack_update s rid pkt))"
    using \<open>bt_get (receivers (ack_update s rid pkt)) rid = _\<close> bt_get_None_iff [of "receivers (ack_update s rid pkt)" rid]
    by (force simp: receiver_ids_def)
qed

lemma feedback_clears:
  assumes "clean_acks (ack_state e)" "acked_ids pkt = []" "\<forall>i \<in> set (id_slice (enc_window e)). i < first_src_id pkt"
  shows "win_symbols (enc_window (handle_feedback AnyAckPolicy C F e rid pkt)) = []"
proof -
  let ?s = "ack_update (ack_state e) rid pkt"
  have "list_ex (\<lambda>rid. ack_is_acked ?s rid i) (receiver_ids ?s)" if "i \<in> set (id_slice (enc_window e))" for i
    using clean_update(2,3) [OF assms(1,2), of rid] assms(3) that by (auto simp: list_ex_iff)
  then have "snd (symbols_to_remove AnyAckPolicy (enc_policy e) ?s (id_slice (enc_window e))) = id_slice (enc_window e)"
    by (simp add: AnyAckPolicy_def)
  then show ?thesis
    unfolding handle_feedback_window by (auto simp: remove_ids_def id_slice_def Let_def filter_empty_conv)
qed

text \<open>Before each symbol the sender finds a packet that acknowledges all symbols so far.\<close>

definition ack_below :: "nat \<Rightarrow> FeedbackPacket" where
  "ack_below n = \<lparr> fb_tsi = None, nb_missing_src = 0, nb_not_used_coded = 0, first_src_id = of_nat n, plr_raw = 0, sack = [] \<rparr>"

type_synonym ('addr, 'io) script = "(bytes \<times> 'addr, 'io) io_result list"

definition prompt_feedback :: "'addr \<Rightarrow> nat \<Rightarrow> nat \<Rightarrow> ('addr, 'io) script" where
  "prompt_feedback src m n = concat (map (\<lambda>k. [Done (FeedbackPacket_serialise (ack_below k), src), WouldBlock]) [m..<n])"

lemma prompt_feedback_Cons:
  "m < n \<Longrightarrow> prompt_feedback src m n = Done (FeedbackPacket_serialise (ack_below m), src) # WouldBlock # prompt_feedback src (Suc m) n"
  by (simp add: prompt_feedback_def upt_conv_Cons)

lemma recv_ack:
  "recv_feedback link_socket rid AnyAckPolicy NoCongestionControl ConstantFecRate s
      (Done (FeedbackPacket_serialise (ack_below k), src) # WouldBlock # fb, wire) =
    Some (s\<lparr> tx_encoder := handle_feedback AnyAckPolicy NoCongestionControl ConstantFecRate (tx_encoder s) (rid src) (ack_below k) \<rparr>,
      (fb, wire), TOk 1)"
proof -
  have "FeedbackPacket_parse (FeedbackPacket_serialise (ack_below k)) = Ok (ack_below k)"
    using feedback_parse_serialise [of "ack_below k" "[]"] by (simp add: ack_below_def)
  moreover have "length (FeedbackPacket_serialise (ack_below k)) \<le> 65536"
    by (simp add: FeedbackPacket_serialise_def ack_below_def Let_def pad32_def)
  ultimately show ?thesis
    unfolding recv_feedback_def
    by (subst recv_feedback_loop.simps, simp add: link_socket_def take_feedback_def) (subst recv_feedback_loop.simps, simp)
qed

lemma prompt_symbol:
  assumes inv: "link_inv disp config rounds ds s (prompt_feedback src (length ds) n :: ('addr, 'io) script, wire)" "clean_acks (ack_state (tx_encoder s))"
    and cfg: "encoder_config_ok config" "ec_window_capacity config \<le> 255" "length ds < n" "n \<le> 65535" "length data = ec_symbol_size config"
  obtains s' wire' rounds' where
    "send_retrying disp rid (Suc patience) s (prompt_feedback src (length ds) n :: ('addr, 'io) script, wire) data =
      Ok (True, s', (prompt_feedback src (Suc (length ds)) n, wire'))"
    "link_inv disp config rounds' (ds @ [data]) s' (prompt_feedback src (Suc (length ds)) n :: ('addr, 'io) script, wire')" "clean_acks (ack_state (tx_encoder s'))"
proof -
  let ?fb = "prompt_feedback src (Suc (length ds)) n :: ('addr, 'io) script" and ?pkt = "ack_below (length ds)"
  define s1 where "s1 = s\<lparr> tx_encoder := handle_feedback AnyAckPolicy NoCongestionControl ConstantFecRate (tx_encoder s) (rid src) ?pkt \<rparr>"
  have len: "length ds \<le> 65535" "length ds < 65535" using cfg(3,4) by simp_all
  note tr = link_traces(2) [OF inv(1)]
  note sending = trace_sending [OF no_cc.congestion_control_axioms TrueI cfg(1,2) tr len(1), of 0 0]
  have inv1: "link_inv disp config rounds ds s1 (?fb, wire)"
    unfolding s1_def by (rule link_inv_feedback [OF inv(1)]) simp
  have none: "acked_ids ?pkt = []" by (simp add: ack_below_def acked_ids_def)
  have ids: "\<forall>i \<in> set (id_slice (enc_window (tx_encoder s))). i < first_src_id ?pkt"
    using window_ids_below(1) [OF sending len(1)] len(1) by (auto simp: ids_below_def ack_below_def word_less_nat_alt unat_of_nat)
  have clean: "clean_acks (ack_state (tx_encoder s1))"
    using clean_update(1) [OF inv(2) none] by (simp add: s1_def handle_feedback_def Let_def split_beta)
  have "win_symbols (enc_window (tx_encoder s1)) = []" unfolding s1_def using feedback_clears [OF inv(2) none ids] by simp
  moreover note tr1 = link_traces(2) [OF inv1]
  from trace_sending [OF no_cc.congestion_control_axioms TrueI cfg(1,2) tr1 len(1), of 0 0]
  have "encoder_ok (tx_encoder s1)" by (simp add: sending_def)
  ultimately have room: "\<not> is_full (enc_window (tx_encoder s1))" by (simp add: is_full_def encoder_ok_def encoder_config_ok_def)
  show ?thesis
  proof (rule send_link [OF inv1 cfg(1,2) len(2) cfg(5)])
    fix s' net' a b
    assume step: "send_source link_socket disp NoCongestionControl ConstantFecRate s1 (?fb, wire) data = (s', net', TOk ())"
      "link_inv disp config (rounds @ [([SourceOut a, CodedOut b], [])]) (ds @ [data]) s' net'" "fst net' = fst (?fb, wire)"
    have "send_retrying disp rid (Suc patience) s (prompt_feedback src (length ds) n :: ('addr, 'io) script, wire) data = Ok (True, s', net')"
      by (simp add: prompt_feedback_Cons [OF cfg(3)] recv_ack step(1) s1_def [symmetric])
    moreover have "ack_state (tx_encoder s') = ack_state (tx_encoder s1)"
      using step(1) by (auto simp: send_source_def split_beta Let_def dest!: submit_acks split: res.splits tres.splits)
    moreover obtain wire' where "net' = (prompt_feedback src (Suc (length ds)) n, wire')" using step(3) by (cases net') auto
    ultimately show ?thesis using step(2) clean that [of s'] by simp
  qed (use room in simp)
qed

lemma prompt_chunks:
  assumes "link_inv disp config rounds ds s (prompt_feedback src (length ds) n :: ('addr, 'io) script, wire)" "clean_acks (ack_state (tx_encoder s))"
    and "encoder_config_ok config" "ec_window_capacity config \<le> 255" "length ds + length cs = n" "n \<le> 65535"
    and "\<forall>c \<in> set cs. length c = ec_symbol_size config"
  shows "\<exists>s'. send_chunks disp rid (Suc patience) s (prompt_feedback src (length ds) n :: ('addr, 'io) script, wire) cs = Ok (True, s')"
  using assms
proof (induction cs arbitrary: rounds ds s wire)
  case (Cons c cs)
  have n: "length ds < n" "length c = ec_symbol_size config" using Cons.prems(5,7) by auto
  obtain s' wire' rounds' where step:
    "send_retrying disp rid (Suc patience) s (prompt_feedback src (length ds) n :: ('addr, 'io) script, wire) c =
      Ok (True, s', (prompt_feedback src (length (ds @ [c])) n, wire'))"
    "link_inv disp config rounds' (ds @ [c]) s' (prompt_feedback src (length (ds @ [c])) n :: ('addr, 'io) script, wire')" "clean_acks (ack_state (tx_encoder s'))"
    using prompt_symbol [OF Cons.prems(1-4) n(1) Cons.prems(6) n(2)] by (metis length_append_singleton)
  from Cons.IH [OF step(2,3) Cons.prems(3,4) _ Cons.prems(6)] Cons.prems(5,7) step(1) show ?case by simp
qed simp

text \<open>C12: the file transfer example. Whatever the receiver's feedback becomes and whatever the sender finds for
  feedback, junk and socket errors included, neither the sender nor the proxy panics, and the receiver's outcome
  is decided by the sender alone: if the sender gets its 128 symbols into the window in time, the receiver
  reconstructs the blob byte for byte, although a quarter of the source packets is dropped; if the sender still waits for
  room when its patience is over, the receiver task panics with its timeout. The first happens when the sender finds
  an acknowledgement of the symbols sent so far before each symbol, for any patience of at least one round.\<close>

theorem file_example_exact:
  fixes fb :: "('addr, 'io) script"
  shows "(\<exists>ended. file_transfer disp disp' rnd rid proxy_addr sender_addr tx patience fb =
      Ok (ended, if ended then Ok True else Panic)) \<and>
    file_transfer disp disp' rnd rid proxy_addr sender_addr tx (Suc patience) (prompt_feedback src 0 128) = Ok (True, Ok True)"
proof -
  have cfg: "encoder_config_ok (link_config 32)" "ec_window_capacity (link_config 32) \<le> 255" "length [] + length file_chunks = 128"
    "128 \<le> (65535 :: nat)" by (simp_all add: encoder_config_ok_def)
  have "clean_acks (ack_state (tx_encoder (file_link_sender rid proxy_addr)))"
    by (simp add: clean_acks_def FecSender_new_def Encoder_new_def ReceiverAckState_default_def Let_def)
  from prompt_chunks [OF link_inv_new this cfg file_chunks_size, of disp rid patience src, unfolded list.size(3)]
  obtain s where "send_chunks disp rid (Suc patience) (file_link_sender rid proxy_addr)
      (prompt_feedback src 0 128 :: ('addr, 'io) script, []) file_chunks = Ok (True, s)" by blast
  moreover obtain ended where e: "file_transfer disp disp' rnd rid proxy_addr sender_addr tx (Suc patience) (prompt_feedback src 0 128) =
      Ok (ended, if ended then Ok True else Panic)"
    "\<exists>s. send_chunks disp rid (Suc patience) (file_link_sender rid proxy_addr)
      (prompt_feedback src 0 128 :: ('addr, 'io) script, []) file_chunks = Ok (ended, s)"
    using file_example_result [of disp disp' rnd rid proxy_addr sender_addr tx "Suc patience"
      "prompt_feedback src 0 128 :: ('addr, 'io) script"] by (elim exE conjE) (rule that, assumption, rule exI)
  ultimately have "ended" by (elim exE) simp
  with e(1) have "file_transfer disp disp' rnd rid proxy_addr sender_addr tx (Suc patience) (prompt_feedback src 0 128) = Ok (True, Ok True)"
    by simp
  moreover have "\<exists>ended. file_transfer disp disp' rnd rid proxy_addr sender_addr tx patience fb = Ok (ended, if ended then Ok True else Panic)"
    using file_example_result [of disp disp' rnd rid proxy_addr sender_addr tx patience fb] by (elim exE conjE) (rule exI)
  ultimately show ?thesis by (intro conjI)
qed

end
