(* ===== verification/Spec2Isabelle.thy ===== *)
theory Spec2Isabelle
  imports File_Repair File_Robust Cli_Tools_Correct Cli_Main Example_Links_Correct
begin

text \<open>
  A model of \<open>delp\<close>, a forward-error-correction library in Rust: a sliding-window random
  linear code over UDP, with the encoder and the decoder as state machines without input or output
  of their own, and a transport layer around them.

  \<^bold>\<open>The program.\<close> An application submits symbols of a fixed size. The sender
  (\<^verbatim>\<open>src/transport/sender.rs\<close>) hands them to the encoder (\<^verbatim>\<open>src/codec/encoder/\<close>), which gives each
  the next identifier, keeps it in the encoding window, emits it in a source packet and, when the rate
  controller asks for it, emits coded packets: an encoding vector over the window and the linear
  combination of the payloads it announces. Feedback packets go back from the receiver; a window policy
  decides on them which symbols leave the window, the congestion control and the rate controller see
  them too. The receiver (\<^verbatim>\<open>src/transport/receiver.rs\<close>) parses datagrams and hands packets to the
  decoder (\<^verbatim>\<open>src/codec/decoder/\<close>): a delivery buffer that yields symbols in order, and a matrix
  that eliminates incrementally. The arithmetic is that of GF(2^8) or GF(2^4), with vector kernels for
  whole payloads (\<^verbatim>\<open>src/gf/\<close>); the formats are in \<^verbatim>\<open>src/wire/\<close>. On top of the library
  stands a command line tool (\<^verbatim>\<open>delp-cli/src/\<close>): \<^verbatim>\<open>send\<close> cuts a file into symbols and sends a START
  frame, the outputs of an encoder, a final batch of coded packets and an END frame; \<^verbatim>\<open>recv\<close> runs a
  decoder over what arrives, puts the file together and checks its digest; \<^verbatim>\<open>bench\<close> and \<^verbatim>\<open>demo\<close> run an
  encoder against a decoder in one process. Two examples (\<^verbatim>\<open>examples/\<close>) join a sender and a
  receiver through a proxy that drops source packets at random.

  \<^bold>\<open>Conventions.\<close> Definitions carry the names of the Rust items they translate; a method of a type
  whose name is not unique has the type's name before it. A struct is a \<open>record\<close>, an enumeration a
  \<open>datatype\<close>, \<open>u8\<close> to \<open>u32\<close> are words of that width with the wrap-around of a release build,
  \<open>usize\<close> is \<open>nat\<close>, a slice or \<open>Vec\<close> a list. \<open>&mut self\<close> is the state passed in and returned.
  The outcome of a call that can fail is \<open>Ok\<close>, \<open>Err\<close> with the error of \<^verbatim>\<open>src/error.rs\<close>, or
  \<open>Panic\<close>: a failed \<open>assert!\<close>, a slice or an index out of range, an \<open>unwrap\<close> of nothing. A
  \<open>debug_assert!\<close> does nothing.

  \<^bold>\<open>Theories\<close>, bottom up:
  \<^item> \<open>Delp_Prelude\<close>, \<open>Delp_Error\<close>: types, collections of rewrite rules, slices, words and bytes,
    sums by exclusive or, the outcome type.
  \<^item> \<open>Config\<close> (\<^verbatim>\<open>config.rs\<close>): both configurations and the checks of their builders.
  \<^item> \<open>Gf_Tables\<close>, \<open>Gf_Field\<close>, \<open>Gf_Reference\<close> (\<^verbatim>\<open>gf/tables.rs\<close>, \<^verbatim>\<open>gf/gf2_8.rs\<close>,
    \<^verbatim>\<open>gf/gf2_4.rs\<close>, \<^verbatim>\<open>gf/mod.rs\<close>): the loops that fill the tables, the element types, the field
    laws, and the agreement with carry-less multiplication modulo the field polynomial. The locale
    \<open>gf_cyclic\<close> has the laws of a field whose units are the powers of one step function.
  \<^item> \<open>Gf_Simd\<close>, \<open>Gf_Ops\<close> (\<^verbatim>\<open>gf/simd.rs\<close>): the kernels of every instruction set, lane by lane.
    The locale \<open>block_kernel\<close> shows once that a kernel working in blocks with a scalar tail computes
    the element-wise product; \<open>byte_scaling\<close> has the laws that the codec uses.
  \<^item> \<open>Gf_Mds\<close>, \<open>Coef_Gen\<close> (\<^verbatim>\<open>wire/ev/coef_gen.rs\<close>): Vandermonde and Cauchy coefficients and
    the systems they determine.
  \<^item> \<open>Btree_Map\<close>: ordered maps, as the locale \<open>ordered_map\<close> and its list implementation.
  \<^item> \<open>Bit_Io\<close>, \<open>Id_Storage\<close>, \<open>Encoding_Vector\<close> (\<^verbatim>\<open>wire/ev/id_storage.rs\<close>,
    \<^verbatim>\<open>wire/ev/mod.rs\<close>), \<open>Wire_Packet\<close> (\<^verbatim>\<open>wire/common.rs\<close>, \<^verbatim>\<open>source.rs\<close>, \<^verbatim>\<open>coded.rs\<close>),
    \<open>Wire_Feedback\<close> (\<^verbatim>\<open>feedback.rs\<close>, \<^verbatim>\<open>wire/mod.rs\<close>): formats, with their round trips and
    what the parsers do on any input.
  \<^item> \<open>Policy\<close> (\<^verbatim>\<open>policy/\<close>): the traits as records of methods, their contracts as the locales
    \<open>window_policy\<close>, \<open>congestion_control\<close> and \<open>feedback_policy\<close>, every default as an
    interpretation.
  \<^item> \<open>Enc_Window\<close>, \<open>Encoder\<close>, \<open>Encoder_Correct\<close> (\<^verbatim>\<open>codec/encoder/\<close>): the window as a
    refinement of a finite map, the operations of the encoder, its invariant, and the truth of what
    it emits.
  \<^item> \<open>Dec_Buffer\<close>, \<open>Dense_Coefs\<close>, \<open>Dec_Matrix\<close>, \<open>Decoder\<close> (\<^verbatim>\<open>codec/decoder/\<close>): the
    operations of the decoder. \<open>Matrix_Correct\<close> relates the stored rows to the set of their
    solutions: the rows stay in reduced echelon form, \<open>add_coded\<close> and \<open>add_known_source\<close> keep the
    solutions and report what all of them share. \<open>Matrix_Columns\<close> shows that nothing more could be
    reported. \<open>Decoder_Correct\<close> has the invariant of the decoder, \<open>Decoder_Run\<close> the properties of
    its handlers and of whole packet sequences.
  \<^item> \<open>Transport\<close> (\<^verbatim>\<open>transport/\<close>): sender, sink, receiver and session over a socket that is a
    parameter.
  \<^item> \<open>End_To_End\<close>: the composition. Any interleaving of submissions, feedback and extra coded
    packets of every kind (the whole window, the most recent symbols, what one receiver lacks, a given
    list) is a step relation; whatever part of its datagrams arrives, the receiver delivers only
    submitted payloads, in order. \<open>Window_Feedback\<close>: what feedback leaves in the window under each policy.
  \<^item> \<open>Lossless\<close>: when everything arrives, everything is delivered. \<open>Recovery\<close>, \<open>Loss_Repair\<close>: one
    coded packet for each lost source packet restores a block, by the systems of \<open>Coef_Gen\<close> and
    the completeness of the decoder. \<open>Coded_Ids\<close>: the coded identifier and the generation count the
    coded packets of a run. \<open>Per_Symbol\<close>: when coded packets follow each symbol at once, one arriving
    packet of each submission is enough, whichever it is.
  \<^item> \<open>Recv_Stream\<close>: the calls of \<open>recv_source\<close> return what becomes ready, one by one.
  \<^item> \<open>Robustness\<close>: the decoder and the receiver on arbitrary input, by an invariant that speaks of sizes
    and ranges only (\<open>decoder_typed\<close>). \<open>File_Robust\<close>: the same for the receiving command.
  \<^item> \<open>File_Send\<close>, \<open>File_Recv\<close> (\<^verbatim>\<open>delp-cli/src/send.rs\<close>, \<^verbatim>\<open>recv.rs\<close>, some types of
    \<^verbatim>\<open>main.rs\<close>): the file transfer. \<open>File_Send_Correct\<close> shows that the sender's calls are a run of
    the encoder between two frames, \<open>File_Recv_Correct\<close> what the receiver's loop collects.
    \<open>File_Transfer\<close> puts them together: never a wrong file, and the file when nothing is lost;
    \<open>File_Repair\<close>: the file when source packets are lost and as many packets of the batch arrive.
  \<^item> \<open>Cli_Tools\<close>, \<open>Cli_Tools_Correct\<close> (\<^verbatim>\<open>bench.rs\<close>, \<^verbatim>\<open>demo.rs\<close>): the other commands and what
    they report. \<open>Cli_Main\<close> (\<^verbatim>\<open>main.rs\<close>): the dispatch on the subcommand and the FEC ratio.
  \<^item> \<open>Example_Links\<close>, \<open>Example_Links_Correct\<close> (\<^verbatim>\<open>examples/udp_fec.rs\<close>, \<^verbatim>\<open>examples/file_transfer.rs\<close>):
    the examples deliver everything that is sent, since their proxies satisfy the locale \<open>lossy_proxy\<close>: a
    coded packet is never dropped.

  \<^bold>\<open>Parameters\<close> stand for what is outside the repository or depends on the machine: \<open>disp\<close>, the
  instruction set that \<open>dispatch\<close> finds (any of the four); \<open>rnd\<close>, the rounding of \<open>f64\<close>
  operations, which are rationals otherwise; the record \<open>UdpSocket\<close> of the calls made on a socket,
  with the state of the network; the hash of an address; the result of binding a socket; for the
  command line tool the digest function, the clock, reading a file and saving one (with what a failed write leaves), and for the receiver the
  sequence of results of its timed receive calls, each with whether more than 150 ms have passed.

  \<^bold>\<open>Termination.\<close> Loops over data are recursive functions whose termination
  is proved. Two loops run as long as datagrams arrive and are partial functions: draining feedback, of which
  \<open>recv_feedback_drains\<close> states when it returns, and \<open>recv_source\<close>, of which \<open>recv_source_streams\<close> states when
  it returns and when it waits. The loop of the file transfer example that waits for room in the window may not
  end; it is observed for a number of rounds (\<open>patience\<close>), those it makes before the receiver's timeout strikes,
  and \<open>file_example_exact\<close> says what happens in either case and when one round is enough.

  \<^bold>\<open>Bounds.\<close> The wire format holds the number of identifiers in one byte and their span in 16 bits:
  the properties of whole runs assume a window of at most 255 symbols and at most 65535 symbols sent;
  those of a single packet state the condition on its identifiers. The decoder properties assume that no
  source packet arrives after a coded packet that covers it while the symbol is unknown:
  \<open>stale_pivot_corrupts\<close> shows that a false payload can be reported otherwise. The encoder sends in
  such an order, and losses preserve it; a network that reorders does not. The exact solution set and the
  completeness of the decoder hold as long as the matrix is below its row limit, where the code drops
  equations by design. Repair assumes that the coded packets of the block and the batch do not exhaust
  the coded identifiers of the strategy (\<open>batch_limit\<close>: 255 or 128, and 15 or 7 over GF(2^4)), since
  they repeat after that. The file transfer properties assume symbols of at most 60000 bytes, so that a packet
  fits the receive buffer of 65536 bytes, and a file of at most 65535 symbols.
  The properties on arbitrary input set apart the datagrams on which the code does panic: coded packets that end
  within their CCI or TSI or have a vector too short for its own fixed part (\<open>coded_overrun\<close>; \<open>coded_parse_panics\<close>
  shows that the parser panics on these and on no others), and those that name the identifier \<open>2 ^ 32 - 1\<close>,
  where the end of a dense row wraps around; for the receiving command also a START frame of \<open>2 ^ 63\<close> bytes or
  more, for which the allocation panics. Memory is unbounded in the model.

  \<^bold>\<open>Not modelled.\<close> Log events, wakers and the accessors that project a field; the texts of
  \<open>Display\<close>; \<open>split\<close> of a session; \<open>f64\<close> values other than finite ones. In the command
  line tool: parsing the arguments (the \<^verbatim>\<open>clap\<close> library), the \<^verbatim>\<open>tracing\<close> set-up, printing,
  pauses and measured times. In the examples: printing, pauses and binding the sockets; the loopback links
  are lossless queues, and the feedback the sender finds is arbitrary. Tests and benchmarks use the library
  and are not part of it.
\<close>

section \<open>Galois fields\<close>

text \<open>C25: whatever instruction set \<open>dispatch()\<close> selects, the GF(2^8) multiply-accumulate entry point
  panics exactly when the two buffers differ in length and otherwise returns what the naive
  element-wise reference returns.\<close>

theorem mul_acc_gf2_8_correct:
  "mul_acc_gf2_8 disp dst src coef =
     (if length dst = length src then Ok (mul_acc_gf2_8_reference dst src coef) else Panic)"
  by (simp add: mul_acc_gf2_8_eq mul_acc_gf2_8_reference_eq)

text \<open>The packed GF(2^4) multiply-accumulate entry point agrees with its reference on every
  instruction set, for every coefficient byte.\<close>

lemma mul_acc_gf2_4_correct:
  "mul_acc_gf2_4 disp dst src coef =
     (if length dst = length src then Ok (mul_acc_gf2_4_reference dst src coef) else Panic)"
  by (simp add: mul_acc_gf2_4_eq mul_acc_gf2_4_reference_eq)

end
